(* ===== verification/Prelude.thy ===== *)
theory Prelude
  imports Complex_Main "HOL-Library.Word" "HOL-Library.Sublist"
    "HOL-Library.List_Lexorder" "HOL-Library.Char_ord" "HOL-Library.Product_Lexorder"
begin

text \<open>
  The shared vocabulary of the development.

  A Rust \<^verbatim>\<open>str\<close> is a sequence of bytes that is valid UTF-8, and Isabelle's \<open>char\<close> is a
  byte, so text is \<open>string\<close> and \<open>utf8_valid\<close> is the invariant of the type.  Raw
  buffers (\<^verbatim>\<open>Vec<u8>\<close>, \<^verbatim>\<open>&[u8]\<close>) are \<open>bytes\<close>.  A \<^verbatim>\<open>Result<T, E>\<close> is the sum
  \<open>'e + 't\<close> with the error on the left.  A \<^verbatim>\<open>BTreeMap\<close> is an association list kept
  in key order (\<open>bt_insert\<close>, \<open>bt_get\<close>, \<open>bt_remove\<close>); the locale \<open>ordered_map\<close>
  states what its clients rely on.
  The theory also holds the parts of the Rust standard library the sources call on text:
  UTF-8 validation and lossy decoding, decimal printing and parsing, splitting.
\<close>

named_theorems wire_simps \<open>unfolding rules of the byte formats\<close>
named_theorems frame_simps \<open>what an operation leaves unchanged\<close>

type_synonym bytes = "8 word list"
type_synonym 'a res = "string + 'a"

abbreviation u32_max :: nat where "u32_max \<equiv> 4294967295"
abbreviation u64_max :: nat where "u64_max \<equiv> 18446744073709551615"

section \<open>Lists and options\<close>

lemma find_SomeD: "List.find P xs = Some x \<Longrightarrow> x \<in> set xs \<and> P x"
  by (induction xs) (auto split: if_splits)

lemma foldl_invariant:
  assumes "P s" and "\<And>s x. x \<in> set xs \<Longrightarrow> P s \<Longrightarrow> P (f s x)"
  shows "P (foldl f s xs)"
  using assms by (induction xs arbitrary: s) auto

lemma prefix_takeWhile_len: "prefix (take n xs) xs"
  by (rule take_is_prefix)

text \<open>A loop over indices that may run out of fuel in one of its rounds.\<close>

fun foldl_opt :: "('s \<Rightarrow> 'a \<Rightarrow> 's option) \<Rightarrow> 's \<Rightarrow> 'a list \<Rightarrow> 's option" where
  "foldl_opt f s [] = Some s"
| "foldl_opt f s (x # xs) = (case f s x of None \<Rightarrow> None | Some s' \<Rightarrow> foldl_opt f s' xs)"

lemma foldl_opt_invariant:
  assumes "foldl_opt f s xs = Some t" and "P s"
    and "\<And>s x t. x \<in> set xs \<Longrightarrow> P s \<Longrightarrow> f s x = Some t \<Longrightarrow> P t"
  shows "P t"
  using assms
proof (induction xs arbitrary: s)
  case (Cons x xs)
  from Cons.prems(1) obtain u where u: "f s x = Some u" "foldl_opt f u xs = Some t"
    by (auto split: option.splits)
  have "P u" by (rule Cons.prems(3) [OF _ Cons.prems(2) u(1)]) simp
  moreover have "\<And>s y t. y \<in> set xs \<Longrightarrow> P s \<Longrightarrow> f s y = Some t \<Longrightarrow> P t"
    by (rule Cons.prems(3)) auto
  ultimately show ?case using Cons.IH [OF u(2)] by blast
qed simp

section \<open>Ordered maps: \<^verbatim>\<open>BTreeMap\<close>\<close>

fun bt_insert :: "'k::linorder \<Rightarrow> 'v \<Rightarrow> ('k \<times> 'v) list \<Rightarrow> ('k \<times> 'v) list" where
  "bt_insert k v [] = [(k, v)]"
| "bt_insert k v ((k', v') # m) =
     (if k < k' then (k, v) # (k', v') # m
      else if k = k' then (k, v) # m
      else (k', v') # bt_insert k v m)"

definition bt_get :: "('k \<times> 'v) list \<Rightarrow> 'k \<Rightarrow> 'v option" where
  "bt_get m k = map_of m k"

definition bt_remove :: "'k \<Rightarrow> ('k \<times> 'v) list \<Rightarrow> ('k \<times> 'v) list" where
  "bt_remove k m = filter (\<lambda>e. fst e \<noteq> k) m"

definition bt_ok :: "('k::linorder \<times> 'v) list \<Rightarrow> bool" where
  "bt_ok m \<longleftrightarrow> sorted_wrt (<) (map fst m)"

lemma bt_ok_simps [simp]:
  "bt_ok []"
  "bt_ok (e # m) \<longleftrightarrow> (\<forall>x\<in>set m. fst e < fst x) \<and> bt_ok m"
  by (auto simp: bt_ok_def)

lemma bt_ok_distinct: "bt_ok m \<Longrightarrow> distinct (map fst m)"
  by (auto simp: bt_ok_def strict_sorted_iff)

lemma set_bt_insert:
  "bt_ok m \<Longrightarrow> set (bt_insert k v m) = insert (k, v) {e \<in> set m. fst e \<noteq> k}"
proof (induction m)
  case (Cons e m)
  obtain k' v' where e: "e = (k', v')" by (cases e)
  consider "k < k'" | "k = k'" | "k' < k" using less_linear by blast
  then show ?case
  proof cases
    case 1
    then show ?thesis using Cons.prems e by fastforce
  next
    case 2
    then show ?thesis using Cons.prems e by fastforce
  next
    case 3
    then show ?thesis using Cons e by auto
  qed
qed simp

lemma bt_ok_insert: "bt_ok m \<Longrightarrow> bt_ok (bt_insert k v m)"
proof (induction m)
  case (Cons e m)
  obtain k' v' where e: "e = (k', v')" by (cases e)
  consider "k < k'" | "k = k'" | "k' < k" using less_linear by blast
  then show ?case
    using Cons e by cases (auto simp: set_bt_insert)
qed simp

lemma bt_ok_remove: "bt_ok m \<Longrightarrow> bt_ok (bt_remove k m)"
  by (induction m) (auto simp: bt_remove_def)

lemma bt_ok_filter: "bt_ok m \<Longrightarrow> bt_ok (filter P m)"
  by (induction m) auto

lemma bt_get_insert: "bt_ok m \<Longrightarrow> bt_get (bt_insert k v m) = (bt_get m)(k \<mapsto> v)"
  unfolding bt_get_def by (induction m) (auto simp: fun_eq_iff)

lemma bt_get_remove: "bt_get (bt_remove k m) = (bt_get m)(k := None)"
  unfolding bt_get_def bt_remove_def by (induction m) (auto simp: fun_eq_iff)

lemma bt_get_in: "bt_ok m \<Longrightarrow> bt_get m k = Some v \<longleftrightarrow> (k, v) \<in> set m"
  using bt_ok_distinct [of m] by (simp add: bt_get_def)

text \<open>The contract of a map ordered by its keys, and what its clients derive from it.\<close>

locale ordered_map =
  fixes ins :: "'k::linorder \<Rightarrow> 'v \<Rightarrow> 'm \<Rightarrow> 'm"
    and get :: "'m \<Rightarrow> 'k \<Rightarrow> 'v option"
    and del :: "'k \<Rightarrow> 'm \<Rightarrow> 'm"
    and ok :: "'m \<Rightarrow> bool"
    and entries :: "'m \<Rightarrow> ('k \<times> 'v) list"
  assumes ok_ins: "ok m \<Longrightarrow> ok (ins k v m)"
    and ok_del: "ok m \<Longrightarrow> ok (del k m)"
    and get_ins: "ok m \<Longrightarrow> get (ins k v m) = (get m)(k \<mapsto> v)"
    and get_del: "ok m \<Longrightarrow> get (del k m) = (get m)(k := None)"
    and entries_get: "ok m \<Longrightarrow> (k, v) \<in> set (entries m) \<longleftrightarrow> get m k = Some v"
    and entries_sorted: "ok m \<Longrightarrow> sorted_wrt (<) (map fst (entries m))"
begin

lemma get_ins_same: "ok m \<Longrightarrow> get (ins k v m) k = Some v"
  by (simp add: get_ins)

lemma get_ins_other: "ok m \<Longrightarrow> k' \<noteq> k \<Longrightarrow> get (ins k v m) k' = get m k'"
  by (simp add: get_ins)

lemma ok_del_all: "ok m \<Longrightarrow> ok (foldl (\<lambda>m k. del k m) m ks)"
  by (rule foldl_invariant) (auto simp: ok_del)

lemma get_del_all:
  "ok m \<Longrightarrow> get (foldl (\<lambda>m k. del k m) m ks) k = (if k \<in> set ks then None else get m k)"
  by (induction ks arbitrary: m) (auto simp: ok_del get_del)

lemma get_move:
  assumes "ok m" and "k \<noteq> k'"
  shows "get (ins k' v (del k m)) = (get m)(k := None, k' \<mapsto> v)"
  using assms by (simp add: get_ins get_del ok_del)

lemma entries_distinct: "ok m \<Longrightarrow> distinct (map fst (entries m))"
  using entries_sorted [of m] by (auto simp: strict_sorted_iff)

end

interpretation bt: ordered_map bt_insert bt_get bt_remove bt_ok "\<lambda>m. m"
  by unfold_locales
    (simp_all add: bt_ok_insert bt_ok_remove bt_get_insert bt_get_remove bt_get_in,
     simp add: bt_ok_def)

end
