(* ===== verification/Handles.thy ===== *)
theory Handles
  imports Prelude
begin

text \<open>
  The table of host-held resources with an owner,
  \<^verbatim>\<open>crates/drt-connector/src/handles.rs\<close>: \<open>Handles<R>\<close> is the record \<open>handles\<close>, its
  \<^verbatim>\<open>BTreeMap<(Caller, HandleId), R>\<close> an ordered association list.  The closures the
  methods take are functions of the model; \<open>with_handle\<close>, \<open>take_where\<close> and \<open>each\<close>
  thread the resource through them, as the \<^verbatim>\<open>&mut R\<close> does.  The handle counter is the
  number of inserts; the \<^verbatim>\<open>u64\<close> it is kept in is that number modulo \<open>2 ^ 64\<close>.
  The lemmas show that a handle is visible to its owner alone, that a number is never
  handed out twice, and that release takes exactly one owner's entries.
\<close>

datatype caller = CRoot | CNode nat

instantiation caller :: linorder
begin

fun less_eq_caller :: "caller \<Rightarrow> caller \<Rightarrow> bool" where
  "less_eq_caller CRoot c = True"
| "less_eq_caller (CNode a) CRoot = False"
| "less_eq_caller (CNode a) (CNode b) = (a \<le> b)"

definition less_caller :: "caller \<Rightarrow> caller \<Rightarrow> bool" where
  "less_caller c d \<longleftrightarrow> c \<le> d \<and> \<not> d \<le> c"

instance
proof
  fix x y z :: caller
  show "(x < y) = (x \<le> y \<and> \<not> y \<le> x)" by (simp add: less_caller_def)
  show "x \<le> x" by (cases x) auto
  show "x \<le> y \<Longrightarrow> y \<le> z \<Longrightarrow> x \<le> z" by (cases x; cases y; cases z) auto
  show "x \<le> y \<Longrightarrow> y \<le> x \<Longrightarrow> x = y" by (cases x; cases y) auto
  show "x \<le> y \<or> y \<le> x" by (cases x; cases y) auto
qed

end

definition show_caller :: "(nat \<Rightarrow> string) \<Rightarrow> caller \<Rightarrow> string" where
  "show_caller num c = (case c of CRoot \<Rightarrow> ''the root'' | CNode i \<Rightarrow> ''instance '' @ num i)"

datatype no_such_handle = NoSuchHandle

type_synonym handle_id = nat

record 'r handles =
  kind :: string
  next_handle :: nat
  table :: "((caller \<times> handle_id) \<times> 'r) list"

definition new_handles :: "string \<Rightarrow> 'r handles" where
  "new_handles k = \<lparr>kind = k, next_handle = 1, table = []\<rparr>"

definition u64_wrap :: "nat \<Rightarrow> nat" where
  "u64_wrap n = n mod 2 ^ 64"

definition insert_handle :: "'r handles \<Rightarrow> caller \<Rightarrow> 'r \<Rightarrow> 'r handles \<times> handle_id" where
  "insert_handle h c r =
     (let i = u64_wrap (next_handle h) in
      (h\<lparr>next_handle := next_handle h + 1, table := bt_insert (c, i) r (table h)\<rparr>, i))"

definition with_handle ::
  "'r handles \<Rightarrow> caller \<Rightarrow> handle_id \<Rightarrow> ('r \<Rightarrow> 'r \<times> 't) \<Rightarrow> 'r handles \<times> (no_such_handle + 't)" where
  "with_handle h c i f = (case bt_get (table h) (c, i) of
     None \<Rightarrow> (h, Inl NoSuchHandle)
   | Some r \<Rightarrow> (h\<lparr>table := bt_insert (c, i) (fst (f r)) (table h)\<rparr>, Inr (snd (f r))))"

definition remove_handle ::
  "'r handles \<Rightarrow> caller \<Rightarrow> handle_id \<Rightarrow> 'r handles \<times> (no_such_handle + 'r)" where
  "remove_handle h c i = (case bt_get (table h) (c, i) of
     None \<Rightarrow> (h, Inl NoSuchHandle)
   | Some r \<Rightarrow> (h\<lparr>table := bt_remove (c, i) (table h)\<rparr>, Inr r))"

definition rekey ::
  "'r handles \<Rightarrow> caller \<Rightarrow> caller \<Rightarrow> handle_id \<Rightarrow> 'r handles \<times> (no_such_handle + unit)" where
  "rekey h from_c to_c i = (case bt_get (table h) (from_c, i) of
     None \<Rightarrow> (h, Inl NoSuchHandle)
   | Some r \<Rightarrow>
       (h\<lparr>table := bt_insert (to_c, i) r (bt_remove (from_c, i) (table h))\<rparr>, Inr ()))"

text \<open>Removing a list of keys in turn, collecting what was there (\<^verbatim>\<open>filter_map\<close>).\<close>

fun remove_keys ::
  "('k \<times> 'r) list \<Rightarrow> 'k list \<Rightarrow> ('k \<times> 'r) list \<times> ('k \<times> 'r) list" where
  "remove_keys m [] = (m, [])"
| "remove_keys m (k # ks) = (case bt_get m k of
     None \<Rightarrow> remove_keys m ks
   | Some r \<Rightarrow> (let (m', out) = remove_keys (bt_remove k m) ks in (m', (k, r) # out)))"

definition release_handles :: "'r handles \<Rightarrow> caller \<Rightarrow> 'r handles \<times> (handle_id \<times> 'r) list" where
  "release_handles h c =
     (let ks = filter (\<lambda>k. fst k = c) (map fst (table h)); (m, out) = remove_keys (table h) ks
      in (h\<lparr>table := m\<rparr>, map (\<lambda>(k, r). (snd k, r)) out))"

definition drain_root :: "'r handles \<Rightarrow> 'r handles \<times> (handle_id \<times> 'r) list" where
  "drain_root h = release_handles h CRoot"

text \<open>A sweep over the table in key order, the resource mutable in each visit.\<close>

definition sweep ::
  "(caller \<Rightarrow> handle_id \<Rightarrow> 'r \<Rightarrow> 'r \<times> bool) \<Rightarrow> ((caller \<times> handle_id) \<times> 'r) list \<Rightarrow>
   ((caller \<times> handle_id) \<times> 'r) list \<times> (caller \<times> handle_id) list" where
  "sweep f m = (map (\<lambda>((c, i), r). ((c, i), fst (f c i r))) m,
     map fst (filter (\<lambda>((c, i), r). snd (f c i r)) m))"

definition take_where ::
  "'r handles \<Rightarrow> (caller \<Rightarrow> handle_id \<Rightarrow> 'r \<Rightarrow> 'r \<times> bool) \<Rightarrow>
   'r handles \<times> (caller \<times> handle_id \<times> 'r) list" where
  "take_where h finished =
     (let (m, ks) = sweep finished (table h); (m', out) = remove_keys m ks
      in (h\<lparr>table := m'\<rparr>, map (\<lambda>((c, i), r). (c, i, r)) out))"

definition each :: "'r handles \<Rightarrow> (caller \<Rightarrow> handle_id \<Rightarrow> 'r \<Rightarrow> 'r) \<Rightarrow> 'r handles" where
  "each h f = h\<lparr>table := map (\<lambda>((c, i), r). ((c, i), f c i r)) (table h)\<rparr>"

definition count_handles :: "'r handles \<Rightarrow> caller \<Rightarrow> nat" where
  "count_handles h c = length (filter (\<lambda>k. fst k = c) (map fst (table h)))"

section \<open>The invariant of a table\<close>

text \<open>
  Keys in order, every handle below the counter, and one owner per number; the last two
  as long as the counter has not gone once around its 64 bits.
\<close>

definition fresh_numbers :: "'r handles \<Rightarrow> bool" where
  "fresh_numbers h \<longleftrightarrow> 1 \<le> next_handle h \<and>
     (\<forall>((c, i), r)\<in>set (table h). i < next_handle h \<and> 0 < i) \<and>
     (\<forall>((c, i), r)\<in>set (table h). \<forall>((d, j), s)\<in>set (table h). i = j \<longrightarrow> c = d)"

definition handles_ok :: "'r handles \<Rightarrow> bool" where
  "handles_ok h \<longleftrightarrow> bt_ok (table h) \<and> (next_handle h \<le> 2 ^ 64 \<longrightarrow> fresh_numbers h)"

lemma handles_ok_new [simp]: "handles_ok (new_handles k)"
  by (simp add: handles_ok_def new_handles_def fresh_numbers_def)

lemma handles_ok_insert: "handles_ok h \<Longrightarrow> handles_ok (fst (insert_handle h c r))"
  by (fastforce simp: handles_ok_def fresh_numbers_def insert_handle_def Let_def bt_ok_insert
      set_bt_insert u64_wrap_def)

lemma fst_remove_keys: "fst (remove_keys m ks) = filter (\<lambda>e. fst e \<notin> set ks) m"
proof (induction ks arbitrary: m)
  case (Cons k ks)
  show ?case
  proof (cases "bt_get m k")
    case None
    then have "k \<notin> fst ` set m" by (simp add: bt_get_def map_of_eq_None_iff)
    then show ?thesis using None Cons by (auto intro!: filter_cong)
  next
    case (Some r)
    then show ?thesis using Cons [of "bt_remove k m"]
      by (auto simp: bt_remove_def Let_def split: prod.splits intro: filter_cong)
  qed
qed simp

lemma snd_remove_keys:
  "bt_ok m \<Longrightarrow> distinct ks \<Longrightarrow>
   snd (remove_keys m ks) = List.map_filter (\<lambda>k. map_option (Pair k) (bt_get m k)) ks"
proof (induction ks arbitrary: m)
  case (Cons k ks)
  show ?case
  proof (cases "bt_get m k")
    case None
    then show ?thesis using Cons by (simp add: map_filter_simps)
  next
    case (Some r)
    have "List.map_filter (\<lambda>k. map_option (Pair k) (bt_get (bt_remove k0 m) k)) ks =
          List.map_filter (\<lambda>k. map_option (Pair k) (bt_get m k)) ks" if "k0 \<notin> set ks" for k0
      using that by (auto simp: List.map_filter_def bt_get_remove intro!: map_cong filter_cong)
    then show ?thesis
      using Some Cons.prems Cons.IH [of "bt_remove k m"] bt_ok_remove [of m k]
      by (auto simp: map_filter_simps Let_def split: prod.splits)
  qed
qed (simp add: map_filter_simps)

lemma map_filter_keys:
  "distinct (map fst m) \<Longrightarrow>
   List.map_filter (\<lambda>k. map_option (Pair k) (bt_get m k)) (map fst (filter P m)) = filter P m"
proof -
  assume d: "distinct (map fst m)"
  have "List.map_filter (\<lambda>k. map_option (Pair k) (bt_get m k)) (map fst xs) = xs"
    if "set xs \<subseteq> set m" for xs
    using that
  proof (induction xs)
    case (Cons x xs)
    then have "bt_get m (fst x) = Some (snd x)"
      using d by (simp add: bt_get_def)
    then show ?case using Cons by (simp add: map_filter_simps)
  qed (simp add: map_filter_simps)
  then show ?thesis by simp
qed

lemma remove_keys_filter:
  assumes "bt_ok m"
  shows "remove_keys m (map fst (filter P m)) = (filter (\<lambda>e. \<not> P e) m, filter P m)"
proof -
  have d: "distinct (map fst m)" using assms by (rule bt_ok_distinct)
  then have f: "fst e \<in> fst ` set (filter P m) \<longleftrightarrow> P e" if "e \<in> set m" for e
    using that by (auto simp: distinct_map dest: inj_onD)
  have "fst (remove_keys m (map fst (filter P m))) = filter (\<lambda>e. \<not> P e) m"
    unfolding fst_remove_keys using f by (auto intro!: filter_cong)
  moreover have "distinct (map fst (filter P m))" using d by (rule distinct_map_filter)
  ultimately show ?thesis
    using snd_remove_keys [OF assms, of "map fst (filter P m)"] map_filter_keys [OF d]
    by (simp add: prod_eq_iff)
qed

lemma filter_keys: "filter (\<lambda>k. Q k) (map fst m) = map fst (filter (\<lambda>e. Q (fst e)) m)"
  by (simp add: filter_map comp_def)

lemma release_handles_eq:
  "bt_ok (table h) \<Longrightarrow> release_handles h c =
    (h\<lparr>table := filter (\<lambda>e. fst (fst e) \<noteq> c) (table h)\<rparr>,
     map (\<lambda>e. (snd (fst e), snd e)) (filter (\<lambda>e. fst (fst e) = c) (table h)))"
  unfolding release_handles_def filter_keys
  by (simp add: remove_keys_filter case_prod_beta)

lemma bt_ok_map: "(\<And>e. fst (f e) = fst e) \<Longrightarrow> bt_ok (map f m) = bt_ok m"
  by (simp add: bt_ok_def comp_def)

lemma take_where_eq:
  fixes h :: "'r handles" and f :: "caller \<Rightarrow> handle_id \<Rightarrow> 'r \<Rightarrow> 'r \<times> bool"
  defines "visited \<equiv> map (\<lambda>((c, i), r). ((c, i), f c i r)) (table h)"
  assumes "bt_ok (table h)"
  shows "take_where h f =
    (h\<lparr>table := map (\<lambda>(k, r, b). (k, r)) (filter (\<lambda>(k, r, b). \<not> b) visited)\<rparr>,
     map (\<lambda>((c, i), r, b). (c, i, r)) (filter (\<lambda>(k, r, b). b) visited))"
proof -
  let ?m = "map (\<lambda>(k, r, b). (k, r)) visited"
  have ok: "bt_ok ?m"
    using assms(2) unfolding visited_def bt_ok_def by (simp add: comp_def case_prod_beta)
  have dist: "distinct (map fst visited)"
    using bt_ok_distinct [OF ok] by (simp add: comp_def case_prod_beta)
  define P where "P e \<longleftrightarrow> (\<exists>b. (fst e, snd e, b) \<in> set visited \<and> b)" for e :: "(caller \<times> handle_id) \<times> 'r"
  have P: "P ((\<lambda>(k, r, b). (k, r)) e) \<longleftrightarrow> snd (snd e)" if "e \<in> set visited" for e
  proof
    assume "P ((\<lambda>(k, r, b). (k, r)) e)"
    then obtain b where "(fst e, fst (snd e), b) \<in> set visited" b
      by (auto simp: P_def case_prod_beta)
    moreover from this that dist have "(fst e, fst (snd e), b) = e"
      by (auto simp: distinct_map inj_on_def)
    ultimately show "snd (snd e)" by (metis snd_conv)
  next
    assume "snd (snd e)"
    then show "P ((\<lambda>(k, r, b). (k, r)) e)"
      using that by (cases e) (auto simp: P_def)
  qed
  have fp: "filter P ?m = map (\<lambda>(k, r, b). (k, r)) (filter (\<lambda>(k, r, b). b) visited)"
    and fn: "filter (\<lambda>e. \<not> P e) ?m = map (\<lambda>(k, r, b). (k, r)) (filter (\<lambda>(k, r, b). \<not> b) visited)"
    using P by (simp_all add: filter_map comp_def case_prod_unfold cong: filter_cong)
  have s: "sweep f (table h) = (?m, map fst (filter P ?m))"
    unfolding fp by (simp add: sweep_def visited_def filter_map comp_def case_prod_unfold)
  have "take_where h f = (let (m', out) = remove_keys ?m (map fst (filter P ?m))
      in (h\<lparr>table := m'\<rparr>, map (\<lambda>((c, i), r). (c, i, r)) out))"
    unfolding take_where_def s by simp
  also have "\<dots> = (h\<lparr>table := filter (\<lambda>e. \<not> P e) ?m\<rparr>, map (\<lambda>((c, i), r). (c, i, r)) (filter P ?m))"
    unfolding remove_keys_filter [OF ok] by simp
  finally show ?thesis
    unfolding fp fn by (simp add: comp_def case_prod_unfold)
qed

lemma handles_ok_mono:
  assumes "handles_ok h" and "next_handle h' = next_handle h" and "bt_ok (table h')"
    and "fst ` set (table h') \<subseteq> fst ` set (table h)"
  shows "handles_ok h'"
proof -
  have sub: "((c, i), r) \<in> set (table h') \<Longrightarrow> \<exists>s. ((c, i), s) \<in> set (table h)" for c i r
    using assms(4) by force
  show ?thesis
    using assms(1-3) sub unfolding handles_ok_def fresh_numbers_def by (fastforce dest!: sub)
qed

lemma fst_bt_remove: "fst ` set (bt_remove k m) = fst ` set m - {k}"
  by (auto simp: bt_remove_def)

lemma bt_get_fst: "bt_get m k = Some r \<Longrightarrow> k \<in> fst ` set m"
  unfolding bt_get_def by (metis domI dom_map_of_conv_image_fst)

lemma fst_bt_insert: "bt_ok m \<Longrightarrow> fst ` set (bt_insert k v m) = insert k (fst ` set m)"
  by (auto simp: set_bt_insert)

lemma handles_ok_with: "handles_ok h \<Longrightarrow> handles_ok (fst (with_handle h c i f))"
proof (cases "bt_get (table h) (c, i)")
  case (Some r)
  assume h: "handles_ok h"
  then have ok: "bt_ok (table h)" by (simp add: handles_ok_def)
  from Some have "fst (with_handle h c i f) = h\<lparr>table := bt_insert (c, i) (fst (f r)) (table h)\<rparr>"
    by (simp add: with_handle_def)
  moreover have "fst ` set (bt_insert (c, i) (fst (f r)) (table h)) \<subseteq> fst ` set (table h)"
    using bt_get_fst [OF Some] by (simp add: fst_bt_insert [OF ok])
  ultimately show ?thesis
    using handles_ok_mono [OF h, of "h\<lparr>table := bt_insert (c, i) (fst (f r)) (table h)\<rparr>"]
      bt_ok_insert [OF ok] by simp
qed (simp add: with_handle_def)

lemma handles_ok_bt: "handles_ok h \<Longrightarrow> bt_ok (table h)"
  by (simp add: handles_ok_def)

lemma handles_ok_filter: "handles_ok h \<Longrightarrow> handles_ok (h\<lparr>table := filter P (table h)\<rparr>)"
  by (rule handles_ok_mono) (auto simp: handles_ok_bt bt_ok_filter)

lemma handles_ok_remove: "handles_ok h \<Longrightarrow> handles_ok (fst (remove_handle h c i))"
  by (auto simp: remove_handle_def bt_remove_def handles_ok_filter split: option.splits)

lemma handles_ok_release: "handles_ok h \<Longrightarrow> handles_ok (fst (release_handles h c))"
  by (simp add: release_handles_eq handles_ok_bt handles_ok_filter)

lemma handles_ok_take_where: "handles_ok h \<Longrightarrow> handles_ok (fst (take_where h f))"
proof -
  assume h: "handles_ok h"
  then have ok: "bt_ok (table h)" by (rule handles_ok_bt)
  let ?v = "map (\<lambda>((c, i), r). ((c, i), f c i r)) (table h)"
  have "bt_ok ?v" using ok by (simp add: bt_ok_def comp_def case_prod_beta)
  then have "bt_ok (filter (\<lambda>(k, r, b). \<not> b) ?v)" by (rule bt_ok_filter)
  then have "bt_ok (map (\<lambda>(k, r, b). (k, r)) (filter (\<lambda>(k, r, b). \<not> b) ?v))"
    by (simp add: bt_ok_def comp_def case_prod_beta)
  moreover have "fst ` set (map (\<lambda>(k, r, b). (k, r)) (filter (\<lambda>(k, r, b). \<not> b) ?v)) \<subseteq> fst ` set (table h)"
    by (force simp: case_prod_beta)
  ultimately show ?thesis
    using handles_ok_mono [OF h, of "fst (take_where h f)"] by (simp add: take_where_eq [OF ok])
qed

lemma handles_ok_each: "handles_ok h \<Longrightarrow> handles_ok (each h f)"
  by (rule handles_ok_mono [of h])
    (force simp: each_def bt_ok_def comp_def case_prod_beta dest!: handles_ok_bt)+

lemma handles_ok_rekey: "handles_ok h \<Longrightarrow> handles_ok (fst (rekey h c d i))"
proof (cases "bt_get (table h) (c, i)")
  case (Some r)
  assume h: "handles_ok h"
  then have ok: "bt_ok (table h)" by (simp add: handles_ok_def)
  have ok': "bt_ok (bt_remove (c, i) (table h))" by (rule bt_ok_remove [OF ok])
  have in_t: "((c, i), r) \<in> set (table h)" using Some ok by (simp add: bt_get_in)
  have set': "set (bt_insert (d, i) r (bt_remove (c, i) (table h))) =
      insert ((d, i), r) {e \<in> set (table h). fst e \<noteq> (c, i) \<and> fst e \<noteq> (d, i)}"
    using set_bt_insert [OF ok'] by (auto simp: bt_remove_def)
  have "fresh_numbers (h\<lparr>table := bt_insert (d, i) r (bt_remove (c, i) (table h))\<rparr>)"
    if "fresh_numbers h"
  proof -
    have lt: "\<And>c i r. ((c, i), r) \<in> set (table h) \<Longrightarrow> i < next_handle h \<and> 0 < i"
      and uniq: "\<And>c d i r s. ((c, i), r) \<in> set (table h) \<Longrightarrow> ((d, i), s) \<in> set (table h) \<Longrightarrow> c = d"
      using that by (auto simp: fresh_numbers_def)
    have "((c', i), r') \<notin> {e \<in> set (table h). fst e \<noteq> (c, i) \<and> fst e \<noteq> (d, i)}" for c' r'
      using uniq [OF in_t, of c' r'] by auto
    then show ?thesis
      using that lt [OF in_t] uniq unfolding fresh_numbers_def by (auto simp: set')
  qed
  then show ?thesis
    using Some h bt_ok_insert [OF ok', of "(d, i)" r] by (simp add: rekey_def handles_ok_def)
qed (simp add: rekey_def)

section \<open>What the table guarantees\<close>

text \<open>Every method as one step on a table, and any sequence of them.\<close>

inductive handles_step :: "'r handles \<Rightarrow> 'r handles \<Rightarrow> bool" for h where
  st_insert: "handles_step h (fst (insert_handle h c r))"
| st_with: "handles_step h (fst (with_handle h c i (\<lambda>r. (g r, ()))))"
| st_remove: "handles_step h (fst (remove_handle h c i))"
| st_rekey: "handles_step h (fst (rekey h c d i))"
| st_release: "handles_step h (fst (release_handles h c))"
| st_take: "handles_step h (fst (take_where h f))"
| st_each: "handles_step h (each h g)"

lemmas handles_ok_ops = handles_ok_insert handles_ok_with handles_ok_remove handles_ok_rekey
  handles_ok_release handles_ok_take_where handles_ok_each

lemma handles_ok_step: "handles_step h h' \<Longrightarrow> handles_ok h \<Longrightarrow> handles_ok h'"
  by (induction rule: handles_step.induct) (simp_all add: handles_ok_ops)

lemma next_handle_step: "handles_step h h' \<Longrightarrow> next_handle h \<le> next_handle h'"
  by (induction rule: handles_step.induct)
    (auto simp: insert_handle_def with_handle_def remove_handle_def rekey_def release_handles_def
      take_where_def each_def Let_def split: option.splits prod.splits)

lemma handles_ok_steps: "handles_step\<^sup>*\<^sup>* h h' \<Longrightarrow> handles_ok h \<Longrightarrow> handles_ok h'"
  by (induction rule: rtranclp_induct) (auto intro: handles_ok_step)

lemma next_handle_steps: "handles_step\<^sup>*\<^sup>* h h' \<Longrightarrow> next_handle h \<le> next_handle h'"
  by (induction rule: rtranclp_induct) (auto dest: next_handle_step)

lemma bt_get_other_owner:
  assumes "handles_ok h" and "next_handle h < 2 ^ 64" and "insert_handle h c r = (h', i)" and "d \<noteq> c"
  shows "bt_get (table h') (d, i) = None"
proof -
  have ok: "bt_ok (table h)" and fresh: "fresh_numbers h"
    using assms(1,2) by (auto simp: handles_ok_def)
  have i: "i = next_handle h" and t: "table h' = bt_insert (c, i) r (table h)"
    using assms(2,3) by (auto simp: insert_handle_def Let_def u64_wrap_def)
  have "((d, i), s) \<notin> set (table h)" for s
    using fresh i unfolding fresh_numbers_def by fastforce
  then show ?thesis
    using assms(4) ok by (simp add: t bt.get_ins_other) (metis bt_get_in not_None_eq)
qed

text \<open>
  C40. A handle belongs to the caller it was issued to.  The caller can use it; to any other
  caller it does not exist, with the one constant error, and the attempt changes nothing.
\<close>

theorem handle_invisible_to_others:
  assumes "handles_ok h" and "next_handle h < 2 ^ 64" and "insert_handle h c r = (h', i)" and "d \<noteq> c"
  shows "snd (with_handle h' c i f) = Inr (snd (f r)) \<and>
    with_handle h' d i f = (h', Inl NoSuchHandle) \<and>
    remove_handle h' d i = (h', Inl NoSuchHandle) \<and>
    rekey h' d e i = (h', Inl NoSuchHandle)"
proof -
  have "bt_ok (table h)" using assms(1) by (rule handles_ok_bt)
  then have "bt_get (table h') (c, i) = Some r"
    using assms(3) by (auto simp: insert_handle_def Let_def bt.get_ins_same)
  then show ?thesis
    using bt_get_other_owner [OF assms]
    by (simp add: with_handle_def remove_handle_def rekey_def)
qed

theorem handle_invisible_to_others_witness:
  "\<exists>h' i. insert_handle (new_handles ''socket'') (CNode 1) (7::nat) = (h', i) \<and>
     remove_handle h' (CNode 2) i = (h', Inl NoSuchHandle)"
proof -
  obtain h' i where hi: "insert_handle (new_handles ''socket'') (CNode 1) (7::nat) = (h', i)"
    by (rule prod.exhaust)
  have "snd (with_handle h' (CNode 1) i (\<lambda>r. (r, r))) = Inr (snd ((\<lambda>r. (r, r)) 7)) \<and>
      with_handle h' (CNode 2) i (\<lambda>r. (r, r)) = (h', Inl NoSuchHandle) \<and>
      remove_handle h' (CNode 2) i = (h', Inl NoSuchHandle) \<and>
      rekey h' (CNode 2) CRoot i = (h', Inl NoSuchHandle)"
    by (rule handle_invisible_to_others [OF handles_ok_new _ hi]) (simp_all add: new_handles_def)
  with hi show ?thesis by blast
qed

text \<open>
  Numbers are never reused: whatever happens to a table between two inserts, the second
  handle differs from the first, until the counter has run through its 64 bits.
\<close>

theorem handle_numbers_never_reused:
  assumes "insert_handle h c r = (h1, i)" and "handles_step\<^sup>*\<^sup>* h1 h2"
    and "insert_handle h2 d s = (h3, j)" and "next_handle h2 < 2 ^ 64"
  shows "i < j"
  using assms(1,3,4) next_handle_steps [OF assms(2)]
  by (auto simp: insert_handle_def Let_def u64_wrap_def)

theorem handle_numbers_never_reused_witness:
  "snd (insert_handle (new_handles ''key'') CRoot (1::nat)) <
   snd (insert_handle (fst (release_handles (fst (insert_handle (new_handles ''key'') CRoot (1::nat))) CRoot))
     CRoot 2)"
proof -
  let ?h = "fst (insert_handle (new_handles ''key'') CRoot (1::nat))"
  have "handles_step\<^sup>*\<^sup>* ?h (fst (release_handles ?h CRoot))" by (blast intro: st_release)
  moreover have "next_handle (fst (release_handles ?h CRoot)) < 2 ^ 64"
    by (simp add: insert_handle_def new_handles_def release_handles_def u64_wrap_def bt_get_def Let_def
        bt_remove_def)
  ultimately show ?thesis
    using handle_numbers_never_reused [of "new_handles ''key''" CRoot 1 ?h _
        "fst (release_handles ?h CRoot)" CRoot 2] by (metis prod.collapse)
qed

text \<open>
  Release takes back exactly what one owner holds, in handle order, and leaves every
  other owner, the root included, as it was.
\<close>

theorem release_takes_exactly_the_owners:
  assumes "handles_ok h" and "release_handles h c = (h', out)"
  shows "table h' = filter (\<lambda>e. fst (fst e) \<noteq> c) (table h) \<and>
    out = map (\<lambda>e. (snd (fst e), snd e)) (filter (\<lambda>e. fst (fst e) = c) (table h)) \<and>
    sorted_wrt (<) (map fst out) \<and> count_handles h' c = 0 \<and>
    (d \<noteq> c \<longrightarrow> count_handles h' d = count_handles h d \<and>
      (\<forall>i. bt_get (table h') (d, i) = bt_get (table h) (d, i)))"
proof -
  have ok: "bt_ok (table h)" using assms(1) by (rule handles_ok_bt)
  have t: "table h' = filter (\<lambda>e. fst (fst e) \<noteq> c) (table h)"
    and o: "out = map (\<lambda>e. (snd (fst e), snd e)) (filter (\<lambda>e. fst (fst e) = c) (table h))"
    using assms(2) by (auto simp: release_handles_eq [OF ok])
  have "sorted_wrt (<) (map fst (filter (\<lambda>e. fst (fst e) = c) (table h)))"
    using bt_ok_filter [OF ok] by (simp add: bt_ok_def)
  then have srt: "sorted_wrt (<) (map fst out)"
    unfolding o sorted_wrt_map
    by (rule sorted_wrt_mono_rel [rotated]) (auto simp: less_prod_def' split: prod.splits)
  have "bt_get (table h') (d, i) = bt_get (table h) (d, i)" if "d \<noteq> c" for i
  proof -
    have "bt_get (filter (\<lambda>e. fst (fst e) \<noteq> c) m) (d, i) = bt_get m (d, i)" for m :: "((caller \<times> nat) \<times> 'a) list"
      using that by (induction m) (auto simp: bt_get_def)
    then show ?thesis by (simp add: t)
  qed
  moreover have "count_handles h' c = 0" by (simp add: count_handles_def t filter_keys comp_def)
  moreover have "count_handles h' d = count_handles h d" if "d \<noteq> c"
    using that by (simp add: count_handles_def t filter_keys) (metis (mono_tags, lifting))
  ultimately show ?thesis using t o srt by simp
qed

theorem release_takes_exactly_the_owners_witness:
  "snd (release_handles (fst (insert_handle (new_handles ''key'') CRoot (1::nat))) CRoot) = [(1, 1)]"
proof -
  let ?h = "fst (insert_handle (new_handles ''key'') CRoot (1::nat))"
  have "handles_ok ?h" by (intro handles_ok_insert handles_ok_new)
  then have "snd (release_handles ?h CRoot) =
      map (\<lambda>e. (snd (fst e), snd e)) (filter (\<lambda>e. fst (fst e) = CRoot) (table ?h))"
    using release_takes_exactly_the_owners [of ?h CRoot "fst (release_handles ?h CRoot)"
        "snd (release_handles ?h CRoot)"] by simp
  then show ?thesis by (simp add: insert_handle_def new_handles_def Let_def u64_wrap_def)
qed

end
