(* ===== verification/Wire_Ints.thy ===== *)
theory Wire_Ints
  imports Prelude
begin

unbundle bit_operations_syntax

text \<open>
  Fixed-width integers as bytes: \<^verbatim>\<open>to_be_bytes\<close>, \<^verbatim>\<open>from_be_bytes\<close> and the
  little-endian pair, on the number the integer holds.  The locale \<open>fixed_width\<close> is the
  contract the framing code relies on (the length, and reading back what was written,
  also with more bytes behind it); both byte orders are instances at every width.
\<close>

definition byte_of :: "nat \<Rightarrow> 8 word" where
  "byte_of n = word_of_nat n"

lemma unat_byte_of [simp]: "unat (byte_of n) = n mod 256"
  by (simp add: byte_of_def unat_of_nat)

lemma byte_of_unat [simp]: "byte_of (unat b) = b"
  by (simp add: byte_of_def)

fun be_bytes :: "nat \<Rightarrow> nat \<Rightarrow> bytes" where
  "be_bytes 0 v = []"
| "be_bytes (Suc n) v = be_bytes n (v div 256) @ [byte_of v]"

definition from_be :: "bytes \<Rightarrow> nat" where
  "from_be bs = foldl (\<lambda>a b. 256 * a + unat b) 0 bs"

fun le_bytes :: "nat \<Rightarrow> nat \<Rightarrow> bytes" where
  "le_bytes 0 v = []"
| "le_bytes (Suc n) v = byte_of v # le_bytes n (v div 256)"

fun from_le :: "bytes \<Rightarrow> nat" where
  "from_le [] = 0"
| "from_le (b # bs) = unat b + 256 * from_le bs"

lemma length_be_bytes [simp]: "length (be_bytes n v) = n"
  by (induction n arbitrary: v) auto

lemma length_le_bytes [simp]: "length (le_bytes n v) = n"
  by (induction n arbitrary: v) auto

lemma from_be_snoc [simp]: "from_be (bs @ [b]) = 256 * from_be bs + unat b"
  by (simp add: from_be_def)

lemma from_be_Nil [simp]: "from_be [] = 0"
  by (simp add: from_be_def)

lemma from_be_bytes: "v < 256 ^ n \<Longrightarrow> from_be (be_bytes n v) = v"
proof (induction n arbitrary: v)
  case (Suc n)
  then have "v div 256 < 256 ^ n" by (simp add: less_mult_imp_div_less mult.commute)
  with Suc.IH show ?case by simp
qed simp

lemma from_le_bytes: "v < 256 ^ n \<Longrightarrow> from_le (le_bytes n v) = v"
proof (induction n arbitrary: v)
  case (Suc n)
  then have "v div 256 < 256 ^ n" by (simp add: less_mult_imp_div_less mult.commute)
  with Suc.IH show ?case by simp
qed simp

lemma unat_byte_less: "unat (b :: 8 word) < 256"
  using unsigned_less [of b] by simp

lemma from_be_less: "from_be bs < 256 ^ length bs"
proof (induction bs rule: rev_induct)
  case (snoc b bs)
  then have "256 * from_be bs + 256 \<le> 256 * 256 ^ length bs" by simp
  with unat_byte_less [of b] show ?case by simp
qed simp

lemma from_le_less: "from_le bs < 256 ^ length bs"
proof (induction bs)
  case (Cons b bs)
  then have "256 * from_le bs + 256 \<le> 256 * 256 ^ length bs" by simp
  with unat_byte_less [of b] show ?case by simp
qed simp

lemma be_from_be: "be_bytes (length bs) (from_be bs) = bs"
proof (induction bs rule: rev_induct)
  case (snoc b bs)
  have "unat b < 256" by (rule unat_byte_less)
  then have "(256 * from_be bs + unat b) div 256 = from_be bs" by simp
  moreover have "byte_of (256 * from_be bs + unat b) = b"
    by (rule word_unat_eq_iff [THEN iffD2]) (simp add: unat_byte_less)
  ultimately show ?case using snoc by simp
qed simp

lemma le_from_le: "le_bytes (length bs) (from_le bs) = bs"
proof (induction bs)
  case (Cons b bs)
  have "unat b < 256" by (rule unat_byte_less)
  then have "(unat b + 256 * from_le bs) div 256 = from_le bs" by simp
  moreover have "byte_of (unat b + 256 * from_le bs) = b"
    by (rule word_unat_eq_iff [THEN iffD2]) (simp add: unat_byte_less)
  ultimately show ?case using Cons by simp
qed simp

text \<open>The contract of a fixed-width field.\<close>

locale fixed_width =
  fixes enc :: "nat \<Rightarrow> bytes" and dec :: "bytes \<Rightarrow> nat" and w :: nat
  assumes enc_length: "length (enc v) = w"
    and dec_enc: "v < 256 ^ w \<Longrightarrow> dec (enc v) = v"
    and dec_bound: "length bs = w \<Longrightarrow> dec bs < 256 ^ w"
    and enc_dec: "length bs = w \<Longrightarrow> enc (dec bs) = bs"
begin

lemma take_enc: "take w (enc v @ r) = enc v"
  by (simp add: enc_length)

lemma drop_enc: "drop w (enc v @ r) = r"
  by (simp add: enc_length)

lemma read_front: "v < 256 ^ w \<Longrightarrow> dec (take w (enc v @ r)) = v"
  by (simp only: take_enc dec_enc)

lemma enc_inj: "u < 256 ^ w \<Longrightarrow> v < 256 ^ w \<Longrightarrow> enc u = enc v \<Longrightarrow> u = v"
  by (metis dec_enc)

lemma split_front: "w \<le> length bs \<Longrightarrow> enc (dec (take w bs)) @ drop w bs = bs"
  by (simp add: enc_dec)

end

interpretation be: fixed_width "be_bytes n" from_be n for n
  by unfold_locales (auto simp: from_be_bytes from_be_less be_from_be)

interpretation le: fixed_width "le_bytes n" from_le n for n
  by unfold_locales (auto simp: from_le_bytes from_le_less le_from_le)

end
