(* ===== verification/Rust_Text.thy ===== *)
theory Rust_Text
  imports Prelude
begin

text \<open>
  What the sources use of Rust's \<^verbatim>\<open>str\<close>: the UTF-8 automaton of \<^verbatim>\<open>core::str\<close>
  (\<open>utf8_front\<close> reads one character or the maximal invalid part at the front),
  validation, lossy decoding, character boundaries, decimal \<^verbatim>\<open>Display\<close> and
  \<^verbatim>\<open>FromStr\<close> of unsigned integers, \<^verbatim>\<open>split\<close>, \<^verbatim>\<open>split_once\<close> and
  \<^verbatim>\<open>rsplit_once\<close> on an ASCII separator.
\<close>

section \<open>UTF-8\<close>

definition utf8_cont :: "nat \<Rightarrow> bool" where
  "utf8_cont b \<longleftrightarrow> 0x80 \<le> b \<and> b \<le> 0xBF"

definition utf8_second :: "nat \<Rightarrow> nat \<Rightarrow> bool" where
  "utf8_second b0 b1 \<longleftrightarrow>
     (if b0 = 0xE0 then 0xA0 \<le> b1 \<and> b1 \<le> 0xBF
      else if b0 = 0xED then 0x80 \<le> b1 \<and> b1 \<le> 0x9F
      else if b0 = 0xF0 then 0x90 \<le> b1 \<and> b1 \<le> 0xBF
      else if b0 = 0xF4 then 0x80 \<le> b1 \<and> b1 \<le> 0x8F
      else utf8_cont b1)"

definition utf8_width :: "nat \<Rightarrow> nat" where
  "utf8_width b =
     (if b < 0x80 then 1
      else if 0xC2 \<le> b \<and> b \<le> 0xDF then 2
      else if 0xE0 \<le> b \<and> b \<le> 0xEF then 3
      else if 0xF0 \<le> b \<and> b \<le> 0xF4 then 4
      else 0)"

text \<open>Whether a whole character stands at the front, and how many bytes are consumed.\<close>

definition utf8_front :: "string \<Rightarrow> bool \<times> nat" where
  "utf8_front s = (case s of [] \<Rightarrow> (False, 1) | c # cs \<Rightarrow>
     (let w = utf8_width (of_char c) in
      if w = 0 then (False, 1)
      else if w = 1 then (True, 1)
      else (case cs of [] \<Rightarrow> (False, 1) | d # ds \<Rightarrow>
        if \<not> utf8_second (of_char c) (of_char d) then (False, 1)
        else if w = 2 then (True, 2)
        else (case ds of [] \<Rightarrow> (False, 2) | e # es \<Rightarrow>
          if \<not> utf8_cont (of_char e) then (False, 2)
          else if w = 3 then (True, 3)
          else (case es of [] \<Rightarrow> (False, 3) | f # _ \<Rightarrow>
            if \<not> utf8_cont (of_char f) then (False, 3) else (True, 4))))))"

lemma utf8_front_pos: "0 < snd (utf8_front s)"
  by (auto simp: utf8_front_def Let_def split: list.splits)

lemma utf8_front_less: "s \<noteq> [] \<Longrightarrow> length s - snd (utf8_front s) < length s"
  by (rule diff_less) (simp_all add: utf8_front_pos)

function utf8_valid :: "string \<Rightarrow> bool" where
  "utf8_valid s =
     (if s = [] then True
      else if fst (utf8_front s) then utf8_valid (drop (snd (utf8_front s)) s) else False)"
  by pat_completeness auto
termination
  by (relation "measure length") (simp_all add: utf8_front_less)

declare utf8_valid.simps [simp del]

definition utf8_replacement :: string where
  "utf8_replacement = map char_of [0xEF, 0xBF, 0xBD :: nat]"

function utf8_lossy :: "string \<Rightarrow> string" where
  "utf8_lossy s = (if s = [] then []
     else (if fst (utf8_front s) then take (snd (utf8_front s)) s else utf8_replacement)
            @ utf8_lossy (drop (snd (utf8_front s)) s))"
  by pat_completeness auto
termination
  by (relation "measure length") (simp_all add: utf8_front_less)

declare utf8_lossy.simps [simp del]

definition is_char_boundary :: "string \<Rightarrow> nat \<Rightarrow> bool" where
  "is_char_boundary s i \<longleftrightarrow> i = 0 \<or> i = length s \<or> (i < length s \<and> \<not> utf8_cont (of_char (s ! i)))"

lemma utf8_valid_Nil [simp]: "utf8_valid []"
  by (simp add: utf8_valid.simps)

lemma utf8_lossy_Nil [simp]: "utf8_lossy [] = []"
  by (simp add: utf8_lossy.simps)

lemma utf8_second_cont: "utf8_second b0 b1 \<Longrightarrow> utf8_cont b1"
  by (auto simp: utf8_second_def utf8_cont_def split: if_splits)

text \<open>The four shapes of a character.\<close>

lemma utf8_front_shapes:
  assumes "fst (utf8_front s)"
  obtains (one) c r where "s = c # r" "utf8_width (of_char c) = 1" "snd (utf8_front s) = 1"
  | (two) c d r where "s = c # d # r" "utf8_width (of_char c) = 2"
      "utf8_second (of_char c) (of_char d)" "snd (utf8_front s) = 2"
  | (three) c d e r where "s = c # d # e # r" "utf8_width (of_char c) = 3"
      "utf8_second (of_char c) (of_char d)" "utf8_cont (of_char e)" "snd (utf8_front s) = 3"
  | (four) c d e f r where "s = c # d # e # f # r"
      "utf8_width (of_char c) \<notin> {0, 1, 2, 3}" "utf8_second (of_char c) (of_char d)"
      "utf8_cont (of_char e)" "utf8_cont (of_char f)" "snd (utf8_front s) = 4"
  using assms
  by (simp add: utf8_front_def Let_def split: list.splits if_splits)

lemma utf8_front_simps:
  "utf8_width (of_char c) = 1 \<Longrightarrow> utf8_front (c # r) = (True, 1)"
  "utf8_width (of_char c) = 2 \<Longrightarrow> utf8_second (of_char c) (of_char d) \<Longrightarrow>
     utf8_front (c # d # r) = (True, 2)"
  "utf8_width (of_char c) = 3 \<Longrightarrow> utf8_second (of_char c) (of_char d) \<Longrightarrow>
     utf8_cont (of_char e) \<Longrightarrow> utf8_front (c # d # e # r) = (True, 3)"
  "utf8_width (of_char c) \<notin> {0, 1, 2, 3} \<Longrightarrow> utf8_second (of_char c) (of_char d) \<Longrightarrow>
     utf8_cont (of_char e) \<Longrightarrow> utf8_cont (of_char f) \<Longrightarrow>
     utf8_front (c # d # e # f # r) = (True, 4)"
  by (simp_all add: utf8_front_def)

lemma utf8_front_length: "fst (utf8_front s) \<Longrightarrow> snd (utf8_front s) \<le> length s"
  by (erule utf8_front_shapes) simp_all

lemma utf8_front_take:
  "fst (utf8_front s) \<Longrightarrow>
   utf8_front (take (snd (utf8_front s)) s @ t) = (True, snd (utf8_front s))"
  by (erule utf8_front_shapes) (simp_all add: utf8_front_simps)

lemma utf8_front_cont:
  assumes "fst (utf8_front s)" and "0 < j" and "j < snd (utf8_front s)"
  shows "utf8_cont (of_char (s ! j))"
  using assms(1)
proof (cases rule: utf8_front_shapes)
  case one
  then show ?thesis using assms(2,3) by simp
next
  case two
  then show ?thesis using assms(2,3) by (simp add: less_2_cases_iff utf8_second_cont)
next
  case three
  then have "j = 1 \<or> j = 2" using assms(2,3) by linarith
  then show ?thesis using three by (auto simp: utf8_second_cont)
next
  case four
  then have "j = 1 \<or> j = 2 \<or> j = 3" using assms(2,3) by linarith
  then show ?thesis using four by (auto simp: utf8_second_cont)
qed

lemmas utf8_front_valid = utf8_front_length utf8_front_take utf8_front_cont

lemma utf8_valid_append_front:
  assumes "fst (utf8_front s)" and "utf8_valid t"
  shows "utf8_valid (take (snd (utf8_front s)) s @ t)"
proof -
  let ?k = "snd (utf8_front s)"
  have "length (take ?k s) = ?k" using utf8_front_valid(1) [OF assms(1)] by simp
  then show ?thesis
    using assms(2) utf8_front_valid(2) [OF assms(1), of t]
    by (subst utf8_valid.simps) simp
qed

lemma utf8_valid_append: "utf8_valid s \<Longrightarrow> utf8_valid t \<Longrightarrow> utf8_valid (s @ t)"
proof (induction s rule: utf8_valid.induct)
  case (1 s)
  show ?case
  proof (cases "s = []")
    case False
    let ?k = "snd (utf8_front s)"
    from False 1(2) have f: "fst (utf8_front s)" and v: "utf8_valid (drop ?k s)"
      by (auto simp: utf8_valid.simps [of s] split: if_splits)
    have "utf8_valid (drop ?k s @ t)" using 1(1) False f v 1(3) by blast
    with f have "utf8_valid (take ?k s @ (drop ?k s @ t))" by (rule utf8_valid_append_front)
    then show ?thesis by (simp flip: append_assoc)
  qed (simp add: 1)
qed

lemma utf8_valid_take:
  "utf8_valid s \<Longrightarrow> is_char_boundary s i \<Longrightarrow> utf8_valid (take i s)"
proof (induction s arbitrary: i rule: utf8_valid.induct)
  case (1 s)
  show ?case
  proof (cases "s = [] \<or> i = 0")
    case False
    let ?k = "snd (utf8_front s)"
    from False 1(2) have f: "fst (utf8_front s)" and v: "utf8_valid (drop ?k s)"
      by (auto simp: utf8_valid.simps [of s] split: if_splits)
    have ki: "?k \<le> i"
    proof (rule ccontr)
      assume "\<not> ?k \<le> i"
      then have "utf8_cont (of_char (s ! i))" "i < length s"
        using False utf8_front_valid [OF f] by auto
      with 1(3) False show False by (auto simp: is_char_boundary_def)
    qed
    have "is_char_boundary (drop ?k s) (i - ?k)"
      using 1(3) ki utf8_front_valid(1) [OF f] by (auto simp: is_char_boundary_def)
    then have "utf8_valid (take (i - ?k) (drop ?k s))"
      using 1(1) False f v by blast
    then have "utf8_valid (take ?k s @ take (i - ?k) (drop ?k s))"
      by (rule utf8_valid_append_front [OF f])
    moreover have "take ?k s @ take (i - ?k) (drop ?k s) = take i s"
      using ki by (metis le_add_diff_inverse take_add)
    ultimately show ?thesis by simp
  qed auto
qed

lemma utf8_lossy_valid_id: "utf8_valid s \<Longrightarrow> utf8_lossy s = s"
proof (induction s rule: utf8_valid.induct)
  case (1 s)
  then show ?case
    by (cases "s = []") (auto simp: utf8_valid.simps [of s] utf8_lossy.simps [of s])
qed

lemma utf8_replacement_valid: "utf8_valid utf8_replacement"
  by code_simp

lemma utf8_lossy_is_valid: "utf8_valid (utf8_lossy s)"
proof (induction s rule: utf8_lossy.induct)
  case (1 s)
  show ?case
  proof (cases "s = []")
    case False
    then show ?thesis
      using 1 by (subst utf8_lossy.simps)
        (auto simp: utf8_valid_append_front intro: utf8_valid_append utf8_replacement_valid)
  qed simp
qed

definition ascii :: "string \<Rightarrow> bool" where
  "ascii s \<longleftrightarrow> (\<forall>c\<in>set s. of_char c < (128::nat))"

lemma ascii_valid: "ascii s \<Longrightarrow> utf8_valid s"
proof (induction s)
  case (Cons c s)
  then have "utf8_front (c # s) = (True, 1)"
    by (simp add: ascii_def utf8_front_def utf8_width_def)
  with Cons show ?case by (simp add: ascii_def utf8_valid.simps [of "c # s"])
qed simp

section \<open>Decimal numbers\<close>

definition digit_char :: "nat \<Rightarrow> char" where
  "digit_char d = char_of (48 + d)"

fun show_nat :: "nat \<Rightarrow> string" where
  "show_nat n = (if n < 10 then [digit_char n] else show_nat (n div 10) @ [digit_char (n mod 10)])"

declare show_nat.simps [simp del]

definition digit_val :: "char \<Rightarrow> nat option" where
  "digit_val c = (let n = of_char c in if 48 \<le> n \<and> n \<le> 57 then Some (n - 48) else None)"

fun parse_digits :: "nat \<Rightarrow> string \<Rightarrow> nat option" where
  "parse_digits acc [] = Some acc"
| "parse_digits acc (c # cs) =
     (case digit_val c of None \<Rightarrow> None | Some d \<Rightarrow> parse_digits (10 * acc + d) cs)"

text \<open>
  \<^verbatim>\<open>str::parse\<close> of an unsigned type with largest value \<open>m\<close>: one leading \<open>+\<close> is
  accepted, an empty digit string and an overflow are errors.
\<close>

definition parse_unsigned :: "nat \<Rightarrow> string \<Rightarrow> nat option" where
  "parse_unsigned m s =
     (let ds = (case s of c # cs \<Rightarrow> if c = CHR ''+'' then cs else s | [] \<Rightarrow> s) in
      if ds = [] then None
      else (case parse_digits 0 ds of None \<Rightarrow> None | Some n \<Rightarrow> if n \<le> m then Some n else None))"

lemma digit_val_digit_char [simp]: "d < 10 \<Longrightarrow> digit_val (digit_char d) = Some d"
  by (simp add: digit_val_def digit_char_def)

lemma parse_digits_append:
  "parse_digits a (s @ t) = (case parse_digits a s of None \<Rightarrow> None | Some b \<Rightarrow> parse_digits b t)"
  by (induction s arbitrary: a) (auto split: option.splits)

lemma parse_digits_show: "parse_digits 0 (show_nat n) = Some n"
proof (induction n rule: show_nat.induct)
  case (1 n)
  then show ?case
    by (subst show_nat.simps) (auto simp: parse_digits_append)
qed

lemma show_nat_not_Nil: "show_nat n \<noteq> []"
  by (subst show_nat.simps) simp

lemma show_nat_digits: "c \<in> set (show_nat n) \<Longrightarrow> \<exists>d<10. c = digit_char d"
proof (induction n rule: show_nat.induct)
  case (1 n)
  show ?case
  proof (cases "n < 10")
    case True
    with 1(2) show ?thesis by (subst (asm) show_nat.simps) auto
  next
    case False
    with 1(2) have "c \<in> set (show_nat (n div 10)) \<or> c = digit_char (n mod 10)"
      by (subst (asm) show_nat.simps) auto
    moreover have "\<exists>d<10. digit_char (n mod 10) = digit_char d"
      by (rule exI [of _ "n mod 10"]) simp
    ultimately show ?thesis using 1(1) False by auto
  qed
qed

lemma digit_char_range: "d < 10 \<Longrightarrow> of_char (digit_char d) = (48 + d :: nat)"
  by (simp add: digit_char_def)

lemma digit_char_neq:
  "d < 10 \<Longrightarrow> digit_char d \<noteq> CHR ''+''"
  "d < 10 \<Longrightarrow> digit_char d \<noteq> CHR ''/''"
  by (auto dest: arg_cong [where f = "of_char :: char \<Rightarrow> nat"] simp: digit_char_range)

lemma show_nat_no_slash: "CHR ''/'' \<notin> set (show_nat n)"
  using show_nat_digits digit_char_neq by metis

lemma show_nat_ascii: "ascii (show_nat n)"
  unfolding ascii_def by (auto dest!: show_nat_digits simp: digit_char_range)

lemma parse_unsigned_show: "n \<le> m \<Longrightarrow> parse_unsigned m (show_nat n) = Some n"
proof -
  assume "n \<le> m"
  obtain c cs where s: "show_nat n = c # cs" using show_nat_not_Nil by (cases "show_nat n") auto
  then have "c \<noteq> CHR ''+''" using show_nat_digits [of c n] digit_char_neq by auto
  with s \<open>n \<le> m\<close> parse_digits_show [of n] show ?thesis
    by (simp add: parse_unsigned_def)
qed

section \<open>Splitting\<close>

fun split_char :: "char \<Rightarrow> string \<Rightarrow> string list" where
  "split_char c [] = [[]]"
| "split_char c (x # xs) =
     (if x = c then [] # split_char c xs
      else (case split_char c xs of [] \<Rightarrow> [[x]] | y # ys \<Rightarrow> (x # y) # ys))"

definition split_once :: "char \<Rightarrow> string \<Rightarrow> (string \<times> string) option" where
  "split_once c s =
     (if c \<in> set s
      then (let h = takeWhile (\<lambda>x. x \<noteq> c) s in Some (h, drop (Suc (length h)) s)) else None)"

definition rsplit_once :: "char \<Rightarrow> string \<Rightarrow> (string \<times> string) option" where
  "rsplit_once c s = (case split_once c (rev s) of None \<Rightarrow> None
     | Some (t, h) \<Rightarrow> Some (rev h, rev t))"

lemma split_char_no: "c \<notin> set s \<Longrightarrow> split_char c s = [s]"
  by (induction s) auto

lemma split_char_not_Nil [simp]: "split_char c s \<noteq> []"
  by (induction s) (auto split: list.splits)

lemma split_char_append:
  "c \<notin> set t \<Longrightarrow> split_char c (s @ c # t) = split_char c s @ [t]"
  by (induction s) (auto simp: split_char_no split: list.splits)

lemma split_once_append: "c \<notin> set h \<Longrightarrow> split_once c (h @ c # t) = Some (h, t)"
proof -
  assume "c \<notin> set h"
  then have "takeWhile (\<lambda>x. x \<noteq> c) (h @ c # t) = h"
    by (subst takeWhile_append2) auto
  then show ?thesis by (simp add: split_once_def Let_def)
qed

lemma rsplit_once_append: "c \<notin> set t \<Longrightarrow> rsplit_once c (h @ c # t) = Some (h, t)"
  using split_once_append [of c "rev t" "rev h"] by (simp add: rsplit_once_def)

end
