(* ===== verification/Msg_Value.thy ===== *)
theory Msg_Value
  imports Rust_Text
begin

text \<open>
  The message values that cross every boundary of the runtime: \<^verbatim>\<open>rmpv::Value\<close>, a
  third-party type the sources take apart by constructor.  \<open>val\<close> has its constructors;
  an integer is any integer (the type holds \<^verbatim>\<open>i64\<close> and \<^verbatim>\<open>u64\<close> values, which
  \<open>val_as_u64\<close> tests), a string is a byte string that need not be UTF-8
  (\<open>val_as_str\<close> answers only when it is), a float is its exact value.  The encoder and
  decoder (\<^verbatim>\<open>rmpv::encode\<close>, \<^verbatim>\<open>rmpv::decode\<close>) are not under \<^verbatim>\<open>src/\<close>: they are
  the fields of a record \<open>codec\<close> that every definition using them takes as an argument.
\<close>

datatype flt = FFin rat | FInf | FNegInf | FNaN

datatype val =
    VNil
  | VBool bool
  | VInt int
  | VF32 flt
  | VF64 flt
  | VStr string
  | VBin bytes
  | VArr "val list"
  | VMap "(val \<times> val) list"
  | VExt int bytes

type_synonym fields = "(val \<times> val) list"

fun val_as_str :: "val \<Rightarrow> string option" where
  "val_as_str (VStr s) = (if utf8_valid s then Some s else None)"
| "val_as_str _ = None"

fun val_as_u64 :: "val \<Rightarrow> nat option" where
  "val_as_u64 (VInt n) = (if 0 \<le> n \<and> n \<le> int u64_max then Some (nat n) else None)"
| "val_as_u64 _ = None"

fun val_as_map :: "val \<Rightarrow> fields option" where
  "val_as_map (VMap m) = Some m"
| "val_as_map _ = None"

fun val_as_array :: "val \<Rightarrow> val list option" where
  "val_as_array (VArr xs) = Some xs"
| "val_as_array _ = None"

definition val_is_map :: "val \<Rightarrow> bool" where
  "val_is_map v \<longleftrightarrow> val_as_map v \<noteq> None"

definition val_nat :: "nat \<Rightarrow> val" where
  "val_nat n = VInt (int n)"

text \<open>
  \<^verbatim>\<open>iter().find(|(k, _)| k.as_str() == Some(key)).map(|(_, v)| v)\<close>: the first entry
  whose key is this text.
\<close>

definition map_field :: "string \<Rightarrow> fields \<Rightarrow> val option" where
  "map_field key m = map_option snd (List.find (\<lambda>e. val_as_str (fst e) = Some key) m)"

text \<open>Rust's comparison and saturating cast \<^verbatim>\<open>as u64\<close> on a float that is not negative.\<close>

fun flt_nonneg :: "flt \<Rightarrow> bool" where
  "flt_nonneg (FFin r) = (0 \<le> r)"
| "flt_nonneg FInf = True"
| "flt_nonneg _ = False"

fun flt_less :: "flt \<Rightarrow> rat \<Rightarrow> bool" where
  "flt_less (FFin r) b = (r < b)"
| "flt_less FNegInf b = True"
| "flt_less _ b = False"

fun flt_as_u64 :: "flt \<Rightarrow> nat" where
  "flt_as_u64 (FFin r) = (if r < 0 then 0 else min u64_max (nat \<lfloor>r\<rfloor>))"
| "flt_as_u64 FInf = u64_max"
| "flt_as_u64 _ = 0"

record codec =
  write_value :: "val \<Rightarrow> bytes option"
  read_value :: "bytes \<Rightarrow> (val \<times> bytes) option"

lemma val_as_u64_bound: "val_as_u64 v = Some n \<Longrightarrow> n \<le> u64_max"
  by (cases v) (auto split: if_splits)

lemma val_as_u64_nat [simp]: "n \<le> u64_max \<Longrightarrow> val_as_u64 (val_nat n) = Some n"
  by (simp add: val_nat_def)

lemma flt_as_u64_bound: "flt_as_u64 f \<le> u64_max"
  by (cases f) auto

lemma val_as_str_valid: "val_as_str v = Some s \<Longrightarrow> utf8_valid s"
  by (cases v) (auto split: if_splits)

lemma map_field_Nil [simp]: "map_field k [] = None"
  by (simp add: map_field_def)

lemma map_field_Cons [simp]:
  "map_field k (e # m) = (if val_as_str (fst e) = Some k then Some (snd e) else map_field k m)"
  by (simp add: map_field_def)

lemma map_field_in: "map_field k m = Some v \<Longrightarrow> \<exists>k'. (k', v) \<in> set m \<and> val_as_str k' = Some k"
  by (induction m) (auto split: if_splits)

lemma map_field_filter_None:
  "map_field k (filter (\<lambda>e. val_as_str (fst e) \<noteq> Some k) m) = None"
  by (induction m) auto

end
