(* ===== verification/Caps.thy ===== *)
theory Caps
  imports Msg_Value
begin

text \<open>
  The capability grammar, \<^verbatim>\<open>crates/drt-caps/src/lib.rs\<close>: effect, capability and scope;
  the pattern match \<open>implies\<close>; capability sets with their provenance (\<open>capset\<close>);
  \<open>holds\<close> and the attenuation check; scope types and the registry that validates grants
  at startup.
  The lemmas show what a pattern match lets through (\<open>implies_trans_stem\<close>, and the one
  pattern shape, a pattern ending in two stars, for which implication is not transitive),
  that a refused attenuation names the first offending grant, and that a successful one
  never lets a child hold what its parent does not, under the hypothesis the code needs.
\<close>

section \<open>Pattern match\<close>

definition is_pattern :: "string \<Rightarrow> bool" where
  "is_pattern h \<longleftrightarrow> length h > 1 \<and> last h = CHR ''*''"

definition implies :: "string \<Rightarrow> string \<Rightarrow> bool" where
  "implies held want =
     (if length held > 1 \<and> held ! (length held - 1) = CHR ''*''
      then (let p = take (length held - 1) held in
            length want \<ge> length p \<and> take (length p) want = p)
      else held = want)"

definition call_capability :: "string \<Rightarrow> string" where
  "call_capability call = ''host:'' @ call"

lemma implies_alt:
  "implies h w \<longleftrightarrow> (if is_pattern h then prefix (butlast h) w else h = w)"
proof -
  have last: "last h = h ! (length h - 1)" if "length h > 1"
    using that by (intro last_conv_nth) auto
  have pre: "prefix p w \<longleftrightarrow> length p \<le> length w \<and> take (length p) w = p" for p :: string
    by (auto simp: prefix_def) (metis append_take_drop_id)
  show ?thesis
    using last by (auto simp: implies_def is_pattern_def Let_def pre butlast_conv_take)
qed

lemma implies_refl [simp]: "implies c c"
  by (simp add: implies_alt butlast_conv_take take_is_prefix)

section \<open>Grants and capability sets\<close>

datatype effect = Grant | Deny

type_synonym scope = val

record grant =
  effect :: effect
  capability :: string
  scope :: "scope option"

definition grant_of :: "string \<Rightarrow> grant" where
  "grant_of c = \<lparr>effect = Grant, capability = c, scope = None\<rparr>"

definition deny_of :: "string \<Rightarrow> grant" where
  "deny_of c = \<lparr>effect = Deny, capability = c, scope = None\<rparr>"

definition with_scope :: "grant \<Rightarrow> val \<Rightarrow> grant" where
  "with_scope g v = g\<lparr>scope := Some v\<rparr>"

type_synonym principal = string

datatype attenuation_error = NotHeldByParent string | DenyDropped string

datatype capset = CapSet (cs_grants: "grant list") (cs_prov: provenance) (cs_holder: "principal option")
  and provenance = ProvRoot | ProvGranted (prov_by: principal) (prov_from: capset)

definition root_set :: "grant list \<Rightarrow> capset" where
  "root_set gs = CapSet gs ProvRoot None"

definition root_held_by :: "principal \<Rightarrow> grant list \<Rightarrow> capset" where
  "root_held_by p gs = CapSet gs ProvRoot (Some p)"

definition grants_holds :: "grant list \<Rightarrow> string \<Rightarrow> bool" where
  "grants_holds gs want =
     (let denied = list_ex (\<lambda>g. effect g = Deny \<and> implies (capability g) want) gs in
      \<not> denied \<and> list_ex (\<lambda>g. effect g = Grant \<and> implies (capability g) want) gs)"

definition holds :: "capset \<Rightarrow> string \<Rightarrow> bool" where
  "holds c want = grants_holds (cs_grants c) want"

definition may_grant :: "capset \<Rightarrow> string \<Rightarrow> bool" where
  "may_grant c capa = holds c capa"

text \<open>The two loops of \<^verbatim>\<open>attenuate_held_by\<close>, in its order.\<close>

fun first_not_held :: "capset \<Rightarrow> grant list \<Rightarrow> string option" where
  "first_not_held p [] = None"
| "first_not_held p (g # gs) =
     (if effect g = Grant \<and> \<not> may_grant p (capability g) then Some (capability g)
      else first_not_held p gs)"

definition deny_covered :: "grant list \<Rightarrow> string \<Rightarrow> bool" where
  "deny_covered gs d = list_ex (\<lambda>c. effect c = Deny \<and> implies (capability c) d) gs"

fun first_deny_dropped :: "grant list \<Rightarrow> grant list \<Rightarrow> string option" where
  "first_deny_dropped gs [] = None"
| "first_deny_dropped gs (d # ds) =
     (if effect d = Deny \<and> \<not> deny_covered gs (capability d) then Some (capability d)
      else first_deny_dropped gs ds)"

definition attenuate_held_by ::
  "capset \<Rightarrow> principal option \<Rightarrow> principal \<Rightarrow> grant list \<Rightarrow> attenuation_error + capset" where
  "attenuate_held_by self holder by gs =
     (case first_not_held self gs of
        Some c \<Rightarrow> Inl (NotHeldByParent c)
      | None \<Rightarrow>
        (case first_deny_dropped gs (cs_grants self) of
           Some c \<Rightarrow> Inl (DenyDropped c)
         | None \<Rightarrow> Inr (CapSet gs (ProvGranted by self) holder)))"

definition attenuate :: "capset \<Rightarrow> principal \<Rightarrow> grant list \<Rightarrow> attenuation_error + capset" where
  "attenuate self by gs = attenuate_held_by self None by gs"

primrec chain :: "capset \<Rightarrow> (principal \<times> capset) list"
  and chain_prov :: "provenance \<Rightarrow> (principal \<times> capset) list" where
  "chain (CapSet gs p h) = chain_prov p"
| "chain_prov ProvRoot = []"
| "chain_prov (ProvGranted by from) = (by, from) # chain from"

definition attenuation_message :: "attenuation_error \<Rightarrow> string" where
  "attenuation_message e = (case e of
     NotHeldByParent c \<Rightarrow> CHR 0x27 # c @
       CHR 0x27 # '' is not covered by any grant the parent holds; a grant may only narrow''
   | DenyDropped c \<Rightarrow> ''the parent denies '' @ CHR 0x27 # c @
       CHR 0x27 # '' and the child does not; a deny may only grow'')"

section \<open>Scope types\<close>

record scope_type =
  st_describe :: string
  st_validate :: "scope option \<Rightarrow> string + unit"

record scope_error =
  se_capability :: string
  se_expected :: string
  se_detail :: string

definition no_scope :: scope_type where
  "no_scope = \<lparr>st_describe = ''no scope'',
     st_validate = (\<lambda>s. case s of None \<Rightarrow> Inr () | Some _ \<Rightarrow> Inl ''takes no scope'')\<rparr>"

type_synonym scope_registry = "(string \<times> scope_type) list"

definition declare_type :: "string \<Rightarrow> scope_type \<Rightarrow> scope_registry \<Rightarrow> scope_registry" where
  "declare_type c ty r = bt_insert c ty r"

fun validate_types :: "scope_registry \<Rightarrow> grant \<Rightarrow> scope_error + unit" where
  "validate_types [] g = Inr ()"
| "validate_types ((pattern, ty) # r) g =
     (if implies pattern (capability g) then
        (case st_validate ty (scope g) of
           Inl detail \<Rightarrow> Inl \<lparr>se_capability = capability g, se_expected = st_describe ty,
                             se_detail = detail\<rparr>
         | Inr _ \<Rightarrow> validate_types r g)
      else validate_types r g)"

fun validate :: "scope_registry \<Rightarrow> grant list \<Rightarrow> scope_error + unit" where
  "validate r [] = Inr ()"
| "validate r (g # gs) = (case validate_types r g of Inl e \<Rightarrow> Inl e | Inr _ \<Rightarrow> validate r gs)"

definition peer_family :: string where
  "peer_family = ''host:peer/*''"

definition peer_capability :: "string \<Rightarrow> string" where
  "peer_capability role = ''host:peer/'' @ role"

definition peer_scope :: scope_type where
  "peer_scope = \<lparr>st_describe =
       ''no scope yet; narrowing a peer grant to particular queues is not settled'',
     st_validate = (\<lambda>s. case s of None \<Rightarrow> Inr ()
       | Some _ \<Rightarrow> Inl (''a peer grant takes no scope in this build: which queues a cap may ''
           @ ''narrow to is not settled, and a scope accepted now could mean something else later''))\<rparr>"

section \<open>What a pattern match lets through\<close>

lemma is_pattern_split:
  "is_pattern h \<longleftrightarrow> (\<exists>p. p \<noteq> [] \<and> h = p @ ''*'')"
proof
  assume "is_pattern h"
  then show "\<exists>p. p \<noteq> [] \<and> h = p @ ''*''"
    by (cases h rule: rev_cases) (auto simp: is_pattern_def)
qed (auto simp: is_pattern_def)

lemma implies_pattern: "p \<noteq> [] \<Longrightarrow> implies (p @ ''*'') w \<longleftrightarrow> prefix p w"
  by (simp add: implies_alt is_pattern_def)

lemma implies_literal: "\<not> is_pattern h \<Longrightarrow> implies h w \<longleftrightarrow> h = w"
  by (simp add: implies_alt)

text \<open>
  A pattern whose prefix itself ends in a star is the one shape for which implication is
  not transitive: such a name implies the shorter pattern as a literal.
\<close>

definition double_star :: "string \<Rightarrow> bool" where
  "double_star h \<longleftrightarrow> suffix ''**'' h"

lemma double_star_pattern: "p \<noteq> [] \<Longrightarrow> double_star (p @ ''*'') \<longleftrightarrow> last p = CHR ''*''"
  by (cases p rule: rev_cases) (auto simp: double_star_def suffix_def)

lemma prefix_snocD: "prefix p (q @ [x]) \<Longrightarrow> p \<noteq> [] \<Longrightarrow> last p \<noteq> x \<Longrightarrow> prefix p q"
  by (auto simp: prefix_snoc)

lemma implies_trans:
  assumes "implies a b" and "implies b c" and "\<not> double_star a"
  shows "implies a c"
proof (cases "is_pattern a")
  case True
  then obtain p where p: "p \<noteq> []" "a = p @ ''*''" by (auto simp: is_pattern_split)
  with assms have pb: "prefix p b" and lp: "last p \<noteq> CHR ''*''"
    by (simp_all add: implies_pattern double_star_pattern)
  show ?thesis
  proof (cases "is_pattern b")
    case True
    then obtain q where q: "q \<noteq> []" "b = q @ ''*''" by (auto simp: is_pattern_split)
    then have "prefix p q" using pb lp p(1) prefix_snocD [of p q] by simp
    moreover have "prefix q c" using assms(2) q by (simp add: implies_pattern)
    ultimately show ?thesis using p prefix_order.trans by (simp add: implies_pattern)
  qed (use assms(2) pb p in \<open>simp add: implies_literal implies_pattern\<close>)
qed (use assms in \<open>simp add: implies_literal\<close>)

definition stem :: "string \<Rightarrow> string" where
  "stem h = rev (dropWhile (\<lambda>c. c = CHR ''*'') (rev h))"

lemma stem_split: "\<exists>t. h = stem h @ t \<and> set t \<subseteq> {CHR ''*''}"
proof -
  have "rev h = takeWhile (\<lambda>c. c = CHR ''*'') (rev h) @ dropWhile (\<lambda>c. c = CHR ''*'') (rev h)"
    by simp
  then have "h = stem h @ rev (takeWhile (\<lambda>c. c = CHR ''*'') (rev h))"
    by (metis rev_append rev_rev_ident stem_def)
  moreover have "set (rev (takeWhile (\<lambda>c. c = CHR ''*'') (rev h))) \<subseteq> {CHR ''*''}"
    by (auto dest: set_takeWhileD)
  ultimately show ?thesis by blast
qed

lemma prefix_stem:
  assumes "prefix p h" and "p \<noteq> []" and "last p \<noteq> CHR ''*''"
  shows "prefix p (stem h)"
proof -
  obtain t where t: "h = stem h @ t" "set t \<subseteq> {CHR ''*''}" using stem_split by blast
  then have "prefix p (stem h @ t)" using assms(1) by simp
  then consider "prefix p (stem h)" | us where "p = stem h @ us" "prefix us t"
    by (auto simp: prefix_append)
  then show ?thesis
  proof cases
    case (2 us)
    then show ?thesis
      using assms(3) t(2) set_mono_prefix [of us t] by (cases us rule: rev_cases) auto
  qed
qed

lemma stem_prefix: "prefix (stem h) h"
  using stem_split [of h] by (metis prefixI)

lemma stem_pattern: "prefix (stem (p @ ''*'')) p"
proof -
  have "stem (p @ ''*'') = stem p" by (simp add: stem_def)
  then show ?thesis using stem_prefix [of p] by simp
qed

text \<open>What a clean pattern covers once implication has been iterated.\<close>

definition covers :: "string \<Rightarrow> string \<Rightarrow> bool" where
  "covers a x = (if is_pattern a then prefix (butlast a) (stem x) else x = a)"

lemma covers_init: "implies a x \<Longrightarrow> \<not> double_star a \<Longrightarrow> covers a x"
  by (cases "is_pattern a")
    (auto simp: is_pattern_split covers_def implies_pattern implies_literal double_star_pattern
      intro: prefix_stem)

lemma covers_prefix: "covers a x \<Longrightarrow> implies x y \<Longrightarrow> is_pattern a \<Longrightarrow> prefix (butlast a) y"
proof -
  assume c: "covers a x" "implies x y" "is_pattern a"
  then have s: "prefix (butlast a) (stem x)" by (simp add: covers_def)
  have "prefix (stem x) y"
  proof (cases "is_pattern x")
    case True
    then obtain q where "q \<noteq> []" "x = q @ ''*''" by (auto simp: is_pattern_split)
    with c(2) show ?thesis using stem_pattern [of q] prefix_order.trans by (auto simp: implies_pattern)
  next
    case False
    with c(2) show ?thesis using stem_prefix by (auto simp: implies_literal)
  qed
  with s show ?thesis using prefix_order.trans by blast
qed

lemma covers_step: "covers a x \<Longrightarrow> implies x y \<Longrightarrow> \<not> double_star a \<Longrightarrow> covers a y"
proof (cases "is_pattern a")
  case True
  assume "covers a x" "implies x y" "\<not> double_star a"
  with True covers_prefix have "prefix (butlast a) y" by blast
  then show ?thesis
    using True \<open>\<not> double_star a\<close>
    by (auto simp: is_pattern_split covers_def double_star_pattern intro: prefix_stem)
qed (auto simp: covers_def implies_literal)

lemma covers_implies: "covers a x \<Longrightarrow> implies x w \<Longrightarrow> implies a w"
  by (cases "is_pattern a") (auto simp: implies_alt covers_prefix covers_def implies_literal)

section \<open>Attenuation\<close>

lemma holds_iff:
  "holds c w \<longleftrightarrow> (\<exists>g\<in>set (cs_grants c). effect g = Grant \<and> implies (capability g) w) \<and>
     (\<forall>g\<in>set (cs_grants c). effect g = Deny \<longrightarrow> \<not> implies (capability g) w)"
  by (auto simp: holds_def grants_holds_def list_ex_iff)

lemma first_not_held_None:
  "first_not_held p gs = None \<longleftrightarrow> (\<forall>g\<in>set gs. effect g = Grant \<longrightarrow> holds p (capability g))"
  by (induction gs) (auto simp: may_grant_def)

lemma first_deny_dropped_None:
  "first_deny_dropped gs ds = None \<longleftrightarrow>
   (\<forall>d\<in>set ds. effect d = Deny \<longrightarrow> (\<exists>c\<in>set gs. effect c = Deny \<and> implies (capability c) (capability d)))"
  by (induction ds) (auto simp: deny_covered_def list_ex_iff)

lemma attenuate_InrD:
  assumes "attenuate_held_by p h by gs = Inr c"
  shows "c = CapSet gs (ProvGranted by p) h"
    and "g \<in> set gs \<Longrightarrow> effect g = Grant \<Longrightarrow> holds p (capability g)"
    and "d \<in> set (cs_grants p) \<Longrightarrow> effect d = Deny \<Longrightarrow>
          \<exists>e\<in>set gs. effect e = Deny \<and> implies (capability e) (capability d)"
  using assms
  by (auto simp: attenuate_held_by_def first_not_held_None first_deny_dropped_None
      split: option.splits)

definition clean_grants :: "grant list \<Rightarrow> bool" where
  "clean_grants gs \<longleftrightarrow> (\<forall>g\<in>set gs. effect g = Grant \<longrightarrow> \<not> double_star (capability g))"

definition clean_denies :: "grant list \<Rightarrow> bool" where
  "clean_denies gs \<longleftrightarrow> (\<forall>g\<in>set gs. effect g = Deny \<longrightarrow> \<not> double_star (capability g))"

lemma attenuate_narrows_grants:
  assumes "attenuate_held_by p h by gs = Inr c" and "clean_grants (cs_grants p)"
    and "g \<in> set gs" and "effect g = Grant" and "implies (capability g) w"
  shows "\<exists>g0\<in>set (cs_grants p). effect g0 = Grant \<and> implies (capability g0) w"
proof -
  obtain g0 where "g0 \<in> set (cs_grants p)" "effect g0 = Grant" "implies (capability g0) (capability g)"
    using attenuate_InrD(2) [OF assms(1,3,4)] by (auto simp: holds_iff)
  then show ?thesis using assms(2,5) implies_trans by (auto simp: clean_grants_def)
qed

lemma attenuate_keeps_denies:
  assumes "attenuate_held_by p h by gs = Inr c" and "clean_denies gs"
    and "d \<in> set (cs_grants p)" and "effect d = Deny" and "implies (capability d) w"
  shows "\<exists>e\<in>set gs. effect e = Deny \<and> implies (capability e) w"
  using attenuate_InrD(3) [OF assms(1,3,4)] assms(2,5) implies_trans
  by (auto simp: clean_denies_def)

text \<open>Sets derived from a root by any number of attenuations.\<close>

inductive derived :: "capset \<Rightarrow> capset \<Rightarrow> bool" for r where
  derived_root: "derived r r"
| derived_step: "derived r c \<Longrightarrow> attenuate_held_by c h by gs = Inr d \<Longrightarrow> derived r d"

lemma derived_covers:
  assumes "derived r c" and "clean_grants (cs_grants r)"
    and "g \<in> set (cs_grants c)" and "effect g = Grant"
  shows "\<exists>g0\<in>set (cs_grants r). effect g0 = Grant \<and> covers (capability g0) (capability g)"
  using assms(1,3,4)
proof (induction arbitrary: g rule: derived.induct)
  case derived_root
  then show ?case using covers_init [OF implies_refl] assms(2) by (auto simp: clean_grants_def)
next
  case (derived_step c h b gs d)
  from attenuate_InrD(1) [OF derived_step.hyps(2)] derived_step.prems
  have "g \<in> set gs" by simp
  then have "holds c (capability g)"
    using attenuate_InrD(2) [OF derived_step.hyps(2)] derived_step.prems by blast
  then obtain g1 where g1: "g1 \<in> set (cs_grants c)" "effect g1 = Grant"
      "implies (capability g1) (capability g)" by (auto simp: holds_iff)
  then show ?case
    using derived_step.IH [OF g1(1,2)] covers_step assms(2) by (fastforce simp: clean_grants_def)
qed

lemma derived_denies:
  assumes "derived r c" and "\<forall>(p, s)\<in>set ((q, c) # chain c). clean_denies (cs_grants s)"
    and "d \<in> set (cs_grants r)" and "effect d = Deny" and "implies (capability d) w"
  shows "\<exists>e\<in>set (cs_grants c). effect e = Deny \<and> implies (capability e) w"
  using assms(1,2)
proof (induction arbitrary: q rule: derived.induct)
  case derived_root
  then show ?case using assms(3-5) by blast
next
  case (derived_step c h b gs d)
  have d: "d = CapSet gs (ProvGranted b c) h" by (rule attenuate_InrD(1) [OF derived_step.hyps(2)])
  have "\<forall>(p, s)\<in>set ((b, c) # chain c). clean_denies (cs_grants s)"
    using derived_step.prems d by simp
  then obtain e where "e \<in> set (cs_grants c)" "effect e = Deny" "implies (capability e) w"
    using derived_step.IH by blast
  then show ?case
    using attenuate_keeps_denies [OF derived_step.hyps(2)] derived_step.prems d by auto
qed

text \<open>
  Attenuation narrows.  A child set that the check lets through holds nothing its
  parent does not, provided no grant of the parent and no deny of the child is a pattern
  ending in two stars.
\<close>

theorem attenuate_narrows:
  assumes "attenuate_held_by p h by gs = Inr c" and "clean_grants (cs_grants p)"
    and "clean_denies gs" and "holds c w"
  shows "holds p w"
proof -
  have c: "cs_grants c = gs" using attenuate_InrD(1) [OF assms(1)] by simp
  then show ?thesis
    using assms attenuate_narrows_grants [OF assms(1,2)] attenuate_keeps_denies [OF assms(1,3)]
    unfolding holds_iff by blast
qed

theorem attenuate_narrows_witness:
  "holds (root_set [grant_of ''host:fs/*'', deny_of ''host:fs/secret'']) ''host:fs/read/a''"
proof (rule attenuate_narrows)
  show "attenuate_held_by (root_set [grant_of ''host:fs/*'', deny_of ''host:fs/secret''])
      None ''p'' [grant_of ''host:fs/read/*'', deny_of ''host:fs/secret*''] =
    Inr (CapSet [grant_of ''host:fs/read/*'', deny_of ''host:fs/secret*'']
      (ProvGranted ''p'' (root_set [grant_of ''host:fs/*'', deny_of ''host:fs/secret''])) None)"
    by code_simp
  show "clean_grants (cs_grants (root_set [grant_of ''host:fs/*'', deny_of ''host:fs/secret'']))"
    by code_simp
  show "clean_denies [grant_of ''host:fs/read/*'', deny_of ''host:fs/secret*'']"
    by code_simp
  show "holds (CapSet [grant_of ''host:fs/read/*'', deny_of ''host:fs/secret*'']
      (ProvGranted ''p'' (root_set [grant_of ''host:fs/*'', deny_of ''host:fs/secret''])) None)
      ''host:fs/read/a''"
    by code_simp
qed

lemma derived_holds:
  assumes "derived r c" and "clean_grants (cs_grants r)"
    and "\<forall>(p, s)\<in>set ((q, c) # chain c). clean_denies (cs_grants s)" and "holds c w"
  shows "holds r w"
proof -
  obtain g where g: "g \<in> set (cs_grants c)" "effect g = Grant" "implies (capability g) w"
    using assms(4) by (auto simp: holds_iff)
  have "\<exists>g0\<in>set (cs_grants r). effect g0 = Grant \<and> implies (capability g0) w"
    using derived_covers [OF assms(1,2) g(1,2)] covers_implies g(3) by blast
  moreover have "\<not> implies (capability d) w" if "d \<in> set (cs_grants r)" "effect d = Deny" for d
    using derived_denies [OF assms(1,3) that] assms(4) by (auto simp: holds_iff)
  ultimately show ?thesis by (auto simp: holds_iff)
qed

text \<open>
  C37. Confinement at any depth.  Whatever the chain of attenuations in between grants, a
  derived set holds nothing the root does not, if no grant of the root is a pattern ending
  in two stars (what the sets in between grant does not matter) and no deny on the way is.
\<close>

theorem derived_confined:
  assumes "derived r c" and "clean_grants (cs_grants r)"
    and "\<forall>(p, s)\<in>set ((q, c) # chain c). clean_denies (cs_grants s)" and "holds c w"
  shows "holds r w"
  using assms by (rule derived_holds)

theorem derived_confined_witness:
  "holds (root_set [grant_of ''host:fs/*'']) ''host:fs/read''"
proof (rule derived_confined)
  let ?r = "root_set [grant_of ''host:fs/*'']"
  let ?c = "CapSet [grant_of ''host:fs/**''] (ProvGranted ''root'' ?r) None"
  let ?d = "CapSet [grant_of ''host:fs/*''] (ProvGranted ''root/a'' ?c) None"
  have "attenuate_held_by ?r None ''root'' [grant_of ''host:fs/**''] = Inr ?c" by code_simp
  then have "derived ?r ?c" by (rule derived_step [OF derived_root])
  moreover have "attenuate_held_by ?c None ''root/a'' [grant_of ''host:fs/*''] = Inr ?d" by code_simp
  ultimately show "derived ?r ?d" by (rule derived_step)
  show "clean_grants (cs_grants ?r)" by code_simp
  show "\<forall>(p, s)\<in>set ((''x'', ?d) # chain ?d). clean_denies (cs_grants s)" by code_simp
  show "holds ?d ''host:fs/read''" by code_simp
qed


text \<open>
  When attenuation succeeds, and what a refusal names: success is exactly "every grant
  is held and every deny of the parent is covered"; the first grant that is not held is
  reported before any dropped deny, and a dropped deny only when all grants are held.
\<close>

theorem attenuate_outcome:
  "(attenuate_held_by p h by gs = Inr (CapSet gs (ProvGranted by p) h) \<longleftrightarrow>
      (\<forall>g\<in>set gs. effect g = Grant \<longrightarrow> holds p (capability g)) \<and>
      (\<forall>d\<in>set (cs_grants p). effect d = Deny \<longrightarrow>
         (\<exists>e\<in>set gs. effect e = Deny \<and> implies (capability e) (capability d)))) \<and>
   (attenuate_held_by p h by gs = Inl (NotHeldByParent c) \<longleftrightarrow>
      (\<exists>us g vs. gs = us @ g # vs \<and> capability g = c \<and> effect g = Grant \<and> \<not> holds p c \<and>
         (\<forall>u\<in>set us. effect u = Grant \<longrightarrow> holds p (capability u)))) \<and>
   (attenuate_held_by p h by gs = Inl (DenyDropped c) \<longrightarrow>
      (\<forall>g\<in>set gs. effect g = Grant \<longrightarrow> holds p (capability g)) \<and>
      (\<exists>d\<in>set (cs_grants p). effect d = Deny \<and> capability d = c \<and>
         (\<forall>e\<in>set gs. effect e = Deny \<longrightarrow> \<not> implies (capability e) c)))"
proof -
  have some: "first_not_held p gs = Some c \<longleftrightarrow>
      (\<exists>us g vs. gs = us @ g # vs \<and> capability g = c \<and> effect g = Grant \<and> \<not> holds p c \<and>
         (\<forall>u\<in>set us. effect u = Grant \<longrightarrow> holds p (capability u)))" (is "_ \<longleftrightarrow> ?E gs")
  proof (induction gs)
    case (Cons g gs)
    show ?case
    proof (cases "effect g = Grant \<and> \<not> holds p (capability g)")
      case True
      then have "first_not_held p (g # gs) = Some c \<longleftrightarrow> capability g = c"
        by (auto simp: may_grant_def)
      also have "\<dots> \<longleftrightarrow> ?E (g # gs)"
      proof
        assume "capability g = c"
        with True show "?E (g # gs)" by (intro exI [of _ "[]"] exI [of _ g] exI [of _ gs]) auto
      next
        assume "?E (g # gs)"
        with True show "capability g = c" by (auto simp: Cons_eq_append_conv)
      qed
      finally show ?thesis .
    next
      case False
      then have "first_not_held p (g # gs) = Some c \<longleftrightarrow> ?E gs"
        using Cons by (auto simp: may_grant_def)
      also have "\<dots> \<longleftrightarrow> ?E (g # gs)"
      proof
        assume "?E gs"
        then obtain us g' vs where e: "gs = us @ g' # vs" "capability g' = c" "effect g' = Grant"
            "\<not> holds p c" "\<forall>u\<in>set us. effect u = Grant \<longrightarrow> holds p (capability u)"
          by blast
        with False show "?E (g # gs)"
          by (intro exI [of _ "g # us"] exI [of _ g'] exI [of _ vs]) auto
      next
        assume "?E (g # gs)"
        then obtain us g' vs where e: "g # gs = us @ g' # vs" "capability g' = c" "effect g' = Grant"
            "\<not> holds p c" "\<forall>u\<in>set us. effect u = Grant \<longrightarrow> holds p (capability u)"
          by blast
        with False show "?E gs"
          by (cases us) auto
      qed
      finally show ?thesis .
    qed
  qed simp
  have dropped: "first_deny_dropped gs ds = Some c \<Longrightarrow>
      \<exists>d\<in>set ds. effect d = Deny \<and> capability d = c \<and>
         (\<forall>e\<in>set gs. effect e = Deny \<longrightarrow> \<not> implies (capability e) c)" for ds
    by (induction ds) (auto simp: deny_covered_def list_ex_iff split: if_splits)
  have cases:
    "attenuate_held_by p h by gs = Inr (CapSet gs (ProvGranted by p) h) \<longleftrightarrow>
       first_not_held p gs = None \<and> first_deny_dropped gs (cs_grants p) = None"
    "attenuate_held_by p h by gs = Inl (NotHeldByParent c) \<longleftrightarrow> first_not_held p gs = Some c"
    "attenuate_held_by p h by gs = Inl (DenyDropped c) \<longleftrightarrow>
       first_not_held p gs = None \<and> first_deny_dropped gs (cs_grants p) = Some c"
    by (simp_all add: attenuate_held_by_def split: option.splits)
  show ?thesis
    unfolding cases some first_not_held_None first_deny_dropped_None
    using dropped by blast
qed

theorem attenuate_outcome_witness:
  "attenuate_held_by (root_set [grant_of ''host:fs/*'']) None ''p''
     [grant_of ''host:fs/read'', grant_of ''host:sql''] = Inl (NotHeldByParent ''host:sql'')"
proof -
  have "\<not> holds (root_set [grant_of ''host:fs/*'']) ''host:sql''" by code_simp
  moreover have "holds (root_set [grant_of ''host:fs/*'']) (capability (grant_of ''host:fs/read''))"
    by code_simp
  ultimately have "\<exists>us g vs. [grant_of ''host:fs/read'', grant_of ''host:sql''] = us @ g # vs \<and>
      capability g = ''host:sql'' \<and> effect g = Grant \<and>
      \<not> holds (root_set [grant_of ''host:fs/*'']) ''host:sql'' \<and>
      (\<forall>u\<in>set us. effect u = Grant \<longrightarrow>
         holds (root_set [grant_of ''host:fs/*'']) (capability u))"
    by (intro exI [of _ "[grant_of ''host:fs/read'']"] exI [of _ "grant_of ''host:sql''"] exI [of _ "[]"])
      (simp add: grant_of_def)
  then show ?thesis using attenuate_outcome by blast
qed

text \<open>The chain of provenance: each step names the granter, and it ends at the root.\<close>

lemma derived_chain: "derived r c \<Longrightarrow> c = r \<or> r \<in> snd ` set (chain c)"
proof (induction rule: derived.induct)
  case (derived_step c h b gs d)
  then show ?case using attenuate_InrD(1) [OF derived_step.hyps(2)] by auto
qed simp

section \<open>The startup gate\<close>

lemma validate_types_ok:
  "validate_types r g = Inr () \<longleftrightarrow>
   (\<forall>(p, ty)\<in>set r. implies p (capability g) \<longrightarrow> st_validate ty (scope g) = Inr ())"
  by (induction r) (auto split: sum.splits if_splits)

lemma validate_types_error:
  "validate_types r g = Inl e \<Longrightarrow> \<exists>(p, ty)\<in>set r. implies p (capability g) \<and>
     st_validate ty (scope g) = Inl (se_detail e) \<and> se_capability e = capability g \<and>
     se_expected e = st_describe ty"
  by (induction r) (auto split: sum.splits if_splits)

text \<open>
  The registry passes a list of grants exactly when every declared pattern that covers
  a grant accepts its scope, and a refusal names a grant of the list, what its declaration
  expects and that declaration's own reason.
\<close>

theorem validate_gate:
  "(validate r gs = Inr () \<longleftrightarrow>
      (\<forall>g\<in>set gs. \<forall>(p, ty)\<in>set r. implies p (capability g) \<longrightarrow> st_validate ty (scope g) = Inr ())) \<and>
   (validate r gs = Inl e \<longrightarrow>
      (\<exists>g\<in>set gs. \<exists>(p, ty)\<in>set r. implies p (capability g) \<and> se_capability e = capability g \<and>
         se_expected e = st_describe ty \<and> st_validate ty (scope g) = Inl (se_detail e)))"
proof (induction gs)
  case (Cons g gs)
  show ?case
  proof (cases "validate_types r g")
    case (Inl e')
    then have "\<not> (\<forall>(p, ty)\<in>set r. implies p (capability g) \<longrightarrow> st_validate ty (scope g) = Inr ())"
      using validate_types_ok [of r g] by auto
    with Inl validate_types_error [of r g e'] show ?thesis by fastforce
  next
    case (Inr u)
    with Cons validate_types_ok [of r g] show ?thesis by auto
  qed
qed simp

theorem validate_gate_witness:
  "\<exists>e. validate (declare_type ''host:fs/*'' no_scope []) [with_scope (grant_of ''host:fs/read'') VNil] = Inl e
     \<and> se_capability e = ''host:fs/read''"
proof -
  let ?r = "declare_type ''host:fs/*'' no_scope []"
  let ?g = "with_scope (grant_of ''host:fs/read'') VNil"
  have bad: "st_validate no_scope (scope ?g) \<noteq> Inr ()" by (simp add: no_scope_def with_scope_def)
  have "implies ''host:fs/*'' (capability ?g)" by code_simp
  with bad have "validate ?r [?g] \<noteq> Inr ()"
    using validate_gate [of ?r "[?g]"] by (auto simp: declare_type_def)
  then obtain e where e: "validate ?r [?g] = Inl e"
    by (cases "validate ?r [?g]") auto
  then have "se_capability e = capability ?g"
    using validate_gate [of ?r "[?g]" e] by auto
  then show ?thesis using e by (auto simp: with_scope_def grant_of_def)
qed

end
