(* ===== verification/Inst_Config.thy ===== *)
theory Inst_Config
  imports Caps
begin

text \<open>
  The quantitative limits of an instance and the one config shape,
  \<^verbatim>\<open>crates/drt-config/src/lib.rs\<close>: \<open>Budget\<close>, \<open>Numeric\<close> with its \<open>Tier\<close>, and
  \<open>InstanceConfig::check_attenuation\<close>.  \<open>Budget\<close> and \<open>Numeric\<close> obey one contract,
  the locale \<open>attenuating\<close>: what fits is resolved to something at most the parent's, and
  so is everything below it.  The two are its instances, and the root theory's bound on
  every descendant rests on it.
\<close>

record budget =
  instructions :: "nat option"
  memory_kb :: "nat option"

datatype tier = Exact | Reproducible | Fast

record numeric =
  max_elements :: "nat option"
  max_tier :: "tier option"

definition budget_default :: budget where
  "budget_default = \<lparr>instructions = None, memory_kb = None\<rparr>"

definition numeric_default :: numeric where
  "numeric_default = \<lparr>max_elements = None, max_tier = None\<rparr>"

fun tier_rank :: "tier \<Rightarrow> nat" where
  "tier_rank Exact = 0"
| "tier_rank Reproducible = 1"
| "tier_rank Fast = 2"

fun tier_name :: "tier \<Rightarrow> string" where
  "tier_name Exact = ''exact''"
| "tier_name Reproducible = ''reproducible''"
| "tier_name Fast = ''fast''"

definition tier_parse :: "string \<Rightarrow> tier option" where
  "tier_parse s = (if s = ''exact'' then Some Exact
     else if s = ''reproducible'' then Some Reproducible
     else if s = ''fast'' then Some Fast else None)"

definition or_else :: "'a option \<Rightarrow> 'a option \<Rightarrow> 'a option" where
  "or_else a b = (case a of None \<Rightarrow> b | Some _ \<Rightarrow> a)"

text \<open>The bound comparison both types repeat: an unstated side always fits.\<close>

definition bound_fits :: "('a \<Rightarrow> nat) \<Rightarrow> 'a option \<Rightarrow> 'a option \<Rightarrow> bool" where
  "bound_fits rank c p = (case (c, p) of (Some x, Some y) \<Rightarrow> rank x \<le> rank y | _ \<Rightarrow> True)"

definition numeric_is_unbounded :: "numeric \<Rightarrow> bool" where
  "numeric_is_unbounded n \<longleftrightarrow> n = numeric_default"

definition numeric_fits :: "numeric \<Rightarrow> numeric \<Rightarrow> bool" where
  "numeric_fits c p \<longleftrightarrow>
     (let elements = bound_fits id (max_elements c) (max_elements p);
          t = bound_fits tier_rank (max_tier c) (max_tier p)
      in elements \<and> t)"

definition numeric_resolved :: "numeric \<Rightarrow> numeric \<Rightarrow> numeric" where
  "numeric_resolved c p = \<lparr>max_elements = or_else (max_elements c) (max_elements p),
     max_tier = or_else (max_tier c) (max_tier p)\<rparr>"

definition budget_is_unlimited :: "budget \<Rightarrow> bool" where
  "budget_is_unlimited b \<longleftrightarrow> b = budget_default"

definition budget_fits :: "budget \<Rightarrow> budget \<Rightarrow> bool" where
  "budget_fits c p \<longleftrightarrow> bound_fits id (instructions c) (instructions p) \<and>
     bound_fits id (memory_kb c) (memory_kb p)"

definition budget_resolved :: "budget \<Rightarrow> budget \<Rightarrow> budget" where
  "budget_resolved c p = \<lparr>instructions = or_else (instructions c) (instructions p),
     memory_kb = or_else (memory_kb c) (memory_kb p)\<rparr>"

datatype program = ProgPath string | ProgSource string

record instance_config =
  ic_program :: "program option"
  ic_caps :: "grant list"
  ic_budget :: budget
  ic_numeric :: numeric

datatype config_error =
    CapsError attenuation_error
  | BudgetExceedsParent
  | NumericElementsExceedParent
  | NumericTierExceedsParent

definition check_attenuation :: "instance_config \<Rightarrow> instance_config \<Rightarrow> config_error + unit" where
  "check_attenuation self parent =
     (case attenuate (root_set (ic_caps parent)) ''attenuation-check'' (ic_caps self) of
        Inl e \<Rightarrow> Inl (CapsError e)
      | Inr _ \<Rightarrow>
        if \<not> budget_fits (ic_budget self) (ic_budget parent) then Inl BudgetExceedsParent
        else if \<not> numeric_fits
              \<lparr>max_elements = max_elements (ic_numeric self), max_tier = None\<rparr> (ic_numeric parent)
          then Inl NumericElementsExceedParent
        else if \<not> numeric_fits (ic_numeric self) (ic_numeric parent)
          then Inl NumericTierExceedsParent
        else Inr ())"

section \<open>The contract of a limit that attenuates\<close>

text \<open>
  \<open>lim_le c p\<close>: what enforcement runs on for \<open>c\<close> is at most what it runs on for \<open>p\<close>;
  unlike \<open>fits\<close>, an unbounded \<open>c\<close> is below an unbounded \<open>p\<close> only.
\<close>

locale attenuating =
  fixes fits :: "'b \<Rightarrow> 'b \<Rightarrow> bool" and resolved :: "'b \<Rightarrow> 'b \<Rightarrow> 'b" and lim_le :: "'b \<Rightarrow> 'b \<Rightarrow> bool"
  assumes within_refl: "lim_le p p"
    and within_trans: "lim_le a b \<Longrightarrow> lim_le b c \<Longrightarrow> lim_le a c"
    and resolved_within: "fits c p \<Longrightarrow> lim_le (resolved c p) p"
    and not_fits_wider: "\<not> fits c p \<Longrightarrow> \<not> lim_le (resolved c p) p"
begin

lemma resolved_iff: "lim_le (resolved c p) p \<longleftrightarrow> fits c p"
  using resolved_within not_fits_wider by blast

lemma chain_within:
  assumes "successively (\<lambda>p c. \<exists>r. fits r p \<and> c = resolved r p) (p # cs)" and "c \<in> set cs"
  shows "lim_le c p"
  using assms
proof (induction cs arbitrary: p)
  case (Cons d cs)
  then have d: "lim_le d p" using resolved_within by (auto simp: successively_Cons)
  show ?case
  proof (cases "c = d")
    case False
    with Cons have "lim_le c d" by (cases cs) (auto simp: successively_Cons)
    with d show ?thesis using within_trans by blast
  qed (use d in simp)
qed simp

end

definition bound_within :: "('a \<Rightarrow> nat) \<Rightarrow> 'a option \<Rightarrow> 'a option \<Rightarrow> bool" where
  "bound_within rank c p = (case (c, p) of
     (_, None) \<Rightarrow> True | (None, Some _) \<Rightarrow> False | (Some x, Some y) \<Rightarrow> rank x \<le> rank y)"

definition budget_within :: "budget \<Rightarrow> budget \<Rightarrow> bool" where
  "budget_within c p \<longleftrightarrow> bound_within id (instructions c) (instructions p) \<and>
     bound_within id (memory_kb c) (memory_kb p)"

definition numeric_within :: "numeric \<Rightarrow> numeric \<Rightarrow> bool" where
  "numeric_within c p \<longleftrightarrow> bound_within id (max_elements c) (max_elements p) \<and>
     bound_within tier_rank (max_tier c) (max_tier p)"

lemma bound_within_refl: "bound_within f a a"
  by (simp add: bound_within_def split: option.splits)

lemma bound_within_trans: "bound_within f a b \<Longrightarrow> bound_within f b c \<Longrightarrow> bound_within f a c"
  by (auto simp: bound_within_def split: option.splits)

lemma bound_resolved_iff: "bound_within f (or_else c p) p \<longleftrightarrow> bound_fits f c p"
  by (auto simp: bound_within_def or_else_def bound_fits_def split: option.splits)

interpretation budget: attenuating budget_fits budget_resolved budget_within
  by unfold_locales
    (auto simp: budget_within_def budget_fits_def budget_resolved_def bound_resolved_iff
      bound_within_refl intro: bound_within_trans)

interpretation numeric: attenuating numeric_fits numeric_resolved numeric_within
  by unfold_locales
    (auto simp: numeric_within_def numeric_fits_def numeric_resolved_def bound_resolved_iff
      bound_within_refl Let_def intro: bound_within_trans)

lemma tier_parse_name [simp]: "tier_parse (tier_name t) = Some t"
  by (cases t) (simp_all add: tier_parse_def)

lemma tier_parse_SomeD: "tier_parse s = Some t \<Longrightarrow> s = tier_name t"
  by (auto simp: tier_parse_def split: if_splits)

text \<open>
  A child config fits exactly when its grants attenuate and what enforcement would run
  on (its limits resolved against the parent's) is at most the parent's; the refusal names
  the first of caps, budget, elements and tier that does not.
\<close>

theorem check_attenuation_outcome:
  "(check_attenuation c p = Inr () \<longleftrightarrow>
     (\<exists>s. attenuate (root_set (ic_caps p)) ''attenuation-check'' (ic_caps c) = Inr s) \<and>
     budget_within (budget_resolved (ic_budget c) (ic_budget p)) (ic_budget p) \<and>
     numeric_within (numeric_resolved (ic_numeric c) (ic_numeric p)) (ic_numeric p)) \<and>
   (check_attenuation c p = Inl (CapsError e) \<longleftrightarrow>
     attenuate (root_set (ic_caps p)) ''attenuation-check'' (ic_caps c) = Inl e) \<and>
   (check_attenuation c p = Inl NumericElementsExceedParent \<longrightarrow>
     \<not> bound_fits id (max_elements (ic_numeric c)) (max_elements (ic_numeric p))) \<and>
   (check_attenuation c p = Inl NumericTierExceedsParent \<longrightarrow>
     bound_fits id (max_elements (ic_numeric c)) (max_elements (ic_numeric p)) \<and>
     \<not> bound_fits tier_rank (max_tier (ic_numeric c)) (max_tier (ic_numeric p)))"
  unfolding budget.resolved_iff numeric.resolved_iff
  by (auto simp: check_attenuation_def numeric_fits_def bound_fits_def
      split: sum.splits option.splits)

theorem check_attenuation_outcome_witness:
  "\<not> bound_fits id (max_elements \<lparr>max_elements = Some 9, max_tier = None\<rparr>)
     (max_elements \<lparr>max_elements = Some 5, max_tier = Some Exact\<rparr>)"
proof -
  let ?c = "\<lparr>ic_program = None, ic_caps = [], ic_budget = budget_default,
     ic_numeric = \<lparr>max_elements = Some 9, max_tier = None\<rparr>\<rparr>"
  let ?p = "\<lparr>ic_program = None, ic_caps = [], ic_budget = budget_default,
     ic_numeric = \<lparr>max_elements = Some 5, max_tier = Some Exact\<rparr>\<rparr>"
  have "check_attenuation ?c ?p = Inl NumericElementsExceedParent"
    by code_simp
  then show ?thesis using check_attenuation_outcome [of ?c ?p] by simp
qed

end
