(* ===== verification/Hostcall.thy ===== *)
theory Hostcall
  imports Msg_Value
begin

text \<open>
  The hostcall encoding, \<^verbatim>\<open>crates/drt-hostcall/src/lib.rs\<close>: requests, replies and
  their constructors, the reply as the message it is encoded as, and the blob lane
  (\<open>column\<close>, \<open>lift_columns\<close>, \<open>inline_blobs\<close>).  The msgpack encoder and decoder
  are the fields of a \<open>codec\<close>.  The main result is that the lane's two ends meet: what a
  guest receives is the connector's answer with every column replaced by its own bytes.
\<close>

type_synonym token = nat

definition guest_lib_token_base :: token where "guest_lib_token_base = 2 ^ 30"

record request =
  rq_tok :: token
  rq_call :: string
  rq_args :: "val option"

datatype status = SOk | SDenied | SError | SMalformed | STimeout | SOther string

definition is_failure :: "status \<Rightarrow> bool" where
  "is_failure s \<longleftrightarrow> s \<noteq> SOk"

definition status_name :: "status \<Rightarrow> string" where
  "status_name s = (case s of SOk \<Rightarrow> ''ok'' | SDenied \<Rightarrow> ''denied'' | SError \<Rightarrow> ''error''
     | SMalformed \<Rightarrow> ''malformed'' | STimeout \<Rightarrow> ''timeout'' | SOther n \<Rightarrow> n)"

record reply =
  rp_tok :: "token option"
  rp_status :: status
  rp_value :: "val option"
  rp_detail :: "string option"
  rp_blobs :: "bytes list"

definition reply_ok :: "token \<Rightarrow> val \<Rightarrow> reply" where
  "reply_ok tok v = \<lparr>rp_tok = Some tok, rp_status = SOk, rp_value = Some v, rp_detail = None,
     rp_blobs = []\<rparr>"

definition reply_denied :: "token \<Rightarrow> string \<Rightarrow> reply" where
  "reply_denied tok detail = \<lparr>rp_tok = Some tok, rp_status = SDenied, rp_value = None,
     rp_detail = Some detail, rp_blobs = []\<rparr>"

definition reply_error :: "token \<Rightarrow> string \<Rightarrow> reply" where
  "reply_error tok detail = \<lparr>rp_tok = Some tok, rp_status = SError, rp_value = None,
     rp_detail = Some detail, rp_blobs = []\<rparr>"

definition reply_timed_out :: "token \<Rightarrow> string \<Rightarrow> reply" where
  "reply_timed_out tok detail = \<lparr>rp_tok = Some tok, rp_status = STimeout, rp_value = None,
     rp_detail = Some detail, rp_blobs = []\<rparr>"

definition reply_malformed :: "token option \<Rightarrow> string \<Rightarrow> reply" where
  "reply_malformed tok detail = \<lparr>rp_tok = tok, rp_status = SMalformed, rp_value = None,
     rp_detail = Some detail, rp_blobs = []\<rparr>"

section \<open>The blob lane\<close>

datatype dtype = F64 | I64 | U8

definition column_ext_base :: int where "column_ext_base = 0x70"

fun dtype_code :: "dtype \<Rightarrow> nat" where
  "dtype_code F64 = 0" | "dtype_code I64 = 1" | "dtype_code U8 = 2"

definition dtype_from_code :: "nat \<Rightarrow> dtype option" where
  "dtype_from_code c = (if c = 0 then Some F64 else if c = 1 then Some I64
     else if c = 2 then Some U8 else None)"

fun dtype_width :: "dtype \<Rightarrow> nat" where
  "dtype_width F64 = 8" | "dtype_width I64 = 8" | "dtype_width U8 = 1"

definition ext_tag :: "dtype \<Rightarrow> int" where
  "ext_tag d = column_ext_base + int (dtype_code d)"

text \<open>The subtraction is one of \<^verbatim>\<open>i8\<close> and wraps.\<close>

definition from_ext_tag :: "int \<Rightarrow> dtype option" where
  "from_ext_tag tag =
     (let d = (tag - column_ext_base + 128) mod 256 - 128 in
      if d < 0 then None else dtype_from_code (nat d))"

definition column :: "dtype \<Rightarrow> bytes \<Rightarrow> val" where
  "column d bs = VExt (ext_tag d) bs"

definition descriptor :: "dtype \<Rightarrow> nat \<Rightarrow> nat \<Rightarrow> val" where
  "descriptor d len index = VMap [(VStr ''dtype'', val_nat (dtype_code d)),
     (VStr ''len'', val_nat len), (VStr ''blob'', val_nat index)]"

fun lift_columns :: "val \<Rightarrow> bytes list \<Rightarrow> val \<times> bytes list"
  and lift_list :: "val list \<Rightarrow> bytes list \<Rightarrow> val list \<times> bytes list"
  and lift_fields :: "fields \<Rightarrow> bytes list \<Rightarrow> fields \<times> bytes list" where
  "lift_columns (VExt tag bs) blobs = (case from_ext_tag tag of
      Some d \<Rightarrow> (descriptor d (length bs div dtype_width d) (length blobs), blobs @ [bs])
    | None \<Rightarrow> (VExt tag bs, blobs))"
| "lift_columns (VArr items) blobs = (let (ys, b) = lift_list items blobs in (VArr ys, b))"
| "lift_columns (VMap fs) blobs = (let (gs, b) = lift_fields fs blobs in (VMap gs, b))"
| "lift_columns v blobs = (v, blobs)"
| "lift_list [] blobs = ([], blobs)"
| "lift_list (v # vs) blobs = (let (w, b) = lift_columns v blobs; (ws, c) = lift_list vs b
     in (w # ws, c))"
| "lift_fields [] blobs = ([], blobs)"
| "lift_fields ((k, v) # fs) blobs = (let (w, b) = lift_columns v blobs; (gs, c) = lift_fields fs b
     in ((k, w) # gs, c))"

definition blob_index :: "fields \<Rightarrow> nat option" where
  "blob_index fs =
     (if length fs \<noteq> 3 \<or> map_field ''dtype'' fs = None \<or> map_field ''len'' fs = None then None
      else (case map_field ''blob'' fs of None \<Rightarrow> None | Some v \<Rightarrow> val_as_u64 v))"

fun inline_walk :: "val \<Rightarrow> bytes list \<Rightarrow> val \<times> bytes list"
  and inline_list :: "val list \<Rightarrow> bytes list \<Rightarrow> val list \<times> bytes list"
  and inline_fields :: "fields \<Rightarrow> bytes list \<Rightarrow> fields \<times> bytes list" where
  "inline_walk (VMap fs) blobs = (case blob_index fs of
      Some i \<Rightarrow> (if i < length blobs then (VBin (blobs ! i), blobs[i := []])
                 else (let (gs, b) = inline_fields fs blobs in (VMap gs, b)))
    | None \<Rightarrow> (let (gs, b) = inline_fields fs blobs in (VMap gs, b)))"
| "inline_walk (VArr items) blobs = (let (ys, b) = inline_list items blobs in (VArr ys, b))"
| "inline_walk v blobs = (v, blobs)"
| "inline_list [] blobs = ([], blobs)"
| "inline_list (v # vs) blobs = (let (w, b) = inline_walk v blobs; (ws, c) = inline_list vs b
     in (w # ws, c))"
| "inline_fields [] blobs = ([], blobs)"
| "inline_fields ((k, v) # fs) blobs = (let (w, b) = inline_walk v blobs; (gs, c) = inline_fields fs b
     in ((k, w) # gs, c))"

definition inline_blobs :: "val \<Rightarrow> bytes list \<Rightarrow> val" where
  "inline_blobs v blobs = fst (inline_walk v blobs)"

text \<open>The message a reply is encoded as: its serialized fields, in order, absent ones skipped.\<close>

definition opt_field :: "string \<Rightarrow> val option \<Rightarrow> fields" where
  "opt_field name v = (case v of None \<Rightarrow> [] | Some x \<Rightarrow> [(VStr name, x)])"

definition reply_value :: "reply \<Rightarrow> val" where
  "reply_value r = VMap (opt_field ''tok'' (map_option val_nat (rp_tok r))
     @ [(VStr ''status'', VStr (status_name (rp_status r)))]
     @ opt_field ''value'' (rp_value r)
     @ opt_field ''detail'' (map_option VStr (rp_detail r)))"

definition reply_to_bytes :: "codec \<Rightarrow> reply \<Rightarrow> bytes option" where
  "reply_to_bytes cd r = write_value cd (reply_value r)"

definition to_wire :: "codec \<Rightarrow> reply \<Rightarrow> bytes option" where
  "to_wire cd r =
     (if rp_blobs r = [] then reply_to_bytes cd r
      else reply_to_bytes cd (r\<lparr>rp_value := map_option (\<lambda>v. inline_blobs v (rp_blobs r)) (rp_value r),
                                rp_blobs := []\<rparr>))"

definition salvage_token :: "codec \<Rightarrow> bytes \<Rightarrow> token option" where
  "salvage_token cd bs = (case read_value cd bs of None \<Rightarrow> None
     | Some (v, _) \<Rightarrow> (case val_as_map v of None \<Rightarrow> None
         | Some m \<Rightarrow> (case map_field ''tok'' m of None \<Rightarrow> None | Some t \<Rightarrow> val_as_u64 t)))"

section \<open>The lane's two ends\<close>

lemma dtype_tags [simp]: "from_ext_tag (ext_tag d) = Some d"
  by (cases d) (simp_all add: from_ext_tag_def ext_tag_def column_ext_base_def dtype_from_code_def)

text \<open>What a guest is meant to see: every column as its own bytes, all else as answered.\<close>

fun plain :: "val \<Rightarrow> val" where
  "plain (VExt tag bs) = (case from_ext_tag tag of Some _ \<Rightarrow> VBin bs | None \<Rightarrow> VExt tag bs)"
| "plain (VArr items) = VArr (map plain items)"
| "plain (VMap fs) = VMap (map (\<lambda>(k, v). (k, plain v)) fs)"
| "plain v = v"

fun columns_of :: "val \<Rightarrow> bytes list" where
  "columns_of (VExt tag bs) = (case from_ext_tag tag of Some _ \<Rightarrow> [bs] | None \<Rightarrow> [])"
| "columns_of (VArr items) = concat (map columns_of items)"
| "columns_of (VMap fs) = concat (map (\<lambda>(k, v). columns_of v) fs)"
| "columns_of v = []"

text \<open>An answer none of whose own maps has the shape of a descriptor.\<close>

fun no_descriptor :: "val \<Rightarrow> bool" where
  "no_descriptor (VArr items) = list_all no_descriptor items"
| "no_descriptor (VMap fs) = (blob_index fs = None \<and> list_all (\<lambda>(k, v). no_descriptor v) fs)"
| "no_descriptor v = True"

lemma lift_blobs:
  "snd (lift_columns v bl) = bl @ columns_of v"
  "snd (lift_list vs bl) = bl @ concat (map columns_of vs)"
  "snd (lift_fields fs bl) = bl @ concat (map (\<lambda>(k, v). columns_of v) fs)"
  by (induction v bl and vs bl and fs bl rule: lift_columns_lift_list_lift_fields.induct)
    (auto split: option.splits prod.splits)

lemma lift_u64: "val_as_u64 (fst (lift_columns v bl)) = val_as_u64 v"
  by (cases v) (simp_all add: case_prod_beta Let_def descriptor_def split: option.splits)

lemma lift_map_field:
  "map_option val_as_u64 (map_field k (fst (lift_fields fs bl))) = map_option val_as_u64 (map_field k fs)"
proof (induction fs arbitrary: bl)
  case (Cons e fs)
  then show ?case by (cases e) (simp add: case_prod_beta Let_def lift_u64)
qed simp

lemma lift_length: "length (fst (lift_fields fs bl)) = length fs"
proof (induction fs arbitrary: bl)
  case (Cons e fs)
  then show ?case by (cases e) (simp add: case_prod_beta Let_def)
qed simp

lemma lift_blob_index: "blob_index (fst (lift_fields fs bl)) = blob_index fs"
proof -
  let ?gs = "fst (lift_fields fs bl)"
  have n: "map_field k ?gs = None \<longleftrightarrow> map_field k fs = None" for k
    using lift_map_field [of k fs bl] by (metis option.map_disc_iff)
  have "(case map_field ''blob'' ?gs of None \<Rightarrow> None | Some v \<Rightarrow> val_as_u64 v) =
      (case map_field ''blob'' fs of None \<Rightarrow> None | Some v \<Rightarrow> val_as_u64 v)"
    using lift_map_field [of "''blob''" fs bl] by (auto split: option.splits)
  with n show ?thesis by (simp add: blob_index_def lift_length)
qed

lemma descriptor_index: "i \<le> u64_max \<Longrightarrow> \<exists>fs. descriptor d n i = VMap fs \<and> blob_index fs = Some i"
  by (auto simp: descriptor_def blob_index_def map_field_def ascii_valid ascii_def)

lemma walk_lifted:
  "no_descriptor v \<Longrightarrow> length E = length bl \<Longrightarrow> length bl + length (columns_of v) \<le> u64_max \<Longrightarrow>
   inline_walk (fst (lift_columns v bl)) (E @ columns_of v @ r) =
     (plain v, E @ map (\<lambda>_. []) (columns_of v) @ r)"
  "list_all no_descriptor vs \<Longrightarrow> length E = length bl \<Longrightarrow>
   length bl + length (concat (map columns_of vs)) \<le> u64_max \<Longrightarrow>
   inline_list (fst (lift_list vs bl)) (E @ concat (map columns_of vs) @ r) =
     (map plain vs, E @ map (\<lambda>_. []) (concat (map columns_of vs)) @ r)"
  "list_all (\<lambda>(k, v). no_descriptor v) fs \<Longrightarrow> length E = length bl \<Longrightarrow>
   length bl + length (concat (map (\<lambda>(k, v). columns_of v) fs)) \<le> u64_max \<Longrightarrow>
   inline_fields (fst (lift_fields fs bl)) (E @ concat (map (\<lambda>(k, v). columns_of v) fs) @ r) =
     (map (\<lambda>(k, v). (k, plain v)) fs,
      E @ map (\<lambda>_. []) (concat (map (\<lambda>(k, v). columns_of v) fs)) @ r)"
proof (induction v bl and vs bl and fs bl arbitrary: E r and E r and E r
    rule: lift_columns_lift_list_lift_fields.induct)
  case (1 tag bs bl)
  show ?case
  proof (cases "from_ext_tag tag")
    case (Some d)
    then have "length bl \<le> u64_max" using 1(3) by simp
    then obtain fs where "descriptor d (length bs div dtype_width d) (length bl) = VMap fs"
      "blob_index fs = Some (length bl)" using descriptor_index by blast
    then show ?thesis using Some 1(2) by (simp add: nth_append list_update_append)
  qed simp
next
  case (2 vs bl)
  then show ?case by (cases "lift_list vs bl") simp
next
  case (3 fs bl)
  then show ?case
    using lift_blob_index [of fs bl] by (cases "lift_fields fs bl") simp
next
  case (6 v vs bl)
  have a: "inline_walk (fst (lift_columns v bl)) (E @ columns_of v @ concat (map columns_of vs) @ r) =
     (plain v, E @ map (\<lambda>_. []) (columns_of v) @ concat (map columns_of vs) @ r)"
    using 6(3-) by (intro 6(1)) simp_all
  have "inline_list (fst (lift_list vs (bl @ columns_of v)))
      ((E @ map (\<lambda>_. []) (columns_of v)) @ concat (map columns_of vs) @ r) =
     (map plain vs, (E @ map (\<lambda>_. []) (columns_of v)) @ map (\<lambda>_. []) (concat (map columns_of vs)) @ r)"
    using 6(3-) by (intro 6(2) [OF refl prod.collapse, unfolded lift_blobs]) simp_all
  with a show ?case
    using lift_blobs(1) [of v bl]
    by (cases "lift_columns v bl"; cases "lift_list vs (bl @ columns_of v)") simp
next
  case (8 k v fs bl)
  let ?c = "concat (map (\<lambda>(k, v). columns_of v) fs)"
  have a: "inline_walk (fst (lift_columns v bl)) (E @ columns_of v @ ?c @ r) =
     (plain v, E @ map (\<lambda>_. []) (columns_of v) @ ?c @ r)"
    using 8(3-) by (intro 8(1)) simp_all
  have "inline_fields (fst (lift_fields fs (bl @ columns_of v)))
      ((E @ map (\<lambda>_. []) (columns_of v)) @ ?c @ r) =
     (map (\<lambda>(k, v). (k, plain v)) fs, (E @ map (\<lambda>_. []) (columns_of v)) @ map (\<lambda>_. []) ?c @ r)"
    using 8(3-) by (intro 8(2) [OF refl prod.collapse, unfolded lift_blobs]) simp_all
  with a show ?case
    using lift_blobs(1) [of v bl]
    by (cases "lift_columns v bl"; cases "lift_fields fs (bl @ columns_of v)") simp
qed simp_all

lemma walk_empty:
  "inline_walk w [] = (w, [])"
  "inline_list ws [] = (ws, [])"
  "inline_fields fs [] = (fs, [])"
  by (induction w "[] :: bytes list" and ws "[] :: bytes list" and fs "[] :: bytes list"
      rule: inline_walk_inline_list_inline_fields.induct)
    (auto split: option.splits prod.splits)

text \<open>
  The blob lane end to end: what \<open>to_wire\<close> encodes for an answer the dispatcher lifted is
  the connector's answer with each column replaced by its own bytes, in place, and the lane is
  never encoded.
\<close>

theorem lane_round_trip:
  assumes "no_descriptor v" and "length (columns_of v) \<le> u64_max"
    and "lift_columns v [] = (w, blobs)"
  shows "blobs = columns_of v \<and>
    to_wire cd ((reply_ok tok w)\<lparr>rp_blobs := blobs\<rparr>) = reply_to_bytes cd (reply_ok tok (plain v))"
proof
  show b: "blobs = columns_of v" using lift_blobs(1) [of v "[]"] assms(3) by simp
  have i: "inline_walk w blobs = (plain v, map (\<lambda>_. []) blobs)"
    using walk_lifted(1) [of v "[]" "[]" "[]"] assms b by simp
  have "w = plain v" if "blobs = []"
  proof -
    have "inline_walk w [] = (w, [])" by (rule walk_empty)
    with i that show ?thesis by simp
  qed
  with i show "to_wire cd ((reply_ok tok w)\<lparr>rp_blobs := blobs\<rparr>) =
      reply_to_bytes cd (reply_ok tok (plain v))"
    by (cases "blobs = []") (simp_all add: to_wire_def inline_blobs_def reply_ok_def)
qed

theorem lane_round_trip_witness:
  "\<forall>cd. to_wire cd ((reply_ok 4 (fst (lift_columns (VArr [column U8 [7, 9]]) [])))\<lparr>rp_blobs := [[7, 9]]\<rparr>) =
     reply_to_bytes cd (reply_ok 4 (VArr [VBin [7, 9]]))"
proof
  fix cd
  have l: "lift_columns (VArr [column U8 [7, 9]]) [] =
      (fst (lift_columns (VArr [column U8 [7, 9]]) []), [[7, 9]])"
    by (simp add: column_def)
  have "no_descriptor (VArr [column U8 [7, 9]])" by (simp add: column_def)
  moreover have "length (columns_of (VArr [column U8 [7, 9]])) \<le> u64_max" by (simp add: column_def)
  ultimately have "to_wire cd ((reply_ok 4 (fst (lift_columns (VArr [column U8 [7, 9]]) [])))\<lparr>rp_blobs := [[7, 9]]\<rparr>) =
      reply_to_bytes cd (reply_ok 4 (plain (VArr [column U8 [7, 9]])))"
    using lane_round_trip [OF _ _ l, where tok = 4 and cd = cd] by blast
  then show "to_wire cd ((reply_ok 4 (fst (lift_columns (VArr [column U8 [7, 9]]) [])))\<lparr>rp_blobs := [[7, 9]]\<rparr>) =
      reply_to_bytes cd (reply_ok 4 (VArr [VBin [7, 9]]))"
    by (simp only: plain.simps column_def dtype_tags list.map option.case)
qed

text \<open>Presence of value and detail is tied to the status.\<close>

definition reply_wf :: "reply \<Rightarrow> bool" where
  "reply_wf r \<longleftrightarrow> (rp_status r = SOk \<longleftrightarrow> rp_value r \<noteq> None) \<and>
     (rp_status r \<noteq> SOk \<longleftrightarrow> rp_detail r \<noteq> None) \<and>
     (rp_tok r = None \<longrightarrow> rp_status r = SMalformed)"

lemma reply_wf_constructors [simp]:
  "reply_wf (reply_ok t v)" "reply_wf (reply_denied t d)" "reply_wf (reply_error t d)"
  "reply_wf (reply_timed_out t d)" "reply_wf (reply_malformed mt d)"
  by (simp_all add: reply_wf_def reply_ok_def reply_denied_def reply_error_def reply_timed_out_def
      reply_malformed_def)

lemma rp_tok_constructors [simp]:
  "rp_tok (reply_ok t v) = Some t" "rp_tok (reply_denied t d) = Some t"
  "rp_tok (reply_error t d) = Some t" "rp_tok (reply_timed_out t d) = Some t"
  "rp_tok (reply_malformed mt d) = mt"
  by (simp_all add: reply_ok_def reply_denied_def reply_error_def reply_timed_out_def
      reply_malformed_def)

text \<open>
  Every reply the constructors build carries on the wire its token verbatim, its status
  word, and exactly one of an answer (when it is \<open>ok\<close>) and a reason (when it is not).
\<close>

theorem reply_on_the_wire:
  assumes "reply_wf r" and "reply_value r = VMap m" and "\<forall>t. rp_tok r = Some t \<longrightarrow> t \<le> u64_max"
    and "status_name (rp_status r) \<noteq> ''ok'' \<or> rp_status r = SOk"
  shows "map_field ''status'' m = Some (VStr (status_name (rp_status r))) \<and>
    (case map_field ''tok'' m of None \<Rightarrow> rp_tok r = None | Some v \<Rightarrow> val_as_u64 v = rp_tok r) \<and>
    map_field ''value'' m = rp_value r \<and>
    (map_field ''value'' m \<noteq> None \<longleftrightarrow> map_field ''status'' m = Some (VStr ''ok'')) \<and>
    (map_field ''detail'' m \<noteq> None \<longleftrightarrow> map_field ''value'' m = None)"
proof -
  have v: "utf8_valid ''tok''" "utf8_valid ''status''" "utf8_valid ''value''" "utf8_valid ''detail''"
    by (simp_all add: ascii_valid ascii_def)
  have m: "m = opt_field ''tok'' (map_option val_nat (rp_tok r))
     @ [(VStr ''status'', VStr (status_name (rp_status r)))]
     @ opt_field ''value'' (rp_value r) @ opt_field ''detail'' (map_option VStr (rp_detail r))"
    using assms(2) by (simp add: reply_value_def)
  show ?thesis
    using assms(1,3,4) v
    by (cases "rp_tok r"; cases "rp_value r"; cases "rp_detail r")
      (auto simp: m opt_field_def reply_wf_def status_name_def split: status.splits)
qed

theorem reply_on_the_wire_witness:
  "\<exists>m. reply_value (reply_denied 9 ''no'') = VMap m \<and> map_field ''value'' m = None"
proof -
  obtain m where m: "reply_value (reply_denied 9 ''no'') = VMap m" by (simp add: reply_value_def)
  have "map_field ''value'' m = rp_value (reply_denied 9 ''no'')"
    using reply_on_the_wire [OF _ m] by (simp add: reply_denied_def reply_wf_def status_name_def)
  with m show ?thesis by (auto simp: reply_denied_def)
qed

end
