(* ===== verification/Connector.thy ===== *)
theory Connector
  imports Hostcall Handles Caps
begin

text \<open>
  The dispatcher, \<^verbatim>\<open>crates/drt-connector/src/lib.rs\<close>: the registry of wired connectors,
  routing with its capability gate, the menu, grant requests, and the shaping of a
  connector's answer.  A connector is a record of its trait's methods; its call is a future
  \<open>'f\<close>, and what connectors keep between calls is the state \<open>'w\<close> their methods thread.
  The lemmas show that routing always answers or hands over exactly the call that was
  granted, that every answer carries the request's token, and how far the menu agrees with
  the gate.
\<close>

record call_error =
  ce_detail :: string
  ce_status :: status

definition call_error_new :: "string \<Rightarrow> call_error" where
  "call_error_new detail = \<lparr>ce_detail = detail, ce_status = SError\<rparr>"

definition call_error_timed_out :: "string \<Rightarrow> call_error" where
  "call_error_timed_out detail = \<lparr>ce_detail = detail, ce_status = STimeout\<rparr>"

datatype backing = Builtin | Plugin string

definition backing_kind :: "backing \<Rightarrow> string" where
  "backing_kind b = (case b of Builtin \<Rightarrow> ''builtin'' | Plugin _ \<Rightarrow> ''plugin'')"

definition backing_owner :: "backing \<Rightarrow> val" where
  "backing_owner b = (case b of Builtin \<Rightarrow> VNil | Plugin name \<Rightarrow> VStr name)"

record asker =
  ask_caller :: caller
  ask_grants :: "scope list"

record notice =
  nt_owner :: caller
  nt_queue :: string
  nt_message :: val

record ('f, 'w) connector =
  cn_scope_type :: scope_type
  cn_backing :: backing
  cn_call_as :: "asker \<Rightarrow> string \<Rightarrow> val option \<Rightarrow> scope option \<Rightarrow> 'f"
  cn_release :: "caller \<Rightarrow> 'w \<Rightarrow> string list \<times> 'w"
  cn_finish :: "'w \<Rightarrow> string list \<times> 'w"
  cn_ended :: "'w \<Rightarrow> (caller \<times> string) list \<times> 'w"
  cn_notices :: "'w \<Rightarrow> notice list \<times> 'w"

record ('f, 'w) wired =
  w_connector :: "('f, 'w) connector"
  w_scope :: "scope option"

type_synonym ('f, 'w) registry = "(string \<times> ('f, 'w) wired) list"

text \<open>A grant desk reads the ceiling and takes requests against the same state.\<close>

record 'w grant_desk =
  gd_ceiling :: "'w \<Rightarrow> string list"
  gd_request :: "string \<Rightarrow> val option \<Rightarrow> 'w \<Rightarrow> (string + val) \<times> 'w"

record ('f, 'w) dispatcher =
  dp_registry :: "('f, 'w) registry"
  dp_grants :: "'w grant_desk option"

record ('f, 'w) pending_call =
  pc_caller :: caller
  pc_grants :: "scope list"
  pc_tok :: token
  pc_call :: string
  pc_args :: "val option"
  pc_connector :: "('f, 'w) connector"
  pc_scope :: "scope option"

datatype ('f, 'w) routed = Answered reply | Call "('f, 'w) pending_call"

section \<open>The registry\<close>

definition wire ::
  "('f, 'w) registry \<Rightarrow> string \<Rightarrow> ('f, 'w) connector \<Rightarrow> scope option \<Rightarrow> scope_error + ('f, 'w) registry" where
  "wire reg family c sc =
     (let ty = cn_scope_type c in
      case st_validate ty sc of
        Inl detail \<Rightarrow> Inl \<lparr>se_capability = call_capability family, se_expected = st_describe ty,
                         se_detail = detail\<rparr>
      | Inr _ \<Rightarrow> Inr (bt_insert family \<lparr>w_connector = c, w_scope = sc\<rparr> reg))"

definition declare_scope_types :: "('f, 'w) registry \<Rightarrow> scope_registry \<Rightarrow> scope_registry" where
  "declare_scope_types reg scopes =
     foldl (\<lambda>s (family, w). declare_type (call_capability family) (cn_scope_type (w_connector w)) s)
       scopes reg"

definition family_of :: "string \<Rightarrow> string" where
  "family_of call = hd (split_char CHR ''/'' call)"

definition resolve :: "('f, 'w) registry \<Rightarrow> string \<Rightarrow> ('f, 'w) wired option" where
  "resolve reg call = bt_get reg (family_of call)"

section \<open>The dispatcher\<close>

definition dispatcher_new :: "('f, 'w) registry \<Rightarrow> ('f, 'w) dispatcher" where
  "dispatcher_new reg = \<lparr>dp_registry = reg, dp_grants = None\<rparr>"

definition with_grants :: "('f, 'w) dispatcher \<Rightarrow> 'w grant_desk \<Rightarrow> ('f, 'w) dispatcher" where
  "with_grants d desk = d\<lparr>dp_grants := Some desk\<rparr>"

text \<open>The four sweeps over the wired connectors, in name order.\<close>

fun sweep :: "(('f, 'w) connector \<Rightarrow> 'w \<Rightarrow> 'a list \<times> 'w) \<Rightarrow> ('f, 'w) registry \<Rightarrow> 'w \<Rightarrow> 'a list \<times> 'w" where
  "sweep f [] w = ([], w)"
| "sweep f ((family, c) # reg) w =
     (let (xs, w1) = f (w_connector c) w; (ys, w2) = sweep f reg w1 in (xs @ ys, w2))"

definition dp_finish :: "('f, 'w) dispatcher \<Rightarrow> 'w \<Rightarrow> string list \<times> 'w" where
  "dp_finish d = sweep cn_finish (dp_registry d)"

definition dp_release :: "('f, 'w) dispatcher \<Rightarrow> caller \<Rightarrow> 'w \<Rightarrow> string list \<times> 'w" where
  "dp_release d c = sweep (\<lambda>cn. cn_release cn c) (dp_registry d)"

definition dp_ended :: "('f, 'w) dispatcher \<Rightarrow> 'w \<Rightarrow> (caller \<times> string) list \<times> 'w" where
  "dp_ended d = sweep cn_ended (dp_registry d)"

definition dp_notices :: "('f, 'w) dispatcher \<Rightarrow> 'w \<Rightarrow> notice list \<times> 'w" where
  "dp_notices d = sweep cn_notices (dp_registry d)"

definition capabilities_list :: string where "capabilities_list = ''capabilities/list''"
definition request_grant_call :: string where "request_grant_call = ''capabilities/request_grant''"

definition under_family :: "string \<Rightarrow> string \<Rightarrow> bool" where
  "under_family family name =
     (name = call_capability family \<or> prefix (call_capability family @ ''/'') name)"

definition family_granted :: "capset \<Rightarrow> string \<Rightarrow> bool" where
  "family_granted caps family =
     (holds caps (call_capability family) \<or>
      list_ex (\<lambda>g. effect g = Grant \<and> under_family family (capability g)) (cs_grants caps))"

definition family_held :: "capset \<Rightarrow> string \<Rightarrow> val" where
  "family_held caps family =
     VArr (map (\<lambda>g. VMap [(VStr ''capability'', VStr (capability g)),
                          (VStr ''effect'', VStr (if effect g = Grant then ''grant'' else ''deny''))])
       (filter (\<lambda>g. under_family family (capability g)) (cs_grants caps)))"

definition within_ceiling :: "string list option \<Rightarrow> string \<Rightarrow> bool" where
  "within_ceiling limit family = (case limit of None \<Rightarrow> True
     | Some names \<Rightarrow>
         list_ex (\<lambda>n. under_family family n \<or> implies n (call_capability family)) names)"

definition menu_entry ::
  "capset \<Rightarrow> string list option \<Rightarrow> string \<Rightarrow> string \<Rightarrow> bool \<Rightarrow> backing \<Rightarrow> val" where
  "menu_entry caps limit name family is_granted b = VMap
     [(VStr ''name'', VStr name), (VStr ''kind'', VStr (backing_kind b)),
      (VStr ''owner'', backing_owner b), (VStr ''granted'', VBool is_granted),
      (VStr ''visibility'', VStr ''public''), (VStr ''held'', family_held caps family),
      (VStr ''within_ceiling'', VBool (within_ceiling limit family))]"

definition capabilities :: "('f, 'w) dispatcher \<Rightarrow> capset \<Rightarrow> 'w \<Rightarrow> val" where
  "capabilities d caps w =
     (let limit = map_option (\<lambda>desk. gd_ceiling desk w) (dp_grants d) in
      VArr (map (\<lambda>(family, wi). menu_entry caps limit family family (family_granted caps family)
                   (cn_backing (w_connector wi))) (dp_registry d)
        @ [menu_entry caps limit ''capabilities'' ''capabilities''
             (holds caps (call_capability capabilities_list)) Builtin]))"

definition request_grant ::
  "('f, 'w) dispatcher \<Rightarrow> capset \<Rightarrow> token \<Rightarrow> val option \<Rightarrow> 'w \<Rightarrow> reply \<times> 'w" where
  "request_grant d caps tok args w = (case dp_grants d of
     None \<Rightarrow> (reply_denied tok (''this process has no root to record a grant request in; ''
       @ CHR 0x60 # ''request_grant'' @ CHR 0x60 # '' needs a deployment, not a single program''), w)
   | Some desk \<Rightarrow> (case cs_holder caps of
       None \<Rightarrow> (reply_error tok
         ''this instance has no node path, so a grant request would have no subject'', w)
     | Some node \<Rightarrow> (case gd_request desk node args w of
         (Inr v, w') \<Rightarrow> (reply_ok tok v, w')
       | (Inl why, w') \<Rightarrow> (reply_error tok why, w'))))"

definition quoted :: "string \<Rightarrow> string" where
  "quoted s = CHR 0x27 # s @ [CHR 0x27]"

definition call_grants :: "capset \<Rightarrow> string \<Rightarrow> scope list" where
  "call_grants caps cap = List.map_filter scope
     (filter (\<lambda>g. effect g = Grant \<and> implies (capability g) cap) (cs_grants caps))"

text \<open>\<open>decode\<close> reads a request off the wire, or says why it could not.\<close>

definition route_as ::
  "codec \<Rightarrow> (bytes \<Rightarrow> string + request) \<Rightarrow> ('f, 'w) dispatcher \<Rightarrow> caller \<Rightarrow> capset \<Rightarrow> bytes \<Rightarrow> 'w
   \<Rightarrow> ('f, 'w) routed \<times> 'w" where
  "route_as cd decode d caller caps raw w = (case decode raw of
     Inl e \<Rightarrow> (Answered (reply_malformed (salvage_token cd raw) (''unreadable request: '' @ e)), w)
   | Inr req \<Rightarrow>
     (let cap = call_capability (rq_call req) in
      if \<not> holds caps cap then
        (Answered (reply_denied (rq_tok req)
           (quoted (rq_call req) @ '' is outside this instance'' @ CHR 0x27 # ''s grants'')), w)
      else if rq_call req = capabilities_list then
        (Answered (reply_ok (rq_tok req) (capabilities d caps w)), w)
      else if rq_call req = request_grant_call then
        (let (r, w') = request_grant d caps (rq_tok req) (rq_args req) w in (Answered r, w'))
      else (case resolve (dp_registry d) (rq_call req) of
          None \<Rightarrow> (Answered (reply_denied (rq_tok req)
            (''no connector is wired for '' @ quoted (rq_call req) @ '' in this process'')), w)
        | Some wi \<Rightarrow> (Call \<lparr>pc_caller = caller, pc_grants = call_grants caps cap,
            pc_tok = rq_tok req, pc_call = rq_call req, pc_args = rq_args req,
            pc_connector = w_connector wi, pc_scope = w_scope wi\<rparr>, w))))"

text \<open>The future of an answer, and the reply its result is shaped into.\<close>

definition pending_future :: "('f, 'w) pending_call \<Rightarrow> 'f" where
  "pending_future pc = cn_call_as (pc_connector pc)
     \<lparr>ask_caller = pc_caller pc, ask_grants = pc_grants pc\<rparr> (pc_call pc) (pc_args pc) (pc_scope pc)"

definition answer_reply :: "token \<Rightarrow> call_error + val \<Rightarrow> reply" where
  "answer_reply tok res = (case res of
     Inr v \<Rightarrow> (let (v', blobs) = lift_columns v [] in (reply_ok tok v')\<lparr>rp_blobs := blobs\<rparr>)
   | Inl e \<Rightarrow> (if ce_status e = STimeout then reply_timed_out tok (ce_detail e)
              else reply_error tok (ce_detail e)))"

section \<open>The mock backing\<close>

type_synonym mock = "(string \<times> val) list"

definition mock_answer :: "mock \<Rightarrow> string \<Rightarrow> val \<Rightarrow> mock" where
  "mock_answer m call v = bt_insert call v m"

definition mock_call :: "mock \<Rightarrow> string \<Rightarrow> call_error + val" where
  "mock_call m call = (case bt_get m call of Some v \<Rightarrow> Inr v
     | None \<Rightarrow> Inl (call_error_new (''the mock has no answer for '' @ quoted call)))"

text \<open>As a connector: it is ready at once, so its future is its result.\<close>

definition mock_connector :: "backing \<Rightarrow> mock \<Rightarrow> (call_error + val, 'w) connector" where
  "mock_connector b m = \<lparr>cn_scope_type = no_scope, cn_backing = b,
     cn_call_as = (\<lambda>_ call _ _. mock_call m call), cn_release = (\<lambda>_ w. ([], w)),
     cn_finish = (\<lambda>w. ([], w)), cn_ended = (\<lambda>w. ([], w)), cn_notices = (\<lambda>w. ([], w))\<rparr>"

section \<open>Routing\<close>

lemma map_filter_scopes:
  "set (call_grants caps cap) =
   {s. \<exists>g\<in>set (cs_grants caps). effect g = Grant \<and> implies (capability g) cap \<and> scope g = Some s}"
  by (force simp: call_grants_def List.map_filter_def)

lemma request_grant_wf:
  "request_grant d caps tok args w = (r, w') \<Longrightarrow> reply_wf r \<and> rp_tok r = Some tok"
  by (auto simp: request_grant_def split: option.splits prod.splits sum.splits)

lemma route_answered_cases:
  assumes "route_as cd decode d caller caps raw w = (Answered r, w')"
  shows "(case decode raw of
      Inl e \<Rightarrow> r = reply_malformed (salvage_token cd raw) (''unreadable request: '' @ e)
    | Inr req \<Rightarrow> reply_wf r \<and> rp_tok r = Some (rq_tok req))"
  using assms
  by (auto simp: route_as_def Let_def request_grant_wf split: sum.splits if_splits option.splits prod.splits)

text \<open>
  C39. The gate: a call is handed to a connector only when the request decoded, the instance
  holds its capability and its family is wired, with the wiring's scope, the caller of the
  routing step and exactly the scopes of the grants that permit it.
\<close>

theorem only_granted_calls_reach_a_connector:
  assumes "route_as cd decode d caller caps raw w = (Call pc, w')"
  shows "\<exists>req wi. decode raw = Inr req \<and> holds caps (call_capability (rq_call req)) \<and>
    bt_get (dp_registry d) (family_of (rq_call req)) = Some wi \<and>
    rq_call req \<notin> {capabilities_list, request_grant_call} \<and>
    pc_connector pc = w_connector wi \<and> pc_scope pc = w_scope wi \<and> pc_caller pc = caller \<and>
    pc_tok pc = rq_tok req \<and> pc_call pc = rq_call req \<and> pc_args pc = rq_args req \<and>
    set (pc_grants pc) = {s. \<exists>g\<in>set (cs_grants caps). effect g = Grant \<and>
      implies (capability g) (call_capability (rq_call req)) \<and> scope g = Some s} \<and> w' = w"
  using assms
  by (auto simp: route_as_def Let_def resolve_def map_filter_scopes
      split: sum.splits if_splits option.splits prod.splits)

definition time_registry :: "(call_error + val, unit) registry" where
  "time_registry = [(''time'', \<lparr>w_connector = mock_connector Builtin [(''time'', VInt 17)], w_scope = None\<rparr>)]"

definition time_request :: "bytes \<Rightarrow> string + request" where
  "time_request raw = (if raw = [1] then Inr \<lparr>rq_tok = 7, rq_call = ''time'', rq_args = None\<rparr>
     else Inl ''not a map'')"

definition toy_codec :: codec where
  "toy_codec = \<lparr>write_value = (\<lambda>_. Some []), read_value = (\<lambda>_. None)\<rparr>"

lemma time_routed:
  "route_as toy_codec time_request (dispatcher_new time_registry) (CNode 3)
     (root_set [grant_of ''host:time'']) [1] () =
   (Call \<lparr>pc_caller = CNode 3, pc_grants = [], pc_tok = 7, pc_call = ''time'', pc_args = None,
      pc_connector = mock_connector Builtin [(''time'', VInt 17)], pc_scope = None\<rparr>, ())"
  by (simp add: route_as_def time_request_def dispatcher_new_def time_registry_def root_set_def
      grant_of_def holds_def grants_holds_def implies_def call_capability_def capabilities_list_def
      request_grant_call_def resolve_def family_of_def bt_get_def call_grants_def List.map_filter_def)

theorem only_granted_calls_reach_a_connector_witness:
  "holds (root_set [grant_of ''host:time'']) (call_capability ''time'')"
  using only_granted_calls_reach_a_connector [OF time_routed] by (auto simp: time_request_def)

text \<open>
  Every drained request is answered, once, under its own token: routing either replies
  (for bytes that do not decode, \<open>malformed\<close> with whatever token is readable) or hands over a
  call, and whatever the connector answers, that reply carries the request's token.  A connector
  can say \<open>ok\<close>, \<open>error\<close> and \<open>timeout\<close>; \<open>denied\<close> is never its to say.
\<close>

theorem every_request_is_answered:
  "(case fst (route_as cd decode d caller caps raw w) of
      Answered r \<Rightarrow> reply_wf r \<and>
        rp_tok r = (case decode raw of Inl _ \<Rightarrow> salvage_token cd raw | Inr req \<Rightarrow> Some (rq_tok req))
    | Call pc \<Rightarrow> (\<exists>req. decode raw = Inr req \<and>
        rp_tok (answer_reply (pc_tok pc) res) = Some (rq_tok req) \<and>
        rp_status (answer_reply (pc_tok pc) res) \<in> {SOk, SError, STimeout}))"
proof (cases "route_as cd decode d caller caps raw w")
  case (Pair x w')
  show ?thesis
  proof (cases x)
    case (Answered r)
    then show ?thesis
      using route_answered_cases [of cd decode d caller caps raw w r w'] Pair
      by (auto split: sum.splits)
  next
    case (Call pc)
    have "rp_tok (answer_reply t res) = Some t" for t
      by (auto simp: answer_reply_def reply_ok_def split: sum.splits prod.splits)
    moreover have "rp_status (answer_reply t res) \<in> {SOk, SError, STimeout}" for t
      by (auto simp: answer_reply_def reply_ok_def reply_error_def reply_timed_out_def
          split: sum.splits prod.splits)
    moreover have "\<exists>req. decode raw = Inr req \<and> pc_tok pc = rq_tok req"
      using Pair Call
      by (auto simp: route_as_def Let_def split: sum.splits if_splits option.splits prod.splits)
    ultimately show ?thesis using Pair Call by auto
  qed
qed

text \<open>
  A refusal names what was missing and touches nothing: without the capability the call
  is denied whatever is wired, and a call that is granted but not wired is denied too.
\<close>

theorem refusals:
  assumes "decode raw = Inr req"
  shows "(\<not> holds caps (call_capability (rq_call req)) \<longrightarrow>
      (\<exists>why. route_as cd decode d caller caps raw w = (Answered (reply_denied (rq_tok req) why), w))) \<and>
    (holds caps (call_capability (rq_call req)) \<and>
      rq_call req \<notin> {capabilities_list, request_grant_call} \<longrightarrow>
      ((\<exists>why. route_as cd decode d caller caps raw w = (Answered (reply_denied (rq_tok req) why), w)) \<longleftrightarrow>
       bt_get (dp_registry d) (family_of (rq_call req)) = None))"
  using assms by (auto simp: route_as_def Let_def resolve_def split: option.splits)

theorem refusals_witness:
  "\<exists>why. route_as toy_codec time_request (dispatcher_new time_registry) CRoot (root_set []) [1] () =
     (Answered (reply_denied 7 why), ())"
proof -
  have "time_request [1] = Inr \<lparr>rq_tok = 7, rq_call = ''time'', rq_args = None\<rparr>"
    by (simp add: time_request_def)
  moreover have "\<not> holds (root_set []) (call_capability ''time'')"
    by (simp add: holds_def grants_holds_def root_set_def)
  ultimately show ?thesis using refusals [of time_request "[1]"] by fastforce
qed

section \<open>The registry's promises\<close>

definition registry_ok :: "('f, 'w) registry \<Rightarrow> bool" where
  "registry_ok reg \<longleftrightarrow> bt_ok reg \<and>
     (\<forall>(f, wi)\<in>set reg. st_validate (cn_scope_type (w_connector wi)) (w_scope wi) = Inr ())"

lemma registry_ok_wire: "registry_ok reg \<Longrightarrow> wire reg f c sc = Inr reg' \<Longrightarrow> registry_ok reg'"
  by (auto simp: registry_ok_def wire_def Let_def set_bt_insert bt_ok_insert split: sum.splits)

lemma family_of_member:
  "CHR ''/'' \<notin> set f \<Longrightarrow> family_of (f @ CHR ''/'' # rest) = f"
  "CHR ''/'' \<notin> set f \<Longrightarrow> family_of f = f"
proof -
  assume f: "CHR ''/'' \<notin> set f"
  then have "split_char CHR ''/'' (f @ CHR ''/'' # rest) = f # split_char CHR ''/'' rest"
    by (induction f) auto
  then show "family_of (f @ CHR ''/'' # rest) = f" by (simp add: family_of_def)
  from f show "family_of f = f" by (simp add: family_of_def split_char_no)
qed

text \<open>
  Wiring: an ill-scoped wiring fails by the capability's name and wires nothing; a
  successful one answers its family's calls, with its scope, and no other family changes.
\<close>

theorem wire_outcome:
  assumes "registry_ok reg" and "CHR ''/'' \<notin> set family"
  shows "case wire reg family c sc of
      Inl e \<Rightarrow> se_capability e = ''host:'' @ family \<and> st_validate (cn_scope_type c) sc = Inl (se_detail e)
    | Inr reg' \<Rightarrow> registry_ok reg' \<and>
        resolve reg' family = Some \<lparr>w_connector = c, w_scope = sc\<rparr> \<and>
        resolve reg' (family @ CHR ''/'' # rest) = Some \<lparr>w_connector = c, w_scope = sc\<rparr> \<and>
        (family_of call \<noteq> family \<longrightarrow> resolve reg' call = resolve reg call)"
proof (cases "wire reg family c sc")
  case (Inl e)
  then show ?thesis by (auto simp: wire_def Let_def call_capability_def split: sum.splits)
next
  case (Inr reg')
  have ok: "bt_ok reg" using assms(1) by (simp add: registry_ok_def)
  have "reg' = bt_insert family \<lparr>w_connector = c, w_scope = sc\<rparr> reg"
    using Inr by (auto simp: wire_def Let_def split: sum.splits)
  then show ?thesis
    using registry_ok_wire [OF assms(1) Inr] family_of_member [OF assms(2)] Inr
    by (simp add: resolve_def bt.get_ins [OF ok])
qed

theorem wire_outcome_witness:
  "case wire time_registry ''fs'' (mock_connector Builtin []) None of
     Inl _ \<Rightarrow> False
   | Inr reg \<Rightarrow> resolve reg ''fs/read'' = Some \<lparr>w_connector = mock_connector Builtin [], w_scope = None\<rparr>"
proof -
  have "registry_ok time_registry"
    by (simp add: registry_ok_def time_registry_def mock_connector_def no_scope_def)
  moreover have "CHR ''/'' \<notin> set ''fs''" by simp
  moreover have "\<exists>reg. wire time_registry ''fs'' (mock_connector Builtin []) None = Inr reg"
    by (simp add: wire_def mock_connector_def no_scope_def)
  ultimately show ?thesis
    using wire_outcome [of time_registry "''fs''" "mock_connector Builtin []" None "''read''" "''fs''"]
    by auto
qed

section \<open>The menu against the gate\<close>

lemma prefix_split_at:
  "prefix p (h @ c # t) \<Longrightarrow> prefix p h \<or> prefix (h @ [c]) p"
  by (auto simp: prefix_append prefix_Cons)

lemma reachable_grant:
  assumes "implies (capability g) (call_capability (family @ CHR ''/'' # rest))"
  shows "implies (capability g) (call_capability family) \<or> under_family family (capability g)"
proof (cases "is_pattern (capability g)")
  case True
  then obtain p where p: "p \<noteq> []" "capability g = p @ ''*''" by (auto simp: is_pattern_split)
  then have "prefix p (call_capability family @ CHR ''/'' # rest)"
    using assms by (simp add: implies_pattern call_capability_def)
  from prefix_split_at [OF this]
  consider "prefix p (call_capability family)" | "prefix (call_capability family @ ''/'') p"
    by (elim disjE)
  then show ?thesis
  proof cases
    case 2
    then have "prefix (call_capability family @ ''/'') (capability g)" using p(2) by (simp add: prefix_prefix)
    then show ?thesis by (simp add: under_family_def)
  qed (simp add: p implies_pattern)
next
  case False
  then show ?thesis using assms by (auto simp: implies_literal under_family_def call_capability_def)
qed

text \<open>
  The menu lists a family as granted whenever a call in it would get through the gate,
  provided no deny covers the family's own name.
\<close>

theorem menu_lists_reachable_families:
  assumes "holds caps (call_capability (family @ CHR ''/'' # rest))"
    and "\<forall>g\<in>set (cs_grants caps). effect g = Deny \<longrightarrow> \<not> implies (capability g) (call_capability family)"
  shows "family_granted caps family"
  using assms reachable_grant by (fastforce simp: family_granted_def holds_iff list_ex_iff)

theorem menu_lists_reachable_families_witness:
  "family_granted (root_set [grant_of ''host:fs/read'']) ''fs''"
  using menu_lists_reachable_families [of "root_set [grant_of ''host:fs/read'']" "''fs''" "''read''"]
  by (simp add: holds_def grants_holds_def root_set_def grant_of_def implies_def call_capability_def)

text \<open>
  Outside that proviso the menu drifts from the gate, both ways: an instance granted
  everything but the bare name of a family is told the family is not granted while its calls go
  through, and one whose only grant in a family is wholly denied is told it is granted.
\<close>

theorem menu_can_disagree_with_the_gate:
  "\<exists>c1 c2. \<not> family_granted c1 ''fs'' \<and> holds c1 (call_capability ''fs/read'') \<and>
     family_granted c2 ''fs'' \<and> (\<forall>rest. \<not> holds c2 (call_capability (''fs/'' @ rest))) \<and>
     \<not> holds c2 (call_capability ''fs'')"
proof (intro exI conjI allI)
  let ?c1 = "root_set [grant_of ''host:*'', deny_of ''host:fs'']"
  let ?c2 = "root_set [grant_of ''host:fs/read'', deny_of ''host:fs/*'']"
  show "\<not> family_granted ?c1 ''fs''" "holds ?c1 (call_capability ''fs/read'')"
    "family_granted ?c2 ''fs''" "\<not> holds ?c2 (call_capability ''fs'')"
    by (simp_all add: family_granted_def under_family_def holds_def grants_holds_def root_set_def
        grant_of_def deny_of_def implies_def call_capability_def)
  fix rest
  have "implies ''host:fs/*'' (call_capability (''fs/'' @ rest))"
    using implies_pattern [of "''host:fs/''"] by (simp add: call_capability_def)
  then show "\<not> holds ?c2 (call_capability (''fs/'' @ rest))"
    by (simp add: holds_iff root_set_def grant_of_def deny_of_def)
qed

end
