(* ===== verification/Identity.thy ===== *)
theory Identity
  imports Msg_Value Wire_Ints
begin

unbundle bit_operations_syntax

text \<open>
  Who and where: ids (\<^verbatim>\<open>crates/drt-config/src/id.rs\<close>), node paths and their
  qualified form (\<^verbatim>\<open>crates/drt-config/src/project.rs\<close>), peers, queue addresses and
  senders (\<^verbatim>\<open>crates/drt-config/src/peer.rs\<close>).  Texts are byte strings; a
  \<open>uuid7\<close> is its sixteen bytes.
\<close>

section \<open>Ids\<close>

datatype uuid7 = Uuid7 (uuid_bytes: bytes)

datatype bad_uuid7 = Shape string | NotLowercase string | WrongVersion string nat

definition uuid_mint :: "64 word \<Rightarrow> bytes \<Rightarrow> uuid7" where
  "uuid_mint unix_ms random =
     (let b = drop 2 (be_bytes 8 (unat unix_ms)) @ random;
          b = b[6 := (b ! 6 AND 0x0F) OR 0x70];
          b = b[8 := (b ! 8 AND 0x3F) OR 0x80]
      in Uuid7 b)"

definition uuid_unix_ms :: "uuid7 \<Rightarrow> nat" where
  "uuid_unix_ms u = from_be ([0, 0] @ take 6 (uuid_bytes u))"

definition hex_val :: "char \<Rightarrow> nat option" where
  "hex_val c = (let n = of_char c in
     if 48 \<le> n \<and> n \<le> 57 then Some (n - 48)
     else if 97 \<le> n \<and> n \<le> 102 then Some (n - 87)
     else if 65 \<le> n \<and> n \<le> 70 then Some (n - 55)
     else None)"

fun hex_digits :: "nat \<Rightarrow> string \<Rightarrow> nat option" where
  "hex_digits acc [] = Some acc"
| "hex_digits acc (c # cs) =
     (case hex_val c of None \<Rightarrow> None | Some d \<Rightarrow> hex_digits (16 * acc + d) cs)"

text \<open>
  \<^verbatim>\<open>u8::from_str_radix(_, 16)\<close>: the empty text and a lone sign are errors, one
  leading \<open>+\<close> is accepted, a value over 255 is an error.
\<close>

definition u8_from_hex :: "string \<Rightarrow> 8 word option" where
  "u8_from_hex s =
     (let ds = (case s of [] \<Rightarrow> [] | c # cs \<Rightarrow> if c = CHR ''+'' \<and> cs \<noteq> [] then cs else s) in
      if ds = [] then None
      else (case hex_digits 0 ds of None \<Rightarrow> None
            | Some n \<Rightarrow> if n \<le> 255 then Some (byte_of n) else None))"

definition is_ascii_uppercase :: "char \<Rightarrow> bool" where
  "is_ascii_uppercase c \<longleftrightarrow> (let n = of_char c :: nat in 65 \<le> n \<and> n \<le> 90)"

definition parse_pair :: "string \<Rightarrow> string \<Rightarrow> bad_uuid7 + 8 word" where
  "parse_pair text pair =
     (if \<not> utf8_valid pair then Inl (Shape text)
      else if list_ex is_ascii_uppercase pair then Inl (NotLowercase text)
      else (case u8_from_hex pair of None \<Rightarrow> Inl (Shape text) | Some b \<Rightarrow> Inr b))"

fun chunks2 :: "string \<Rightarrow> string list" where
  "chunks2 [] = []"
| "chunks2 [a] = [[a]]"
| "chunks2 (a # b # r) = [a, b] # chunks2 r"

fun parse_pairs :: "string \<Rightarrow> string list \<Rightarrow> bad_uuid7 + bytes" where
  "parse_pairs text [] = Inr []"
| "parse_pairs text (p # ps) = (case parse_pair text p of Inl e \<Rightarrow> Inl e
     | Inr b \<Rightarrow> (case parse_pairs text ps of Inl e \<Rightarrow> Inl e | Inr bs \<Rightarrow> Inr (b # bs)))"

text \<open>The groups of the text against their expected lengths; what is left over is returned.\<close>

fun parse_groups :: "string \<Rightarrow> nat list \<Rightarrow> string list \<Rightarrow> bad_uuid7 + bytes \<times> string list" where
  "parse_groups text [] groups = Inr ([], groups)"
| "parse_groups text (expected # es) [] = Inl (Shape text)"
| "parse_groups text (expected # es) (g # gs) =
     (if length g \<noteq> expected then Inl (Shape text)
      else (case parse_pairs text (chunks2 g) of Inl e \<Rightarrow> Inl e
        | Inr bs \<Rightarrow> (case parse_groups text es gs of Inl e \<Rightarrow> Inl e
            | Inr (bs', rest) \<Rightarrow> Inr (bs @ bs', rest))))"

definition uuid_parse :: "string \<Rightarrow> bad_uuid7 + uuid7" where
  "uuid_parse text = (case parse_groups text [8, 4, 4, 4, 12] (split_char CHR ''-'' text) of
     Inl e \<Rightarrow> Inl e
   | Inr (bs, rest) \<Rightarrow>
       if rest \<noteq> [] then Inl (Shape text)
       else (let version = drop_bit 4 (bs ! 6) in
         if version \<noteq> 7 then Inl (WrongVersion text (unat version)) else Inr (Uuid7 bs)))"

definition hex_char :: "nat \<Rightarrow> char" where
  "hex_char n = (if n < 10 then char_of (48 + n) else char_of (87 + n))"

definition show_hex2 :: "8 word \<Rightarrow> string" where
  "show_hex2 b = [hex_char (unat b div 16), hex_char (unat b mod 16)]"

fun show_uuid_from :: "nat \<Rightarrow> bytes \<Rightarrow> string" where
  "show_uuid_from i [] = []"
| "show_uuid_from i (b # bs) =
     (if i \<in> {4, 6, 8, 10} then ''-'' else '''') @ show_hex2 b @ show_uuid_from (Suc i) bs"

definition show_uuid :: "uuid7 \<Rightarrow> string" where
  "show_uuid u = show_uuid_from 0 (uuid_bytes u)"

text \<open>The invariant of the type: sixteen bytes, version 7.\<close>

definition uuid_ok :: "uuid7 \<Rightarrow> bool" where
  "uuid_ok u \<longleftrightarrow> length (uuid_bytes u) = 16 \<and> drop_bit 4 (uuid_bytes u ! 6) = 7"

lemma hex_char_code: "n < 16 \<Longrightarrow> of_char (hex_char n) = (if n < 10 then 48 + n else 87 + n :: nat)"
  by (simp add: hex_char_def)

lemma hex_char_neq:
  "n < 16 \<Longrightarrow> hex_char n \<noteq> CHR ''-''"
  "n < 16 \<Longrightarrow> hex_char n \<noteq> CHR ''+''"
  "n < 16 \<Longrightarrow> hex_char n \<noteq> CHR ''/''"
  by (auto dest: arg_cong [where f = "of_char :: char \<Rightarrow> nat"] simp: hex_char_code split: if_splits)

lemma hex_val_hex_char [simp]: "n < 16 \<Longrightarrow> hex_val (hex_char n) = Some n"
  by (auto simp: hex_val_def hex_char_code)

lemma hex_char_lower: "n < 16 \<Longrightarrow> \<not> is_ascii_uppercase (hex_char n)"
  by (auto simp: is_ascii_uppercase_def hex_char_code)

lemma nibbles: "unat (b :: 8 word) div 16 < 16" "unat b mod 16 < 16"
  using unat_byte_less [of b] by (auto simp: less_mult_imp_div_less)

lemma parse_pair_show: "parse_pair text (show_hex2 b) = Inr b"
proof -
  have "ascii (show_hex2 b)"
    using nibbles [of b] by (auto simp: ascii_def show_hex2_def hex_char_code)
  then have "utf8_valid (show_hex2 b)" by (rule ascii_valid)
  moreover have "u8_from_hex (show_hex2 b) = Some b"
    using nibbles [of b] unat_byte_less [of b]
    by (simp add: u8_from_hex_def show_hex2_def hex_char_neq Let_def)
  ultimately show ?thesis
    using nibbles [of b] by (simp add: parse_pair_def show_hex2_def hex_char_lower)
qed

lemma chunks2_hex: "chunks2 (show_hex2 b @ r) = show_hex2 b # chunks2 r"
  by (simp add: show_hex2_def)

lemma parse_pairs_show: "parse_pairs text (chunks2 (concat (map show_hex2 bs))) = Inr bs"
  by (induction bs) (simp_all add: chunks2_hex parse_pair_show)

lemma show_hex2_chars: "c \<in> set (show_hex2 b) \<Longrightarrow> c \<noteq> CHR ''-'' \<and> c \<noteq> CHR ''/''"
  using nibbles [of b] by (auto simp: show_hex2_def hex_char_neq)

lemma show_hex2_list_chars:
  "CHR ''-'' \<notin> set (concat (map show_hex2 bs))" "CHR ''/'' \<notin> set (concat (map show_hex2 bs))"
  by (auto dest: show_hex2_chars)

lemma show_uuid_groups:
  assumes "length bs = 16"
  shows "show_uuid_from 0 bs =
     (((concat (map show_hex2 (take 4 bs)) @ CHR ''-'' # concat (map show_hex2 (take 2 (drop 4 bs))))
       @ CHR ''-'' # concat (map show_hex2 (take 2 (drop 6 bs))))
       @ CHR ''-'' # concat (map show_hex2 (take 2 (drop 8 bs))))
       @ CHR ''-'' # concat (map show_hex2 (drop 10 bs))"
proof -
  from assms obtain a0 a1 a2 a3 a4 a5 a6 a7 a8 a9 aa ab ac ad ae af where
    "bs = [a0, a1, a2, a3, a4, a5, a6, a7, a8, a9, aa, ab, ac, ad, ae, af]"
    by (auto simp: numeral_eq_Suc length_Suc_conv)
  then show ?thesis by simp
qed

lemma length_concat_hex: "length (concat (map show_hex2 bs)) = 2 * length bs"
  by (induction bs) (auto simp: show_hex2_def)

lemma uuid_parse_show:
  assumes "uuid_ok u"
  shows "uuid_parse (show_uuid u) = Inr u"
proof -
  obtain bs where u: "u = Uuid7 bs" by (cases u)
  then have len: "length bs = 16" and v: "drop_bit 4 (bs ! 6) = 7"
    using assms by (simp_all add: uuid_ok_def)
  have split: "split_char CHR ''-'' (show_uuid u) =
      map (\<lambda>b. concat (map show_hex2 b)) [take 4 bs, take 2 (drop 4 bs), take 2 (drop 6 bs),
        take 2 (drop 8 bs), drop 10 bs]"
    unfolding show_uuid_def u uuid7.sel show_uuid_groups [OF len]
    by (simp only: split_char_append split_char_no show_hex2_list_chars not_False_eq_True) simp
  have "take 4 bs @ take 2 (drop 4 bs) @ take 2 (drop 6 bs) @ take 2 (drop 8 bs) @ drop 10 bs = bs"
    using append_take_drop_id [of 2 "drop 4 bs"] append_take_drop_id [of 2 "drop 6 bs"]
      append_take_drop_id [of 2 "drop 8 bs"] by simp
  then show ?thesis
    using v len unfolding uuid_parse_def split
    by (simp add: parse_pairs_show length_concat_hex u)
qed

text \<open>
  The text of an id parses back to it: every sixteen bytes of version 7, minted or
  read, survive the trip.
\<close>

theorem uuid_round_trip:
  assumes "uuid_ok u"
  shows "uuid_parse (show_uuid u) = Inr u"
  using assms by (rule uuid_parse_show)

theorem uuid_round_trip_witness:
  "uuid_parse (show_uuid (Uuid7 [0,0,0,0,0,0,0x7A,0,0,0,0,0,0,0,0,0xFF])) =
   Inr (Uuid7 [0,0,0,0,0,0,0x7A,0,0,0,0,0,0,0,0,0xFF])"
  by (rule uuid_round_trip) (simp add: uuid_ok_def)

lemma parse_pairs_length: "parse_pairs text ps = Inr bs \<Longrightarrow> length bs = length ps"
  by (induction ps arbitrary: bs) (auto split: sum.splits)

lemma chunks2_length: "length (chunks2 s) = (length s + 1) div 2"
  by (induction s rule: chunks2.induct) auto

lemma parse_groups_length:
  "parse_groups text es gs = Inr (bs, rest) \<Longrightarrow> \<forall>e\<in>set es. even e \<Longrightarrow>
   2 * length bs = sum_list es \<and> length gs = length es + length rest \<and>
   map length (take (length es) gs) = es"
proof (induction es arbitrary: gs bs rest)
  case (Cons e es)
  then obtain g gs' where g: "gs = g # gs'" by (cases gs) auto
  with Cons.prems obtain xs ys where
    p: "length g = e" "parse_pairs text (chunks2 g) = Inr xs"
      "parse_groups text es gs' = Inr (ys, rest)" "bs = xs @ ys"
    by (auto split: if_splits sum.splits)
  moreover have "2 * length xs = e"
    using parse_pairs_length [OF p(2)] p(1) Cons.prems(2) by (auto simp: chunks2_length)
  ultimately show ?case using Cons.IH [OF p(3)] Cons.prems(2) g by auto
qed simp

lemma uuid_parse_ok: "uuid_parse text = Inr u \<Longrightarrow> uuid_ok u"
  by (auto simp: uuid_parse_def uuid_ok_def Let_def split: sum.splits prod.splits if_splits
      dest!: parse_groups_length)

lemma nth_splice: "length a = n \<Longrightarrow> (a @ b) ! (n + i) = b ! i"
  by (simp add: nth_append)

lemma high_nibble_7: "drop_bit 4 ((x AND 0x0F) OR 0x70 :: 8 word) = 7"
  by (simp add: drop_bit_or drop_bit_and)

lemma uuid_mint_bytes:
  assumes "length r = 10"
  shows "uuid_bytes (uuid_mint ms r) = drop 2 (be_bytes 8 (unat ms)) @
     r[0 := (r ! 0 AND 0x0F) OR 0x70, 2 := (r ! 2 AND 0x3F) OR 0x80]"
  using assms by (simp add: uuid_mint_def list_update_append nth_append Let_def del: be_bytes.simps)

lemma be_bytes_split:
  "be_bytes (m + n) v = be_bytes m (v div 256 ^ n) @ be_bytes n v"
  by (induction n arbitrary: v) (simp_all add: div_mult2_eq)

lemma drop_be_bytes: "drop 2 (be_bytes 8 v) = be_bytes 6 v"
  using be_bytes_split [of 2 6 v] by (simp del: be_bytes.simps)

lemma be_bytes_mod: "be_bytes n (v mod 256 ^ n) = be_bytes n v"
  using be_from_be [of "be_bytes n v"]
proof (induction n arbitrary: v)
  case (Suc n)
  have "v mod 256 ^ Suc n div 256 = v div 256 mod 256 ^ n"
    by (simp add: mod_mult2_eq mult.commute)
  moreover have "byte_of (v mod 256 ^ Suc n) = byte_of v"
    by (rule word_unat_eq_iff [THEN iffD2]) (simp add: mod_mod_cancel)
  ultimately show ?case using Suc.IH [OF be_from_be [of "be_bytes n _"]] by simp
qed simp

lemma from_be_be_mod: "from_be (be_bytes n v) = v mod 256 ^ n"
  by (metis be_bytes_mod from_be_bytes mod_less_divisor zero_less_numeral zero_less_power)

lemma lex_append_less:
  fixes xs ys :: "bytes"
  shows "length xs = length ys \<Longrightarrow> xs < ys \<Longrightarrow> xs @ us < ys @ vs"
  by (induction xs ys rule: list_induct2) auto

lemma lex_snoc_less:
  fixes xs ys :: "bytes"
  assumes "length xs = length ys" and "xs < ys \<or> (xs = ys \<and> a < b)"
  shows "xs @ [a] < ys @ [b]"
  using assms by (induction xs ys rule: list_induct2) auto

lemma be_bytes_mono: "u < v \<Longrightarrow> v < 256 ^ n \<Longrightarrow> be_bytes n u < be_bytes n v"
proof (induction n arbitrary: u v)
  case (Suc n)
  have v: "v div 256 < 256 ^ n" using Suc.prems by (simp add: less_mult_imp_div_less mult.commute)
  consider "u div 256 < v div 256" | "u div 256 = v div 256" "u mod 256 < v mod 256"
    using Suc.prems(1) by (metis div_le_mono le_neq_implies_less less_imp_le mod_less_divisor
        mult_div_mod_eq nat_add_left_cancel_less zero_less_numeral)
  then show ?case
  proof cases
    case 1
    then show ?thesis using Suc.IH [OF 1 v] by (simp add: lex_snoc_less)
  next
    case 2
    then have "byte_of u < byte_of v" by (simp add: word_less_nat_alt)
    with 2 show ?thesis by (simp add: lex_snoc_less)
  qed
qed simp

text \<open>
  Minting: the id is well formed whatever the caller's randomness, its time reads back
  (to 48 bits), and ids minted at increasing times compare in that order.
\<close>

theorem uuid_mint_time_ordered:
  assumes "length r = 10" and "length r' = 10"
  shows "uuid_ok (uuid_mint ms r) \<and> uuid_unix_ms (uuid_mint ms r) = unat ms mod 2 ^ 48 \<and>
    (ms < ms' \<and> unat ms' < 2 ^ 48 \<longrightarrow>
      uuid_bytes (uuid_mint ms r) < uuid_bytes (uuid_mint ms' r'))"
proof -
  have b: "uuid_bytes (uuid_mint ms r) = be_bytes 6 (unat ms) @
      r[0 := (r ! 0 AND 0x0F) OR 0x70, 2 := (r ! 2 AND 0x3F) OR 0x80]" if "length r = 10" for ms r
    using uuid_mint_bytes [OF that] by (simp add: drop_be_bytes del: be_bytes.simps)
  have "from_be ([0, 0] @ be_bytes 6 v) = from_be (be_bytes 6 v)" for v
    by (simp add: from_be_def)
  then have "uuid_unix_ms (uuid_mint ms r) = unat ms mod 2 ^ 48"
    using from_be_be_mod [of 6 "unat ms"] assms(1)
    by (simp add: uuid_unix_ms_def b del: be_bytes.simps)
  moreover have "uuid_ok (uuid_mint ms r)"
    using assms(1) by (simp add: uuid_ok_def b nth_append high_nibble_7 del: be_bytes.simps)
  moreover have "uuid_bytes (uuid_mint ms r) < uuid_bytes (uuid_mint ms' r')"
    if "ms < ms'" "unat ms' < 2 ^ 48"
    using that be_bytes_mono [of "unat ms" "unat ms'" 6] assms
    by (simp add: b word_less_nat_alt lex_append_less del: be_bytes.simps)
  ultimately show ?thesis by blast
qed

theorem uuid_mint_time_ordered_witness:
  "uuid_bytes (uuid_mint 1000 (replicate 10 0xFF)) < uuid_bytes (uuid_mint 2000 (replicate 10 0))"
  using uuid_mint_time_ordered [of "replicate 10 0xFF" "replicate 10 0" 1000 2000] by simp

text \<open>
  Parsing is not one to one: a digit pair may be spelled with a leading plus, so two texts
  of 36 characters, both without an uppercase letter, read as the same id.
\<close>

theorem uuid_two_spellings:
  "uuid_parse ''01919191-0000-7000-8000-00000000000f'' =
     uuid_parse ''01919191-0000-7000-8000-0000000000+f'' \<and>
   (\<exists>u. uuid_parse ''01919191-0000-7000-8000-0000000000+f'' = Inr u)"
proof -
  have "uuid_parse ''01919191-0000-7000-8000-00000000000f'' =
      Inr (Uuid7 [1, 0x91, 0x91, 0x91, 0, 0, 0x70, 0, 0x80, 0, 0, 0, 0, 0, 0, 0xF])"
    by code_simp
  moreover have "uuid_parse ''01919191-0000-7000-8000-0000000000+f'' =
      Inr (Uuid7 [1, 0x91, 0x91, 0x91, 0, 0, 0x70, 0, 0x80, 0, 0, 0, 0, 0, 0, 0xF])"
    by code_simp
  ultimately show ?thesis by simp
qed

end
