(* ===== verification/Node_Paths.thy ===== *)
theory Node_Paths
  imports Identity
begin

text \<open>
  Node paths (\<^verbatim>\<open>NodePath\<close>, \<^verbatim>\<open>QualifiedNode\<close> of
  \<^verbatim>\<open>crates/drt-config/src/project.rs\<close>), and the vocabulary of addressing built on
  them (\<^verbatim>\<open>crates/drt-config/src/peer.rs\<close>).  A path is its text; \<open>is_node_path\<close> is
  the inductive set of what the root and \<open>node_child\<close> can build, and the parser accepts
  exactly that set.
\<close>

type_synonym node_path = string

definition root_node :: node_path where "root_node = ''root''"

definition reserved_names :: "string list" where
  "reserved_names = [''drt'', ''init'', ''live'', ''log'', ''profile'', ''state'']"

definition to_lower :: "char \<Rightarrow> char" where
  "to_lower c = (let n = of_char c :: nat in if 65 \<le> n \<and> n \<le> 90 then char_of (n + 32) else c)"

definition eq_ignore_ascii_case :: "string \<Rightarrow> string \<Rightarrow> bool" where
  "eq_ignore_ascii_case a b \<longleftrightarrow> map to_lower a = map to_lower b"

definition is_reserved :: "string \<Rightarrow> bool" where
  "is_reserved name = list_ex (\<lambda>r. eq_ignore_ascii_case r name) reserved_names"

datatype bad_node_path = NotRooted string | EmptySegment | Reserved string | Separator string

definition check_segment :: "string \<Rightarrow> bad_node_path + unit" where
  "check_segment name =
     (if name = [] then Inl EmptySegment
      else if is_reserved name then Inl (Reserved name)
      else if CHR ''/'' \<in> set name \<or> CHR 0x5C \<in> set name then Inl (Separator name)
      else Inr ())"

definition node_child :: "node_path \<Rightarrow> string \<Rightarrow> bad_node_path + node_path" where
  "node_child self name = (case check_segment name of Inl e \<Rightarrow> Inl e
     | Inr _ \<Rightarrow> Inr (self @ CHR ''/'' # name))"

definition node_segments :: "node_path \<Rightarrow> string list" where
  "node_segments self = split_char CHR ''/'' self"

definition node_parent :: "node_path \<Rightarrow> node_path option" where
  "node_parent self = map_option fst (rsplit_once CHR ''/'' self)"

fun check_segments :: "string list \<Rightarrow> bad_node_path + unit" where
  "check_segments [] = Inr ()"
| "check_segments (s # ss) = (case check_segment s of Inl e \<Rightarrow> Inl e | Inr _ \<Rightarrow> check_segments ss)"

definition node_parse :: "string \<Rightarrow> bad_node_path + node_path" where
  "node_parse text = (case split_char CHR ''/'' text of
     [] \<Rightarrow> Inl (NotRooted text)
   | s # segments \<Rightarrow>
       if s \<noteq> root_node then Inl (NotRooted text)
       else (case check_segments segments of Inl e \<Rightarrow> Inl e | Inr _ \<Rightarrow> Inr text))"

record qualified_node =
  q_root_id :: uuid7
  q_node :: node_path

datatype bad_qualified_node = NotQualified string | BadRoot string bad_uuid7 | BadNode bad_node_path

definition show_qualified :: "qualified_node \<Rightarrow> string" where
  "show_qualified q = show_uuid (q_root_id q) @ CHR ''/'' # q_node q"

definition qualified_parse :: "string \<Rightarrow> bad_qualified_node + qualified_node" where
  "qualified_parse text = (case split_once CHR ''/'' text of
     None \<Rightarrow> Inl (NotQualified text)
   | Some (head, rest) \<Rightarrow>
       (case uuid_parse head of Inl e \<Rightarrow> Inl (BadRoot head e)
        | Inr root_id \<Rightarrow>
            (case node_parse rest of Inl e \<Rightarrow> Inl (BadNode e)
             | Inr node \<Rightarrow> Inr \<lparr>q_root_id = root_id, q_node = node\<rparr>)))"

section \<open>Peers, addresses, senders\<close>

definition sender_key :: string where "sender_key = ''from''"

datatype peer_ref = PeerRoot uuid7 | PeerPlugin string | PeerRuntime

definition peer_is_root :: "peer_ref \<Rightarrow> uuid7 \<Rightarrow> bool" where
  "peer_is_root p i = (case p of PeerRoot r \<Rightarrow> r = i | _ \<Rightarrow> False)"

definition show_peer :: "peer_ref \<Rightarrow> string" where
  "show_peer p = (case p of PeerRoot r \<Rightarrow> ''root '' @ show_uuid r
     | PeerPlugin n \<Rightarrow> ''plugin '' @ CHR 0x27 # n @ [CHR 0x27]
     | PeerRuntime \<Rightarrow> ''this runtime, which has no root'')"

record queue_address =
  qa_peer :: "peer_ref option"
  qa_queue :: string

definition local_address :: "string \<Rightarrow> queue_address" where
  "local_address queue = \<lparr>qa_peer = None, qa_queue = queue\<rparr>"

definition address_on :: "peer_ref \<Rightarrow> string \<Rightarrow> queue_address" where
  "address_on peer queue = \<lparr>qa_peer = Some peer, qa_queue = queue\<rparr>"

record peer_unsupported =
  pu_peer :: string
  pu_queue :: string

definition deliverable :: "queue_address \<Rightarrow> peer_unsupported + string" where
  "deliverable a = (case qa_peer a of None \<Rightarrow> Inr (qa_queue a)
     | Some peer \<Rightarrow> Inl \<lparr>pu_peer = show_peer peer, pu_queue = qa_queue a\<rparr>)"

record sender =
  snd_peer :: peer_ref
  snd_node :: node_path

definition sender_local :: "uuid7 \<Rightarrow> node_path \<Rightarrow> sender" where
  "sender_local root_id node = \<lparr>snd_peer = PeerRoot root_id, snd_node = node\<rparr>"

definition sender_runtime :: "node_path \<Rightarrow> sender" where
  "sender_runtime node = \<lparr>snd_peer = PeerRuntime, snd_node = node\<rparr>"

definition sender_value :: "sender \<Rightarrow> val" where
  "sender_value s =
     (let peer = (case snd_peer s of
          PeerRoot r \<Rightarrow> [(VStr ''kind'', VStr ''root''), (VStr ''root_id'', VStr (show_uuid r))]
        | PeerPlugin n \<Rightarrow> [(VStr ''kind'', VStr ''plugin''), (VStr ''name'', VStr n)]
        | PeerRuntime \<Rightarrow> [(VStr ''kind'', VStr ''runtime'')])
      in VMap [(VStr ''peer'', VMap peer), (VStr ''node'', VStr (snd_node s))])"

section \<open>What the root and its children can be\<close>

inductive is_node_path :: "node_path \<Rightarrow> bool" where
  np_root: "is_node_path root_node"
| np_child: "is_node_path p \<Longrightarrow> node_child p n = Inr q \<Longrightarrow> is_node_path q"

lemma check_segment_ok:
  "check_segment n = Inr () \<longleftrightarrow>
   n \<noteq> [] \<and> \<not> is_reserved n \<and> CHR ''/'' \<notin> set n \<and> CHR 0x5C \<notin> set n"
  by (simp add: check_segment_def)

lemma node_child_Inr:
  "node_child p n = Inr q \<longleftrightarrow> check_segment n = Inr () \<and> q = p @ CHR ''/'' # n"
  by (auto simp: node_child_def split: sum.splits)

lemma check_segments_ok: "check_segments ss = Inr () \<longleftrightarrow> (\<forall>s\<in>set ss. check_segment s = Inr ())"
  by (induction ss) (auto split: sum.splits)

lemma node_parse_Inr:
  "node_parse t = Inr q \<longleftrightarrow>
   q = t \<and> (\<exists>ss. split_char CHR ''/'' t = root_node # ss \<and> (\<forall>s\<in>set ss. check_segment s = Inr ()))"
  by (auto simp: node_parse_def check_segments_ok [symmetric] split: list.splits sum.splits)

lemma split_char_front: "c \<notin> set h \<Longrightarrow> split_char c (h @ c # t) = h # split_char c t"
  by (induction h) auto

fun join_slash :: "string list \<Rightarrow> string" where
  "join_slash [] = []"
| "join_slash [s] = s"
| "join_slash (s # t # ss) = s @ CHR ''/'' # join_slash (t # ss)"

lemma join_split: "join_slash (split_char CHR ''/'' t) = t"
proof (induction t)
  case (Cons c t)
  then show ?case by (cases "split_char CHR ''/'' t" rule: join_slash.cases) auto
qed simp

lemma join_snoc: "ss \<noteq> [] \<Longrightarrow> join_slash (ss @ [s]) = join_slash ss @ CHR ''/'' # s"
  by (induction ss rule: join_slash.induct) auto

lemma join_is_path: "\<forall>s\<in>set ss. check_segment s = Inr () \<Longrightarrow> is_node_path (join_slash (root_node # ss))"
proof (induction ss rule: rev_induct)
  case (snoc s ss)
  then have "node_child (join_slash (root_node # ss)) s = Inr (join_slash (root_node # ss @ [s]))"
    using join_snoc [of "root_node # ss" s] by (simp add: node_child_Inr)
  with snoc show ?case by (auto intro: np_child)
qed (simp add: np_root)

lemma split_of_path: "is_node_path p \<Longrightarrow> \<exists>ss. split_char CHR ''/'' p = root_node # ss \<and>
    (\<forall>s\<in>set ss. check_segment s = Inr ())"
proof (induction rule: is_node_path.induct)
  case np_root
  then show ?case by (simp add: root_node_def)
next
  case (np_child p n q)
  then show ?case
    by (auto simp: node_child_Inr check_segment_ok split_char_append)
qed

lemma node_parse_iff: "node_parse t = Inr q \<longleftrightarrow> q = t \<and> is_node_path t"
  using join_split [of t] join_is_path split_of_path unfolding node_parse_Inr by metis

text \<open>
  Derived, not declared: the texts the parser accepts are exactly the paths built from
  the root node by \<open>child\<close>, each unchanged.
\<close>

theorem node_parse_iff_built: "node_parse t = Inr q \<longleftrightarrow> q = t \<and> is_node_path t"
  by (rule node_parse_iff)

lemma path_is_nonempty: "is_node_path p \<Longrightarrow> p \<noteq> []"
  by (induction rule: is_node_path.induct) (auto simp: root_node_def node_child_Inr)

lemma path_rooted: "is_node_path p \<Longrightarrow> p = root_node \<or> (\<exists>r. p = root_node @ CHR ''/'' # r)"
  by (induction rule: is_node_path.induct) (auto simp: node_child_Inr)

lemma node_parent_child: "node_child p n = Inr q \<Longrightarrow> node_parent q = Some p"
  by (auto simp: node_child_Inr check_segment_ok node_parent_def rsplit_once_append)

text \<open>
  A child's path names its parent and its own name: the parent reads back off it, two
  children with one path are one child of one parent, and the root node is nobody's child.
\<close>

theorem child_determines_parent:
  assumes "node_child p n = Inr q"
  shows "node_parent q = Some p \<and> last (node_segments q) = n \<and> q \<noteq> root_node \<and>
    (node_child p' n' = Inr q \<longrightarrow> p' = p \<and> n' = n)"
proof -
  have last: "last (node_segments r) = m" if "node_child o1 m = Inr r" for o1 m r
    using that by (auto simp: node_child_Inr check_segment_ok node_segments_def split_char_append)
  have "CHR ''/'' \<in> set q" using assms by (auto simp: node_child_Inr)
  then have "q \<noteq> root_node" by (auto simp: root_node_def)
  moreover have "p' = p \<and> n' = n" if "node_child p' n' = Inr q"
    using node_parent_child [OF that] node_parent_child [OF assms] last [OF that] last [OF assms] by simp
  ultimately show ?thesis using node_parent_child [OF assms] last [OF assms] by simp
qed

theorem child_determines_parent_witness: "node_parent ''root/intake'' = Some ''root''"
proof -
  have "node_child ''root'' ''intake'' = Inr ''root/intake''" by code_simp
  from child_determines_parent [OF this] show ?thesis by blast
qed

section \<open>The qualified form\<close>

lemma show_uuid_no_slash: "length (uuid_bytes u) = 16 \<Longrightarrow> CHR ''/'' \<notin> set (show_uuid u)"
  by (cases u) (auto simp: show_uuid_def show_uuid_groups dest: show_hex2_chars)

lemma show_uuid_length: "length (uuid_bytes u) = 16 \<Longrightarrow> length (show_uuid u) = 36"
  by (cases u) (simp add: show_uuid_def show_uuid_groups length_concat_hex)

lemma show_uuid_inj: "uuid_ok u \<Longrightarrow> uuid_ok v \<Longrightarrow> show_uuid u = show_uuid v \<Longrightarrow> u = v"
  by (metis sum.inject(2) uuid_parse_show)

text \<open>
  The qualified form of every node of every root parses back to both parts, and the two
  spellings cannot be confused: a qualified path is no node path, a node path no qualified one.
\<close>

theorem qualified_round_trip:
  assumes "uuid_ok (q_root_id q)" and "is_node_path (q_node q)"
  shows "qualified_parse (show_qualified q) = Inr q \<and>
    (\<forall>r. node_parse (show_qualified q) \<noteq> Inr r) \<and>
    (\<forall>r'. qualified_parse (q_node q) \<noteq> Inr r')"
proof (intro conjI allI)
  have l: "length (uuid_bytes (q_root_id q)) = 16" using assms(1) by (simp add: uuid_ok_def)
  note ns = show_uuid_no_slash [OF l] and len = show_uuid_length [OF l]
  have "node_parse (q_node q) = Inr (q_node q)" using assms(2) by (simp add: node_parse_iff)
  then show "qualified_parse (show_qualified q) = Inr q"
    by (simp add: qualified_parse_def show_qualified_def split_once_append ns
        uuid_parse_show assms(1))
  fix r :: node_path and r' :: qualified_node
  have "show_uuid (q_root_id q) \<noteq> root_node" using len by (auto simp: root_node_def)
  then show "node_parse (show_qualified q) \<noteq> Inr r"
    by (simp add: node_parse_Inr show_qualified_def split_char_front ns)
  have "uuid_parse root_node = Inl (Shape root_node)" by code_simp
  moreover have "CHR ''/'' \<notin> set root_node" by (simp add: root_node_def)
  ultimately show "qualified_parse (q_node q) \<noteq> Inr r'"
    using path_rooted [OF assms(2)]
    by (auto simp: qualified_parse_def split_once_append) (simp add: split_once_def)
qed

theorem qualified_round_trip_witness:
  "qualified_parse (show_qualified \<lparr>q_root_id = Uuid7 [0,0,0,0,0,0,0x7A,0,0,0,0,0,0,0,0,0xFF],
     q_node = root_node\<rparr>) =
   Inr \<lparr>q_root_id = Uuid7 [0,0,0,0,0,0,0x7A,0,0,0,0,0,0,0,0,0xFF], q_node = root_node\<rparr>"
  using qualified_round_trip [of "\<lparr>q_root_id = Uuid7 [0,0,0,0,0,0,0x7A,0,0,0,0,0,0,0,0,0xFF],
     q_node = root_node\<rparr>"] np_root by (simp add: uuid_ok_def)

text \<open>A sender is well formed when a root it names has an id of the type.\<close>

definition sender_ok :: "sender \<Rightarrow> bool" where
  "sender_ok s \<longleftrightarrow> (\<forall>r. snd_peer s = PeerRoot r \<longrightarrow> uuid_ok r)"

text \<open>
  What a delivered message says of its sender is faithful: two senders that render to one
  value are the same sender; and an address is deliverable exactly when it names no peer.
\<close>

theorem sender_value_faithful:
  assumes "sender_ok s" and "sender_ok s'"
  shows "(sender_value s = sender_value s' \<longleftrightarrow> s = s') \<and>
    (deliverable a = Inr q \<longleftrightarrow> a = local_address q)"
  using assms
  by (cases s; cases s'; cases a)
    (auto simp: sender_value_def sender_ok_def deliverable_def local_address_def
      dest: show_uuid_inj split: peer_ref.splits option.splits)

theorem sender_value_faithful_witness:
  "sender_value (sender_runtime root_node) \<noteq>
   sender_value (sender_local (Uuid7 [0,0,0,0,0,0,0x7A,0,0,0,0,0,0,0,0,0xFF]) root_node)"
  using sender_value_faithful [of "sender_runtime root_node"
      "sender_local (Uuid7 [0,0,0,0,0,0,0x7A,0,0,0,0,0,0,0,0,0xFF]) root_node"]
  by (simp add: sender_ok_def sender_runtime_def sender_local_def uuid_ok_def)

end
