(* ===== verification/Messages.thy ===== *)
theory Messages
  imports Node_Paths Inst_Config
begin

text \<open>
  What the swarm reads out of a lifecycle request and writes into a delivered message: the
  field readers, the path of a child, the sender attached to a map, and the clamped detail
  (the second half of \<^verbatim>\<open>crates/drt-swarm/src/swarm.rs\<close>).  The msgpack encoder and
  decoder are the fields of a \<open>codec\<close>; the header bytes are the source's own.
\<close>

definition max_caps :: nat where "max_caps = 32"
definition max_cap_len :: nat where "max_cap_len = 96"
definition max_event_detail :: nat where "max_event_detail = 191"
definition inbox :: string where "inbox = ''inbox''"

section \<open>Reading a request\<close>

definition read_request :: "codec \<Rightarrow> bytes \<Rightarrow> val option" where
  "read_request cd msg = map_option fst (read_value cd msg)"

definition field :: "val \<Rightarrow> string \<Rightarrow> val option" where
  "field request key = (case val_as_map request of None \<Rightarrow> None | Some m \<Rightarrow> map_field key m)"

definition derive_path :: "node_path \<Rightarrow> string option \<Rightarrow> nat \<Rightarrow> bad_node_path + node_path" where
  "derive_path parent requested i = (case requested of
     Some name \<Rightarrow> node_child parent name
   | None \<Rightarrow> node_child parent (show_nat i))"

definition field_str :: "val \<Rightarrow> string \<Rightarrow> string option" where
  "field_str request key = (case field request key of Some (VStr s) \<Rightarrow> Some (utf8_lossy s) | _ \<Rightarrow> None)"

definition field_bytes :: "val \<Rightarrow> string \<Rightarrow> string option" where
  "field_bytes request key = (case field request key of Some (VStr s) \<Rightarrow> Some s | _ \<Rightarrow> None)"

definition field_int :: "val \<Rightarrow> string \<Rightarrow> nat option" where
  "field_int request key = (case field request key of
     Some (VInt n) \<Rightarrow> val_as_u64 (VInt n)
   | Some (VF64 f) \<Rightarrow> if flt_nonneg f \<and> flt_less f 1000000000000000000 then Some (flt_as_u64 f) else None
   | Some (VF32 f) \<Rightarrow> if flt_nonneg f then Some (flt_as_u64 f) else None
   | _ \<Rightarrow> None)"

definition field_id :: "val \<Rightarrow> string \<Rightarrow> nat option" where
  "field_id request key = (case field_int request key of None \<Rightarrow> None
     | Some v \<Rightarrow> if v = 0 \<or> v > u32_max then None else Some v)"

definition field_bool :: "val \<Rightarrow> string \<Rightarrow> bool" where
  "field_bool request key \<longleftrightarrow> field request key = Some (VBool True)"

definition field_budget :: "val \<Rightarrow> budget" where
  "field_budget request =
     (let instr = field_int request ''instructions''; mem = field_int request ''memory_kb'' in
      case field request ''budget'' of
        Some nested \<Rightarrow>
          (if val_is_map nested
           then \<lparr>instructions = or_else (field_int nested ''instructions'') instr,
                 memory_kb = or_else (field_int nested ''memory_kb'') mem\<rparr>
           else \<lparr>instructions = instr, memory_kb = mem\<rparr>)
      | None \<Rightarrow> \<lparr>instructions = instr, memory_kb = mem\<rparr>)"

definition field_numeric :: "val \<Rightarrow> numeric" where
  "field_numeric request = (case field request ''numeric'' of
     None \<Rightarrow> numeric_default
   | Some block \<Rightarrow>
       (if \<not> val_is_map block then numeric_default
        else \<lparr>max_elements = field_int block ''max_elements'',
              max_tier = (case field block ''max_tier'' of None \<Rightarrow> None
                | Some v \<Rightarrow> (case val_as_str v of None \<Rightarrow> None | Some s \<Rightarrow> tier_parse s))\<rparr>))"

fun cap_names :: "val list \<Rightarrow> string list option" where
  "cap_names [] = Some []"
| "cap_names (entry # es) = (case entry of
     VStr s \<Rightarrow> (if s = [] \<or> length s \<ge> max_cap_len then None
               else map_option (\<lambda>ns. utf8_lossy s # ns) (cap_names es))
   | _ \<Rightarrow> None)"

text \<open>\<open>None\<close> is the malformed answer.\<close>

definition field_caps :: "val \<Rightarrow> string list option" where
  "field_caps request = (case field request ''caps'' of
     None \<Rightarrow> Some []
   | Some v \<Rightarrow> (case val_as_map v of
       Some m \<Rightarrow> if m = [] then Some [] else None
     | None \<Rightarrow> (case val_as_array v of
         None \<Rightarrow> None
       | Some entries \<Rightarrow> if length entries > max_caps then None else cap_names entries)))"

fun check_each_name :: "grant list \<Rightarrow> string + unit" where
  "check_each_name [] = Inr ()"
| "check_each_name (g # gs) =
     (let n = length (capability g) in
      if n = 0 \<or> n \<ge> max_cap_len
      then Inl (''a capability name of '' @ show_nat n @ '' characters is not usable'')
      else check_each_name gs)"

definition check_grant_names :: "grant list \<Rightarrow> string + unit" where
  "check_grant_names gs =
     (if length gs > max_caps
      then Inl (''a capability set of '' @ show_nat (length gs) @ '' is beyond the ''
                 @ show_nat max_caps @ '' this layer holds'')
      else check_each_name gs)"

section \<open>The sender of a delivered message\<close>

definition sender_key_bytes :: bytes where
  "sender_key_bytes = [0xA4, 0x66, 0x72, 0x6F, 0x6D]"

definition map_header :: "bytes \<Rightarrow> (nat \<times> nat) option" where
  "map_header msg = (case msg of [] \<Rightarrow> None
     | b # _ \<Rightarrow>
        (if 0x80 \<le> b \<and> b \<le> 0x8F then Some (unat b - 0x80, 1)
         else if b = 0xDE then (if length msg < 3 then None else Some (from_be (take 2 (drop 1 msg)), 3))
         else if b = 0xDF then (if length msg < 5 then None else Some (from_be (take 4 (drop 1 msg)), 5))
         else None))"

definition write_map_header :: "nat \<Rightarrow> bytes" where
  "write_map_header count =
     (if count \<le> 15 then [byte_of (0x80 + count)]
      else if count \<le> 0xFFFF then 0xDE # be_bytes 2 count
      else 0xDF # be_bytes 4 count)"

definition contains :: "bytes \<Rightarrow> bytes \<Rightarrow> bool" where
  "contains haystack needle \<longleftrightarrow> sublist needle haystack"

definition sat_succ_u32 :: "nat \<Rightarrow> nat" where
  "sat_succ_u32 n = min u32_max (n + 1)"

fun write_pairs :: "codec \<Rightarrow> fields \<Rightarrow> bytes option" where
  "write_pairs cd [] = Some []"
| "write_pairs cd ((k, v) # ps) = (case write_value cd k of None \<Rightarrow> None
     | Some kb \<Rightarrow> (case write_value cd v of None \<Rightarrow> None
         | Some vb \<Rightarrow> map_option (\<lambda>r. kb @ vb @ r) (write_pairs cd ps)))"

definition is_sender_entry :: "val \<times> val \<Rightarrow> bool" where
  "is_sender_entry e \<longleftrightarrow> val_as_str (fst e) = Some sender_key"

definition rebuild_without_forged_sender :: "codec \<Rightarrow> bytes \<Rightarrow> bytes \<Rightarrow> bytes" where
  "rebuild_without_forged_sender cd msg encoded_pair = (case read_value cd msg of
     Some (VMap pairs, _) \<Rightarrow>
       (let kept = filter (\<lambda>e. \<not> is_sender_entry e) pairs in
        case write_pairs cd kept of
          None \<Rightarrow> msg
        | Some body \<Rightarrow> write_map_header (sat_succ_u32 (length kept mod 2 ^ 32)) @ encoded_pair @ body)
   | _ \<Rightarrow> msg)"

definition attach_sender :: "codec \<Rightarrow> bytes \<Rightarrow> sender \<Rightarrow> bytes" where
  "attach_sender cd msg from = (case map_header msg of
     None \<Rightarrow> msg
   | Some (count, body_at) \<Rightarrow> (case write_value cd (sender_value from) of
       None \<Rightarrow> msg
     | Some sv \<Rightarrow>
        (let encoded = sender_key_bytes @ sv in
         if contains msg sender_key_bytes then rebuild_without_forged_sender cd msg encoded
         else write_map_header (sat_succ_u32 count) @ encoded @ drop body_at msg)))"

fun back_to_boundary :: "string \<Rightarrow> nat \<Rightarrow> nat" where
  "back_to_boundary s 0 = 0"
| "back_to_boundary s (Suc e) = (if is_char_boundary s (Suc e) then Suc e else back_to_boundary s e)"

definition clamp_utf8 :: "string \<Rightarrow> nat \<Rightarrow> string" where
  "clamp_utf8 s m = (if length s \<le> m then s else take (back_to_boundary s m) s)"

section \<open>Clamping a detail\<close>

lemma back_to_boundary_le: "back_to_boundary s m \<le> m"
  by (induction m) auto

lemma back_to_boundary_ok: "is_char_boundary s (back_to_boundary s m)"
  by (induction m) (auto simp: is_char_boundary_def)

lemma back_to_boundary_max: "is_char_boundary s e \<Longrightarrow> e \<le> m \<Longrightarrow> e \<le> back_to_boundary s m"
  by (induction m) (auto simp: le_Suc_eq)

text \<open>
  A clamped detail is valid UTF-8, a prefix of the original, within the limit, and the
  longest such prefix that ends on a character boundary.
\<close>

theorem clamp_utf8_longest_valid_prefix:
  assumes "utf8_valid s"
  shows "utf8_valid (clamp_utf8 s m) \<and> prefix (clamp_utf8 s m) s \<and> length (clamp_utf8 s m) \<le> m \<and>
    (\<forall>e \<le> m. is_char_boundary s e \<and> e \<le> length s \<longrightarrow> e \<le> length (clamp_utf8 s m))"
proof (cases "length s \<le> m")
  case False
  then have "back_to_boundary s m \<le> length s" using back_to_boundary_le [of s m] by simp
  then show ?thesis
    using assms False back_to_boundary_le [of s m] back_to_boundary_max [of s]
    by (auto simp: clamp_utf8_def take_is_prefix utf8_valid_take back_to_boundary_ok)
qed (use assms in \<open>auto simp: clamp_utf8_def\<close>)

theorem clamp_utf8_longest_valid_prefix_witness: "utf8_valid (clamp_utf8 ''faulted'' 3)"
  using clamp_utf8_longest_valid_prefix [of "''faulted''" 3] by (simp add: ascii_valid ascii_def)

section \<open>Map headers\<close>

lemma be_two: "be_bytes 2 n = [byte_of (n div 256), byte_of n]"
  by (simp add: numeral_2_eq_2)

lemma fixmap_byte: "n \<le> 15 \<Longrightarrow> unat (byte_of (0x80 + n)) = 0x80 + n"
  by simp

lemma map_header_write:
  assumes "n \<le> u32_max"
  shows "map_header (write_map_header n @ body) = Some (n, length (write_map_header n))"
proof -
  consider "n \<le> 15" | "15 < n" "n \<le> 0xFFFF" | "0xFFFF < n" by linarith
  then show ?thesis
  proof cases
    case 1
    then have "unat (byte_of (0x80 + n)) = 0x80 + n" by (rule fixmap_byte)
    with 1 show ?thesis
      by (simp add: map_header_def write_map_header_def word_le_nat_alt del: unat_byte_of)
  next
    case 2
    have "from_be (be_bytes 2 n) = n" using 2 by (intro be.dec_enc) simp
    with 2 show ?thesis
      by (simp add: map_header_def write_map_header_def word_le_nat_alt del: be_bytes.simps)
  next
    case 3
    have "from_be (be_bytes 4 n) = n" using assms by (intro be.dec_enc) simp
    with 3 show ?thesis
      by (simp add: map_header_def write_map_header_def word_le_nat_alt del: be_bytes.simps)
  qed
qed

text \<open>
  Every map header that is written reads back as its entry count, with the body right
  behind it, over the whole 32-bit range.
\<close>

theorem map_header_round_trip:
  assumes "n \<le> u32_max"
  shows "map_header (write_map_header n @ body) = Some (n, length (write_map_header n))"
  using assms by (rule map_header_write)

theorem map_header_round_trip_witness:
  "map_header (write_map_header 70000 @ [1]) = Some (70000, length (write_map_header 70000))"
  by (rule map_header_round_trip) simp

end
