(* ===== verification/Mini_Codec.thy ===== *)
theory Mini_Codec
  imports Messages
begin

text \<open>
  What the sources rely on of the msgpack codec, as named hypotheses (\<open>codec_maps\<close>), what
  follows for a delivered message, and one concrete codec that satisfies them: msgpack's own
  encoding of nil, booleans, small integers, short strings and maps.  The concrete codec is
  only there to show that the hypotheses hold of something, and to run examples.
\<close>

text \<open>
  A map is its header and then its entries in order, and reads back as them; the sender's key is
  the fixed string of four characters.
\<close>

definition codec_maps :: "codec \<Rightarrow> bool" where
  "codec_maps cd \<longleftrightarrow>
     (\<forall>pairs body rest. length pairs \<le> u32_max \<and> write_pairs cd pairs = Some body \<longrightarrow>
        read_value cd (write_map_header (length pairs) @ body @ rest) = Some (VMap pairs, rest)) \<and>
     write_value cd (VStr sender_key) = Some sender_key_bytes"

lemma codec_maps_read:
  assumes "codec_maps cd" and "length pairs \<le> u32_max" and "write_pairs cd pairs = Some body"
  shows "read_value cd (write_map_header (length pairs) @ body) = Some (VMap pairs, [])"
  using assms by (metis append_Nil2 codec_maps_def)

lemma codec_maps_key: "codec_maps cd \<Longrightarrow> write_value cd (VStr sender_key) = Some sender_key_bytes"
  by (simp add: codec_maps_def)

lemma write_pairs_filter: "write_pairs cd ps = Some b \<Longrightarrow> \<exists>c. write_pairs cd (filter P ps) = Some c"
  by (induction cd ps arbitrary: b rule: write_pairs.induct) (auto split: option.splits)

lemma write_pairs_contains:
  assumes "codec_maps cd"
  shows "write_pairs cd ps = Some b \<Longrightarrow> e \<in> set ps \<Longrightarrow> is_sender_entry e \<Longrightarrow> contains b sender_key_bytes"
proof (induction ps arbitrary: b)
  case (Cons p ps)
  then obtain k v kb vb r where w: "p = (k, v)" "write_value cd k = Some kb"
    "write_value cd v = Some vb" "write_pairs cd ps = Some r" "b = kb @ vb @ r"
    by (cases p) (auto split: option.splits)
  show ?case
  proof (cases "e \<in> set ps")
    case True
    then have "contains r sender_key_bytes" using Cons w by auto
    then show ?thesis by (simp add: contains_def w sublist_append)
  next
    case False
    then have "k = VStr sender_key"
      using Cons.prems(2,3) w(1) by (cases k) (auto simp: is_sender_entry_def split: if_splits)
    then have "kb = sender_key_bytes" using w(2) codec_maps_key [OF assms] by simp
    then show ?thesis by (simp add: contains_def w sublist_append)
  qed
qed simp

section \<open>A concrete codec\<close>

definition text_bytes :: "string \<Rightarrow> bytes" where
  "text_bytes s = map (\<lambda>c. byte_of (of_char c)) s"

definition bytes_text :: "bytes \<Rightarrow> string" where
  "bytes_text bs = map (\<lambda>b. char_of (unat b)) bs"

function (sequential) mp_write :: "val \<Rightarrow> bytes option"
  and mp_write_pairs :: "fields \<Rightarrow> bytes option" where
  "mp_write VNil = Some [0xC0]"
| "mp_write (VBool b) = Some [if b then 0xC3 else 0xC2]"
| "mp_write (VInt n) = (if 0 \<le> n \<and> n < 128 then Some [byte_of (nat n)] else None)"
| "mp_write (VStr s) = (if length s < 32 then Some (byte_of (0xA0 + length s) # text_bytes s) else None)"
| "mp_write (VMap fs) = (if length fs \<le> u32_max
     then map_option (\<lambda>b. write_map_header (length fs) @ b) (mp_write_pairs fs) else None)"
| "mp_write _ = None"
| "mp_write_pairs [] = Some []"
| "mp_write_pairs ((k, v) # ps) = (case mp_write k of None \<Rightarrow> None
     | Some kb \<Rightarrow> (case mp_write v of None \<Rightarrow> None
         | Some vb \<Rightarrow> map_option (\<lambda>r. kb @ vb @ r) (mp_write_pairs ps)))"

  by pat_completeness auto
termination
  by (relation "measure (case_sum size (size_list (size_prod size size)))") auto

definition mp_atom :: "bytes \<Rightarrow> (val \<times> bytes) option" where
  "mp_atom bs = (case bs of [] \<Rightarrow> None | b # r \<Rightarrow>
     (if b = 0xC0 then Some (VNil, r)
      else if b = 0xC2 then Some (VBool False, r)
      else if b = 0xC3 then Some (VBool True, r)
      else if unat b < 128 then Some (VInt (int (unat b)), r)
      else if 0xA0 \<le> unat b \<and> unat b \<le> 0xBF then
        (let n = unat b - 0xA0 in
         if length r < n then None else Some (VStr (bytes_text (take n r)), drop n r))
      else None))"

fun mp_read :: "nat \<Rightarrow> bytes \<Rightarrow> (val \<times> bytes) option"
  and mp_read_pairs :: "nat \<Rightarrow> nat \<Rightarrow> bytes \<Rightarrow> (fields \<times> bytes) option" where
  "mp_read 0 bs = None"
| "mp_read (Suc f) bs = (case map_header bs of
     Some (n, off) \<Rightarrow> map_option (\<lambda>(ps, r). (VMap ps, r)) (mp_read_pairs f n (drop off bs))
   | None \<Rightarrow> mp_atom bs)"
| "mp_read_pairs f 0 bs = Some ([], bs)"
| "mp_read_pairs 0 (Suc n) bs = None"
| "mp_read_pairs (Suc f) (Suc n) bs = (case mp_read f bs of None \<Rightarrow> None
     | Some (k, r) \<Rightarrow> (case mp_read f r of None \<Rightarrow> None
         | Some (v, r2) \<Rightarrow> map_option (\<lambda>(ps, r3). ((k, v) # ps, r3)) (mp_read_pairs f n r2)))"

definition mini_codec :: codec where
  "mini_codec = \<lparr>write_value = mp_write, read_value = (\<lambda>bs. mp_read (length bs) bs)\<rparr>"

lemma bytes_text_text [simp]: "bytes_text (text_bytes s) = s"
  by (induction s) (simp_all add: bytes_text_def text_bytes_def)

lemma length_text_bytes [simp]: "length (text_bytes s) = length s"
  by (simp add: text_bytes_def)

lemma write_map_header_not_Nil: "write_map_header n \<noteq> []"
  by (simp add: write_map_header_def)

lemma mp_write_pos: "mp_write v = Some w \<Longrightarrow> w \<noteq> []"
  by (cases v) (auto simp: write_map_header_not_Nil split: if_splits)

lemma map_header_str: "n < 32 \<Longrightarrow> map_header (byte_of (0xA0 + n) # r) = None"
  by (simp add: map_header_def word_le_nat_alt word_unat_eq_iff)

lemma map_header_int: "n < 128 \<Longrightarrow> map_header (byte_of n # r) = None"
  by (simp add: map_header_def word_le_nat_alt word_unat_eq_iff)

lemma mp_read_write:
  "mp_write v = Some w \<Longrightarrow> length w \<le> f \<Longrightarrow> mp_read f (w @ rest) = Some (v, rest)"
  "mp_write_pairs ps = Some w \<Longrightarrow> length w \<le> f \<Longrightarrow>
     mp_read_pairs f (length ps) (w @ rest) = Some (ps, rest)"
proof (induction v and ps arbitrary: w f rest and w f rest rule: mp_write_mp_write_pairs.induct)
  case 1
  then have w: "w = [0xC0]" by simp
  then show ?case using 1(2) by (cases f) (simp_all add: map_header_def mp_atom_def)
next
  case (2 b)
  then have w: "w = [if b then 0xC3 else 0xC2]" by simp
  then show ?case using 2(2) by (cases f; cases b) (simp_all add: map_header_def mp_atom_def)
next
  case (3 n)
  then have w: "w = [byte_of (nat n)]" "0 \<le> n" "n < 128" by (auto split: if_splits)
  then have "mp_atom (byte_of (nat n) # rest) = Some (VInt n, rest)"
    by (simp add: mp_atom_def word_unat_eq_iff)
  with w 3(2) show ?case by (cases f) (simp_all add: map_header_int)
next
  case (4 s)
  then have w: "w = byte_of (0xA0 + length s) # text_bytes s" "length s < 32" by (auto split: if_splits)
  then have u: "unat (byte_of (0xA0 + length s)) = 0xA0 + length s" by simp
  then have "mp_atom (byte_of (0xA0 + length s) # text_bytes s @ rest) = Some (VStr s, rest)"
    using w by (simp add: mp_atom_def word_unat_eq_iff del: unat_byte_of)
  with w 4(2) show ?case by (cases f) (simp_all add: map_header_str)
next
  case (5 fs)
  then obtain b where b: "mp_write_pairs fs = Some b" "length fs \<le> u32_max"
    "w = write_map_header (length fs) @ b"
    by (auto split: if_splits)
  obtain g where f: "f = Suc g" "length b \<le> g"
    using 5(3) b(3) write_map_header_not_Nil [of "length fs"]
    by (cases f; cases "write_map_header (length fs)") auto
  show ?case
    using 5(1) [OF b(2,1) f(2), of rest] b(2,3) f(1) map_header_write [OF b(2), of "b @ rest"] by simp
next
  case (8 k v ps)
  then obtain kb vb r where w: "mp_write k = Some kb" "mp_write v = Some vb"
    "mp_write_pairs ps = Some r" "w = kb @ vb @ r"
    by (auto split: option.splits)
  have "kb \<noteq> []" "vb \<noteq> []" using mp_write_pos w(1,2) by blast+
  then obtain g where f: "f = Suc g" "length kb \<le> g" "length vb \<le> g" "length r \<le> g"
    using 8(5) w(4) by (cases f; cases kb; cases vb) auto
  show ?case
    using 8(1) [OF w(1) f(2), of "vb @ r @ rest"] 8(2) [OF w(1,2) f(3), of "r @ rest"]
      8(3) [OF w(1,2,3) f(4), of rest] w(4) f(1) by simp
qed simp_all

lemma mini_pairs: "write_pairs mini_codec ps = mp_write_pairs ps"
proof (induction ps)
  case (Cons p ps)
  then show ?case by (cases p) (simp add: mini_codec_def split: option.splits)
qed simp

lemma mini_codec_maps: "codec_maps mini_codec"
proof -
  have "read_value mini_codec (write_map_header (length ps) @ body @ rest) = Some (VMap ps, rest)"
    if "length ps \<le> u32_max" "write_pairs mini_codec ps = Some body" for ps body rest
  proof -
    have "mp_write (VMap ps) = Some (write_map_header (length ps) @ body)"
      using that by (simp add: mini_pairs)
    from mp_read_write(1) [OF this] show ?thesis by (simp add: mini_codec_def)
  qed
  moreover have "write_value mini_codec (VStr sender_key) = Some sender_key_bytes"
    by (simp add: mini_codec_def sender_key_def sender_key_bytes_def text_bytes_def byte_of_def)
  ultimately show ?thesis by (simp add: codec_maps_def)
qed

section \<open>What a node reads of a delivered message\<close>

text \<open>
  A map the codec wrote is delivered as that map with the runtime's sender under the
  reserved key, first, and with every sender entry of the guest's own removed; the rest is
  unchanged and in order.
\<close>

theorem delivered_map_carries_the_sender:
  assumes "codec_maps cd" and "write_value cd (sender_value from) = Some sv"
    and "write_pairs cd pairs = Some body" and "length pairs < u32_max"
  shows "read_value cd (attach_sender cd (write_map_header (length pairs) @ body) from) =
    Some (VMap ((VStr sender_key, sender_value from) # filter (\<lambda>e. \<not> is_sender_entry e) pairs), [])"
proof -
  let ?m = "write_map_header (length pairs) @ body"
  let ?kept = "filter (\<lambda>e. \<not> is_sender_entry e) pairs"
  have h: "map_header ?m = Some (length pairs, length (write_map_header (length pairs)))"
    using assms(4) by (intro map_header_write) simp
  have read: "read_value cd (write_map_header (Suc (length q)) @ (sender_key_bytes @ sv) @ b) =
      Some (VMap ((VStr sender_key, sender_value from) # q), [])"
    if "write_pairs cd q = Some b" "length q < u32_max" for q b
    using codec_maps_read [OF assms(1), of "(VStr sender_key, sender_value from) # q"] that
      codec_maps_key [OF assms(1)] assms(2) by simp
  show ?thesis
  proof (cases "contains ?m sender_key_bytes")
    case True
    obtain c where c: "write_pairs cd ?kept = Some c" using write_pairs_filter [OF assms(3)] by blast
    have l: "length ?kept < u32_max" using assms(4) length_filter_le [of _ pairs] by (rule le_less_trans [rotated])
    have "read_value cd ?m = Some (VMap pairs, [])"
      using codec_maps_read [OF assms(1) _ assms(3)] assms(4) by simp
    then have "rebuild_without_forged_sender cd ?m (sender_key_bytes @ sv) =
        write_map_header (Suc (length ?kept)) @ (sender_key_bytes @ sv) @ c"
      using c l by (simp add: rebuild_without_forged_sender_def sat_succ_u32_def)
    then show ?thesis
      using True h assms(2) read [OF c l] by (simp add: attach_sender_def Let_def)
  next
    case False
    then have "\<not> contains body sender_key_bytes" by (auto simp: contains_def sublist_append)
    then have "?kept = pairs"
      using write_pairs_contains [OF assms(1,3)] by (auto simp: filter_id_conv)
    then show ?thesis
      using False h assms(2,4) read [OF assms(3,4)]
      by (simp add: attach_sender_def Let_def sat_succ_u32_def)
  qed
qed

theorem delivered_map_carries_the_sender_witness:
  "\<exists>b. write_pairs mini_codec [(VStr ''from'', VNil), (VStr ''n'', VInt 3)] = Some b \<and>
     read_value mini_codec (attach_sender mini_codec (write_map_header 2 @ b) (sender_runtime root_node)) =
     Some (VMap [(VStr sender_key, sender_value (sender_runtime root_node)), (VStr ''n'', VInt 3)], [])"
proof -
  obtain sv where sv: "write_value mini_codec (sender_value (sender_runtime root_node)) = Some sv"
    by (simp add: mini_codec_def sender_value_def sender_runtime_def root_node_def)
  obtain b where b: "write_pairs mini_codec [(VStr ''from'', VNil), (VStr ''n'', VInt 3)] = Some b"
    by (simp add: mini_codec_def)
  have "filter (\<lambda>e. \<not> is_sender_entry e) [(VStr ''from'', VNil), (VStr ''n'', VInt 3)] = [(VStr ''n'', VInt 3)]"
    by (simp add: is_sender_entry_def sender_key_def ascii_valid ascii_def)
  then show ?thesis
    using delivered_map_carries_the_sender [OF mini_codec_maps sv b] b
    by (simp add: numeral_2_eq_2)
qed

text \<open>
  A message that is no map is delivered as it was sent, and on a map the scan for the
  sender's key looks for one of its encodings only: with the key spelled with a length byte, the
  guest's own entry is delivered untouched behind the runtime's, whatever the codec.
\<close>

theorem forged_sender_survives_other_spelling:
  assumes "write_value cd (sender_value from) = Some sv" and "\<not> sublist sender_key_bytes v"
    and "v = [] \<or> hd v \<noteq> 0x66"
  shows "attach_sender cd ([0x81, 0xD9, 4, 0x66, 0x72, 0x6F, 0x6D] @ v) from =
      [0x82] @ sender_key_bytes @ sv @ [0xD9, 4, 0x66, 0x72, 0x6F, 0x6D] @ v \<and>
    attach_sender cd (0xC0 # v) from = 0xC0 # v"
proof -
  have h: "map_header ([0x81, 0xD9, 4, 0x66, 0x72, 0x6F, 0x6D] @ v) = Some (1, 1)"
    by (simp add: map_header_def)
  have "\<not> contains ([0x81, 0xD9, 4, 0x66, 0x72, 0x6F, 0x6D] @ v) sender_key_bytes"
    using assms(2) by (simp add: contains_def sender_key_bytes_def sublist_Cons_right)
  then show ?thesis
    using h assms(1)
    by (simp add: attach_sender_def Let_def write_map_header_def sat_succ_u32_def byte_of_def
        map_header_def)
qed

theorem forged_sender_survives_other_spelling_witness:
  "\<exists>sv. attach_sender mini_codec [0x81, 0xD9, 4, 0x66, 0x72, 0x6F, 0x6D, 0xC0] (sender_runtime root_node) =
     [0x82] @ sender_key_bytes @ sv @ [0xD9, 4, 0x66, 0x72, 0x6F, 0x6D, 0xC0]"
proof -
  obtain sv where sv: "write_value mini_codec (sender_value (sender_runtime root_node)) = Some sv"
    by (simp add: mini_codec_def sender_value_def sender_runtime_def root_node_def)
  have "\<not> sublist sender_key_bytes [0xC0]"
    by (simp add: sender_key_bytes_def sublist_Cons_right)
  then show ?thesis
    using forged_sender_survives_other_spelling [OF sv, of "[0xC0]"] by auto
qed

end
