(* ===== verification/Engine.thy ===== *)
theory Engine
  imports Inst_Config Msg_Value
begin

text \<open>
  The engine seam, \<^verbatim>\<open>crates/drt-swarm/src/engine.rs\<close>, and endpoint references,
  \<^verbatim>\<open>crates/drt-swarm/src/refs.rs\<close>.  The virtual machine is not in the repository: an
  \<open>engine\<close> is a record of the operations of the traits \<^verbatim>\<open>Engine\<close> and \<^verbatim>\<open>Instance\<close>
  on an instance state \<open>'i\<close>, a parameter of everything that uses it.  A method taking
  \<^verbatim>\<open>&mut self\<close> returns the instance after it.  The msgpack codec of a reference's
  payload is a parameter as well.
\<close>

datatype engine_error =
    AbiMismatch nat nat
  | ProgramError string
  | SnapshotMismatch string
  | EngineFault string

definition engine_message :: "(nat \<Rightarrow> string) \<Rightarrow> engine_error \<Rightarrow> string" where
  "engine_message num e = (case e of
     AbiMismatch library expected \<Rightarrow> ''ABI mismatch: library speaks v'' @ num library
       @ '', engine expects v'' @ num expected
   | ProgramError s \<Rightarrow> s | SnapshotMismatch s \<Rightarrow> s | EngineFault s \<Rightarrow> s)"

type_synonym queue_handle = nat

definition wait_max :: nat where "wait_max = 32"

text \<open>The fixed array of a wait set and its length, with the duration of its timeout in
  nanoseconds.\<close>

record wait_set =
  ws_queues :: "queue_handle list"
  ws_len :: nat
  ws_timeout :: "nat option"
  ws_for_space :: bool

definition wait_set_add :: "wait_set \<Rightarrow> queue_handle \<Rightarrow> wait_set" where
  "wait_set_add ws q =
     (if ws_len ws < wait_max
      then ws\<lparr>ws_queues := (ws_queues ws)[ws_len ws := q], ws_len := ws_len ws + 1\<rparr>
      else ws)"

definition wait_set_new :: "queue_handle list \<Rightarrow> nat option \<Rightarrow> bool \<Rightarrow> wait_set" where
  "wait_set_new queues timeout for_space = foldl wait_set_add
     \<lparr>ws_queues = replicate wait_max 0, ws_len = 0, ws_timeout = timeout, ws_for_space = for_space\<rparr> queues"

definition wait_queues :: "wait_set \<Rightarrow> queue_handle list" where
  "wait_queues ws = take (ws_len ws) (ws_queues ws)"

definition wait_set_empty :: "wait_set \<Rightarrow> bool" where
  "wait_set_empty ws \<longleftrightarrow> ws_len ws = 0"

datatype step_result = Parked wait_set | Done

datatype push_outcome = Accepted | DroppedOldest | Full | Disabled

definition is_accepted :: "push_outcome \<Rightarrow> bool" where
  "is_accepted p \<longleftrightarrow> p = Accepted \<or> p = DroppedOldest"

record usage_report =
  us_instructions :: nat
  us_memory_kb_peak :: nat
  us_bytes_now :: nat

definition usage_default :: usage_report where
  "usage_default = \<lparr>us_instructions = 0, us_memory_kb_peak = 0, us_bytes_now = 0\<rparr>"

datatype program_bytes = SourceText string | Bytecode string

record load_spec =
  ls_program :: program_bytes
  ls_name :: string
  ls_budget :: budget
  ls_numeric :: numeric
  ls_unsafe_stdlib :: bool
  ls_unsafe_debug :: bool

record restore_spec =
  rs_snapshot :: bytes
  rs_numeric :: numeric
  rs_host_stamp :: "string option"
  rs_budget :: budget
  rs_unsafe_stdlib :: bool
  rs_unsafe_debug :: bool

record queue_status =
  qs_len :: nat
  qs_capacity :: nat
  qs_enabled :: bool
  qs_exported :: bool

record 'i engine =
  e_load :: "load_spec \<Rightarrow> engine_error + 'i"
  e_restore :: "restore_spec \<Rightarrow> engine_error + 'i"
  e_queue :: "string \<Rightarrow> 'i \<Rightarrow> queue_handle option \<times> 'i"
  e_queue_info :: "queue_handle \<Rightarrow> 'i \<Rightarrow> (engine_error + queue_status) \<times> 'i"
  e_push :: "queue_handle \<Rightarrow> bytes \<Rightarrow> 'i \<Rightarrow> (engine_error + push_outcome) \<times> 'i"
  e_pop :: "queue_handle \<Rightarrow> 'i \<Rightarrow> (engine_error + bytes option) \<times> 'i"
  e_run :: "'i \<Rightarrow> (engine_error + step_result) \<times> 'i"
  e_resume :: "queue_handle \<Rightarrow> 'i \<Rightarrow> (engine_error + step_result) \<times> 'i"
  e_resume_timeout :: "'i \<Rightarrow> (engine_error + step_result) \<times> 'i"
  e_current_wait :: "'i \<Rightarrow> wait_set option \<times> 'i"
  e_usage :: "'i \<Rightarrow> usage_report"
  e_exceeded :: "'i \<Rightarrow> bool"
  e_touched_fast :: "'i \<Rightarrow> bool"
  e_snapshot :: "string option \<Rightarrow> 'i \<Rightarrow> (engine_error + bytes) \<times> 'i"
  e_endpoint_count :: "'i \<Rightarrow> nat"
  e_enable_endpoints :: "'i \<Rightarrow> 'i"
  e_endpoint_queue :: "nat \<Rightarrow> 'i \<Rightarrow> queue_handle option \<times> 'i"
  e_endpoint_ref :: "nat \<Rightarrow> 'i \<Rightarrow> bytes option"
  e_endpoint_close :: "queue_handle \<Rightarrow> 'i \<Rightarrow> (engine_error + unit) \<times> 'i"

section \<open>Endpoint references\<close>

definition endpoint_ext_type :: int where "endpoint_ext_type = 2"

definition scheme_local :: string where "scheme_local = ''local''"

record endpoint_ref =
  er_scheme :: string
  er_address :: string
  er_identity :: "string option"

datatype ref_error = WrongExtType int | NotExt | Payload string

text \<open>The payload's encoder and decoder.\<close>

record ref_codec =
  rc_write :: "endpoint_ref \<Rightarrow> bytes"
  rc_read :: "bytes \<Rightarrow> string + endpoint_ref"

definition endpoint_local :: "string \<Rightarrow> string option \<Rightarrow> endpoint_ref" where
  "endpoint_local address identity =
     \<lparr>er_scheme = scheme_local, er_address = address, er_identity = identity\<rparr>"

definition endpoint_to_value :: "ref_codec \<Rightarrow> endpoint_ref \<Rightarrow> val" where
  "endpoint_to_value rc r = VExt endpoint_ext_type (rc_write rc r)"

definition endpoint_from_value :: "ref_codec \<Rightarrow> val \<Rightarrow> ref_error + endpoint_ref" where
  "endpoint_from_value rc v = (case v of
     VExt tag payload \<Rightarrow>
       (if tag = endpoint_ext_type
        then (case rc_read rc payload of Inl e \<Rightarrow> Inl (Payload e) | Inr r \<Rightarrow> Inr r)
        else Inl (WrongExtType tag))
   | _ \<Rightarrow> Inl NotExt)"

text \<open>The documented behaviour of the payload codec: what it wrote reads back.\<close>

definition ref_codec_ok :: "ref_codec \<Rightarrow> bool" where
  "ref_codec_ok rc \<longleftrightarrow> (\<forall>r. rc_read rc (rc_write rc r) = Inr r)"

section \<open>The wait set\<close>

lemma wait_set_fold:
  assumes "length (ws_queues ws) = wait_max" and "ws_len ws \<le> wait_max"
  shows "wait_queues (foldl wait_set_add ws qs) = wait_queues ws @ take (wait_max - ws_len ws) qs \<and>
    ws_len (foldl wait_set_add ws qs) = min wait_max (ws_len ws + length qs) \<and>
    ws_timeout (foldl wait_set_add ws qs) = ws_timeout ws \<and>
    ws_for_space (foldl wait_set_add ws qs) = ws_for_space ws"
  using assms
proof (induction qs arbitrary: ws)
  case (Cons q qs)
  show ?case
  proof (cases "ws_len ws < wait_max")
    case True
    let ?ws = "ws\<lparr>ws_queues := (ws_queues ws)[ws_len ws := q], ws_len := ws_len ws + 1\<rparr>"
    have "wait_queues ?ws = wait_queues ws @ [q]"
      using True Cons.prems by (simp add: wait_queues_def take_Suc_conv_app_nth)
    moreover have "take (wait_max - ws_len ws) (q # qs) = q # take (wait_max - Suc (ws_len ws)) qs"
      using True by (simp add: Suc_diff_Suc [symmetric] take_Cons')
    ultimately show ?thesis
      using Cons.IH [of ?ws] Cons.prems True by (simp add: wait_set_add_def)
  next
    case False
    then show ?thesis using Cons.IH [of ws] Cons.prems by (simp add: wait_set_add_def)
  qed
qed (simp add: wait_queues_def)

text \<open>
  A wait set holds the first 32 queues it was given, in order, and drops the rest, as the
  ABI's array does; it is empty only when it was given none.
\<close>

theorem wait_set_new_queues:
  "wait_queues (wait_set_new qs t f) = take wait_max qs \<and>
   ws_timeout (wait_set_new qs t f) = t \<and> ws_for_space (wait_set_new qs t f) = f \<and>
   wait_set_empty (wait_set_new qs t f) = (qs = [])"
proof -
  let ?w = "\<lparr>ws_queues = replicate wait_max 0, ws_len = 0, ws_timeout = t, ws_for_space = f\<rparr>"
  have "wait_queues ?w = []" by (simp add: wait_queues_def)
  then show ?thesis
    using wait_set_fold [of ?w qs]
    by (cases qs) (auto simp: wait_set_new_def wait_set_empty_def wait_max_def)
qed

end
