(* ===== verification/Swarm_State.thy ===== *)
theory Swarm_State
  imports Engine Messages
begin

text \<open>
  The swarm's tables, \<^verbatim>\<open>crates/drt-swarm/src/swarm.rs\<close>: slots, the index from handle
  to slot, claiming and releasing, building an instance, lifecycle events and the subtree
  kill.  \<open>swarm\<close> is the struct \<^verbatim>\<open>Swarm<H>\<close> with the host's state in it; the engine, the
  host's methods and the codecs are the fields of an environment \<open>env\<close>.  Handles are
  \<^verbatim>\<open>u32\<close>: \<open>sw_next_id\<close> counts the claims made (from 1), and the handle a claim takes is that
  count modulo \<open>2 ^ 32\<close>, as the machine's wrapping addition gives it.  The clock, threads and
  the process's I/O are not part of a swarm.
\<close>

definition cap_lifecycle :: string where "cap_lifecycle = ''lifecycle''"
definition default_max_instances :: nat where "default_max_instances = 256"
definition default_spawn_rate :: nat where "default_spawn_rate = 8"
definition max_pending :: nat where "max_pending = 16"
definition max_qname :: nat where "max_qname = 64"
definition request_cap_bytes :: nat where "request_cap_bytes = 32 * 1024"

datatype swarm_error = Gone | UnknownInstance | UnknownQueue | Limit string | SwarmFault string

datatype driven = DrivenAlive | DrivenExited | DrivenFaulted string

record pending =
  pd_queue :: string
  pd_msg :: bytes

record 'i slot =
  sl_id :: nat
  sl_parent :: nat
  sl_path :: node_path
  sl_inst :: "'i option"
  sl_caps :: capset
  sl_budget :: budget
  sl_numeric :: numeric
  sl_unsafe_stdlib :: bool
  sl_unsafe_debug :: bool
  sl_wake_on_message :: bool
  sl_alive :: bool
  sl_doomed :: bool
  sl_snap :: "bytes option"
  sl_pending :: "pending list"
  sl_deferred :: "bytes option"
  sl_held :: "(nat \<times> bytes) list"
  sl_endpoints :: bool
  sl_handles :: "(string \<times> queue_handle) list"

definition slot_free :: "'i slot" where
  "slot_free = \<lparr>sl_id = 0, sl_parent = 0, sl_path = root_node, sl_inst = None,
     sl_caps = root_set [], sl_budget = budget_default, sl_numeric = numeric_default,
     sl_unsafe_stdlib = False, sl_unsafe_debug = False, sl_wake_on_message = False,
     sl_alive = False, sl_doomed = False, sl_snap = None, sl_pending = [], sl_deferred = None,
     sl_held = [], sl_endpoints = False, sl_handles = []\<rparr>"

record ('i, 'h) swarm =
  sw_host :: 'h
  sw_slots :: "'i slot list"
  sw_index :: "nat \<Rightarrow> nat option"
  sw_max_instances :: nat
  sw_next_id :: nat
  sw_spawn_rate :: nat
  sw_spawns_this_step :: nat
  sw_allow_hibernation :: bool
  sw_allow_bytecode :: bool
  sw_unsafe_stdlib :: bool
  sw_unsafe_debug :: bool
  sw_host_identity :: "string option"

text \<open>The host's methods, each on its state.\<close>

record ('i, 'h) host =
  h_drive :: "nat \<Rightarrow> capset \<Rightarrow> 'i \<Rightarrow> 'h \<Rightarrow> driven \<times> 'i \<times> 'h"
  h_attached :: "nat \<Rightarrow> 'h \<Rightarrow> 'h"
  h_detached :: "nat \<Rightarrow> 'h \<Rightarrow> 'h"
  h_released :: "nat \<Rightarrow> 'h \<Rightarrow> 'h"
  h_ended :: "'h \<Rightarrow> (nat \<times> string) list \<times> 'h"
  h_notices :: "'h \<Rightarrow> (nat \<times> string \<times> bytes) list \<times> 'h"

record ('i, 'h) env =
  en_engine :: "'i engine"
  en_host :: "('i, 'h) host"
  en_codec :: codec
  en_refs :: ref_codec

definition swarm_with_limits :: "'h \<Rightarrow> nat \<Rightarrow> nat \<Rightarrow> ('i, 'h) swarm" where
  "swarm_with_limits host max_inst spawns_per_step =
     \<lparr>sw_host = host, sw_slots = [], sw_index = (\<lambda>_. None),
      sw_max_instances = (if max_inst \<noteq> 0 then max_inst else default_max_instances),
      sw_next_id = 1,
      sw_spawn_rate = (if spawns_per_step \<noteq> 0 then spawns_per_step else default_spawn_rate),
      sw_spawns_this_step = 0, sw_allow_hibernation = True, sw_allow_bytecode = False,
      sw_unsafe_stdlib = False, sw_unsafe_debug = False, sw_host_identity = None\<rparr>"

definition set_host_identity :: "string option \<Rightarrow> ('i, 'h) swarm \<Rightarrow> ('i, 'h) swarm" where
  "set_host_identity identity s = s\<lparr>sw_host_identity :=
     (case identity of Some n \<Rightarrow> if n \<noteq> [] then Some n else None | None \<Rightarrow> None)\<rparr>"

abbreviation slot_at :: "('i, 'h) swarm \<Rightarrow> nat \<Rightarrow> 'i slot" where
  "slot_at s i \<equiv> sw_slots s ! i"

definition put_slot :: "nat \<Rightarrow> 'i slot \<Rightarrow> ('i, 'h) swarm \<Rightarrow> ('i, 'h) swarm" where
  "put_slot i sl s = s\<lparr>sw_slots := (sw_slots s)[i := sl]\<rparr>"

definition put_host :: "'h \<Rightarrow> ('i, 'h) swarm \<Rightarrow> ('i, 'h) swarm" where
  "put_host h s = s\<lparr>sw_host := h\<rparr>"

definition put_inst :: "nat \<Rightarrow> 'i \<Rightarrow> ('i, 'h) swarm \<Rightarrow> ('i, 'h) swarm" where
  "put_inst i x s = put_slot i ((slot_at s i)\<lparr>sl_inst := Some x\<rparr>) s"

section \<open>The table\<close>

definition find_slot :: "('i, 'h) swarm \<Rightarrow> nat \<Rightarrow> nat option" where
  "find_slot s i = (if i = 0 then None else sw_index s i)"

fun position_of :: "('a \<Rightarrow> bool) \<Rightarrow> 'a list \<Rightarrow> nat option" where
  "position_of P [] = None"
| "position_of P (x # xs) = (if P x then Some 0 else map_option Suc (position_of P xs))"

definition claim :: "('i, 'h) swarm \<Rightarrow> (nat \<times> ('i, 'h) swarm) option" where
  "claim s =
     (let place = (case position_of (\<lambda>sl. sl_id sl = 0) (sw_slots s) of
          Some i \<Rightarrow> Some (i, sw_slots s)
        | None \<Rightarrow> if length (sw_slots s) < sw_max_instances s
                  then Some (length (sw_slots s), sw_slots s @ [slot_free]) else None)
      in case place of None \<Rightarrow> None
         | Some (i, slots) \<Rightarrow>
            (let n = sw_next_id s mod 2 ^ 32 in
             Some (i, s\<lparr>sw_slots := slots[i := slot_free\<lparr>sl_id := n\<rparr>],
                        sw_index := (sw_index s)(n := Some i), sw_next_id := sw_next_id s + 1\<rparr>)))"

definition release :: "('i, 'h) env \<Rightarrow> nat \<Rightarrow> ('i, 'h) swarm \<Rightarrow> ('i, 'h) swarm" where
  "release e i s =
     (let n = sl_id (slot_at s i);
          h1 = (if sl_inst (slot_at s i) \<noteq> None then h_detached (en_host e) n (sw_host s) else sw_host s);
          h2 = h_released (en_host e) n h1
      in s\<lparr>sw_host := h2, sw_index := (sw_index s)(n := None),
           sw_slots := (sw_slots s)[i := slot_free]\<rparr>)"

definition engine_text :: "engine_error \<Rightarrow> string" where
  "engine_text = engine_message show_nat"

definition build :: "('i, 'h) env \<Rightarrow> nat \<Rightarrow> string \<Rightarrow> ('i, 'h) swarm \<Rightarrow> (string + unit) \<times> ('i, 'h) swarm" where
  "build e i code s =
     (let sl = slot_at s i in
      case (if utf8_valid code then Inr (SourceText code)
            else if sw_allow_bytecode s then Inr (Bytecode code)
            else Inl (''the code is not source text, and bytecode spawns are switched off for ''
                      @ ''this swarm (allow_bytecode)'')) of
        Inl why \<Rightarrow> (Inl why, s)
      | Inr program \<Rightarrow>
         (case e_load (en_engine e) \<lparr>ls_program = program, ls_name = ''=agent'',
                 ls_budget = sl_budget sl, ls_numeric = sl_numeric sl,
                 ls_unsafe_stdlib = sl_unsafe_stdlib sl, ls_unsafe_debug = sl_unsafe_debug sl\<rparr> of
            Inl err \<Rightarrow> (Inl (''the program would not load: '' @ engine_text err), s)
          | Inr inst \<Rightarrow>
             (let s1 = put_slot i (sl\<lparr>sl_inst := Some inst, sl_handles := [], sl_alive := True\<rparr>) s in
              (Inr (), put_host (h_attached (en_host e) (sl_id sl) (sw_host s1)) s1))))"

text \<open>The fields a root takes, and the ones a child takes, of its claimed slot.\<close>

definition root_with_numeric ::
  "('i, 'h) env \<Rightarrow> string \<Rightarrow> grant list \<Rightarrow> budget \<Rightarrow> numeric \<Rightarrow> ('i, 'h) swarm
   \<Rightarrow> (swarm_error + nat) \<times> ('i, 'h) swarm" where
  "root_with_numeric e code caps budget numeric s =
     (case check_grant_names caps of
        Inl why \<Rightarrow> (Inl (SwarmFault why), s)
      | Inr _ \<Rightarrow>
        (case claim s of
           None \<Rightarrow> (Inl (Limit (''the instance table is full ('' @ show_nat (sw_max_instances s) @ '')'')), s)
         | Some (i, s1) \<Rightarrow>
            (let s2 = put_slot i ((slot_at s1 i)\<lparr>sl_parent := 0, sl_path := root_node,
                   sl_caps := root_held_by root_node caps, sl_budget := budget, sl_numeric := numeric,
                   sl_unsafe_stdlib := sw_unsafe_stdlib s1, sl_unsafe_debug := sw_unsafe_debug s1\<rparr>) s1
             in case build e i code s2 of
                  (Inr _, s3) \<Rightarrow> (Inr (sl_id (slot_at s3 i)), s3)
                | (Inl why, s3) \<Rightarrow> (Inl (SwarmFault why), release e i s3))))"

definition swarm_root :: "('i, 'h) env \<Rightarrow> string \<Rightarrow> grant list \<Rightarrow> budget \<Rightarrow> ('i, 'h) swarm
   \<Rightarrow> (swarm_error + nat) \<times> ('i, 'h) swarm" where
  "swarm_root e code caps budget s = root_with_numeric e code caps budget numeric_default s"

section \<open>The roster\<close>

definition live_slot :: "'i slot \<Rightarrow> bool" where
  "live_slot sl \<longleftrightarrow> sl_id sl \<noteq> 0 \<and> sl_alive sl"

definition alive_count :: "('i, 'h) swarm \<Rightarrow> nat" where
  "alive_count s = length (filter live_slot (sw_slots s))"

definition ids :: "('i, 'h) swarm \<Rightarrow> nat list" where
  "ids s = map sl_id (filter live_slot (sw_slots s))"

definition path_of :: "('i, 'h) swarm \<Rightarrow> nat \<Rightarrow> node_path option" where
  "path_of s i = map_option (\<lambda>k. sl_path (slot_at s k)) (find_slot s i)"

definition parent_of :: "('i, 'h) swarm \<Rightarrow> nat \<Rightarrow> nat option" where
  "parent_of s i = map_option (\<lambda>k. sl_parent (slot_at s k)) (find_slot s i)"

definition resident :: "('i, 'h) swarm \<Rightarrow> nat \<Rightarrow> bool" where
  "resident s i = (case find_slot s i of None \<Rightarrow> False
     | Some k \<Rightarrow> sl_alive (slot_at s k) \<and> sl_inst (slot_at s k) \<noteq> None)"

definition usage_of :: "('i, 'h) env \<Rightarrow> ('i, 'h) swarm \<Rightarrow> nat \<Rightarrow> usage_report option" where
  "usage_of e s i = (case find_slot s i of None \<Rightarrow> None
     | Some k \<Rightarrow> map_option (e_usage (en_engine e)) (sl_inst (slot_at s k)))"

definition wakes_on_message :: "('i, 'h) swarm \<Rightarrow> nat \<Rightarrow> bool" where
  "wakes_on_message s i = (case find_slot s i of None \<Rightarrow> False | Some k \<Rightarrow> sl_wake_on_message (slot_at s k))"

definition snapshot_of :: "('i, 'h) swarm \<Rightarrow> nat \<Rightarrow> bytes option" where
  "snapshot_of s i = (case find_slot s i of None \<Rightarrow> None | Some k \<Rightarrow> sl_snap (slot_at s k))"

definition cached_size :: "('i, 'h) swarm \<Rightarrow> nat \<Rightarrow> nat" where
  "cached_size s i = (case snapshot_of s i of None \<Rightarrow> 0 | Some b \<Rightarrow> length b)"

definition budget_of :: "('i, 'h) swarm \<Rightarrow> nat \<Rightarrow> budget option" where
  "budget_of s i = map_option (\<lambda>k. sl_budget (slot_at s k)) (find_slot s i)"

definition numeric_of :: "('i, 'h) swarm \<Rightarrow> nat \<Rightarrow> numeric option" where
  "numeric_of s i = map_option (\<lambda>k. sl_numeric (slot_at s k)) (find_slot s i)"

definition touched_fast_of :: "('i, 'h) env \<Rightarrow> ('i, 'h) swarm \<Rightarrow> nat \<Rightarrow> bool option" where
  "touched_fast_of e s i = map_option (\<lambda>k. case sl_inst (slot_at s k) of None \<Rightarrow> False
     | Some x \<Rightarrow> e_touched_fast (en_engine e) x) (find_slot s i)"

definition caps_of :: "('i, 'h) swarm \<Rightarrow> nat \<Rightarrow> capset option" where
  "caps_of s i = map_option (\<lambda>k. sl_caps (slot_at s k)) (find_slot s i)"

definition swarm_holds :: "('i, 'h) swarm \<Rightarrow> nat \<Rightarrow> string \<Rightarrow> bool" where
  "swarm_holds s i c = (case find_slot s i of None \<Rightarrow> False | Some k \<Rightarrow> holds (sl_caps (slot_at s k)) c)"

definition swarm_may_grant :: "('i, 'h) swarm \<Rightarrow> nat \<Rightarrow> string \<Rightarrow> bool" where
  "swarm_may_grant s parent c = swarm_holds s parent c"

section \<open>Events\<close>

definition enable_endpoints :: "('i, 'h) env \<Rightarrow> nat \<Rightarrow> ('i, 'h) swarm \<Rightarrow> ('i, 'h) swarm" where
  "enable_endpoints e i s = (case find_slot s i of None \<Rightarrow> s
     | Some k \<Rightarrow>
        (let sl = (slot_at s k)\<lparr>sl_endpoints := True\<rparr> in
         put_slot k (sl\<lparr>sl_inst := map_option (e_enable_endpoints (en_engine e)) (sl_inst sl)\<rparr>) s))"

definition event_value :: "string \<Rightarrow> nat \<Rightarrow> string option \<Rightarrow> bool \<Rightarrow> (string \<times> val) list \<Rightarrow> val" where
  "event_value what about detail touched_fast extra = VMap
     ([(VStr ''event'', VStr what), (VStr ''id'', val_nat about)]
      @ (case detail of None \<Rightarrow> [] | Some d \<Rightarrow> [(VStr ''detail'', VStr (clamp_utf8 d max_event_detail))])
      @ (if touched_fast then [(VStr ''numeric_touched_fast'', VBool True)] else [])
      @ map (\<lambda>(k, v). (VStr k, v)) extra)"

definition emit_fields ::
  "('i, 'h) env \<Rightarrow> nat \<Rightarrow> string \<Rightarrow> nat \<Rightarrow> string option \<Rightarrow> bool \<Rightarrow> (string \<times> val) list
   \<Rightarrow> ('i, 'h) swarm \<Rightarrow> ('i, 'h) swarm" where
  "emit_fields e to what about detail touched_fast extra s0 =
     (let s = (if extra \<noteq> [] then enable_endpoints e to s0 else s0) in
      case find_slot s to of None \<Rightarrow> s
      | Some k \<Rightarrow>
        (case sl_inst (slot_at s k) of None \<Rightarrow> s
         | Some x \<Rightarrow>
            (case e_queue (en_engine e) ''system/events'' x of
               (None, x1) \<Rightarrow> put_inst k x1 s
             | (Some q, x1) \<Rightarrow>
                 (case write_value (en_codec e) (event_value what about detail touched_fast extra) of
                    None \<Rightarrow> put_inst k x1 s
                  | Some buf \<Rightarrow> put_inst k (snd (e_push (en_engine e) q buf x1)) s))))"

definition emit_with where
  "emit_with e to what about detail touched_fast s = emit_fields e to what about detail touched_fast [] s"

definition emit_stop where
  "emit_stop e to what about detail touched_fast s = emit_with e to what about detail touched_fast s"

definition emit where
  "emit e to what about detail s = emit_with e to what about detail False s"

definition emit_extra where
  "emit_extra e to what about detail extra s = emit_fields e to what about detail False extra s"

section \<open>Killing a subtree\<close>

text \<open>One visit of the marking loop to slot \<open>i\<close>, and one pass over the table.\<close>

definition mark_visit :: "(nat \<Rightarrow> nat option) \<Rightarrow> 'i slot list \<times> bool \<Rightarrow> nat \<Rightarrow> 'i slot list \<times> bool" where
  "mark_visit index st i = (let slots = fst st; sl = slots ! i in
     if sl_id sl = 0 \<or> sl_doomed sl \<or> sl_parent sl = 0 then st
     else if (case index (sl_parent sl) of None \<Rightarrow> False | Some p \<Rightarrow> sl_doomed (slots ! p))
       then (slots[i := sl\<lparr>sl_doomed := True\<rparr>], True)
     else st)"

definition mark_pass :: "(nat \<Rightarrow> nat option) \<Rightarrow> 'i slot list \<Rightarrow> 'i slot list \<times> bool" where
  "mark_pass index slots = foldl (mark_visit index) (slots, False) [0..<length slots]"

definition undoomed :: "'i slot list \<Rightarrow> nat" where
  "undoomed slots = length (filter (\<lambda>sl. \<not> sl_doomed sl) slots)"

lemma undoomed_update:
  "i < length slots \<Longrightarrow> \<not> sl_doomed (slots ! i) \<Longrightarrow>
   undoomed (slots[i := (slots ! i)\<lparr>sl_doomed := True\<rparr>]) < undoomed slots"
proof (induction slots arbitrary: i)
  case (Cons sl slots)
  then show ?case by (cases i) (auto simp: undoomed_def)
qed simp

lemma mark_visit_progress:
  "i < length (fst st) \<Longrightarrow> length (fst (mark_visit index st i)) = length (fst st) \<and>
   undoomed (fst (mark_visit index st i)) \<le> undoomed (fst st) \<and>
   (snd (mark_visit index st i) \<and> \<not> snd st \<longrightarrow> undoomed (fst (mark_visit index st i)) < undoomed (fst st)) \<and>
   (snd st \<longrightarrow> snd (mark_visit index st i))"
  using undoomed_update [of i "fst st"]
  by (cases st) (auto simp: mark_visit_def Let_def split: option.splits)

lemma mark_fold_progress:
  "\<forall>i\<in>set is. i < length (fst st) \<Longrightarrow>
   length (fst (foldl (mark_visit index) st is)) = length (fst st) \<and>
   undoomed (fst (foldl (mark_visit index) st is)) \<le> undoomed (fst st) \<and>
   (snd (foldl (mark_visit index) st is) \<and> \<not> snd st \<longrightarrow>
     undoomed (fst (foldl (mark_visit index) st is)) < undoomed (fst st))"
proof (induction "is" arbitrary: st)
  case (Cons i "is")
  let ?st = "mark_visit index st i"
  have v: "length (fst ?st) = length (fst st)" "undoomed (fst ?st) \<le> undoomed (fst st)"
    "snd ?st \<and> \<not> snd st \<longrightarrow> undoomed (fst ?st) < undoomed (fst st)"
    "snd st \<longrightarrow> snd ?st"
    using mark_visit_progress [of i st index] Cons.prems by auto
  have "\<forall>j\<in>set is. j < length (fst ?st)" using Cons.prems v(1) by simp
  from Cons.IH [OF this] v show ?case by (cases "snd ?st") auto
qed simp

lemma mark_pass_progress:
  "length (fst (mark_pass index slots)) = length slots \<and>
   (snd (mark_pass index slots) \<longrightarrow> undoomed (fst (mark_pass index slots)) < undoomed slots)"
  using mark_fold_progress [of "[0..<length slots]" "(slots, False)" index]
  by (simp add: mark_pass_def)

function mark_loop :: "(nat \<Rightarrow> nat option) \<Rightarrow> 'i slot list \<Rightarrow> 'i slot list" where
  "mark_loop index slots =
     (if snd (mark_pass index slots) then mark_loop index (fst (mark_pass index slots))
      else fst (mark_pass index slots))"
  by pat_completeness auto
termination
  by (relation "measure (\<lambda>(index, slots). undoomed slots)") (auto simp: mark_pass_progress)

declare mark_loop.simps [simp del]

definition release_doomed :: "('i, 'h) env \<Rightarrow> ('i, 'h) swarm \<Rightarrow> nat \<Rightarrow> ('i, 'h) swarm" where
  "release_doomed e s i = (if sl_id (slot_at s i) \<noteq> 0 \<and> sl_doomed (slot_at s i) then release e i s else s)"

definition kill_subtree :: "('i, 'h) env \<Rightarrow> nat \<Rightarrow> bool \<Rightarrow> ('i, 'h) swarm \<Rightarrow> ('i, 'h) swarm" where
  "kill_subtree e n notify_parent s = (case find_slot s n of None \<Rightarrow> s
     | Some target \<Rightarrow>
        (let parent = sl_parent (slot_at s target);
             clear = map (\<lambda>sl. sl\<lparr>sl_doomed := False\<rparr>) (sw_slots s);
             start = clear[target := (clear ! target)\<lparr>sl_doomed := True\<rparr>];
             s1 = s\<lparr>sw_slots := mark_loop (\<lambda>i. if i = 0 then None else sw_index s i) start\<rparr>;
             s2 = foldl (release_doomed e) s1 [0..<length (sw_slots s1)]
         in if notify_parent \<and> parent \<noteq> 0 then emit e parent ''exited'' n (Some ''killed'') s2 else s2))"

definition kill :: "('i, 'h) env \<Rightarrow> nat \<Rightarrow> ('i, 'h) swarm \<Rightarrow> (swarm_error + unit) \<times> ('i, 'h) swarm" where
  "kill e n s = (if find_slot s n = None then (Inl UnknownInstance, s)
     else (Inr (), kill_subtree e n True s))"

end
