(* ===== verification/Swarm_Ops.thy ===== *)
theory Swarm_Ops
  imports Swarm_State
begin

text \<open>
  The swarm's operations, \<^verbatim>\<open>crates/drt-swarm/src/swarm.rs\<close>: hibernation and waking,
  the delivery table, the routing of what instances push at each other, the lifecycle
  requests and the step.  A loop that pops a queue until it is empty depends on the engine to
  end; it takes fuel and answers \<open>None\<close> when the fuel runs out, and
  \<^verbatim>\<open>Swarm_Term\<close> shows how much is enough.
\<close>

section \<open>Hibernation\<close>

definition swarm_text :: "swarm_error \<Rightarrow> string" where
  "swarm_text err = (case err of Gone \<Rightarrow> ''gone'' | UnknownInstance \<Rightarrow> ''no such instance''
     | UnknownQueue \<Rightarrow> ''no such queue'' | Limit s \<Rightarrow> s | SwarmFault s \<Rightarrow> s)"

definition hibernate :: "('i, 'h) env \<Rightarrow> nat \<Rightarrow> ('i, 'h) swarm \<Rightarrow> (swarm_error + unit) \<times> ('i, 'h) swarm" where
  "hibernate e n s = (case find_slot s n of
     None \<Rightarrow> (Inl Gone, s)
   | Some k \<Rightarrow>
      (let sl = slot_at s k in
       if \<not> sl_alive sl then (Inl Gone, s)
       else if \<not> sw_allow_hibernation s then
         (Inl (SwarmFault (''hibernation is switched off for this swarm: this host called ''
            @ ''allow_hibernation(false). Call it with true to switch it back on.'')), s)
       else (case sl_inst sl of
          None \<Rightarrow> (Inr (), s)
        | Some x \<Rightarrow>
           (case e_snapshot (en_engine e) (sw_host_identity s) x of
              (Inl err, x1) \<Rightarrow>
                (Inl (SwarmFault (''instance '' @ show_nat n @ '' will not hibernate: '' @ engine_text err)),
                 put_inst k x1 s)
            | (Inr snap, x1) \<Rightarrow>
                (let s1 = put_slot k (sl\<lparr>sl_snap := Some snap, sl_inst := None, sl_handles := []\<rparr>) s
                 in (Inr (), put_host (h_detached (en_host e) n (sw_host s1)) s1))))))"

fun drain_pending :: "'i engine \<Rightarrow> pending list \<Rightarrow> 'i \<Rightarrow> 'i" where
  "drain_pending eng [] x = x"
| "drain_pending eng (p # ps) x = (case e_queue eng (pd_queue p) x of
     (None, x1) \<Rightarrow> drain_pending eng ps x1
   | (Some q, x1) \<Rightarrow> drain_pending eng ps (snd (e_push eng q (pd_msg p) x1)))"

definition wake :: "('i, 'h) env \<Rightarrow> nat \<Rightarrow> ('i, 'h) swarm \<Rightarrow> (swarm_error + unit) \<times> ('i, 'h) swarm" where
  "wake e n s = (case find_slot s n of
     None \<Rightarrow> (Inl Gone, s)
   | Some k \<Rightarrow>
      (let sl = slot_at s k in
       if \<not> sl_alive sl then (Inl Gone, s)
       else if sl_inst sl \<noteq> None then (Inr (), s)
       else (case sl_snap sl of
          None \<Rightarrow> (Inl (SwarmFault (''instance '' @ show_nat n @ '' has no cached snapshot'')), s)
        | Some snap \<Rightarrow>
           (case e_restore (en_engine e) \<lparr>rs_snapshot = snap, rs_numeric = sl_numeric sl,
                   rs_host_stamp = sw_host_identity s, rs_budget = sl_budget sl,
                   rs_unsafe_stdlib = sl_unsafe_stdlib sl, rs_unsafe_debug = sl_unsafe_debug sl\<rparr> of
              Inl err \<Rightarrow>
                (Inl (SwarmFault (''instance '' @ show_nat n @ '' will not restore: '' @ engine_text err)), s)
            | Inr x \<Rightarrow>
                (let x1 = (if sl_endpoints sl then e_enable_endpoints (en_engine e) x else x);
                     x2 = drain_pending (en_engine e) (sl_pending sl) x1;
                     s1 = put_slot k (sl\<lparr>sl_snap := None, sl_pending := [], sl_inst := Some x2,
                                         sl_handles := []\<rparr>) s
                 in (Inr (), put_host (h_attached (en_host e) n (sw_host s1)) s1))))))"

section \<open>Delivery\<close>

definition resolve_queue :: "('i, 'h) env \<Rightarrow> nat \<Rightarrow> string \<Rightarrow> ('i, 'h) swarm
    \<Rightarrow> queue_handle option \<times> ('i, 'h) swarm" where
  "resolve_queue e k queue s = (case List.find (\<lambda>(name, h). name = queue) (sl_handles (slot_at s k)) of
     Some (name, h) \<Rightarrow> (Some h, s)
   | None \<Rightarrow> (case sl_inst (slot_at s k) of
       None \<Rightarrow> (None, s)
     | Some x \<Rightarrow> (case e_queue (en_engine e) queue x of
         (None, x1) \<Rightarrow> (None, put_inst k x1 s)
       | (Some h, x1) \<Rightarrow> (Some h, put_slot k ((slot_at s k)\<lparr>sl_inst := Some x1,
             sl_handles := sl_handles (slot_at s k) @ [(queue, h)]\<rparr>) s))))"

definition quote :: "string \<Rightarrow> string" where
  "quote s = CHR 0x27 # s @ [CHR 0x27]"

definition push :: "('i, 'h) env \<Rightarrow> nat \<Rightarrow> string \<Rightarrow> sender \<Rightarrow> bytes \<Rightarrow> ('i, 'h) swarm
    \<Rightarrow> (swarm_error + unit) \<times> ('i, 'h) swarm" where
  "push e n queue from raw s =
     (let msg = attach_sender (en_codec e) raw from in
      case find_slot s n of
        None \<Rightarrow> (Inl Gone, s)
      | Some k \<Rightarrow>
         (if \<not> sl_alive (slot_at s k) then (Inl Gone, s)
          else if sl_inst (slot_at s k) \<noteq> None then
            (case resolve_queue e k queue s of
               (None, s1) \<Rightarrow> (Inl UnknownQueue, s1)
             | (Some q, s1) \<Rightarrow>
                (case sl_inst (slot_at s1 k) of
                   None \<Rightarrow> (Inl Gone, s1)
                 | Some x \<Rightarrow> (case e_push (en_engine e) q msg x of
                      (Inr Accepted, x1) \<Rightarrow> (Inr (), put_inst k x1 s1)
                    | (Inr _, x1) \<Rightarrow>
                        (Inl (Limit (quote queue @ '' did not accept the message'')), put_inst k x1 s1)
                    | (Inl err, x1) \<Rightarrow> (Inl (SwarmFault (engine_text err)), put_inst k x1 s1))))
          else if \<not> sl_wake_on_message (slot_at s k) then (Inl Gone, s)
          else if queue = [] \<or> length queue \<ge> max_qname then
            (Inl (SwarmFault (quote queue @ '' is not a usable queue name'')), s)
          else if length (sl_pending (slot_at s k)) \<ge> max_pending then
            (Inl (Limit (''the wake buffer holds '' @ show_nat max_pending @ '' messages and is full'')), s)
          else (Inr (), put_slot k ((slot_at s k)\<lparr>sl_pending :=
                  sl_pending (slot_at s k) @ [\<lparr>pd_queue = queue, pd_msg = msg\<rparr>]\<rparr>) s)))"

definition push_to :: "('i, 'h) env \<Rightarrow> nat \<Rightarrow> queue_address \<Rightarrow> sender \<Rightarrow> bytes \<Rightarrow> ('i, 'h) swarm
    \<Rightarrow> (swarm_error + unit) \<times> ('i, 'h) swarm" where
  "push_to e n addr from msg s = (case deliverable addr of
     Inl err \<Rightarrow> (Inl (SwarmFault (''peer delivery is not supported in this build: ''
        @ quote (pu_queue err) @ '' on '' @ pu_peer err)), s)
   | Inr queue \<Rightarrow> push e n queue from msg s)"

section \<open>Routing\<close>

definition is_backpressure :: "swarm_error + unit \<Rightarrow> bool" where
  "is_backpressure r = (case r of Inl (Limit _) \<Rightarrow> True | Inl UnknownQueue \<Rightarrow> True | _ \<Rightarrow> False)"

definition reference :: "('i, 'h) env \<Rightarrow> nat \<Rightarrow> ('i, 'h) swarm \<Rightarrow> val" where
  "reference e n s = endpoint_to_value (en_refs e)
     (endpoint_local (show_nat n @ CHR ''/'' # inbox) (sw_host_identity s))"

definition resolve_reference :: "('i, 'h) env \<Rightarrow> bytes \<Rightarrow> ('i, 'h) swarm \<Rightarrow> nat option" where
  "resolve_reference e payload s =
     (case endpoint_from_value (en_refs e) (VExt endpoint_ext_type payload) of
        Inl _ \<Rightarrow> None
      | Inr r \<Rightarrow>
         (if er_scheme r \<noteq> scheme_local \<or> er_identity r \<noteq> sw_host_identity s then None
          else (case split_once CHR ''/'' (er_address r) of
             None \<Rightarrow> None
           | Some (i, queue) \<Rightarrow>
              (if queue \<noteq> inbox then None
               else (case parse_unsigned u32_max i of
                  None \<Rightarrow> None | Some n \<Rightarrow> if n \<noteq> 0 then Some n else None)))))"

definition close_endpoint :: "('i, 'h) env \<Rightarrow> nat \<Rightarrow> queue_handle \<Rightarrow> ('i, 'h) swarm \<Rightarrow> ('i, 'h) swarm" where
  "close_endpoint e k q s = (case sl_inst (slot_at s k) of None \<Rightarrow> s
     | Some x \<Rightarrow> put_inst k (snd (e_endpoint_close (en_engine e) q x)) s)"

definition hold :: "nat \<Rightarrow> nat \<times> bytes \<Rightarrow> ('i, 'h) swarm \<Rightarrow> ('i, 'h) swarm" where
  "hold k m s = put_slot k ((slot_at s k)\<lparr>sl_held := sl_held (slot_at s k) @ [m]\<rparr>) s"

text \<open>The retry of what is held for far ends that had no room.\<close>

definition retry_held :: "('i, 'h) env \<Rightarrow> nat \<Rightarrow> sender \<Rightarrow> ('i, 'h) swarm \<Rightarrow> nat \<times> bytes \<Rightarrow> ('i, 'h) swarm" where
  "retry_held e k from s m =
     (let (r, s1) = push e (fst m) inbox from (snd m) (enable_endpoints e (fst m) s) in
      if is_backpressure r then hold k m s1 else s1)"

text \<open>The popping loop of one endpoint, with fuel.\<close>

fun route_pops :: "nat \<Rightarrow> ('i, 'h) env \<Rightarrow> nat \<Rightarrow> queue_handle \<Rightarrow> nat \<Rightarrow> sender \<Rightarrow> ('i, 'h) swarm
    \<Rightarrow> ('i, 'h) swarm option" where
  "route_pops 0 e k q target from s = None"
| "route_pops (Suc fuel) e k q target from s = (case sl_inst (slot_at s k) of
     None \<Rightarrow> Some s
   | Some x \<Rightarrow> (case e_pop (en_engine e) q x of
       (Inr (Some msg), x1) \<Rightarrow>
         (case push e target inbox from msg (put_inst k x1 s) of
            (Inr _, s1) \<Rightarrow> route_pops fuel e k q target from s1
          | (Inl err, s1) \<Rightarrow>
              Some (if is_backpressure (Inl err) then hold k (target, msg) s1 else close_endpoint e k q s1))
     | (_, x1) \<Rightarrow> Some (put_inst k x1 s)))"

definition route_one :: "nat \<Rightarrow> ('i, 'h) env \<Rightarrow> nat \<Rightarrow> nat \<Rightarrow> sender \<Rightarrow> ('i, 'h) swarm
    \<Rightarrow> ('i, 'h) swarm option" where
  "route_one fuel e k token from s = (case sl_inst (slot_at s k) of
     None \<Rightarrow> Some s
   | Some x \<Rightarrow> (case e_endpoint_queue (en_engine e) token x of
       (None, x1) \<Rightarrow> Some (put_inst k x1 s)
     | (Some q, x1) \<Rightarrow>
        (case e_queue_info (en_engine e) q x1 of (info, x2) \<Rightarrow>
          (let s1 = put_inst k x2 s in
           if \<not> (case info of Inr st \<Rightarrow> qs_len st > 0 | Inl _ \<Rightarrow> False) then Some s1
           else (case (case e_endpoint_ref (en_engine e) token x2 of None \<Rightarrow> None
                       | Some bs \<Rightarrow> resolve_reference e bs s1) of
                None \<Rightarrow> Some (close_endpoint e k q s1)
              | Some target \<Rightarrow>
                 (if list_ex (\<lambda>m. fst m = target) (sl_held (slot_at s1 k)) then Some s1
                  else route_pops fuel e k q target from (enable_endpoints e target s1)))))))"

definition route_slot :: "nat \<Rightarrow> ('i, 'h) env \<Rightarrow> ('i, 'h) swarm \<Rightarrow> nat \<Rightarrow> ('i, 'h) swarm option" where
  "route_slot fuel e s k =
     (if sl_id (slot_at s k) = 0 \<or> \<not> sl_alive (slot_at s k) then Some s
      else (let from = sender_runtime (sl_path (slot_at s k));
                held = sl_held (slot_at s k);
                s1 = (if held = [] then s
                      else foldl (retry_held e k from) (put_slot k ((slot_at s k)\<lparr>sl_held := []\<rparr>) s) held)
            in case sl_inst (slot_at s1 k) of
                 None \<Rightarrow> Some s1
               | Some x \<Rightarrow>
                  (let count = e_endpoint_count (en_engine e) x in
                   if count = 0 then Some s1
                   else (let from = sender_runtime (sl_path (slot_at s1 k)) in
                     foldl_opt (\<lambda>s token. route_one fuel e k token from s) s1 [1..<Suc count]))))"

definition route_endpoints :: "nat \<Rightarrow> ('i, 'h) env \<Rightarrow> ('i, 'h) swarm \<Rightarrow> ('i, 'h) swarm option" where
  "route_endpoints fuel e s = foldl_opt (route_slot fuel e) s [0..<length (sw_slots s)]"

section \<open>Lifecycle requests\<close>

definition deny :: "('i, 'h) env \<Rightarrow> nat \<Rightarrow> nat \<Rightarrow> string \<Rightarrow> ('i, 'h) swarm \<Rightarrow> ('i, 'h) swarm" where
  "deny e to about why s = emit e to ''denied'' about (Some why) s"

definition path_error_text :: "bad_node_path \<Rightarrow> string" where
  "path_error_text err = (case err of
     NotRooted p \<Rightarrow> quote p @ '' does not start at '' @ quote root_node
        @ ''; every node path is rooted there''
   | EmptySegment \<Rightarrow> ''a node name cannot be empty''
   | Reserved n \<Rightarrow> quote n @ '' is a reserved name and cannot name a node''
   | Separator n \<Rightarrow> quote n @ '' contains a path separator; a node name is one segment'')"

definition spawn_grants :: "capset \<Rightarrow> string list \<Rightarrow> grant list" where
  "spawn_grants parent names = map grant_of names @ filter (\<lambda>g. effect g = Deny) (cs_grants parent)"

text \<open>The claimed slot of a child, filled in.\<close>

definition child_slot :: "nat \<Rightarrow> node_path \<Rightarrow> capset \<Rightarrow> budget \<Rightarrow> numeric \<Rightarrow> bool \<Rightarrow> bool \<Rightarrow> bool
    \<Rightarrow> 'i slot \<Rightarrow> 'i slot" where
  "child_slot parent path caps budget numeric wakes stdlib debug sl =
     sl\<lparr>sl_parent := parent, sl_path := path, sl_caps := caps, sl_budget := budget,
        sl_numeric := numeric, sl_wake_on_message := wakes, sl_unsafe_stdlib := stdlib,
        sl_unsafe_debug := debug\<rparr>"

definition do_spawn :: "('i, 'h) env \<Rightarrow> nat \<Rightarrow> val \<Rightarrow> ('i, 'h) swarm \<Rightarrow> ('i, 'h) swarm" where
  "do_spawn e k request s =
     (let p = slot_at s k; parent_id = sl_id p in
      if sw_spawns_this_step s \<ge> sw_spawn_rate s then deny e parent_id 0 ''spawn rate limit'' s
      else (case field_bytes request ''code'' of
        None \<Rightarrow> deny e parent_id 0 ''no code in the spawn request'' s
      | Some code \<Rightarrow>
      (case field_caps request of
        None \<Rightarrow> deny e parent_id 0 ''malformed caps'' s
      | Some names \<Rightarrow>
      (case derive_path (sl_path p) (field_str request ''name'') (sw_next_id s mod 2 ^ 32) of
        Inl err \<Rightarrow> deny e parent_id 0 (path_error_text err) s
      | Inr child_path \<Rightarrow>
      (case attenuate_held_by (sl_caps p) (Some child_path) (sl_path p) (spawn_grants (sl_caps p) names) of
        Inl (NotHeldByParent c) \<Rightarrow> deny e parent_id 0 c s
      | Inl err \<Rightarrow> deny e parent_id 0 (attenuation_message err) s
      | Inr child_caps \<Rightarrow>
      (let requested = field_budget request in
       if \<not> budget_fits requested (sl_budget p) then deny e parent_id 0
         ''budget: a child may state a smaller budget than its parent's, never a larger'' s
       else
      (let requested_numeric = field_numeric request in
       if \<not> numeric_fits requested_numeric (sl_numeric p) then deny e parent_id 0
         (if \<not> bound_fits id (max_elements requested_numeric) (max_elements (sl_numeric p))
          then ''numeric.max_elements: a child may state a smaller element bound than its parent's, never a larger''
          else ''numeric.max_tier: a child may state a stricter tier than its parent's, never a looser one'') s
       else (case claim s of
         None \<Rightarrow> deny e parent_id 0 ''the instance table is full'' s
       | Some (c, s1) \<Rightarrow>
          (let sealed = field_bool request ''sealed'';
               s2 = put_slot c (child_slot parent_id child_path child_caps
                      (budget_resolved requested (sl_budget p)) (numeric_resolved requested_numeric (sl_numeric p))
                      (field_bool request ''wake_on_message'')
                      (sl_unsafe_stdlib (slot_at s1 k) \<and> \<not> sealed)
                      (sl_unsafe_debug (slot_at s1 k) \<and> \<not> sealed) (slot_at s1 c)) s1
           in case build e c code s2 of
                (Inr _, s3) \<Rightarrow>
                  (let s4 = s3\<lparr>sw_spawns_this_step := sw_spawns_this_step s3 + 1\<rparr>;
                       child_id = sl_id (slot_at s4 c)
                   in emit_extra e parent_id ''spawned'' child_id None
                        [(''ref'', reference e child_id s4)] s4)
              | (Inl why, s3) \<Rightarrow>
                  (let gone = sl_id (slot_at s3 c) in
                   emit e parent_id ''faulted'' gone (Some why) (release e c s3)))))))))))"

text \<open>
  The walk up the tree; its fuel is the number of handles ever given out, and every parent's
  handle is smaller than its child's.
\<close>

fun ancestor_walk :: "nat \<Rightarrow> ('i, 'h) swarm \<Rightarrow> nat \<Rightarrow> nat \<Rightarrow> bool" where
  "ancestor_walk 0 s ancestor walk = False"
| "ancestor_walk (Suc fuel) s ancestor walk =
     (if walk = 0 then False
      else if walk = ancestor then True
      else ancestor_walk fuel s ancestor
        (case find_slot s walk of None \<Rightarrow> 0 | Some i \<Rightarrow> sl_parent (slot_at s i)))"

definition is_ancestor :: "('i, 'h) swarm \<Rightarrow> nat \<Rightarrow> nat \<Rightarrow> bool" where
  "is_ancestor s ancestor k = ancestor_walk (sw_next_id s) s ancestor (sl_parent (slot_at s k))"

definition do_kill :: "('i, 'h) env \<Rightarrow> nat \<Rightarrow> val \<Rightarrow> ('i, 'h) swarm \<Rightarrow> ('i, 'h) swarm" where
  "do_kill e k request s =
     (let parent_id = sl_id (slot_at s k) in
      case field_id request ''id'' of
        None \<Rightarrow> deny e parent_id 0 ''no usable id in the kill request'' s
      | Some target \<Rightarrow>
         (case find_slot s target of
            None \<Rightarrow> deny e parent_id target ''no such instance'' s
          | Some t \<Rightarrow>
             (if is_ancestor s parent_id t then kill_subtree e target True s
              else deny e parent_id target ''not a descendant'' s)))"

text \<open>Whom a hibernate request is about, or whom to say why not to.\<close>

definition hibernate_target :: "nat \<Rightarrow> val \<Rightarrow> ('i, 'h) swarm \<Rightarrow> (nat \<times> string) + nat" where
  "hibernate_target k request s =
     (let parent_id = sl_id (slot_at s k) in
      case field_id request ''id'' of
        None \<Rightarrow> Inr parent_id
      | Some target \<Rightarrow>
         (if target = parent_id then Inr parent_id
          else (case find_slot s target of
             None \<Rightarrow> Inl (target, ''no such instance'')
           | Some t \<Rightarrow> if \<not> is_ancestor s parent_id t then Inl (target, ''not a descendant'')
                      else Inr target)))"

definition set_wake :: "bool \<Rightarrow> nat \<Rightarrow> ('i, 'h) swarm \<Rightarrow> ('i, 'h) swarm" where
  "set_wake wakes who s = (if wakes
     then (case find_slot s who of None \<Rightarrow> s
           | Some j \<Rightarrow> put_slot j ((slot_at s j)\<lparr>sl_wake_on_message := True\<rparr>) s)
     else s)"

definition do_hibernate :: "('i, 'h) env \<Rightarrow> nat \<Rightarrow> val \<Rightarrow> ('i, 'h) swarm \<Rightarrow> ('i, 'h) swarm" where
  "do_hibernate e k request s =
     (let parent_id = sl_id (slot_at s k); parent_parent = sl_parent (slot_at s k) in
      case hibernate_target k request s of
        Inl (target, why) \<Rightarrow> deny e parent_id target why s
      | Inr who \<Rightarrow>
         (case hibernate e who (set_wake (field_bool request ''wake_on_message'') who s) of
            (Inl err, s2) \<Rightarrow> deny e parent_id who (swarm_text err) s2
          | (Inr _, s2) \<Rightarrow>
             (if who \<noteq> parent_id then emit e parent_id ''hibernated'' who None s2
              else if parent_parent \<noteq> 0 then emit e parent_parent ''hibernated'' who None s2
              else s2)))"

definition do_query :: "('i, 'h) env \<Rightarrow> nat \<Rightarrow> val \<Rightarrow> ('i, 'h) swarm \<Rightarrow> ('i, 'h) swarm" where
  "do_query e k request s =
     (let parent_id = sl_id (slot_at s k) in
      case field_id request ''id'' of
        None \<Rightarrow> deny e parent_id 0 ''no usable id in the query'' s
      | Some target \<Rightarrow>
         (case find_slot s target of
            None \<Rightarrow> emit e parent_id ''status'' target (Some ''gone'') s
          | Some t \<Rightarrow>
             (let sl = slot_at s t;
                  (state, usage) = (case sl_inst sl of None \<Rightarrow> (''cached'', None)
                     | Some x \<Rightarrow> (if sl_alive sl then ''alive'' else ''dead'',
                                 Some (e_usage (en_engine e) x)));
                  u = (case usage of None \<Rightarrow> usage_default | Some u \<Rightarrow> u);
                  detail = state @ '' insns='' @ show_nat (us_instructions u) @ '' mem_kb=''
                    @ show_nat (us_memory_kb_peak u)
              in emit e parent_id ''status'' target (Some detail) s)))"

definition do_ref :: "('i, 'h) env \<Rightarrow> nat \<Rightarrow> val \<Rightarrow> ('i, 'h) swarm \<Rightarrow> ('i, 'h) swarm" where
  "do_ref e k request s =
     (let me = sl_id (slot_at s k) in
      case (case field request ''id'' of None \<Rightarrow> Some me | Some _ \<Rightarrow> field_id request ''id'') of
        None \<Rightarrow> deny e me 0 ''no usable id in the ref request'' s
      | Some target \<Rightarrow>
         (case (if target = me then None
                else (case find_slot s target of
                   None \<Rightarrow> Some (emit e me ''status'' target (Some ''gone'') s)
                 | Some t \<Rightarrow> if \<not> is_ancestor s me t then Some (deny e me target ''not a descendant'' s)
                            else None)) of
            Some refused \<Rightarrow> refused
          | None \<Rightarrow> emit_extra e me ''ref'' target None [(''ref'', reference e target s)] s))"

definition do_op :: "('i, 'h) env \<Rightarrow> nat \<Rightarrow> string \<Rightarrow> val \<Rightarrow> ('i, 'h) swarm \<Rightarrow> ('i, 'h) swarm" where
  "do_op e k op request s =
     (if op = ''spawn'' then do_spawn e k request s
      else if op = ''kill'' then do_kill e k request s
      else if op = ''query'' then do_query e k request s
      else if op = ''hibernate'' then do_hibernate e k request s
      else if op = ''ref'' then do_ref e k request s
      else deny e (sl_id (slot_at s k)) 0 op s)"

text \<open>The next request: the deferred one, or one popped from the lifecycle queue.\<close>

definition next_request :: "('i, 'h) env \<Rightarrow> nat \<Rightarrow> ('i, 'h) swarm \<Rightarrow> bytes option \<times> ('i, 'h) swarm" where
  "next_request e k s = (case sl_deferred (slot_at s k) of
     Some msg \<Rightarrow> (Some msg, put_slot k ((slot_at s k)\<lparr>sl_deferred := None\<rparr>) s)
   | None \<Rightarrow> (case sl_inst (slot_at s k) of
       None \<Rightarrow> (None, s)
     | Some x \<Rightarrow> (case e_queue (en_engine e) ''system/lifecycle'' x of
         (None, x1) \<Rightarrow> (None, put_inst k x1 s)
       | (Some q, x1) \<Rightarrow> (case e_pop (en_engine e) q x1 of
            (Inr (Some msg), x2) \<Rightarrow> (Some msg, put_inst k x2 s)
          | (_, x2) \<Rightarrow> (None, put_inst k x2 s)))))"

definition request_op :: "val option \<Rightarrow> (val \<times> string) option" where
  "request_op request = (case request of None \<Rightarrow> None
     | Some r \<Rightarrow> map_option (\<lambda>op. (r, op)) (field_str r ''op''))"

fun drain_loop :: "nat \<Rightarrow> ('i, 'h) env \<Rightarrow> nat \<Rightarrow> nat \<Rightarrow> ('i, 'h) swarm \<Rightarrow> ('i, 'h) swarm option" where
  "drain_loop 0 e k n s = None"
| "drain_loop (Suc fuel) e k n s = (case next_request e k s of
     (None, s1) \<Rightarrow> Some s1
   | (Some msg, s1) \<Rightarrow>
      (if length msg > request_cap_bytes then
         drain_loop fuel e k n (deny e n 0 ''the request is too large'' s1)
       else (case request_op (read_request (en_codec e) msg) of
          None \<Rightarrow> drain_loop fuel e k n (deny e n 0 ''no op in the request'' s1)
        | Some (request, op) \<Rightarrow>
           (if op = ''spawn'' \<and> sw_spawns_this_step s1 \<ge> sw_spawn_rate s1 then
              Some (emit e n ''throttled'' 0 (Some ''spawn rate limit'')
                (put_slot k ((slot_at s1 k)\<lparr>sl_deferred := Some msg\<rparr>) s1))
            else
              (let s2 = do_op e k op request s1 in
               if sl_id (slot_at s2 k) \<noteq> n \<or> \<not> sl_alive (slot_at s2 k) \<or> sl_inst (slot_at s2 k) = None
               then Some s2 else drain_loop fuel e k n s2)))))"

definition drain :: "nat \<Rightarrow> ('i, 'h) env \<Rightarrow> ('i, 'h) swarm \<Rightarrow> nat \<Rightarrow> ('i, 'h) swarm option" where
  "drain fuel e s k =
     (if sl_inst (slot_at s k) = None \<or> \<not> sl_alive (slot_at s k) then Some s
      else if \<not> holds (sl_caps (slot_at s k)) cap_lifecycle then Some s
      else drain_loop fuel e k (sl_id (slot_at s k)) s)"

section \<open>The step\<close>

definition end_vital :: "('i, 'h) env \<Rightarrow> ('i, 'h) swarm \<Rightarrow> nat \<times> string \<Rightarrow> ('i, 'h) swarm" where
  "end_vital e s w = (case find_slot s (fst w) of None \<Rightarrow> s
     | Some k \<Rightarrow>
        (if \<not> sl_alive (slot_at s k) then s
         else (let parent = sl_parent (slot_at s k); s1 = kill_subtree e (fst w) False s in
               if parent \<noteq> 0 then emit e parent ''ended'' (fst w) (Some (snd w)) s1 else s1)))"

definition push_notice :: "('i, 'h) env \<Rightarrow> ('i, 'h) swarm \<Rightarrow> nat \<times> string \<times> bytes \<Rightarrow> ('i, 'h) swarm" where
  "push_notice e s w = snd (push e (fst w) (fst (snd w)) (sender_runtime root_node) (snd (snd w)) s)"

definition wake_slot :: "('i, 'h) env \<Rightarrow> ('i, 'h) swarm \<Rightarrow> nat \<Rightarrow> ('i, 'h) swarm" where
  "wake_slot e s k =
     (let sl = slot_at s k in
      if sl_id sl = 0 \<or> \<not> sl_alive sl \<or> sl_inst sl \<noteq> None \<or> sl_pending sl = [] then s
      else (case wake e (sl_id sl) s of
         (Inr _, s1) \<Rightarrow> s1
       | (Inl err, s1) \<Rightarrow>
          (let s2 = kill_subtree e (sl_id sl) False s1 in
           if sl_parent sl \<noteq> 0 then emit e (sl_parent sl) ''faulted'' (sl_id sl) (Some (swarm_text err)) s2
           else s2)))"

definition drain_slot :: "nat \<Rightarrow> ('i, 'h) env \<Rightarrow> ('i, 'h) swarm \<Rightarrow> nat \<Rightarrow> ('i, 'h) swarm option" where
  "drain_slot fuel e s k =
     (if sl_id (slot_at s k) \<noteq> 0 \<and> sl_alive (slot_at s k) then drain fuel e s k else Some s)"

definition stop_event :: "driven \<Rightarrow> bool \<Rightarrow> string \<times> string option" where
  "stop_event outcome over =
     (if over then (''exceeded'', None)
      else (case outcome of DrivenFaulted msg \<Rightarrow> (''faulted'', Some msg) | _ \<Rightarrow> (''exited'', None)))"

definition drive_slot :: "nat \<Rightarrow> ('i, 'h) env \<Rightarrow> ('i, 'h) swarm \<Rightarrow> nat \<Rightarrow> ('i, 'h) swarm option" where
  "drive_slot fuel e s k =
     (let sl = slot_at s k; n = sl_id sl in
      if n = 0 \<or> \<not> sl_alive sl then Some s
      else (case sl_inst sl of None \<Rightarrow> Some s
        | Some x \<Rightarrow>
           (case h_drive (en_host e) n (sl_caps sl) x (sw_host s) of (driven, x1, h1) \<Rightarrow>
             (let s1 = put_host h1 (put_inst k x1 s) in
              case find_slot s1 n of None \<Rightarrow> Some s1
              | Some j \<Rightarrow>
                 (if driven = DrivenAlive then Some s1
                  else (let parent = sl_parent (slot_at s1 j);
                            inst = sl_inst (slot_at s1 j);
                            over = (case inst of None \<Rightarrow> False | Some y \<Rightarrow> e_exceeded (en_engine e) y);
                            touched = (case inst of None \<Rightarrow> False | Some y \<Rightarrow> e_touched_fast (en_engine e) y);
                            (what, why) = stop_event driven over
                        in case route_slot fuel e s1 j of None \<Rightarrow> None
                           | Some s2 \<Rightarrow>
                              (let s3 = kill_subtree e n False s2 in
                               Some (if parent \<noteq> 0 then emit_stop e parent what n why touched s3 else s3))))))))"

definition step :: "nat \<Rightarrow> ('i, 'h) env \<Rightarrow> ('i, 'h) swarm \<Rightarrow> (nat \<times> ('i, 'h) swarm) option" where
  "step fuel e s0 =
     (let s1 = s0\<lparr>sw_spawns_this_step := 0\<rparr>;
          (ended, h1) = h_ended (en_host e) (sw_host s1);
          s2 = foldl (end_vital e) (put_host h1 s1) ended;
          (notices, h2) = h_notices (en_host e) (sw_host s2);
          s3 = foldl (push_notice e) (put_host h2 s2) notices
      in case route_endpoints fuel e s3 of None \<Rightarrow> None
         | Some s4 \<Rightarrow>
            (let s5 = foldl (wake_slot e) s4 [0..<length (sw_slots s4)] in
             case foldl_opt (drain_slot fuel e) s5 [0..<length (sw_slots s5)] of None \<Rightarrow> None
             | Some s6 \<Rightarrow>
                (case foldl_opt (drive_slot fuel e) s6 [0..<length (sw_slots s6)] of None \<Rightarrow> None
                 | Some s7 \<Rightarrow> Some (alive_count s7, s7))))"

end
