(* ===== verification/Swarm_Kill.thy ===== *)
theory Swarm_Kill
  imports Swarm_Ops
begin

text \<open>
  The subtree kill of \<^verbatim>\<open>crates/drt-swarm/src/swarm.rs\<close>, taken apart: the marking
  loop computes exactly the target and what descends from it, the sweep frees exactly the
  marked slots, and the table stays consistent.  \<open>table_ok\<close> is the consistency of slots and
  index.
\<close>

section \<open>The table\<close>

definition table_ok :: "('i, 'h) swarm \<Rightarrow> bool" where
  "table_ok s \<longleftrightarrow> length (sw_slots s) \<le> sw_max_instances s \<and> 1 \<le> sw_next_id s \<and>
     (\<forall>n i. sw_index s n = Some i \<longleftrightarrow> i < length (sw_slots s) \<and> sl_id (slot_at s i) = n \<and> n \<noteq> 0) \<and>
     (\<forall>i < length (sw_slots s). sl_id (slot_at s i) \<noteq> 0 \<longrightarrow>
        sl_id (slot_at s i) < sw_next_id s \<and> sl_alive (slot_at s i))"

lemma table_index: "table_ok s \<Longrightarrow> sw_index s n = Some i \<longleftrightarrow>
    i < length (sw_slots s) \<and> sl_id (slot_at s i) = n \<and> n \<noteq> 0"
  by (simp add: table_ok_def)

lemma table_find: "table_ok s \<Longrightarrow> find_slot s n = Some i \<longleftrightarrow>
    i < length (sw_slots s) \<and> sl_id (slot_at s i) = n \<and> n \<noteq> 0"
  by (auto simp: find_slot_def table_index)

lemma table_find_index: "table_ok s \<Longrightarrow> find_slot s n = sw_index s n"
proof (cases "n = 0")
  case True
  assume "table_ok s"
  then have "sw_index s 0 \<noteq> Some i" for i by (simp add: table_index)
  with True show ?thesis by (cases "sw_index s 0") (auto simp: find_slot_def)
qed (simp add: find_slot_def)

lemma table_id_unique:
  assumes "table_ok s" "i < length (sw_slots s)" "j < length (sw_slots s)"
    "sl_id (slot_at s i) = sl_id (slot_at s j)" "sl_id (slot_at s i) \<noteq> 0"
  shows "i = j"
  using table_index [OF assms(1), of "sl_id (slot_at s i)" i]
    table_index [OF assms(1), of "sl_id (slot_at s i)" j] assms(2-) by simp

lemma table_alive: "table_ok s \<Longrightarrow> find_slot s n = Some i \<Longrightarrow> sl_alive (slot_at s i)"
  by (auto simp: table_find) (auto simp: table_ok_def)

text \<open>Who is whose child, by handle.\<close>

definition child_rel :: "('i, 'h) swarm \<Rightarrow> nat \<Rightarrow> nat \<Rightarrow> bool" where
  "child_rel s a b \<longleftrightarrow> (\<exists>i < length (sw_slots s). sl_id (slot_at s i) = b \<and> b \<noteq> 0 \<and>
     sl_parent (slot_at s i) = a \<and> a \<noteq> 0)"

definition descends :: "('i, 'h) swarm \<Rightarrow> nat \<Rightarrow> nat \<Rightarrow> bool" where
  "descends s = (child_rel s)\<^sup>*\<^sup>*"

section \<open>Marking\<close>

definition unmarked :: "'i slot \<Rightarrow> 'i slot" where
  "unmarked sl = sl\<lparr>sl_doomed := False\<rparr>"

lemma unmarked_fields [simp]:
  "sl_id (unmarked sl) = sl_id sl" "sl_parent (unmarked sl) = sl_parent sl"
  by (simp_all add: unmarked_def)

lemma unmarked_mark: "unmarked (sl\<lparr>sl_doomed := b\<rparr>) = unmarked sl"
  by (simp add: unmarked_def)

lemma map_unmarked_update:
  "map unmarked (slots[i := (slots ! i)\<lparr>sl_doomed := b\<rparr>]) = map unmarked slots"
proof (cases "i < length slots")
  case True
  then have "(map unmarked slots)[i := unmarked (slots ! i)] = map unmarked slots"
    by (metis list_update_id nth_map)
  then show ?thesis by (simp add: map_update unmarked_mark)
qed (simp add: list_update_beyond)

lemma mark_visit_core: "map unmarked (fst (mark_visit index st i)) = map unmarked (fst st)"
  by (simp add: mark_visit_def Let_def map_unmarked_update)

lemma mark_fold_core: "map unmarked (fst (foldl (mark_visit index) st is)) = map unmarked (fst st)"
  by (induction "is" arbitrary: st) (simp_all add: mark_visit_core)

lemma mark_loop_core: "map unmarked (mark_loop index slots) = map unmarked slots"
proof (induction index slots rule: mark_loop.induct)
  case (1 index slots)
  then show ?case
    using mark_fold_core [of index "(slots, False)"]
    by (subst mark_loop.simps) (simp add: mark_pass_def)
qed

lemma core_fields:
  assumes "map unmarked a = map unmarked b" and "i < length b"
  shows "sl_id (a ! i) = sl_id (b ! i) \<and> sl_parent (a ! i) = sl_parent (b ! i) \<and> length a = length b \<and>
    unmarked (a ! i) = unmarked (b ! i)"
proof -
  have l: "length a = length b" using assms(1) map_eq_imp_length_eq by blast
  then have "unmarked (a ! i) = unmarked (b ! i)"
    using assms by (metis nth_map)
  then show ?thesis using l by (metis unmarked_fields)
qed

text \<open>A predicate on indices that the tree carries downward, and what the marks stay within.\<close>

definition carried :: "(nat \<Rightarrow> nat option) \<Rightarrow> 'i slot list \<Rightarrow> (nat \<Rightarrow> bool) \<Rightarrow> bool" where
  "carried index slots Q \<longleftrightarrow> (\<forall>i < length slots. \<forall>p. sl_id (slots ! i) \<noteq> 0 \<and> sl_parent (slots ! i) \<noteq> 0 \<and>
     index (sl_parent (slots ! i)) = Some p \<and> p < length slots \<and> Q p \<longrightarrow> Q i)"

definition marks_in :: "'i slot list \<Rightarrow> (nat \<Rightarrow> bool) \<Rightarrow> bool" where
  "marks_in slots Q \<longleftrightarrow> (\<forall>i < length slots. sl_doomed (slots ! i) \<longrightarrow> Q i)"

definition in_range :: "(nat \<Rightarrow> nat option) \<Rightarrow> 'i slot list \<Rightarrow> bool" where
  "in_range index slots \<longleftrightarrow> (\<forall>n p. index n = Some p \<longrightarrow> p < length slots)"

lemma carried_core: "map unmarked a = map unmarked b \<Longrightarrow> carried index a Q = carried index b Q"
  using core_fields [of a b] map_eq_imp_length_eq [of unmarked a unmarked b] by (auto simp: carried_def)

lemma mark_visit_marks_in:
  assumes "carried index (fst st) Q" and "marks_in (fst st) Q" and "in_range index (fst st)"
    and "i < length (fst st)"
  shows "marks_in (fst (mark_visit index st i)) Q"
  using assms
  by (auto simp: mark_visit_def Let_def marks_in_def carried_def in_range_def nth_list_update
      split: option.splits)

lemma mark_fold_marks_in:
  "carried index (fst st) Q \<Longrightarrow> marks_in (fst st) Q \<Longrightarrow> in_range index (fst st) \<Longrightarrow>
   \<forall>i\<in>set is. i < length (fst st) \<Longrightarrow> marks_in (fst (foldl (mark_visit index) st is)) Q"
proof (induction "is" arbitrary: st)
  case (Cons i "is")
  let ?st = "mark_visit index st i"
  have l: "length (fst ?st) = length (fst st)" using mark_visit_progress [of i st index] Cons.prems(4) by simp
  have "carried index (fst ?st) Q" using carried_core [OF mark_visit_core] Cons.prems(1) by blast
  moreover have "marks_in (fst ?st) Q"
    by (rule mark_visit_marks_in [OF Cons.prems(1-3)]) (use Cons.prems(4) in simp)
  moreover have "in_range index (fst ?st)" using Cons.prems(3) l by (simp add: in_range_def)
  ultimately show ?case using Cons.IH [of ?st] Cons.prems(4) l by simp
qed simp

lemma mark_loop_marks_in:
  "carried index slots Q \<Longrightarrow> marks_in slots Q \<Longrightarrow> in_range index slots \<Longrightarrow>
   marks_in (mark_loop index slots) Q"
proof (induction index slots rule: mark_loop.induct)
  case (1 index slots)
  let ?p = "fst (mark_pass index slots)"
  have core: "map unmarked ?p = map unmarked slots"
    using mark_fold_core [of index "(slots, False)"] by (simp add: mark_pass_def)
  have m: "marks_in ?p Q"
    using mark_fold_marks_in [of index "(slots, False)" Q] 1(2-4) by (simp add: mark_pass_def)
  have c: "carried index ?p Q" using carried_core [OF core] 1(2) by simp
  have r: "in_range index ?p" using 1(4) mark_pass_progress [of index slots] by (simp add: in_range_def)
  show ?case using 1(1) c m r by (subst mark_loop.simps) auto
qed

text \<open>What a pass that changes nothing says: the marks are closed under the tree.\<close>

lemma mark_visit_change: "mark_visit index st i = st \<or> snd (mark_visit index st i)"
  by (auto simp: mark_visit_def Let_def)

lemma mark_visit_sticky: "snd st \<Longrightarrow> snd (mark_visit index st i)"
  by (auto simp: mark_visit_def Let_def)

lemma mark_fold_sticky: "snd st \<Longrightarrow> snd (foldl (mark_visit index) st is)"
  by (induction "is" arbitrary: st) (simp_all add: mark_visit_sticky)

lemma mark_fold_unchanged:
  "\<not> snd (foldl (mark_visit index) st is) \<Longrightarrow>
   foldl (mark_visit index) st is = st \<and> (\<forall>i\<in>set is. mark_visit index st i = st)"
proof (induction "is" arbitrary: st)
  case (Cons i "is")
  then have "mark_visit index st i = st"
    using mark_fold_sticky [of "mark_visit index st i" index "is"] mark_visit_change [of index st i] by auto
  with Cons show ?case by simp
qed simp

lemma mark_loop_fixed: "\<exists>r. mark_loop index slots = r \<and> \<not> snd (mark_pass index r) \<and> fst (mark_pass index r) = r"
proof (induction index slots rule: mark_loop.induct)
  case (1 index slots)
  show ?case
  proof (cases "snd (mark_pass index slots)")
    case True
    with 1 show ?thesis by (subst (1) mark_loop.simps) simp
  next
    case False
    then have "fst (mark_pass index slots) = slots"
      using mark_fold_unchanged [of index "(slots, False)" "[0..<length slots]"]
      by (simp add: mark_pass_def)
    with False show ?thesis by (subst (1) mark_loop.simps) simp
  qed
qed

lemma mark_loop_closed:
  assumes "r = mark_loop index slots" and "i < length r" and "sl_id (r ! i) \<noteq> 0"
    and "sl_parent (r ! i) \<noteq> 0" and "index (sl_parent (r ! i)) = Some p" and "sl_doomed (r ! p)"
  shows "sl_doomed (r ! i)"
proof -
  have "\<not> snd (mark_pass index r)" using mark_loop_fixed [of index slots] assms(1) by auto
  then have "mark_visit index (r, False) i = (r, False)"
    using mark_fold_unchanged [of index "(r, False)" "[0..<length r]"] assms(2) by (simp add: mark_pass_def)
  then show ?thesis using assms(3-) by (auto simp: mark_visit_def Let_def split: if_splits)
qed

lemma mark_visit_keeps: "i < length (fst st) \<Longrightarrow> j < length (fst st) \<Longrightarrow> sl_doomed (fst st ! j) \<Longrightarrow>
    sl_doomed (fst (mark_visit index st i) ! j)"
  by (auto simp: mark_visit_def Let_def nth_list_update)

lemma mark_fold_keeps: "\<forall>i\<in>set is. i < length (fst st) \<Longrightarrow> j < length (fst st) \<Longrightarrow>
    sl_doomed (fst st ! j) \<Longrightarrow> sl_doomed (fst (foldl (mark_visit index) st is) ! j)"
proof (induction "is" arbitrary: st)
  case (Cons i "is")
  then show ?case
    using mark_visit_progress [of i st index] mark_visit_keeps [of i st j index] by simp
qed simp

lemma mark_loop_keeps: "j < length slots \<Longrightarrow> sl_doomed (slots ! j) \<Longrightarrow> sl_doomed (mark_loop index slots ! j)"
proof (induction index slots rule: mark_loop.induct)
  case (1 index slots)
  have "sl_doomed (fst (mark_pass index slots) ! j)"
    using mark_fold_keeps [of "[0..<length slots]" "(slots, False)" j index] 1(2,3)
    by (simp add: mark_pass_def)
  then show ?case
    using 1 mark_pass_progress [of index slots] by (subst mark_loop.simps) auto
qed

section \<open>The sweep\<close>

definition swept :: "'i slot list \<Rightarrow> nat \<Rightarrow> 'i slot list" where
  "swept slots k = map (\<lambda>i. if i < k \<and> sl_id (slots ! i) \<noteq> 0 \<and> sl_doomed (slots ! i) then slot_free
     else slots ! i) [0..<length slots]"

definition swept_index :: "(nat \<Rightarrow> nat option) \<Rightarrow> 'i slot list \<Rightarrow> nat \<Rightarrow> nat \<Rightarrow> nat option" where
  "swept_index index slots k n =
     (if \<exists>i < k. sl_id (slots ! i) = n \<and> n \<noteq> 0 \<and> sl_doomed (slots ! i) then None else index n)"

lemma swept_Suc:
  assumes "k < length slots"
  shows "swept slots (Suc k) = (if sl_id (slots ! k) \<noteq> 0 \<and> sl_doomed (slots ! k)
    then (swept slots k)[k := slot_free] else swept slots k)"
  using assms by (intro nth_equalityI) (auto simp: swept_def nth_list_update less_Suc_eq)

lemma swept_index_Suc:
  "swept_index index slots (Suc k) = (if sl_id (slots ! k) \<noteq> 0 \<and> sl_doomed (slots ! k)
    then (swept_index index slots k)(sl_id (slots ! k) := None) else swept_index index slots k)"
  by (auto simp: swept_index_def fun_eq_iff less_Suc_eq)

lemma length_swept [simp]: "length (swept slots k) = length slots"
  by (simp add: swept_def)

lemma nth_swept_above: "k \<le> i \<Longrightarrow> i < length slots \<Longrightarrow> swept slots k ! i = slots ! i"
  by (simp add: swept_def)

lemma foldl_upt_Suc: "foldl f s [0..<Suc k] = f (foldl f s [0..<k]) k"
  by simp

lemma sweep_fold:
  "k \<le> length (sw_slots s) \<Longrightarrow> \<exists>h. foldl (release_doomed e) s [0..<k] =
     s\<lparr>sw_host := h, sw_slots := swept (sw_slots s) k,
       sw_index := swept_index (sw_index s) (sw_slots s) k\<rparr>"
proof (induction k)
  case 0
  have "swept (sw_slots s) 0 = sw_slots s" by (simp add: swept_def map_nth)
  moreover have "swept_index (sw_index s) (sw_slots s) 0 = sw_index s"
    by (simp add: swept_index_def fun_eq_iff)
  ultimately show ?case by (intro exI [of _ "sw_host s"]) simp
next
  case (Suc k)
  then obtain h where h: "foldl (release_doomed e) s [0..<k] =
     s\<lparr>sw_host := h, sw_slots := swept (sw_slots s) k,
       sw_index := swept_index (sw_index s) (sw_slots s) k\<rparr>" by auto
  have k: "swept (sw_slots s) k ! k = slot_at s k" using Suc.prems by (simp add: nth_swept_above)
  show ?case
  proof (cases "sl_id (slot_at s k) \<noteq> 0 \<and> sl_doomed (slot_at s k)")
    case True
    then show ?thesis
      using Suc.prems unfolding foldl_upt_Suc h
      by (intro exI [of _ "h_released (en_host e) (sl_id (slot_at s k))
            (if sl_inst (slot_at s k) \<noteq> None then h_detached (en_host e) (sl_id (slot_at s k)) h else h)"])
        (simp add: release_doomed_def release_def k swept_Suc swept_index_Suc Let_def fun_upd_def)
  next
    case False
    then show ?thesis
      using Suc.prems unfolding foldl_upt_Suc h
      by (intro exI [of _ h]) (auto simp: release_doomed_def k swept_Suc swept_index_Suc)
  qed
qed

definition marked :: "nat \<Rightarrow> ('i, 'h) swarm \<Rightarrow> 'i slot list" where
  "marked t s = mark_loop (\<lambda>i. if i = 0 then None else sw_index s i)
     ((map unmarked (sw_slots s))[t := (map unmarked (sw_slots s) ! t)\<lparr>sl_doomed := True\<rparr>])"

definition kill_core :: "('i, 'h) env \<Rightarrow> nat \<Rightarrow> ('i, 'h) swarm \<Rightarrow> ('i, 'h) swarm" where
  "kill_core e t s = foldl (release_doomed e) (s\<lparr>sw_slots := marked t s\<rparr>) [0..<length (marked t s)]"

lemma kill_subtree_core:
  "kill_subtree e n b s = (case find_slot s n of None \<Rightarrow> s
     | Some t \<Rightarrow> (let parent = sl_parent (slot_at s t); s2 = kill_core e t s in
         if b \<and> parent \<noteq> 0 then emit e parent ''exited'' n (Some ''killed'') s2 else s2))"
proof -
  have "sl_doomed_update (\<lambda>_. False) = (unmarked :: 'a slot \<Rightarrow> 'a slot)"
    by (simp add: unmarked_def fun_eq_iff)
  then show ?thesis by (simp add: kill_subtree_def kill_core_def marked_def Let_def split: option.splits)
qed

lemma marked_core:
  assumes "t < length (sw_slots s)"
  shows "map unmarked (marked t s) = map unmarked (sw_slots s)"
proof -
  have "unmarked (unmarked sl) = unmarked sl" for sl :: "'a slot" by (simp add: unmarked_def)
  then have u: "map unmarked (map unmarked (sw_slots s)) = map unmarked (sw_slots s)" by simp
  show ?thesis
    unfolding marked_def mark_loop_core map_unmarked_update by (rule u)
qed

lemma length_marked: "t < length (sw_slots s) \<Longrightarrow> length (marked t s) = length (sw_slots s)"
  using map_eq_imp_length_eq [OF marked_core] .

lemma marked_fields:
  "t < length (sw_slots s) \<Longrightarrow> i < length (sw_slots s) \<Longrightarrow>
   sl_id (marked t s ! i) = sl_id (slot_at s i) \<and> sl_parent (marked t s ! i) = sl_parent (slot_at s i) \<and>
   unmarked (marked t s ! i) = unmarked (slot_at s i)"
  using core_fields [OF marked_core] by blast

lemma table_in_range: "table_ok s \<Longrightarrow> in_range (\<lambda>i. if i = 0 then None else sw_index s i) (sw_slots s)"
  by (simp add: in_range_def table_index)

text \<open>Exactly the target and what descends from it is marked.\<close>

lemma marked_iff:
  assumes "table_ok s" and t: "t < length (sw_slots s)" "sl_id (slot_at s t) \<noteq> 0" and "i < length (sw_slots s)"
  shows "sl_id (slot_at s i) \<noteq> 0 \<and> sl_doomed (marked t s ! i) \<longleftrightarrow>
     sl_id (slot_at s i) \<noteq> 0 \<and> descends s (sl_id (slot_at s t)) (sl_id (slot_at s i))"
proof -
  let ?index = "\<lambda>i. if i = 0 then None else sw_index s i"
  let ?start = "(map unmarked (sw_slots s))[t := (map unmarked (sw_slots s) ! t)\<lparr>sl_doomed := True\<rparr>]"
  let ?Q = "\<lambda>i. descends s (sl_id (slot_at s t)) (sl_id (slot_at s i))"
  have m: "marked t s = mark_loop ?index ?start" by (simp add: marked_def)
  have core: "map unmarked ?start = map unmarked (sw_slots s)"
    by (simp only: map_unmarked_update) (simp add: unmarked_def)
  have carried: "carried ?index (sw_slots s) ?Q"
  proof (unfold carried_def, intro allI impI)
    fix i p assume i: "i < length (sw_slots s)"
      and p: "sl_id (slot_at s i) \<noteq> 0 \<and> sl_parent (slot_at s i) \<noteq> 0 \<and>
        ?index (sl_parent (slot_at s i)) = Some p \<and> p < length (sw_slots s) \<and> ?Q p"
    then have "sw_index s (sl_parent (slot_at s i)) = Some p" by (auto split: if_splits)
    then have "sl_id (slot_at s p) = sl_parent (slot_at s i)"
      using table_index [OF assms(1)] by blast
    then have "child_rel s (sl_id (slot_at s p)) (sl_id (slot_at s i))"
      using i p unfolding child_rel_def by (metis (no_types))
    with p show "?Q i" unfolding descends_def by (auto intro: rtranclp.rtrancl_into_rtrancl)
  qed
  have "marks_in ?start ?Q"
    using t by (auto simp: marks_in_def nth_list_update unmarked_def descends_def)
  moreover have "carried ?index ?start ?Q" using carried_core [OF core] carried by blast
  moreover have "in_range ?index ?start" using table_in_range [OF assms(1)] by (simp add: in_range_def)
  ultimately have "marks_in (marked t s) ?Q" unfolding m by (intro mark_loop_marks_in)
  then have sound: "sl_doomed (marked t s ! i) \<Longrightarrow> ?Q i"
    using assms(4) length_marked [OF t(1)] by (simp add: marks_in_def)
  have root: "sl_doomed (marked t s ! t)"
    unfolding m using t(1) by (intro mark_loop_keeps) simp_all
  have down: "sl_doomed (marked t s ! j)"
    if j: "j < length (sw_slots s)" and p: "p < length (sw_slots s)" "sl_doomed (marked t s ! p)"
      and c: "child_rel s (sl_id (slot_at s p)) (sl_id (slot_at s j))" for j p
  proof -
    from c obtain j' where j': "j' < length (sw_slots s)" "sl_id (slot_at s j') = sl_id (slot_at s j)"
      "sl_id (slot_at s j) \<noteq> 0" "sl_parent (slot_at s j') = sl_id (slot_at s p)" "sl_id (slot_at s p) \<noteq> 0"
      unfolding child_rel_def by blast
    then have "j' = j" using table_id_unique [OF assms(1) j'(1) j] by simp
    with j' have "?index (sl_parent (slot_at s j)) = Some p"
      using p(1) by (simp add: table_index [OF assms(1)])
    then show ?thesis
      using mark_loop_closed [OF m, of j p] j' \<open>j' = j\<close> p j marked_fields [OF t(1) j] length_marked [OF t(1)]
      by simp
  qed
  have "sl_doomed (marked t s ! j)"
    if "descends s (sl_id (slot_at s t)) d" "j < length (sw_slots s)" "sl_id (slot_at s j) = d" "d \<noteq> 0" for d j
    using that unfolding descends_def
  proof (induction arbitrary: j rule: rtranclp_induct)
    case base
    then have "j = t" using table_id_unique [OF assms(1) _ t(1)] by simp
    then show ?case using root by simp
  next
    case (step a b)
    then obtain p where p: "p < length (sw_slots s)" "sl_id (slot_at s p) = a"
    proof -
      have "a = sl_id (slot_at s t) \<or> (\<exists>i < length (sw_slots s). sl_id (slot_at s i) = a)"
        using step(1) by (cases rule: rtranclp.cases) (auto simp: child_rel_def)
      then show ?thesis using that t(1) by blast
    qed
    have "a \<noteq> 0" using step(2) by (auto simp: child_rel_def)
    then have "sl_doomed (marked t s ! p)" using step.IH p by simp
    then show ?case using down [OF step.prems(1) p(1)] step(2) p(2) step.prems(2) by simp
  qed
  then show ?thesis using sound assms(4) by blast
qed

section \<open>What a kill leaves\<close>

lemma kill_core_frame:
  "t < length (sw_slots s) \<Longrightarrow> \<exists>h. kill_core e t s =
     s\<lparr>sw_host := h, sw_slots := swept (marked t s) (length (sw_slots s)),
       sw_index := swept_index (sw_index s) (marked t s) (length (sw_slots s))\<rparr>"
  using sweep_fold [of "length (sw_slots s)" "s\<lparr>sw_slots := marked t s\<rparr>" e]
  by (simp add: kill_core_def length_marked)

lemma kill_core_rest:
  assumes "t < length (sw_slots s)"
  shows "length (sw_slots (kill_core e t s)) = length (sw_slots s) \<and>
    sw_next_id (kill_core e t s) = sw_next_id s \<and> sw_max_instances (kill_core e t s) = sw_max_instances s \<and>
    sw_host_identity (kill_core e t s) = sw_host_identity s \<and>
    sw_spawns_this_step (kill_core e t s) = sw_spawns_this_step s \<and>
    sw_spawn_rate (kill_core e t s) = sw_spawn_rate s"
  using kill_core_frame [OF assms, of e] length_marked [OF assms] by auto

lemma kill_core_slot:
  assumes "table_ok s" and t: "t < length (sw_slots s)" "sl_id (slot_at s t) \<noteq> 0" and i: "i < length (sw_slots s)"
  shows "if sl_id (slot_at s i) \<noteq> 0 \<and> descends s (sl_id (slot_at s t)) (sl_id (slot_at s i))
    then slot_at (kill_core e t s) i = slot_free
    else unmarked (slot_at (kill_core e t s) i) = unmarked (slot_at s i)"
proof -
  obtain h where "kill_core e t s =
     s\<lparr>sw_host := h, sw_slots := swept (marked t s) (length (sw_slots s)),
       sw_index := swept_index (sw_index s) (marked t s) (length (sw_slots s))\<rparr>"
    using kill_core_frame [OF t(1)] by blast
  then have "slot_at (kill_core e t s) i = (if sl_id (marked t s ! i) \<noteq> 0 \<and> sl_doomed (marked t s ! i)
      then slot_free else marked t s ! i)"
    using i length_marked [OF t(1)] by (simp add: swept_def)
  then show ?thesis
    using marked_iff [OF assms] marked_fields [OF t(1) i] by auto
qed

lemma descends_known: "descends s a b \<Longrightarrow> a \<noteq> b \<Longrightarrow> \<exists>i < length (sw_slots s). sl_id (slot_at s i) = b \<and> b \<noteq> 0"
  unfolding descends_def by (erule rtranclp.cases) (auto simp: child_rel_def)

lemma kill_core_index:
  assumes "table_ok s" and t: "t < length (sw_slots s)" "sl_id (slot_at s t) \<noteq> 0"
  shows "sw_index (kill_core e t s) n = (if descends s (sl_id (slot_at s t)) n then None else sw_index s n)"
proof -
  have "sw_index (kill_core e t s) n =
      swept_index (sw_index s) (marked t s) (length (sw_slots s)) n"
    using kill_core_frame [OF t(1), of e] by auto
  moreover have "(\<exists>i < length (sw_slots s). sl_id (marked t s ! i) = n \<and> n \<noteq> 0 \<and> sl_doomed (marked t s ! i))
      \<longleftrightarrow> descends s (sl_id (slot_at s t)) n"
  proof
    assume "\<exists>i < length (sw_slots s). sl_id (marked t s ! i) = n \<and> n \<noteq> 0 \<and> sl_doomed (marked t s ! i)"
    then obtain i where i: "i < length (sw_slots s)" "sl_id (marked t s ! i) = n" "n \<noteq> 0"
      "sl_doomed (marked t s ! i)" by blast
    then show "descends s (sl_id (slot_at s t)) n"
      using marked_iff [OF assms i(1)] marked_fields [OF t(1) i(1)] by simp
  next
    assume d: "descends s (sl_id (slot_at s t)) n"
    then obtain i where "i < length (sw_slots s)" "sl_id (slot_at s i) = n" "n \<noteq> 0"
      using descends_known [of s "sl_id (slot_at s t)" n] t by blast
    then show "\<exists>i < length (sw_slots s). sl_id (marked t s ! i) = n \<and> n \<noteq> 0 \<and> sl_doomed (marked t s ! i)"
      using marked_iff [OF assms, of i] marked_fields [OF t(1), of i] d by auto
  qed
  ultimately show ?thesis by (simp add: swept_index_def)
qed

lemma unmarked_same:
  "unmarked a = unmarked b \<Longrightarrow> sl_id a = sl_id b \<and> sl_parent a = sl_parent b \<and> sl_path a = sl_path b \<and>
     sl_caps a = sl_caps b \<and> sl_budget a = sl_budget b \<and> sl_numeric a = sl_numeric b \<and>
     sl_unsafe_stdlib a = sl_unsafe_stdlib b \<and> sl_unsafe_debug a = sl_unsafe_debug b \<and>
     sl_alive a = sl_alive b \<and> sl_inst a = sl_inst b \<and> sl_snap a = sl_snap b \<and>
     sl_pending a = sl_pending b \<and> sl_held a = sl_held b \<and> sl_handles a = sl_handles b \<and>
     sl_deferred a = sl_deferred b \<and> sl_wake_on_message a = sl_wake_on_message b \<and>
     sl_endpoints a = sl_endpoints b"
  by (cases a; cases b) (simp add: unmarked_def)

lemma slot_free_fields [simp]:
  "sl_id slot_free = 0" "sl_parent slot_free = 0" "sl_inst slot_free = None" "sl_alive slot_free = False"
  "sl_pending slot_free = []" "sl_held slot_free = []" "sl_snap slot_free = None" "sl_handles slot_free = []"
  "sl_path slot_free = root_node" "sl_deferred slot_free = None"
  by (simp_all add: slot_free_def)

lemma kill_core_ids:
  assumes "table_ok s" and t: "t < length (sw_slots s)" "sl_id (slot_at s t) \<noteq> 0" and "i < length (sw_slots s)"
  shows "sl_id (slot_at (kill_core e t s) i) =
    (if descends s (sl_id (slot_at s t)) (sl_id (slot_at s i)) then 0 else sl_id (slot_at s i))"
proof (cases "sl_id (slot_at s i) = 0")
  case True
  then have "unmarked (slot_at (kill_core e t s) i) = unmarked (slot_at s i)"
    using kill_core_slot [OF assms, of e] by simp
  then have "sl_id (slot_at (kill_core e t s) i) = sl_id (slot_at s i)" using unmarked_same by blast
  with True show ?thesis by simp
next
  case False
  then show ?thesis using kill_core_slot [OF assms, of e] by (auto split: if_splits dest: unmarked_same)
qed

lemma kill_core_table:
  assumes "table_ok s" and t: "t < length (sw_slots s)" "sl_id (slot_at s t) \<noteq> 0"
  shows "table_ok (kill_core e t s)"
proof -
  let ?s = "kill_core e t s"
  note rest = kill_core_rest [OF t(1), of e]
  have alive: "sl_alive (slot_at ?s i) \<and> sl_id (slot_at ?s i) < sw_next_id ?s"
    if "i < length (sw_slots s)" "sl_id (slot_at ?s i) \<noteq> 0" for i
  proof -
    have nd: "\<not> descends s (sl_id (slot_at s t)) (sl_id (slot_at s i))"
      and id: "sl_id (slot_at ?s i) = sl_id (slot_at s i)"
      using that kill_core_ids [OF assms that(1), of e] by (auto split: if_splits)
    then have "unmarked (slot_at ?s i) = unmarked (slot_at s i)"
      using kill_core_slot [OF assms that(1), of e] by auto
    then show ?thesis
      using unmarked_same id that rest assms(1) by (metis table_ok_def)
  qed
  have "sw_index ?s n = Some i \<longleftrightarrow> i < length (sw_slots s) \<and> sl_id (slot_at ?s i) = n \<and> n \<noteq> 0" for n i
    using kill_core_ids [OF assms, of i e] table_index [OF assms(1), of n i]
    by (auto simp: kill_core_index [OF assms] split: if_splits)
  with alive rest assms(1) show ?thesis by (auto simp: table_ok_def)
qed

end
