(* ===== verification/Swarm_Walk.thy ===== *)
theory Swarm_Walk
  imports Swarm_Kill
begin

text \<open>
  Every operation of \<^verbatim>\<open>crates/drt-swarm/src/swarm.rs\<close> is a sequence of a few
  elementary changes: a change to one slot that leaves its identity alone (\<open>minor\<close>), a
  host call, a kill, a spawn, a wake.  The locale \<open>swarm_rel\<close> states what a relation between
  swarms has to satisfy of those, and derives it for whole lifecycle requests; its extensions
  \<open>swarm_drains\<close> and \<open>swarm_full\<close> do it for the draining of requests and for delivery,
  routing and the step.  The evolution of the swarm (its invariant, its counters and its names)
  is an instance of all three, the measure that ends the draining loop one of the first.
\<close>

section \<open>Elementary changes\<close>

text \<open>What holds of a slot by itself.\<close>

definition local_ok :: "'i slot \<Rightarrow> bool" where
  "local_ok sl \<longleftrightarrow> length (sl_pending sl) \<le> max_pending \<and> distinct (map fst (sl_held sl)) \<and>
     (sl_alive sl \<longrightarrow> (sl_inst sl = None \<longleftrightarrow> sl_snap sl \<noteq> None)) \<and>
     (sl_inst sl \<noteq> None \<longrightarrow> sl_pending sl = []) \<and> (sl_inst sl = None \<longrightarrow> sl_handles sl = [])"

text \<open>Every slot by itself, and an index that points into the table.\<close>

definition slots_ok :: "('i, 'h) swarm \<Rightarrow> bool" where
  "slots_ok s \<longleftrightarrow> (\<forall>k < length (sw_slots s). local_ok (slot_at s k)) \<and>
     (\<forall>n k. sw_index s n = Some k \<longrightarrow> k < length (sw_slots s))"

definition same_identity :: "'i slot \<Rightarrow> 'i slot \<Rightarrow> bool" where
  "same_identity a b \<longleftrightarrow> sl_id a = sl_id b \<and> sl_parent a = sl_parent b \<and> sl_path a = sl_path b \<and>
     sl_caps a = sl_caps b \<and> sl_budget a = sl_budget b \<and> sl_numeric a = sl_numeric b \<and>
     sl_unsafe_stdlib a = sl_unsafe_stdlib b \<and> sl_unsafe_debug a = sl_unsafe_debug b \<and>
     sl_alive a = sl_alive b"

text \<open>\<open>K\<close> relates an instance to what an engine operation made of it.\<close>

definition minor :: "('i \<Rightarrow> 'i \<Rightarrow> bool) \<Rightarrow> 'i slot \<Rightarrow> 'i slot \<Rightarrow> bool" where
  "minor K a b \<longleftrightarrow> same_identity a b \<and> (local_ok a \<longrightarrow> local_ok b) \<and>
     (sl_deferred b = None \<or> sl_deferred b = sl_deferred a) \<and>
     (\<forall>y. sl_inst b = Some y \<longrightarrow> (\<exists>x. sl_inst a = Some x \<and> K x y))"

definition child_fits :: "'i slot \<Rightarrow> node_path \<Rightarrow> capset \<Rightarrow> budget \<Rightarrow> numeric \<Rightarrow> bool \<Rightarrow> bool \<Rightarrow> bool" where
  "child_fits p path caps b n stdlib debug \<longleftrightarrow> (\<exists>seg. node_child (sl_path p) seg = Inr path) \<and>
     (\<exists>gs. attenuate_held_by (sl_caps p) (Some path) (sl_path p) gs = Inr caps) \<and>
     budget_within b (sl_budget p) \<and> numeric_within n (sl_numeric p) \<and>
     (stdlib \<longrightarrow> sl_unsafe_stdlib p) \<and> (debug \<longrightarrow> sl_unsafe_debug p)"

lemma put_slot_simps [simp]:
  "length (sw_slots (put_slot k sl s)) = length (sw_slots s)"
  "sw_index (put_slot k sl s) = sw_index s" "sw_next_id (put_slot k sl s) = sw_next_id s"
  "sw_max_instances (put_slot k sl s) = sw_max_instances s"
  "sw_host (put_slot k sl s) = sw_host s" "sw_host_identity (put_slot k sl s) = sw_host_identity s"
  "sw_spawns_this_step (put_slot k sl s) = sw_spawns_this_step s"
  "sw_spawn_rate (put_slot k sl s) = sw_spawn_rate s"
  "k < length (sw_slots s) \<Longrightarrow> slot_at (put_slot k sl s) k = sl"
  "j \<noteq> k \<Longrightarrow> slot_at (put_slot k sl s) j = slot_at s j"
  "find_slot (put_slot k sl s) n = find_slot s n"
  by (simp_all add: put_slot_def find_slot_def)

lemma put_host_simps [simp]:
  "sw_slots (put_host h s) = sw_slots s" "sw_index (put_host h s) = sw_index s"
  "sw_next_id (put_host h s) = sw_next_id s" "sw_max_instances (put_host h s) = sw_max_instances s"
  "find_slot (put_host h s) n = find_slot s n" "sw_host (put_host h s) = h"
  "sw_host_identity (put_host h s) = sw_host_identity s"
  by (simp_all add: put_host_def find_slot_def)

lemma put_slot_out: "\<not> k < length (sw_slots s) \<Longrightarrow> put_slot k sl s = s"
  by (simp add: put_slot_def list_update_beyond)

lemma position_of_Some:
  "position_of P xs = Some i \<Longrightarrow> i < length xs \<and> P (xs ! i)"
  by (induction xs arbitrary: i) (auto split: if_splits)

lemma position_of_None: "position_of P xs = None \<longleftrightarrow> (\<forall>x\<in>set xs. \<not> P x)"
  by (induction xs) auto

lemma claim_cases:
  assumes "claim s = Some (c, s1)"
  obtains slots where "slots = sw_slots s \<or> slots = sw_slots s @ [slot_free]"
    "c < length slots" "sl_id (slots ! c) = 0" "length slots \<le> max (length (sw_slots s)) (sw_max_instances s)"
    "s1 = s\<lparr>sw_slots := slots[c := slot_free\<lparr>sl_id := sw_next_id s mod 2 ^ 32\<rparr>],
            sw_index := (sw_index s)(sw_next_id s mod 2 ^ 32 := Some c), sw_next_id := sw_next_id s + 1\<rparr>"
proof (cases "position_of (\<lambda>sl. sl_id sl = 0) (sw_slots s)")
  case None
  then have "length (sw_slots s) < sw_max_instances s" using assms by (auto simp: claim_def split: if_splits)
  then show ?thesis
    using None assms by (intro that [of "sw_slots s @ [slot_free]"]) (auto simp: claim_def Let_def)
next
  case (Some i)
  then show ?thesis
    using assms position_of_Some [OF Some]
    by (intro that [of "sw_slots s"]) (auto simp: claim_def Let_def)
qed

lemma claim_other:
  assumes "claim s = Some (c, s1)" and "k < length (sw_slots s)" and "sl_id (slot_at s k) \<noteq> 0"
  shows "slot_at s1 k = slot_at s k \<and> c \<noteq> k \<and> length (sw_slots s) \<le> length (sw_slots s1)"
  using assms(1)
proof (cases rule: claim_cases)
  case (1 slots)
  then have "c \<noteq> k" using assms(2,3) by (auto simp: nth_append)
  with 1 assms(2) show ?thesis by (auto simp: nth_append)
qed

lemma build_cases:
  assumes "build e c code s = (r, s')"
  shows "(r = Inr () \<and> (\<exists>x. s' = put_host (h_attached (en_host e) (sl_id (slot_at s c)) (sw_host s))
       (put_slot c ((slot_at s c)\<lparr>sl_inst := Some x, sl_handles := [], sl_alive := True\<rparr>) s))) \<or>
    (\<exists>why. r = Inl why \<and> s' = s)"
  using assms by (auto simp: build_def Let_def split: sum.splits if_splits)

lemma release_simps [simp]:
  "length (sw_slots (release e c s)) = length (sw_slots s)" "sw_next_id (release e c s) = sw_next_id s"
  "sw_max_instances (release e c s) = sw_max_instances s"
  "sw_slots (release e c s) = (sw_slots s)[c := slot_free]"
  "sw_index (release e c s) = (sw_index s)(sl_id (slot_at s c) := None)"
  by (simp_all add: release_def Let_def)

section \<open>Lifecycle requests\<close>

locale swarm_rel =
  fixes e :: "('i, 'h) env" and K :: "'i \<Rightarrow> 'i \<Rightarrow> bool"
    and R :: "('i, 'h) swarm \<Rightarrow> ('i, 'h) swarm \<Rightarrow> bool"
  assumes K_refl: "K x x" and K_trans: "K x y \<Longrightarrow> K y z \<Longrightarrow> K x z"
    and K_queue: "K x (snd (e_queue (en_engine e) nm x))"
    and K_event: "e_queue (en_engine e) ''system/events'' x = (Some q, y) \<Longrightarrow> K y (snd (e_push (en_engine e) q m y))"
    and K_pop: "K x (snd (e_pop (en_engine e) q x))"
    and K_enable: "K x (e_enable_endpoints (en_engine e) x)"
    and K_snapshot: "K x (snd (e_snapshot (en_engine e) st x))"
    and R_refl: "R s s" and R_trans: "R s t \<Longrightarrow> R t u \<Longrightarrow> R s u"
    and R_len: "R s t \<Longrightarrow> length (sw_slots s) \<le> length (sw_slots t)"
    and R_host: "R s (put_host h s)"
    and R_spawns: "R s (s\<lparr>sw_spawns_this_step := n\<rparr>)"
    and R_minor: "k < length (sw_slots s) \<Longrightarrow> minor K (slot_at s k) sl \<Longrightarrow> R s (put_slot k sl s)"
    and R_kill: "find_slot s n = Some i \<Longrightarrow> R s (kill_core e i s)"
    and R_spawned: "k < length (sw_slots s) \<Longrightarrow> sl_id (slot_at s k) \<noteq> 0 \<Longrightarrow> claim s = Some (c, s1) \<Longrightarrow>
      child_fits (slot_at s k) path caps b lmt stdlib debug \<Longrightarrow>
      build e c code (put_slot c (child_slot (sl_id (slot_at s k)) path caps b lmt w stdlib debug (slot_at s1 c)) s1)
        = (Inr (), s3) \<Longrightarrow> R s s3"
    and R_failed: "claim s = Some (c, s1) \<Longrightarrow>
      build e c code (put_slot c (child_slot p path caps b lmt w stdlib debug (slot_at s1 c)) s1) = (Inl why, s3) \<Longrightarrow>
      R s (release e c s3)"
begin

lemma R_put: "minor K (slot_at s k) sl \<Longrightarrow> R s (put_slot k sl s)"
  by (cases "k < length (sw_slots s)") (auto simp: R_minor put_slot_out R_refl)

lemma R_inst: "sl_inst (slot_at s k) = Some x \<Longrightarrow> K x y \<Longrightarrow> R s (put_inst k y s)"
  unfolding put_inst_def by (rule R_put) (auto simp: minor_def same_identity_def local_ok_def)

lemma R_enable: "R s (enable_endpoints e n s)"
  by (auto simp: enable_endpoints_def Let_def R_refl K_enable K_refl minor_def same_identity_def
      local_ok_def intro!: R_put split: option.splits)

lemma R_emit_fields: "R s (emit_fields e to what about d tf extra s)"
proof -
  define s1 where "s1 = (if extra \<noteq> [] then enable_endpoints e to s else s)"
  have "R s s1" by (simp add: s1_def R_enable R_refl)
  moreover have "R s1 (emit_fields e to what about d tf extra s)"
  proof (cases "find_slot s1 to")
    case (Some k)
    show ?thesis
    proof (cases "sl_inst (slot_at s1 k)")
      case (Some x)
      obtain q y where q: "e_queue (en_engine e) ''system/events'' x = (q, y)" by fastforce
      have Ky: "K x y" using K_queue [of x "''system/events''"] q by simp
      show ?thesis
      proof (cases q)
        case None
        then show ?thesis
          using \<open>find_slot s1 to = Some k\<close> Some q R_inst [OF Some Ky]
          by (simp add: emit_fields_def s1_def [symmetric] Let_def)
      next
        case (Some h)
        have "K x (snd (e_push (en_engine e) h m y))" for m
          using K_trans [OF Ky] K_event q Some by blast
        then show ?thesis
          using \<open>find_slot s1 to = Some k\<close> \<open>sl_inst (slot_at s1 k) = Some x\<close> q Some Ky
          by (auto simp: emit_fields_def s1_def [symmetric] Let_def intro: R_inst split: option.splits)
      qed
    next
      case None
      then show ?thesis
        using \<open>find_slot s1 to = Some k\<close> by (simp add: emit_fields_def s1_def [symmetric] Let_def R_refl)
    qed
  next
    case None
    then show ?thesis by (simp add: emit_fields_def s1_def [symmetric] Let_def R_refl)
  qed
  ultimately show ?thesis by (rule R_trans)
qed

lemma R_emit: "R s (emit e to what about d s)"
  by (simp add: emit_def emit_with_def R_emit_fields)

lemma R_emit_stop: "R s (emit_stop e to what about d tf s)"
  by (simp add: emit_stop_def emit_with_def R_emit_fields)

lemma R_emit_extra: "R s (emit_extra e to what about d extra s)"
  by (simp add: emit_extra_def R_emit_fields)

lemma R_deny: "R s (deny e to about why s)"
  by (simp add: deny_def R_emit)

lemmas R_events = R_emit R_emit_stop R_emit_extra R_deny

lemma R_then_emit: "R s t \<Longrightarrow> R s (emit e to what about d t)"
  using R_trans R_emit by blast

lemma R_kill_subtree: "R s (kill_subtree e n b s)"
  by (auto simp: kill_subtree_core Let_def R_refl R_kill intro: R_then_emit split: option.splits)

lemma R_hibernate: "hibernate e n s = (r, s') \<Longrightarrow> R s s'"
proof (cases "find_slot s n")
  case (Some k)
  assume h: "hibernate e n s = (r, s')"
  show ?thesis
  proof (cases "sl_inst (slot_at s k)")
    case inst: (Some x)
    obtain o1 y where sn: "e_snapshot (en_engine e) (sw_host_identity s) x = (o1, y)" by fastforce
    then have Ky: "K x y" using K_snapshot [of x "sw_host_identity s"] by simp
    have "R s (put_slot k ((slot_at s k)\<lparr>sl_snap := Some b, sl_inst := None, sl_handles := []\<rparr>) s)" for b
      by (rule R_put) (auto simp: minor_def same_identity_def local_ok_def inst)
    then have "R s (put_host hh (put_slot k ((slot_at s k)\<lparr>sl_snap := Some b, sl_inst := None, sl_handles := []\<rparr>) s))" for b hh
      using R_trans R_host by blast
    then show ?thesis
      using h Some inst sn R_inst [OF inst Ky] R_refl
      by (auto simp: hibernate_def Let_def split: sum.splits if_splits)
  qed (use h Some in \<open>auto simp: hibernate_def Let_def R_refl split: if_splits\<close>)
qed (auto simp: hibernate_def R_refl)

lemma R_do_kill: "R s (do_kill e k request s)"
  by (auto simp: do_kill_def Let_def R_deny R_kill_subtree split: option.splits)

lemma R_do_query: "R s (do_query e k request s)"
  by (auto simp: do_query_def Let_def R_events split: option.splits prod.splits)

lemma R_do_ref: "R s (do_ref e k request s)"
  by (auto simp: do_ref_def Let_def R_events split: option.splits)

lemma R_set_wake: "R s (set_wake b who s)"
  by (auto simp: set_wake_def R_refl minor_def same_identity_def local_ok_def K_refl
      intro!: R_put split: option.splits)

lemma R_do_hibernate: "R s (do_hibernate e k request s)"
proof (cases "hibernate_target k request s")
  case (Inl w)
  then show ?thesis by (auto simp: do_hibernate_def Let_def R_deny split: prod.splits)
next
  case (Inr who)
  let ?s1 = "set_wake (field_bool request ''wake_on_message'') who s"
  obtain r s2 where h: "hibernate e who ?s1 = (r, s2)" by fastforce
  then have r2: "R s s2" using R_trans [OF R_set_wake R_hibernate] by blast
  show ?thesis
    using Inr h r2 R_trans [OF r2 R_deny] R_then_emit [OF r2]
    by (auto simp: do_hibernate_def Let_def split: sum.splits)
qed

end

context swarm_rel begin

lemma R_do_spawn:
  assumes "k < length (sw_slots s)" and "sl_id (slot_at s k) \<noteq> 0"
  shows "R s (do_spawn e k request s)"
proof -
  let ?p = "slot_at s k"
  have built: "R s (case build e c code (put_slot c (child_slot (sl_id ?p) path caps b n w stdlib debug (slot_at s1 c)) s1) of
       (Inr _, s3) \<Rightarrow>
         (let s4 = s3\<lparr>sw_spawns_this_step := sw_spawns_this_step s3 + 1\<rparr>;
              child_id = sl_id (slot_at s4 c)
          in emit_extra e (sl_id ?p) ''spawned'' child_id None [(''ref'', reference e child_id s4)] s4)
     | (Inl why, s3) \<Rightarrow>
         (let gone = sl_id (slot_at s3 c) in
          emit e (sl_id ?p) ''faulted'' gone (Some why) (release e c s3)))"
    if "claim s = Some (c, s1)" "child_fits ?p path caps b n stdlib debug"
    for c s1 path caps b n w stdlib debug code
  proof -
    obtain r s3 where bd: "build e c code
        (put_slot c (child_slot (sl_id ?p) path caps b n w stdlib debug (slot_at s1 c)) s1) = (r, s3)"
      by fastforce
    show ?thesis
    proof (cases r)
      case (Inl why)
      then show ?thesis using R_failed [OF that(1) bd [unfolded Inl]] bd by (simp add: R_then_emit Let_def)
    next
      case (Inr u)
      then have "R s s3" using R_spawned [OF assms that] bd by simp
      then have "R s (s3\<lparr>sw_spawns_this_step := sw_spawns_this_step s3 + 1\<rparr>)" using R_trans R_spawns by blast
      then show ?thesis using R_trans [OF _ R_emit_extra] bd Inr by (simp add: Let_def)
    qed
  qed
  show ?thesis
  proof (cases "field_bytes request ''code''")
    case code: (Some code)
    show ?thesis
    proof (cases "field_caps request")
      case names: (Some names)
      show ?thesis
      proof (cases "derive_path (sl_path ?p) (field_str request ''name'') (sw_next_id s mod 2 ^ 32)")
        case path: (Inr path)
        then have seg: "\<exists>seg. node_child (sl_path ?p) seg = Inr path"
          by (auto simp: derive_path_def split: option.splits)
        show ?thesis
        proof (cases "attenuate_held_by (sl_caps ?p) (Some path) (sl_path ?p) (spawn_grants (sl_caps ?p) names)")
          case caps: (Inr caps)
          show ?thesis
          proof (cases "claim s")
            case (Some ca)
            obtain c s1 where ca: "claim s = Some (c, s1)" using Some by (cases ca) auto
            have same: "slot_at s1 k = ?p" using claim_other [OF ca assms] by simp
            have fits: "child_fits ?p path caps (budget_resolved bd (sl_budget ?p)) (numeric_resolved nm (sl_numeric ?p))
                (sl_unsafe_stdlib ?p \<and> \<not> sealed) (sl_unsafe_debug ?p \<and> \<not> sealed)"
              if "budget_fits bd (sl_budget ?p)" "numeric_fits nm (sl_numeric ?p)" for bd nm sealed
              using seg caps that unfolding child_fits_def
              by (auto simp: budget.resolved_within numeric.resolved_within)
            show ?thesis
              using code names path caps ca same built [OF ca fits] R_deny
              unfolding do_spawn_def Let_def by auto
          next
            case None
            then show ?thesis
              using code names path caps R_deny unfolding do_spawn_def Let_def by auto
          qed
        next
          case (Inl err)
          then show ?thesis
            using code names path R_deny unfolding do_spawn_def Let_def by (cases err) auto
        qed
      qed (use code names R_deny in \<open>auto simp: do_spawn_def Let_def\<close>)
    qed (use code R_deny in \<open>auto simp: do_spawn_def Let_def\<close>)
  qed (use R_deny in \<open>auto simp: do_spawn_def Let_def\<close>)
qed

lemma R_do_op:
  assumes "k < length (sw_slots s)" and "sl_id (slot_at s k) \<noteq> 0"
  shows "R s (do_op e k op request s)"
  using assms
  by (auto simp: do_op_def R_do_spawn R_do_kill R_do_query R_do_hibernate R_do_ref R_deny)

lemma R_next_request: "next_request e k s = (m, s') \<Longrightarrow> R s s'"
proof (cases "sl_deferred (slot_at s k)")
  case (Some d)
  assume "next_request e k s = (m, s')"
  with Some have "s' = put_slot k ((slot_at s k)\<lparr>sl_deferred := None\<rparr>) s" by (simp add: next_request_def)
  moreover have "R s (put_slot k ((slot_at s k)\<lparr>sl_deferred := None\<rparr>) s)"
    by (rule R_put) (auto simp: minor_def same_identity_def local_ok_def K_refl)
  ultimately show ?thesis by simp
next
  case None
  assume r: "next_request e k s = (m, s')"
  show ?thesis
  proof (cases "sl_inst (slot_at s k)")
    case (Some x)
    obtain q y where q: "e_queue (en_engine e) ''system/lifecycle'' x = (q, y)" by fastforce
    have Ky: "K x y" using K_queue [of x "''system/lifecycle''"] q by simp
    show ?thesis
    proof (cases q)
      case (Some h)
      obtain r z where p: "e_pop (en_engine e) h y = (r, z)" by fastforce
      have "K x z" using K_trans [OF Ky K_pop [of y h]] p by simp
      then have "R s (put_inst k z s)" using R_inst \<open>sl_inst (slot_at s k) = Some x\<close> by blast
      then show ?thesis
        using r None \<open>sl_inst (slot_at s k) = Some x\<close> q Some p
        by (auto simp: next_request_def split: sum.splits option.splits)
    qed (use r None \<open>sl_inst (slot_at s k) = Some x\<close> q R_inst [OF Some Ky] in \<open>simp add: next_request_def\<close>)
  qed (use r None in \<open>simp add: next_request_def R_refl\<close>)
qed

end

text \<open>The identity of the slot being drained is the loop's own check.\<close>

lemma next_request_slot:
  "next_request e k s = (m, s') \<Longrightarrow> sl_id (slot_at s' k) = sl_id (slot_at s k) \<and>
     sl_alive (slot_at s' k) = sl_alive (slot_at s k) \<and> length (sw_slots s') = length (sw_slots s)"
  by (cases "k < length (sw_slots s)")
    (auto simp: next_request_def put_inst_def put_slot_out split: option.splits prod.splits sum.splits)

lemma emit_slot:
  "sl_id (slot_at (emit e to what about d s) k) = sl_id (slot_at s k) \<and>
   sl_alive (slot_at (emit e to what about d s) k) = sl_alive (slot_at s k)"
proof -
  have put: "sl_id (slot_at (put_inst j x s) k) = sl_id (slot_at s k) \<and>
      sl_alive (slot_at (put_inst j x s) k) = sl_alive (slot_at s k)" for j x
    by (cases "j = k"; cases "j < length (sw_slots s)") (auto simp: put_inst_def put_slot_out)
  show ?thesis
    by (auto simp: emit_def emit_with_def emit_fields_def put split: option.splits prod.splits)
qed

text \<open>The draining loop puts one request off, so it has a law of its own for that.\<close>

locale swarm_drains = swarm_rel +
  assumes R_defer: "R s (put_slot k ((slot_at s k)\<lparr>sl_deferred := Some m\<rparr>) s)"
begin

lemma R_drain_loop:
  "drain_loop fuel e k n s = Some s' \<Longrightarrow> k < length (sw_slots s) \<Longrightarrow> sl_id (slot_at s k) = n \<Longrightarrow> n \<noteq> 0 \<Longrightarrow>
   R s s'"
proof (induction fuel arbitrary: s)
  case (Suc fuel)
  obtain m s1 where nx: "next_request e k s = (m, s1)" by fastforce
  note r1 = R_next_request [OF nx]
  have k1: "k < length (sw_slots s1)" "sl_id (slot_at s1 k) = n"
    using next_request_slot [OF nx] Suc.prems(2,3) by auto
  have denied: "R s s'" if "drain_loop fuel e k n (deny e n 0 why s1) = Some s'" for why
  proof -
    have "k < length (sw_slots (deny e n 0 why s1))"
      using R_len [OF R_deny [of s1 n 0 why]] k1(1) by simp
    moreover have "sl_id (slot_at (deny e n 0 why s1) k) = n" using k1(2) by (simp add: deny_def emit_slot)
    ultimately have "R (deny e n 0 why s1) s'" using Suc.IH that Suc.prems(4) by blast
    then show ?thesis using R_trans [OF r1] R_trans [OF R_deny] by blast
  qed
  show ?case
  proof (cases m)
    case None
    then show ?thesis using Suc.prems(1) nx r1 by simp
  next
    case m: (Some msg)
    show ?thesis
    proof (cases "length msg > request_cap_bytes")
      case True
      then show ?thesis using denied Suc.prems(1) nx m by simp
    next
      case small: False
      show ?thesis
      proof (cases "request_op (read_request (en_codec e) msg)")
        case None
        then show ?thesis using denied Suc.prems(1) nx m small by simp
      next
        case (Some ro)
        obtain request op where ro: "request_op (read_request (en_codec e) msg) = Some (request, op)"
          using Some by (cases ro) auto
        show ?thesis
        proof (cases "op = ''spawn'' \<and> sw_spawns_this_step s1 \<ge> sw_spawn_rate s1")
          case True
          then have "s' = emit e n ''throttled'' 0 (Some ''spawn rate limit'')
              (put_slot k ((slot_at s1 k)\<lparr>sl_deferred := Some msg\<rparr>) s1)"
            using Suc.prems(1) nx m small ro by simp
          then show ?thesis using R_trans [OF r1] R_then_emit R_defer by blast
        next
          case go: False
          let ?s2 = "do_op e k op request s1"
          have "R s1 ?s2" using R_do_op [OF k1(1)] k1(2) Suc.prems(4) by simp
          then have r2: "R s ?s2" "k < length (sw_slots ?s2)"
            using R_trans [OF r1] R_len [of s1 ?s2] k1(1) by auto
          show ?thesis
          proof (cases "sl_id (slot_at ?s2 k) \<noteq> n \<or> \<not> sl_alive (slot_at ?s2 k) \<or> sl_inst (slot_at ?s2 k) = None")
            case True
            then have "s' = ?s2" using Suc.prems(1) nx m small ro go by (auto simp: Let_def)
            then show ?thesis using r2 by simp
          next
            case False
            then have "drain_loop fuel e k n ?s2 = Some s'"
              using Suc.prems(1) nx m small ro go by (auto simp: Let_def)
            then have "R ?s2 s'" using Suc.IH [OF _ r2(2)] False Suc.prems(4) by blast
            then show ?thesis using R_trans r2(1) by blast
          qed
        qed
      qed
    qed
  qed
qed simp

end

section \<open>Delivery, routing and the step\<close>

text \<open>
  What delivery leaves alone: it may touch an instance, the handle cache and the wake buffer,
  and never what is held.
\<close>

definition same_held :: "('i, 'h) swarm \<Rightarrow> ('i, 'h) swarm \<Rightarrow> bool" where
  "same_held s t \<longleftrightarrow> (\<forall>j. sl_held (slot_at t j) = sl_held (slot_at s j))"

lemma same_held_refl [simp]: "same_held s s"
  by (simp add: same_held_def)

lemma same_held_trans: "same_held s t \<Longrightarrow> same_held t u \<Longrightarrow> same_held s u"
  by (simp add: same_held_def)

lemma same_held_put: "sl_held sl = sl_held (slot_at s k) \<Longrightarrow> same_held s (put_slot k sl s)"
  unfolding same_held_def
proof
  fix j assume "sl_held sl = sl_held (slot_at s k)"
  then show "sl_held (slot_at (put_slot k sl s) j) = sl_held (slot_at s j)"
    by (cases "k < length (sw_slots s)"; cases "j = k") (auto simp: put_slot_out)
qed

lemma same_held_inst: "same_held s (put_inst k x s)"
  unfolding put_inst_def by (rule same_held_put) simp

lemma same_held_enable: "same_held s (enable_endpoints e n s)"
  by (auto simp: enable_endpoints_def Let_def intro!: same_held_put split: option.splits)

lemma resolve_queue_held: "resolve_queue e k nm s = (r, t) \<Longrightarrow> same_held s t"
  by (auto simp: resolve_queue_def same_held_inst intro!: same_held_put
      split: option.splits prod.splits)

lemma push_held: "push e n nm from m s = (r, t) \<Longrightarrow> same_held s t"
proof (cases "find_slot s n")
  case (Some k)
  assume p: "push e n nm from m s = (r, t)"
  show ?thesis
  proof (cases "sl_alive (slot_at s k) \<and> sl_inst (slot_at s k) \<noteq> None")
    case True
    obtain q s1 where q: "resolve_queue e k nm s = (q, s1)" by fastforce
    note h1 = resolve_queue_held [OF q]
    have "same_held s (put_inst k x s1)" for x using same_held_trans [OF h1 same_held_inst] .
    then show ?thesis
      using p Some True q h1
      by (auto simp: push_def Let_def split: option.splits prod.splits sum.splits push_outcome.splits)
  qed (use p Some in \<open>auto simp: push_def Let_def intro!: same_held_put split: if_splits\<close>)
qed (auto simp: push_def Let_def)

locale swarm_full = swarm_drains +
  assumes K_any: "K x y"
    and R_wake: "k < length (sw_slots s) \<Longrightarrow> sl_alive (slot_at s k) \<Longrightarrow> sl_inst (slot_at s k) = None \<Longrightarrow>
      R s (put_slot k ((slot_at s k)\<lparr>sl_snap := None, sl_pending := [], sl_inst := Some x,
             sl_handles := []\<rparr>) s)"
    and R_local: "R s t \<Longrightarrow> slots_ok s \<Longrightarrow> slots_ok t"
begin

lemma R_set_inst: "sl_inst (slot_at s k) \<noteq> None \<Longrightarrow> R s (put_inst k y s)"
  using R_inst K_any by blast

lemma R_wake_up: "wake e n s = (r, s') \<Longrightarrow> R s s'"
proof (cases "find_slot s n")
  case (Some k)
  assume w: "wake e n s = (r, s')"
  show ?thesis
  proof (cases "k < length (sw_slots s) \<and> sl_alive (slot_at s k) \<and> sl_inst (slot_at s k) = None")
    case True
    then have "R s (put_host h (put_slot k ((slot_at s k)\<lparr>sl_snap := None, sl_pending := [], sl_inst := Some x,
             sl_handles := []\<rparr>) s))" for x h
      using R_trans [OF R_wake R_host] by blast
    then show ?thesis
      using w Some True by (auto simp: wake_def Let_def R_refl split: option.splits sum.splits)
  next
    case False
    then show ?thesis
      using w Some R_trans [OF R_refl R_host]
      by (auto simp: wake_def Let_def R_refl put_slot_out split: option.splits sum.splits if_splits)
  qed
qed (auto simp: wake_def R_refl)

lemma R_resolve_queue: "resolve_queue e k nm s = (r, t) \<Longrightarrow> R s t"
proof (cases "sl_inst (slot_at s k)")
  case (Some x)
  assume r: "resolve_queue e k nm s = (r, t)"
  have "R s (put_slot k ((slot_at s k)\<lparr>sl_inst := Some y, sl_handles := hs\<rparr>) s)" for y hs
    by (rule R_put) (auto simp: minor_def same_identity_def local_ok_def Some K_any)
  then show ?thesis
    using r Some R_set_inst [of s k]
    by (auto simp: resolve_queue_def R_refl split: option.splits prod.splits)
qed (auto simp: resolve_queue_def R_refl split: option.splits)

lemma resolve_queue_inst:
  "resolve_queue e k nm s = (Some q, t) \<Longrightarrow> sl_inst (slot_at s k) \<noteq> None \<Longrightarrow> sl_inst (slot_at t k) \<noteq> None"
  by (cases "k < length (sw_slots s)")
    (auto simp: resolve_queue_def put_slot_out split: option.splits prod.splits)

lemma R_push: "push e n nm from m s = (r, t) \<Longrightarrow> R s t"
proof (cases "find_slot s n")
  case (Some k)
  assume p: "push e n nm from m s = (r, t)"
  show ?thesis
  proof (cases "sl_alive (slot_at s k) \<and> sl_inst (slot_at s k) \<noteq> None")
    case True
    obtain q s1 where q: "resolve_queue e k nm s = (q, s1)" by fastforce
    note r1 = R_resolve_queue [OF q]
    show ?thesis
    proof (cases q)
      case (Some h)
      then have "sl_inst (slot_at s1 k) \<noteq> None" using resolve_queue_inst q True by blast
      then have "R s (put_inst k x s1)" for x using R_trans [OF r1 R_set_inst] by blast
      then show ?thesis
        using p \<open>find_slot s n = Some k\<close> True q Some r1
        by (auto simp: push_def Let_def split: option.splits prod.splits sum.splits push_outcome.splits)
    qed (use p Some True q r1 in \<open>auto simp: push_def Let_def\<close>)
  next
    case False
    have "R s (put_slot k ((slot_at s k)\<lparr>sl_pending := sl_pending (slot_at s k) @ [d]\<rparr>) s)"
      if "length (sl_pending (slot_at s k)) < max_pending" "sl_inst (slot_at s k) = None" for d
      by (rule R_put) (use that in \<open>auto simp: minor_def same_identity_def local_ok_def K_refl\<close>)
    then show ?thesis
      using p Some False by (auto simp: push_def Let_def R_refl split: if_splits)
  qed
qed (auto simp: push_def Let_def R_refl)

lemma R_hold: "fst m \<notin> fst ` set (sl_held (slot_at s k)) \<Longrightarrow> R s (hold k m s)"
  unfolding hold_def by (rule R_put) (auto simp: minor_def same_identity_def local_ok_def K_refl)

lemma R_close: "R s (close_endpoint e k q s)"
  by (auto simp: close_endpoint_def R_refl intro!: R_set_inst split: option.splits)

lemma held_hold:
  "sl_held (slot_at (hold k m s) k) = (if k < length (sw_slots s) then sl_held (slot_at s k) @ [m]
     else sl_held (slot_at s k))"
  by (simp add: hold_def put_slot_out)

lemma R_retry_fold:
  assumes "distinct (map fst ms)" and "fst ` set (sl_held (slot_at s k)) \<inter> fst ` set ms = {}"
  shows "R s (foldl (retry_held e k from) s ms)"
  using assms
proof (induction ms arbitrary: s)
  case (Cons m ms)
  obtain r t where p: "push e (fst m) inbox from (snd m) (enable_endpoints e (fst m) s) = (r, t)" by fastforce
  have rt: "R s t" using R_trans [OF R_enable R_push [OF p]] .
  have held: "sl_held (slot_at t k) = sl_held (slot_at s k)"
    using push_held [OF p] same_held_enable [of s e "fst m"] by (simp add: same_held_def)
  then have "R t (hold k m t)" using Cons.prems(2) by (intro R_hold) auto
  then have "R s (retry_held e k from s m)"
    using rt R_trans p by (auto simp: retry_held_def)
  moreover have "fst ` set (sl_held (slot_at (retry_held e k from s m) k)) \<inter> fst ` set ms = {}"
    using Cons.prems p held by (auto simp: retry_held_def held_hold)
  then have "R (retry_held e k from s m) (foldl (retry_held e k from) (retry_held e k from s m) ms)"
    using Cons.IH Cons.prems(1) by simp
  ultimately show ?case using R_trans by simp
qed (simp add: R_refl)

lemma R_route_pops:
  "route_pops fuel e k q target from s = Some t \<Longrightarrow> target \<notin> fst ` set (sl_held (slot_at s k)) \<Longrightarrow> R s t"
proof (induction fuel arbitrary: s)
  case (Suc fuel)
  show ?case
  proof (cases "sl_inst (slot_at s k)")
    case (Some x)
    obtain o1 y where pop: "e_pop (en_engine e) q x = (o1, y)" by fastforce
    have r1: "R s (put_inst k y s)" using Some R_set_inst by simp
    show ?thesis
    proof (cases "\<exists>msg. o1 = Inr (Some msg)")
      case True
      then obtain msg where o1: "o1 = Inr (Some msg)" by blast
      obtain r u where p: "push e target inbox from msg (put_inst k y s) = (r, u)" by fastforce
      have ru: "R s u" using R_trans [OF r1 R_push [OF p]] .
      have held: "sl_held (slot_at u k) = sl_held (slot_at s k)"
        using push_held [OF p] same_held_inst [of s k y] by (simp add: same_held_def)
      then have "R u (hold k (target, msg) u)" using Suc.prems(2) by (intro R_hold) simp
      then have "R s (hold k (target, msg) u)" "R s (close_endpoint e k q u)"
        using R_trans [OF ru] R_close by blast+
      show ?thesis
      proof (cases r)
        case (Inl err)
        then have "t = (if is_backpressure r then hold k (target, msg) u else close_endpoint e k q u)"
          using Suc.prems(1) Some pop o1 p by simp
        then show ?thesis using \<open>R s (hold k (target, msg) u)\<close> \<open>R s (close_endpoint e k q u)\<close> by simp
      next
        case (Inr v)
        then have "route_pops fuel e k q target from u = Some t" using Suc.prems(1) Some pop o1 p by simp
        then have "R u t" using Suc.IH held Suc.prems(2) by simp
        then show ?thesis using ru R_trans by blast
      qed
    next
      case False
      then have "t = put_inst k y s"
        using Suc.prems(1) Some pop by (auto split: sum.splits option.splits)
      then show ?thesis using r1 by simp
    qed
  qed (use Suc.prems in \<open>simp add: R_refl\<close>)
qed simp

lemma R_route_one: "route_one fuel e k token from s = Some t \<Longrightarrow> R s t"
proof (cases "sl_inst (slot_at s k)")
  case (Some x)
  assume r: "route_one fuel e k token from s = Some t"
  obtain q x1 where q: "e_endpoint_queue (en_engine e) token x = (q, x1)" by fastforce
  show ?thesis
  proof (cases q)
    case None
    then show ?thesis using r Some q R_set_inst [of s k] by (auto simp: route_one_def)
  next
    case h: (Some h)
    obtain info x2 where info: "e_queue_info (en_engine e) h x1 = (info, x2)" by fastforce
    let ?s1 = "put_inst k x2 s"
    have r1: "R s ?s1" using Some R_set_inst by simp
    have pops: "R s t" if "route_pops fuel e k h target from (enable_endpoints e target ?s1) = Some t"
      "\<not> list_ex (\<lambda>m. fst m = target) (sl_held (slot_at ?s1 k))" for target
    proof -
      have "target \<notin> fst ` set (sl_held (slot_at (enable_endpoints e target ?s1) k))"
        using that(2) same_held_enable [of ?s1 e target] by (auto simp: list_ex_iff same_held_def)
      then show ?thesis using R_route_pops [OF that(1)] R_trans r1 R_enable by blast
    qed
    show ?thesis
      using r Some q h info r1 pops R_trans [OF r1 R_close]
      by (auto simp: route_one_def Let_def split: if_splits option.splits sum.splits)
  qed
qed (simp add: route_one_def R_refl)

lemma R_route_slot:
  assumes "k < length (sw_slots s)" and "local_ok (slot_at s k)" and "route_slot fuel e s k = Some t"
  shows "R s t"
proof -
  define s1 where "s1 = (if sl_held (slot_at s k) = [] then s
    else foldl (retry_held e k (sender_runtime (sl_path (slot_at s k))))
      (put_slot k ((slot_at s k)\<lparr>sl_held := []\<rparr>) s) (sl_held (slot_at s k)))"
  have "R s (put_slot k ((slot_at s k)\<lparr>sl_held := []\<rparr>) s)"
    by (rule R_put) (auto simp: minor_def same_identity_def local_ok_def K_refl)
  moreover have "R (put_slot k ((slot_at s k)\<lparr>sl_held := []\<rparr>) s)
      (foldl (retry_held e k from) (put_slot k ((slot_at s k)\<lparr>sl_held := []\<rparr>) s) (sl_held (slot_at s k)))" for "from"
    using assms(1,2) by (intro R_retry_fold) (auto simp: local_ok_def)
  ultimately have r1: "R s s1" unfolding s1_def by (auto simp: R_refl intro: R_trans)
  have "R s1 t"
    if "foldl_opt (\<lambda>s token. route_one fuel e k token from s) s1 ts = Some t" for "from" ts
    by (rule foldl_opt_invariant [OF that, of "R s1"]) (auto simp: R_refl intro: R_trans R_route_one)
  then have "s = t \<or> R s1 t"
    using assms(3) R_refl unfolding route_slot_def Let_def s1_def [symmetric]
    by (auto split: if_splits option.splits)
  then show ?thesis using r1 R_refl R_trans by blast
qed


text \<open>The rounds of a step; each keeps what \<open>R_local\<close> carries, so the next may start.\<close>

lemma R_end_vital: "R s (end_vital e s w)"
  by (auto simp: end_vital_def Let_def R_refl R_kill_subtree intro: R_then_emit split: option.splits)

lemma R_push_notice: "R s (push_notice e s w)"
  unfolding push_notice_def by (rule R_push) (rule prod.collapse [symmetric])

lemma R_wake_slot: "R s (wake_slot e s k)"
proof -
  obtain r t where w: "wake e (sl_id (slot_at s k)) s = (r, t)" by fastforce
  have r1: "R s t" by (rule R_wake_up [OF w])
  then have "R s (kill_subtree e (sl_id (slot_at s k)) False t)" using R_trans R_kill_subtree by blast
  then show ?thesis
    using r1 w R_then_emit by (auto simp: wake_slot_def Let_def R_refl split: sum.splits)
qed

lemma R_drain_slot:
  "k < length (sw_slots s) \<Longrightarrow> drain_slot fuel e s k = Some t \<Longrightarrow> R s t"
  by (auto simp: drain_slot_def drain_def R_refl split: if_splits intro: R_drain_loop)

lemma R_drive_slot:
  assumes "k < length (sw_slots s)" and "slots_ok s" and "drive_slot fuel e s k = Some t"
  shows "R s t"
proof (cases "sl_id (slot_at s k) = 0 \<or> \<not> sl_alive (slot_at s k) \<or> sl_inst (slot_at s k) = None")
  case True
  then show ?thesis
    using assms(3) by (cases "sl_inst (slot_at s k)") (auto simp: drive_slot_def Let_def R_refl split: if_splits)
next
  case False
  let ?n = "sl_id (slot_at s k)"
  obtain x where x: "sl_inst (slot_at s k) = Some x" using False by auto
  obtain d x1 h1 where dr: "h_drive (en_host e) ?n (sl_caps (slot_at s k)) x (sw_host s) = (d, x1, h1)"
    by (cases "h_drive (en_host e) ?n (sl_caps (slot_at s k)) x (sw_host s)") auto
  let ?s1 = "put_host h1 (put_inst k x1 s)"
  have r1: "R s ?s1" using R_trans [OF R_set_inst R_host] x by blast
  have len: "length (sw_slots ?s1) = length (sw_slots s)" by (simp add: put_inst_def)
  have fnd: "find_slot ?s1 ?n = find_slot s ?n" by (simp add: put_inst_def)
  show ?thesis
  proof (cases "find_slot s ?n")
    case None
    then show ?thesis using assms(3) False x dr fnd r1 by (simp add: drive_slot_def Let_def)
  next
    case (Some j)
    have j: "j < length (sw_slots ?s1)"
      using assms(2) Some len by (auto simp: slots_ok_def find_slot_def split: if_splits)
    then have lo: "local_ok (slot_at ?s1 j)" using R_local [OF r1 assms(2)] by (simp add: slots_ok_def)
    show ?thesis
    proof (cases "d = DrivenAlive")
      case True
      then show ?thesis using assms(3) False x dr fnd Some r1 by (simp add: drive_slot_def Let_def)
    next
      case stopped: False
      then obtain s2 where s2: "route_slot fuel e ?s1 j = Some s2"
        and t: "t = kill_subtree e ?n False s2 \<or> (\<exists>p what why tf. t =
          emit_stop e p what ?n why tf (kill_subtree e ?n False s2))"
        using assms(3) False x dr fnd Some
        by (auto simp: drive_slot_def Let_def split: option.splits if_splits prod.splits)
      have "R s (kill_subtree e ?n False s2)"
        using R_trans [OF r1 R_trans [OF R_route_slot [OF j lo s2] R_kill_subtree]] .
      then show ?thesis using t R_trans [OF _ R_emit_stop] by auto
    qed
  qed
qed

lemma R_foldl: "(\<And>s x. R s (f s x)) \<Longrightarrow> R s (foldl f s xs)"
  by (induction xs arbitrary: s) (auto simp: R_refl intro: R_trans)

lemma R_fold_slots:
  assumes "foldl_opt f s [0..<length (sw_slots s)] = Some t" and "slots_ok s"
    and "\<And>u v k. k < length (sw_slots u) \<Longrightarrow> slots_ok u \<Longrightarrow> f u k = Some v \<Longrightarrow> R u v"
  shows "R s t"
proof (rule foldl_opt_invariant [OF assms(1), of "R s"])
  fix u k v
  assume k: "k \<in> set [0..<length (sw_slots s)]" and r: "R s u" and v: "f u k = Some v"
  then have "k < length (sw_slots u)" using R_len [OF r] by simp
  then have "R u v" using assms(3) v R_local [OF r assms(2)] by blast
  then show "R s v" using r R_trans by blast
qed (rule R_refl)

lemma R_route_endpoints: "route_endpoints fuel e s = Some t \<Longrightarrow> slots_ok s \<Longrightarrow> R s t"
  unfolding route_endpoints_def
  by (erule R_fold_slots) (auto simp: slots_ok_def intro: R_route_slot)

theorem R_step:
  assumes ok: "slots_ok s" and st: "step fuel e s = Some (n, t)"
  shows "R s t"
proof -
  obtain ended h1 where en: "h_ended (en_host e) (sw_host (s\<lparr>sw_spawns_this_step := 0\<rparr>)) = (ended, h1)"
    by fastforce
  define s2 where "s2 = foldl (end_vital e) (put_host h1 (s\<lparr>sw_spawns_this_step := 0\<rparr>)) ended"
  obtain notices h2 where no: "h_notices (en_host e) (sw_host s2) = (notices, h2)" by fastforce
  define s3 where "s3 = foldl (push_notice e) (put_host h2 s2) notices"
  obtain s4 where s4: "route_endpoints fuel e s3 = Some s4"
    using st en no by (auto simp: step_def Let_def s2_def [symmetric] s3_def [symmetric] split: option.splits)
  define s5 where "s5 = foldl (wake_slot e) s4 [0..<length (sw_slots s4)]"
  obtain s6 where s6: "foldl_opt (drain_slot fuel e) s5 [0..<length (sw_slots s5)] = Some s6"
    and t: "foldl_opt (drive_slot fuel e) s6 [0..<length (sw_slots s6)] = Some t"
    using st en no s4
    by (auto simp: step_def Let_def s2_def [symmetric] s3_def [symmetric] s5_def [symmetric] split: option.splits)
  have "R s s2"
    unfolding s2_def by (rule R_trans [OF R_trans [OF R_spawns R_host] R_foldl]) (rule R_end_vital)
  moreover have "R s2 s3"
    unfolding s3_def by (rule R_trans [OF R_host R_foldl]) (rule R_push_notice)
  ultimately have r3: "R s s3" by (rule R_trans)
  have "R s s4" using R_trans [OF r3 R_route_endpoints [OF s4 R_local [OF r3 ok]]] .
  moreover have "R s4 s5" unfolding s5_def by (rule R_foldl) (rule R_wake_slot)
  ultimately have r5: "R s s5" by (rule R_trans)
  have "R s5 s6" using R_fold_slots [OF s6 R_local [OF r5 ok]] R_drain_slot by blast
  then have r6: "R s s6" by (rule R_trans [OF r5])
  have "R s6 t" using R_fold_slots [OF t R_local [OF r6 ok]] R_drive_slot by blast
  then show ?thesis by (rule R_trans [OF r6])
qed

end

end
