(* ===== verification/Swarm_Inv.thy ===== *)
theory Swarm_Inv
  imports Swarm_Walk
begin

text \<open>
  The invariant of the swarm and what no operation changes.  \<open>swarm_inv\<close> is the shape of
  the instance table, the tree of parents with the confinement of every child by its parent,
  and what holds of each slot.  \<open>evolves\<close> relates a swarm to a later one: it keeps the
  invariant, and a handle that is still known names the same instance with the same
  authority.  The handles are 32 bits wide and wrap; the invariant is kept as long as fewer
  than \<open>2 ^ 32\<close> of them have been given out.
\<close>

section \<open>The invariant\<close>

definition placed :: "('i, 'h) swarm \<Rightarrow> 'i slot \<Rightarrow> bool" where
  "placed s sl \<longleftrightarrow> (if sl_parent sl = 0
     then sl_path sl = root_node \<and> (\<exists>gs. sl_caps sl = root_held_by root_node gs)
     else (\<exists>p < length (sw_slots s). sl_id (slot_at s p) = sl_parent sl \<and> sl_parent sl < sl_id sl \<and>
       child_fits (slot_at s p) (sl_path sl) (sl_caps sl) (sl_budget sl) (sl_numeric sl)
         (sl_unsafe_stdlib sl) (sl_unsafe_debug sl)))"

definition swarm_tree :: "('i, 'h) swarm \<Rightarrow> bool" where
  "swarm_tree s \<longleftrightarrow> (\<forall>i < length (sw_slots s). sl_id (slot_at s i) \<noteq> 0 \<longrightarrow> placed s (slot_at s i))"

definition swarm_inv :: "('i, 'h) swarm \<Rightarrow> bool" where
  "swarm_inv s \<longleftrightarrow> table_ok s \<and> swarm_tree s \<and> slots_ok s"

definition keeps_names :: "('i, 'h) swarm \<Rightarrow> ('i, 'h) swarm \<Rightarrow> bool" where
  "keeps_names s t \<longleftrightarrow> (\<forall>n j. n < sw_next_id s \<longrightarrow> find_slot t n = Some j \<longrightarrow>
     find_slot s n = Some j \<and> same_identity (slot_at s j) (slot_at t j))"

definition evolves :: "('i, 'h) swarm \<Rightarrow> ('i, 'h) swarm \<Rightarrow> bool" where
  "evolves s t \<longleftrightarrow> length (sw_slots s) \<le> length (sw_slots t) \<and> sw_next_id s \<le> sw_next_id t \<and>
     sw_max_instances t = sw_max_instances s \<and>
     (slots_ok s \<longrightarrow> slots_ok t) \<and>
     (sw_next_id t \<le> 2 ^ 32 \<and> swarm_inv s \<longrightarrow> swarm_inv t \<and> keeps_names s t)"

lemma same_identity_refl [simp]: "same_identity a a"
  by (simp add: same_identity_def)

lemma same_identity_trans: "same_identity a b \<Longrightarrow> same_identity b c \<Longrightarrow> same_identity a c"
  by (simp add: same_identity_def)

lemma evolves_refl: "evolves s s"
  by (simp add: evolves_def keeps_names_def)

lemma keeps_names_trans:
  assumes "keeps_names s t" "keeps_names t u" "sw_next_id s \<le> sw_next_id t"
  shows "keeps_names s u"
  unfolding keeps_names_def
proof (intro allI impI)
  fix n j assume n: "n < sw_next_id s" and j: "find_slot u n = Some j"
  then have t: "find_slot t n = Some j \<and> same_identity (slot_at t j) (slot_at u j)"
    using assms(2) [unfolded keeps_names_def, rule_format, of n j] assms(3) by simp
  then have "find_slot s n = Some j \<and> same_identity (slot_at s j) (slot_at t j)"
    using assms(1) n by (simp add: keeps_names_def)
  then show "find_slot s n = Some j \<and> same_identity (slot_at s j) (slot_at u j)"
    using t same_identity_trans by blast
qed

lemma evolves_trans: "evolves s t \<Longrightarrow> evolves t u \<Longrightarrow> evolves s u"
  unfolding evolves_def using keeps_names_trans by fastforce

lemma placed_carry:
  assumes "placed s a" and "same_identity a b"
    and "\<And>p. p < length (sw_slots s) \<Longrightarrow> sl_id (slot_at s p) = sl_parent a \<Longrightarrow> sl_parent a \<noteq> 0 \<Longrightarrow>
      p < length (sw_slots t) \<and> same_identity (slot_at s p) (slot_at t p)"
  shows "placed t b"
proof (cases "sl_parent a = 0")
  case True
  then show ?thesis using assms(1,2) by (simp add: placed_def same_identity_def)
next
  case False
  then obtain p where p: "p < length (sw_slots s)" "sl_id (slot_at s p) = sl_parent a" "sl_parent a < sl_id a"
      "child_fits (slot_at s p) (sl_path a) (sl_caps a) (sl_budget a) (sl_numeric a)
         (sl_unsafe_stdlib a) (sl_unsafe_debug a)"
    using assms(1) by (auto simp: placed_def)
  note q = assms(3) [OF p(1,2) False]
  then have "child_fits (slot_at t p) (sl_path b) (sl_caps b) (sl_budget b) (sl_numeric b)
      (sl_unsafe_stdlib b) (sl_unsafe_debug b)"
    using p(4) assms(2) by (simp add: child_fits_def same_identity_def)
  moreover have "sl_parent b \<noteq> 0" "sl_parent b < sl_id b" "p < length (sw_slots t)"
    "sl_id (slot_at t p) = sl_parent b"
    using False p(2,3) q assms(2) by (simp_all add: same_identity_def)
  ultimately show ?thesis unfolding placed_def by auto
qed

text \<open>A change that leaves every identity and the index alone.\<close>

lemma evolves_same:
  assumes len: "length (sw_slots t) = length (sw_slots s)" and ix: "sw_index t = sw_index s"
    and rest: "sw_next_id t = sw_next_id s" "sw_max_instances t = sw_max_instances s"
    and same: "\<And>i. i < length (sw_slots s) \<Longrightarrow> same_identity (slot_at s i) (slot_at t i)"
    and loc: "\<And>i. i < length (sw_slots s) \<Longrightarrow> local_ok (slot_at s i) \<Longrightarrow> local_ok (slot_at t i)"
  shows "evolves s t"
proof -
  have ids: "sl_id (slot_at t i) = sl_id (slot_at s i) \<and> sl_alive (slot_at t i) = sl_alive (slot_at s i)"
    if "i < length (sw_slots s)" for i using same [OF that] by (simp add: same_identity_def)
  have "slots_ok s \<longrightarrow> slots_ok t" using loc len ix by (simp add: slots_ok_def)
  moreover have "table_ok t" if "table_ok s"
    using that by (simp add: table_ok_def ids len ix rest cong: conj_cong)
  moreover have "swarm_tree t" if "swarm_tree s"
    unfolding swarm_tree_def
  proof (intro allI impI)
    fix i assume i: "i < length (sw_slots t)" "sl_id (slot_at t i) \<noteq> 0"
    then have "placed s (slot_at s i)" using that len ids by (simp add: swarm_tree_def)
    then show "placed t (slot_at t i)" by (rule placed_carry) (use same len i in simp_all)
  qed
  moreover have "keeps_names s t" if "table_ok s"
  proof -
    have "find_slot t n = find_slot s n" for n using ix by (simp add: find_slot_def)
    then show ?thesis using same table_find [OF that] by (simp add: keeps_names_def)
  qed
  ultimately show ?thesis using len rest by (simp add: evolves_def swarm_inv_def)
qed

lemma evolves_put:
  assumes "k < length (sw_slots s)" and "same_identity (slot_at s k) sl"
    and "local_ok (slot_at s k) \<Longrightarrow> local_ok sl"
  shows "evolves s (put_slot k sl s)"
proof (rule evolves_same)
  fix i
  show "same_identity (slot_at s i) (slot_at (put_slot k sl s) i)" using assms by (cases "i = k") auto
  show "local_ok (slot_at s i) \<Longrightarrow> local_ok (slot_at (put_slot k sl s) i)" using assms by (cases "i = k") auto
qed simp_all

section \<open>Killing\<close>

lemma marked_core_any: "map unmarked (marked t s) = map unmarked (sw_slots s)"
proof (cases "t < length (sw_slots s)")
  case False
  have "unmarked (unmarked sl) = unmarked sl" for sl :: "'a slot" by (simp add: unmarked_def)
  with False show ?thesis
    unfolding marked_def mark_loop_core by (simp add: list_update_beyond)
qed (rule marked_core)

lemma kill_core_any:
  "\<exists>h. kill_core e t s = s\<lparr>sw_host := h, sw_slots := swept (marked t s) (length (sw_slots s)),
     sw_index := swept_index (sw_index s) (marked t s) (length (sw_slots s))\<rparr>"
  using sweep_fold [of "length (sw_slots s)" "s\<lparr>sw_slots := marked t s\<rparr>" e]
    map_eq_imp_length_eq [OF marked_core_any, of t s]
  by (simp add: kill_core_def)

lemma local_ok_free [simp]: "local_ok slot_free"
  by (simp add: local_ok_def)

lemma local_ok_unmarked: "unmarked a = unmarked b \<Longrightarrow> local_ok a = local_ok b"
  using unmarked_same [of a b] by (simp add: local_ok_def)

lemma kill_core_local:
  assumes "slots_ok s"
  shows "slots_ok (kill_core e t s)"
proof -
  obtain h where k: "kill_core e t s = s\<lparr>sw_host := h, sw_slots := swept (marked t s) (length (sw_slots s)),
     sw_index := swept_index (sw_index s) (marked t s) (length (sw_slots s))\<rparr>"
    using kill_core_any [of e t s] by auto
  have len: "length (marked t s) = length (sw_slots s)"
    using map_eq_imp_length_eq [OF marked_core_any] .
  have "local_ok (marked t s ! i)" if "i < length (sw_slots s)" for i
    using core_fields [OF marked_core_any that] local_ok_unmarked assms that by (auto simp: slots_ok_def)
  then have "local_ok (slot_at (kill_core e t s) i)" if "i < length (sw_slots s)" for i
    using that len by (simp add: k swept_def)
  moreover have "i < length (sw_slots s)" if "sw_index (kill_core e t s) n = Some i" for n i
    using that assms by (auto simp: k slots_ok_def swept_index_def split: if_splits)
  ultimately show ?thesis using len by (simp add: slots_ok_def k)
qed

lemma unmarked_identity: "unmarked a = unmarked b \<Longrightarrow> same_identity b a"
  using unmarked_same [of a b] by (simp add: same_identity_def)

text \<open>A handle that survives a kill names the slot it named, with the identity it had.\<close>

lemma kill_core_survivor:
  assumes "table_ok s" and t: "t < length (sw_slots s)" "sl_id (slot_at s t) \<noteq> 0"
    and i: "i < length (sw_slots s)" "sl_id (slot_at (kill_core e t s) i) \<noteq> 0"
  shows "\<not> descends s (sl_id (slot_at s t)) (sl_id (slot_at s i)) \<and>
    same_identity (slot_at s i) (slot_at (kill_core e t s) i)"
proof -
  have nd: "\<not> descends s (sl_id (slot_at s t)) (sl_id (slot_at s i))"
    using i kill_core_ids [OF assms(1-3) i(1), of e] by (auto split: if_splits)
  then show ?thesis
    using kill_core_slot [OF assms(1-3) i(1), of e] unmarked_identity by auto
qed

lemma descends_step:
  "descends s a (sl_parent (slot_at s i)) \<Longrightarrow> i < length (sw_slots s) \<Longrightarrow> sl_id (slot_at s i) \<noteq> 0 \<Longrightarrow>
   sl_parent (slot_at s i) \<noteq> 0 \<Longrightarrow> descends s a (sl_id (slot_at s i))"
  unfolding descends_def by (erule rtranclp.rtrancl_into_rtrancl) (auto simp: child_rel_def)

lemma kill_core_tree:
  assumes "table_ok s" and t: "t < length (sw_slots s)" "sl_id (slot_at s t) \<noteq> 0" and "swarm_tree s"
  shows "swarm_tree (kill_core e t s)"
  unfolding swarm_tree_def
proof (intro allI impI)
  let ?t = "kill_core e t s"
  fix i assume i': "i < length (sw_slots ?t)" and id: "sl_id (slot_at ?t i) \<noteq> 0"
  note rest = kill_core_rest [OF t(1), of e]
  then have i: "i < length (sw_slots s)" using i' by simp
  note sv = kill_core_survivor [OF assms(1) t i id]
  then have "placed s (slot_at s i)" using assms(4) i id by (simp add: swarm_tree_def same_identity_def)
  then show "placed ?t (slot_at ?t i)"
  proof (rule placed_carry)
    fix p assume p: "p < length (sw_slots s)" "sl_id (slot_at s p) = sl_parent (slot_at s i)"
      "sl_parent (slot_at s i) \<noteq> 0"
    have "\<not> descends s (sl_id (slot_at s t)) (sl_id (slot_at s p))"
      using sv descends_step [of s _ i] i id p(2,3) by (auto simp: same_identity_def)
    then have "sl_id (slot_at ?t p) \<noteq> 0" using kill_core_ids [OF assms(1) t p(1), of e] p by simp
    then show "p < length (sw_slots ?t) \<and> same_identity (slot_at s p) (slot_at ?t p)"
      using kill_core_survivor [OF assms(1) t p(1)] p(1) rest by simp
  qed (use sv in simp)
qed

lemma evolves_kill:
  assumes "find_slot s n = Some i"
  shows "evolves s (kill_core e i s)"
proof -
  obtain h where k: "kill_core e i s = s\<lparr>sw_host := h, sw_slots := swept (marked i s) (length (sw_slots s)),
     sw_index := swept_index (sw_index s) (marked i s) (length (sw_slots s))\<rparr>"
    using kill_core_any [of e i s] by auto
  have len: "length (marked i s) = length (sw_slots s)" using map_eq_imp_length_eq [OF marked_core_any] .
  have "swarm_inv (kill_core e i s) \<and> keeps_names s (kill_core e i s)" if inv: "swarm_inv s"
  proof -
    have tb: "table_ok s" and i: "i < length (sw_slots s)" "sl_id (slot_at s i) \<noteq> 0"
      using inv assms table_find [of s n i] by (auto simp: swarm_inv_def)
    note tb' = kill_core_table [OF tb i, of e]
    have "keeps_names s (kill_core e i s)"
      unfolding keeps_names_def
    proof (intro allI impI)
      fix m j assume "find_slot (kill_core e i s) m = Some j"
      then have j: "j < length (sw_slots s)" "sl_id (slot_at (kill_core e i s) j) = m" "m \<noteq> 0"
        using table_find [OF tb'] kill_core_rest [OF i(1), of e] by auto
      then show "find_slot s m = Some j \<and> same_identity (slot_at s j) (slot_at (kill_core e i s) j)"
        using kill_core_survivor [OF tb i j(1)] table_find [OF tb, of m j] by (auto simp: same_identity_def)
    qed
    then show ?thesis
      using inv tb' kill_core_tree [OF tb i] kill_core_local by (auto simp: swarm_inv_def)
  qed
  moreover have "slots_ok s \<Longrightarrow> slots_ok (kill_core e i s)" by (rule kill_core_local)
  moreover have "length (sw_slots (kill_core e i s)) = length (sw_slots s) \<and>
    sw_next_id (kill_core e i s) = sw_next_id s \<and> sw_max_instances (kill_core e i s) = sw_max_instances s"
    using k len by simp
  ultimately show ?thesis by (auto simp: evolves_def)
qed

section \<open>Taking a slot\<close>

lemma claim_facts:
  assumes "claim s = Some (c, s1)"
  shows "c < length (sw_slots s1)" "length (sw_slots s) \<le> length (sw_slots s1)"
    "length (sw_slots s1) \<le> max (length (sw_slots s)) (sw_max_instances s)"
    "i < length (sw_slots s1) \<Longrightarrow> i \<noteq> c \<Longrightarrow> i < length (sw_slots s) \<and> slot_at s1 i = slot_at s i"
    "c < length (sw_slots s) \<Longrightarrow> sl_id (slot_at s c) = 0"
    "slot_at s1 c = slot_free\<lparr>sl_id := sw_next_id s mod 2 ^ 32\<rparr>"
    "sw_index s1 = (sw_index s)(sw_next_id s mod 2 ^ 32 := Some c)"
    "sw_next_id s1 = sw_next_id s + 1" "sw_max_instances s1 = sw_max_instances s"
    "sw_host_identity s1 = sw_host_identity s"
proof -
  have "\<exists>slots. (slots = sw_slots s \<and> c < length (sw_slots s) \<or>
      slots = sw_slots s @ [slot_free] \<and> c = length (sw_slots s) \<and> length (sw_slots s) < sw_max_instances s) \<and>
    sl_id (slots ! c) = 0 \<and>
    s1 = s\<lparr>sw_slots := slots[c := slot_free\<lparr>sl_id := sw_next_id s mod 2 ^ 32\<rparr>],
           sw_index := (sw_index s)(sw_next_id s mod 2 ^ 32 := Some c), sw_next_id := sw_next_id s + 1\<rparr>"
  proof (cases "position_of (\<lambda>sl. sl_id sl = 0) (sw_slots s)")
    case None
    then show ?thesis
      using assms by (intro exI [of _ "sw_slots s @ [slot_free]"]) (auto simp: claim_def Let_def split: if_splits)
  next
    case (Some i)
    then show ?thesis
      using assms position_of_Some [OF Some] by (intro exI [of _ "sw_slots s"]) (auto simp: claim_def Let_def)
  qed
  then obtain slots where sl: "slots = sw_slots s \<and> c < length (sw_slots s) \<or>
      slots = sw_slots s @ [slot_free] \<and> c = length (sw_slots s) \<and> length (sw_slots s) < sw_max_instances s"
    and z: "sl_id (slots ! c) = 0"
    and s1: "s1 = s\<lparr>sw_slots := slots[c := slot_free\<lparr>sl_id := sw_next_id s mod 2 ^ 32\<rparr>],
           sw_index := (sw_index s)(sw_next_id s mod 2 ^ 32 := Some c), sw_next_id := sw_next_id s + 1\<rparr>"
    by blast
  show "c < length (sw_slots s1)" "length (sw_slots s) \<le> length (sw_slots s1)"
    "length (sw_slots s1) \<le> max (length (sw_slots s)) (sw_max_instances s)"
    using sl by (auto simp: s1)
  show "i < length (sw_slots s1) \<Longrightarrow> i \<noteq> c \<Longrightarrow> i < length (sw_slots s) \<and> slot_at s1 i = slot_at s i"
    using sl by (auto simp: s1 nth_append)
  show "c < length (sw_slots s) \<Longrightarrow> sl_id (slot_at s c) = 0" using sl z by auto
  show "slot_at s1 c = slot_free\<lparr>sl_id := sw_next_id s mod 2 ^ 32\<rparr>" using sl by (auto simp: s1)
qed (use assms in \<open>auto simp: claim_def Let_def split: option.splits if_splits\<close>)

text \<open>What becomes of a claimed slot: it is filled, or given back.\<close>

definition claimed :: "('i, 'h) swarm \<Rightarrow> nat \<Rightarrow> ('i, 'h) swarm \<Rightarrow> 'i slot \<Rightarrow> ('i, 'h) swarm \<Rightarrow> bool" where
  "claimed s c s1 sl t \<longleftrightarrow> sw_slots t = (sw_slots s1)[c := sl] \<and> sw_next_id t = sw_next_id s1 \<and>
     sw_max_instances t = sw_max_instances s1 \<and>
     (if sl_id sl = 0 then sw_index t = (sw_index s1)(sw_next_id s mod 2 ^ 32 := None)
      else sl_id sl = sw_next_id s mod 2 ^ 32 \<and> sw_index t = sw_index s1)"

lemma claimed_slots:
  assumes "claim s = Some (c, s1)" and "claimed s c s1 sl t"
  shows "length (sw_slots t) = length (sw_slots s1)" "slot_at t c = sl"
    "i < length (sw_slots t) \<Longrightarrow> i \<noteq> c \<Longrightarrow> i < length (sw_slots s) \<and> slot_at t i = slot_at s i"
  using claim_facts [OF assms(1)] assms(2) by (auto simp: claimed_def)

lemma claimed_local:
  assumes c: "claim s = Some (c, s1)" "sw_slots t = (sw_slots s1)[c := sl]"
    "sw_index t = sw_index s1 \<or> sw_index t = (sw_index s1)(m := None)" and "local_ok sl" and "slots_ok s"
  shows "slots_ok t"
proof -
  note cf = claim_facts [OF c(1)]
  have "local_ok (slot_at t k)" if "k < length (sw_slots t)" for k
    using that cf(1) cf(4) [of k] assms(2,4,5) by (cases "k = c") (auto simp: slots_ok_def)
  moreover have "k < length (sw_slots t)" if "sw_index t n = Some k" for n k
  proof -
    have "sw_index s1 n = Some k" using c(3) that by (auto split: if_splits)
    then have "k = c \<or> sw_index s n = Some k" using cf(7) by (auto split: if_splits)
    moreover have "sw_index s n = Some k \<Longrightarrow> k < length (sw_slots s)" using assms(5) by (simp add: slots_ok_def)
    ultimately show ?thesis using cf(1,2) c(2) by auto
  qed
  ultimately show ?thesis by (simp add: slots_ok_def)
qed

lemma claimed_table:
  assumes "claim s = Some (c, s1)" and "claimed s c s1 sl t" and tb: "table_ok s"
    and small: "sw_next_id s < 2 ^ 32" and "sl_id sl \<noteq> 0 \<Longrightarrow> sl_alive sl"
  shows "table_ok t"
proof -
  note cf = claim_facts [OF assms(1)]
  note cs = claimed_slots [OF assms(1,2)]
  let ?n = "sw_next_id s"
  have n: "?n mod 2 ^ 32 = ?n" using small by simp
  have ids: "sl_id (slot_at s i) < ?n" if "i < length (sw_slots s)" for i
    using tb that by (cases "sl_id (slot_at s i) = 0") (auto simp: table_ok_def)
  have fresh: "sw_index s ?n = None"
  proof (cases "sw_index s ?n")
    case (Some i)
    then show ?thesis using table_index [OF tb, of ?n i] ids [of i] by simp
  qed
  have ix: "sw_index t m = Some i \<longleftrightarrow> i < length (sw_slots t) \<and> sl_id (slot_at t i) = m \<and> m \<noteq> 0" for m i
  proof (cases "i = c")
    case True
    have "sw_index s m \<noteq> Some c"
    proof
      assume "sw_index s m = Some c"
      then show False using table_index [OF tb, of m c] cf(5) by auto
    qed
    then show ?thesis
      using True cs(1,2) cf(1,7) n assms(2) fresh tb by (auto simp: claimed_def table_ok_def split: if_splits)
  next
    case False
    have "sw_index t m = Some i \<longleftrightarrow> sw_index s m = Some i"
      using False cf(7) n assms(2) fresh by (auto simp: claimed_def split: if_splits)
    moreover have "i < length (sw_slots s) \<Longrightarrow> i < length (sw_slots t)" using cf(2) cs(1) by simp
    ultimately show ?thesis using table_index [OF tb, of m i] cs(3) [of i] False by auto
  qed
  have "sl_id (slot_at t i) < sw_next_id t \<and> sl_alive (slot_at t i)"
    if "i < length (sw_slots t)" "sl_id (slot_at t i) \<noteq> 0" for i
  proof (cases "i = c")
    case True
    then show ?thesis using that cs(2) assms(2,5) cf(8) n by (auto simp: claimed_def)
  next
    case False
    then show ?thesis using that cs(3) [of i] tb assms(2) cf(8) by (auto simp: claimed_def table_ok_def)
  qed
  moreover have "length (sw_slots t) \<le> sw_max_instances t"
    using cf(3,9) cs(1) assms(2) tb by (auto simp: claimed_def table_ok_def)
  moreover have "1 \<le> sw_next_id t" using assms(2) cf(8) by (simp add: claimed_def)
  ultimately show ?thesis using ix by (auto simp: table_ok_def)
qed

lemma claimed_kept:
  assumes "claim s = Some (c, s1)" and "claimed s c s1 sl t"
    and "p < length (sw_slots s)" and "sl_id (slot_at s p) \<noteq> 0"
  shows "p < length (sw_slots t) \<and> p \<noteq> c \<and> slot_at t p = slot_at s p"
  using claim_facts(2,5) [OF assms(1)] claimed_slots [OF assms(1,2)] assms(3,4) by (cases "p = c") auto

lemma claimed_tree:
  assumes c: "claim s = Some (c, s1)" "claimed s c s1 sl t" and tree: "swarm_tree s"
    and sl: "sl_id sl \<noteq> 0 \<Longrightarrow> placed s sl"
  shows "swarm_tree t"
  unfolding swarm_tree_def
proof (intro allI impI)
  fix i assume i: "i < length (sw_slots t)" "sl_id (slot_at t i) \<noteq> 0"
  have "placed s (slot_at t i)"
  proof (cases "i = c")
    case True
    then show ?thesis using sl i(2) claimed_slots(2) [OF c] by simp
  next
    case False
    then show ?thesis using claimed_slots(3) [OF c i(1)] tree i(2) by (simp add: swarm_tree_def)
  qed
  then show "placed t (slot_at t i)"
    by (rule placed_carry) (use claimed_kept [OF c] in auto)
qed

lemma evolves_claimed:
  assumes c: "claim s = Some (c, s1)" "claimed s c s1 sl t" and lo: "local_ok sl"
    and sl: "sl_id sl \<noteq> 0 \<Longrightarrow> sl_alive sl"
    and pl: "swarm_inv s \<Longrightarrow> sw_next_id s < 2 ^ 32 \<Longrightarrow> sl_id sl \<noteq> 0 \<Longrightarrow> placed s sl"
  shows "evolves s t"
proof -
  note cf = claim_facts [OF c(1)]
  have lok: "slots_ok s \<Longrightarrow> slots_ok t"
    using c(2) by (intro claimed_local [OF c(1) _ _ lo, of t "sw_next_id s mod 2 ^ 32"])
      (auto simp: claimed_def split: if_splits)
  have base: "length (sw_slots s) \<le> length (sw_slots t)" "sw_next_id t = sw_next_id s + 1"
    "sw_max_instances t = sw_max_instances s"
    using cf claimed_slots(1) [OF c] c(2) by (simp_all add: claimed_def)
  have "swarm_inv t \<and> keeps_names s t" if inv: "swarm_inv s" and small: "sw_next_id s < 2 ^ 32"
  proof -
    have tb: "table_ok s" and tree: "swarm_tree s" and al: "slots_ok s" using inv by (auto simp: swarm_inv_def)
    note tb' = claimed_table [OF c tb small sl]
    have "keeps_names s t"
      unfolding keeps_names_def
    proof (intro allI impI)
      fix n j assume n: "n < sw_next_id s" and "find_slot t n = Some j"
      then have j: "j < length (sw_slots t)" "sl_id (slot_at t j) = n" "n \<noteq> 0"
        using table_find [OF tb'] by auto
      have "j \<noteq> c"
        using j n claimed_slots(2) [OF c] c(2) small by (auto simp: claimed_def split: if_splits)
      then have "j < length (sw_slots s) \<and> slot_at t j = slot_at s j"
        using claimed_slots(3) [OF c j(1)] by simp
      then show "find_slot s n = Some j \<and> same_identity (slot_at s j) (slot_at t j)"
        using table_find [OF tb, of n j] j by simp
    qed
    then show ?thesis
      using tb' claimed_tree [OF c tree pl [OF inv small]] lok [OF al]
      by (simp add: swarm_inv_def)
  qed
  then show ?thesis using base lok by (simp add: evolves_def)
qed

lemma local_ok_built:
  assumes "sl_pending sl = []" "sl_held sl = []" "sl_snap sl = None"
  shows "local_ok (sl\<lparr>sl_inst := Some x, sl_handles := [], sl_alive := True\<rparr>)"
  using assms by (simp add: local_ok_def max_pending_def)

text \<open>A build on a claimed slot fills it with a program, or leaves the swarm alone.\<close>

lemma built_claimed:
  assumes "claim s = Some (c, s1)" and "sl_id sl = sw_next_id s mod 2 ^ 32" and "sl_id sl \<noteq> 0"
    and b: "build e c code (put_slot c sl s1) = (Inr u, s3)"
  obtains x where "claimed s c s1 (sl\<lparr>sl_inst := Some x, sl_handles := [], sl_alive := True\<rparr>) s3"
proof -
  have c: "c < length (sw_slots s1)" using claim_facts(1) [OF assms(1)] .
  obtain x where "s3 = put_host (h_attached (en_host e) (sl_id (slot_at (put_slot c sl s1) c)) (sw_host (put_slot c sl s1)))
       (put_slot c ((slot_at (put_slot c sl s1) c)\<lparr>sl_inst := Some x, sl_handles := [], sl_alive := True\<rparr>) (put_slot c sl s1))"
    using build_cases [OF b] by auto
  then show ?thesis
    using c assms(2,3) by (intro that [of x]) (simp add: claimed_def put_slot_def put_host_def)
qed

lemma release_claimed:
  assumes "claim s = Some (c, s1)" and "sl_id sl = sw_next_id s mod 2 ^ 32"
    and b: "build e c code (put_slot c sl s1) = (Inl why, s3)"
  shows "claimed s c s1 slot_free (release e c s3)"
proof -
  have "c < length (sw_slots s1)" using claim_facts(1) [OF assms(1)] .
  moreover have "s3 = put_slot c sl s1" using build_cases [OF b] by auto
  ultimately show ?thesis using assms(2) by (simp add: claimed_def release_def Let_def put_slot_def)
qed

lemma child_slot_fields [simp]:
  "sl_id (child_slot p path caps b n w so de sl) = sl_id sl"
  "sl_parent (child_slot p path caps b n w so de sl) = p"
  "sl_path (child_slot p path caps b n w so de sl) = path"
  "sl_caps (child_slot p path caps b n w so de sl) = caps"
  "sl_budget (child_slot p path caps b n w so de sl) = b"
  "sl_numeric (child_slot p path caps b n w so de sl) = n"
  "sl_unsafe_stdlib (child_slot p path caps b n w so de sl) = so"
  "sl_unsafe_debug (child_slot p path caps b n w so de sl) = de"
  "sl_pending (child_slot p path caps b n w so de sl) = sl_pending sl"
  "sl_held (child_slot p path caps b n w so de sl) = sl_held sl"
  "sl_snap (child_slot p path caps b n w so de sl) = sl_snap sl"
  by (simp_all add: child_slot_def)

lemma evolves_built:
  assumes c: "claim s = Some (c, s1)" and id: "sl_id sl = sw_next_id s mod 2 ^ 32"
    and blank: "sl_pending sl = []" "sl_held sl = []" "sl_snap sl = None"
    and pl: "\<And>x. swarm_inv s \<Longrightarrow> sw_next_id s < 2 ^ 32 \<Longrightarrow>
      placed s (sl\<lparr>sl_inst := Some x, sl_handles := [], sl_alive := True\<rparr>)"
    and bd: "build e c code (put_slot c sl s1) = (Inr u, s3)"
  shows "evolves s s3"
proof (cases "sl_id sl = 0")
  case True
  note cf = claim_facts [OF c]
  have nb: "\<not> swarm_inv s \<or> \<not> sw_next_id s + 1 \<le> 2 ^ 32"
    using True id by (auto simp: swarm_inv_def table_ok_def)
  obtain x where s3: "s3 = put_host (h_attached (en_host e) (sl_id (slot_at (put_slot c sl s1) c)) (sw_host (put_slot c sl s1)))
       (put_slot c ((slot_at (put_slot c sl s1) c)\<lparr>sl_inst := Some x, sl_handles := [], sl_alive := True\<rparr>) (put_slot c sl s1))"
    using build_cases [OF bd] by auto
  have "slots_ok s \<Longrightarrow> slots_ok s3"
    using cf(1) by (intro claimed_local [OF c _ _ local_ok_built [OF blank, of x], of s3 0])
      (simp_all add: s3 put_slot_def put_host_def)
  then show ?thesis using nb cf s3 by (auto simp: evolves_def)
next
  case False
  then obtain x where cl: "claimed s c s1 (sl\<lparr>sl_inst := Some x, sl_handles := [], sl_alive := True\<rparr>) s3"
    using built_claimed [OF c id _ bd] by metis
  show ?thesis
    by (rule evolves_claimed [OF c cl local_ok_built [OF blank]]) (simp, rule pl)
qed

lemma evolves_spawned:
  assumes k: "k < length (sw_slots s)" "sl_id (slot_at s k) \<noteq> 0" and c: "claim s = Some (c, s1)"
    and fits: "child_fits (slot_at s k) path caps b n stdlib debug"
    and bd: "build e c code (put_slot c (child_slot (sl_id (slot_at s k)) path caps b n w stdlib debug (slot_at s1 c)) s1)
        = (Inr u, s3)"
  shows "evolves s s3"
proof (rule evolves_built [OF c _ _ _ _ _ bd])
  note cf = claim_facts(6) [OF c]
  fix x
  assume "swarm_inv s" and small: "sw_next_id s < 2 ^ 32"
  then have "sl_id (slot_at s k) < sw_next_id s" using k by (auto simp: swarm_inv_def table_ok_def)
  then show "placed s (child_slot (sl_id (slot_at s k)) path caps b n w stdlib debug (slot_at s1 c)
      \<lparr>sl_inst := Some x, sl_handles := [], sl_alive := True\<rparr>)"
    using k fits small by (auto simp: placed_def cf intro!: exI [of _ k])
qed (simp_all add: claim_facts(6) [OF c])

section \<open>Every operation evolves the swarm\<close>

lemma evolves_host: "evolves s (put_host h s)"
  by (rule evolves_same) simp_all

lemma evolves_spawns: "evolves s (s\<lparr>sw_spawns_this_step := n\<rparr>)"
  by (rule evolves_same) simp_all

lemma evolves_failed:
  assumes c: "claim s = Some (c, s1)"
    and bd: "build e c code (put_slot c (child_slot p path caps b n w stdlib debug (slot_at s1 c)) s1) = (Inl why, s3)"
  shows "evolves s (release e c s3)"
proof -
  have "sl_id (child_slot p path caps b n w stdlib debug (slot_at s1 c)) = sw_next_id s mod 2 ^ 32"
    using claim_facts(6) [OF c] by simp
  then have "claimed s c s1 slot_free (release e c s3)" using release_claimed [OF c _ bd] by simp
  then show ?thesis by (rule evolves_claimed [OF c]) simp_all
qed

lemma evolves_woken:
  assumes "k < length (sw_slots s)" and "sl_alive (slot_at s k)"
  shows "evolves s (put_slot k ((slot_at s k)\<lparr>sl_snap := None, sl_pending := [], sl_inst := Some x,
             sl_handles := []\<rparr>) s)"
  using assms by (intro evolves_put) (auto simp: same_identity_def local_ok_def max_pending_def)

lemma evolves_minor:
  "k < length (sw_slots s) \<Longrightarrow> minor (\<lambda>x y. True) (slot_at s k) sl \<Longrightarrow> evolves s (put_slot k sl s)"
  by (rule evolves_put) (auto simp: minor_def)

lemma evolves_defer: "evolves s (put_slot k ((slot_at s k)\<lparr>sl_deferred := Some m\<rparr>) s)"
proof (cases "k < length (sw_slots s)")
  case True
  then show ?thesis by (rule evolves_put) (auto simp: same_identity_def local_ok_def)
qed (simp add: put_slot_out evolves_refl)

interpretation ev: swarm_full e "\<lambda>x y. True" evolves for e :: "('i, 'h) env"
proof
  fix s t u :: "('i, 'h) swarm"
  show "evolves s t \<Longrightarrow> evolves t u \<Longrightarrow> evolves s u" by (rule evolves_trans)
  show "evolves s t \<Longrightarrow> length (sw_slots s) \<le> length (sw_slots t)" by (simp add: evolves_def)
  show "evolves s t \<Longrightarrow> slots_ok s \<Longrightarrow> slots_ok t" by (simp add: evolves_def)
qed (auto intro: evolves_refl evolves_host evolves_spawns evolves_minor evolves_kill evolves_spawned
    evolves_failed evolves_woken evolves_defer)

lemma evolves_root:
  assumes r: "root_with_numeric e code gs b n s = (r, t)"
  shows "evolves s t"
proof (cases "check_grant_names gs")
  case (Inl why)
  then show ?thesis using r by (auto simp: root_with_numeric_def evolves_refl)
next
  case ok: (Inr u)
  show ?thesis
  proof (cases "claim s")
    case None
    then show ?thesis using r ok by (auto simp: root_with_numeric_def evolves_refl)
  next
    case (Some p)
    obtain c s1 where c: "claim s = Some (c, s1)" using Some by (cases p) auto
    note cf = claim_facts [OF c]
    define sl where "sl = (slot_at s1 c)\<lparr>sl_parent := 0, sl_path := root_node,
       sl_caps := root_held_by root_node gs, sl_budget := b, sl_numeric := n,
       sl_unsafe_stdlib := sw_unsafe_stdlib s1, sl_unsafe_debug := sw_unsafe_debug s1\<rparr>"
    have id: "sl_id sl = sw_next_id s mod 2 ^ 32" using cf(6) by (simp add: sl_def)
    obtain q s3 where bd: "build e c code (put_slot c sl s1) = (q, s3)" by fastforce
    have t: "t = (case q of Inr _ \<Rightarrow> s3 | Inl _ \<Rightarrow> release e c s3)"
      using r ok c bd by (auto simp: root_with_numeric_def Let_def sl_def [symmetric] split: sum.splits)
    show ?thesis
    proof (cases q)
      case (Inl why)
      have "claimed s c s1 slot_free (release e c s3)" using release_claimed [OF c id] bd Inl by simp
      then show ?thesis unfolding t Inl sum.case by (rule evolves_claimed [OF c]) simp_all
    next
      case (Inr v)
      have "evolves s s3"
        by (rule evolves_built [OF c id _ _ _ _ bd [unfolded Inr]]) (simp_all add: sl_def cf(6) placed_def, blast)
      then show ?thesis by (simp add: t Inr)
    qed
  qed
qed

end
