(* ===== verification/Swarm_Reach.thy ===== *)
theory Swarm_Reach
  imports Swarm_Inv
begin

text \<open>
  Every swarm a host can bring about.  A move is one call of the swarm's interface; the
  reachable swarms are those that moves lead to from a new one.  The invariant holds of all
  of them, and the section on authority reads off it what the tree of instances promises.
\<close>

section \<open>Moves\<close>

inductive move :: "('i, 'h) env \<Rightarrow> ('i, 'h) swarm \<Rightarrow> ('i, 'h) swarm \<Rightarrow> bool" for e where
  move_host: "move e s (put_host h s)"
| move_hibernation: "move e s (s\<lparr>sw_allow_hibernation := b\<rparr>)"
| move_bytecode: "move e s (s\<lparr>sw_allow_bytecode := b\<rparr>)"
| move_stdlib: "move e s (s\<lparr>sw_unsafe_stdlib := b\<rparr>)"
| move_debug: "move e s (s\<lparr>sw_unsafe_debug := b\<rparr>)"
| move_identity: "move e s (set_host_identity who s)"
| move_instance: "sl_inst (slot_at s k) \<noteq> None \<Longrightarrow> move e s (put_inst k x s)"
| move_root: "root_with_numeric e code caps b n s = (r, t) \<Longrightarrow> move e s t"
| move_push: "push e i queue from raw s = (r, t) \<Longrightarrow> move e s t"
| move_kill: "kill e i s = (r, t) \<Longrightarrow> move e s t"
| move_hibernate: "hibernate e i s = (r, t) \<Longrightarrow> move e s t"
| move_wake: "wake e i s = (r, t) \<Longrightarrow> move e s t"
| move_step: "step fuel e s = Some (alive, t) \<Longrightarrow> move e s t"

inductive_cases move_elim: "move e s t"

inductive reachable :: "('i, 'h) env \<Rightarrow> ('i, 'h) swarm \<Rightarrow> bool" for e where
  reachable_new: "reachable e (swarm_with_limits host max_inst spawns)"
| reachable_move: "reachable e s \<Longrightarrow> move e s t \<Longrightarrow> reachable e t"

lemma push_to_move: "push_to e i addr from raw s = (r, t) \<Longrightarrow> t = s \<or> move e s t"
  by (auto simp: push_to_def split: sum.splits intro: move_push)

lemma evolves_kill_op: "kill e n s = (r, t) \<Longrightarrow> evolves s t"
  by (auto simp: kill_def evolves_refl ev.R_kill_subtree split: if_splits)

lemma evolves_flags:
  "sw_slots t = sw_slots s \<Longrightarrow> sw_index t = sw_index s \<Longrightarrow> sw_next_id t = sw_next_id s \<Longrightarrow>
   sw_max_instances t = sw_max_instances s \<Longrightarrow> evolves s t"
  by (rule evolves_same) simp_all

lemma slots_ok_new: "slots_ok (swarm_with_limits host mx sp)"
  by (simp add: slots_ok_def swarm_with_limits_def)

lemma swarm_inv_new: "swarm_inv (swarm_with_limits host mx sp)"
  unfolding swarm_inv_def
  by (simp add: slots_ok_new) (simp add: table_ok_def swarm_tree_def swarm_with_limits_def)

lemma move_evolves: "move e s t \<Longrightarrow> slots_ok s \<Longrightarrow> evolves s t"
  by (erule move_elim)
    (auto simp: evolves_host evolves_flags ev.R_set_inst set_host_identity_def
      intro: evolves_root ev.R_push evolves_kill_op ev.R_hibernate ev.R_wake_up ev.R_step)

lemma reachable_ok: "reachable e s \<Longrightarrow> slots_ok s \<and> (sw_next_id s \<le> 2 ^ 32 \<longrightarrow> swarm_inv s)"
proof (induction rule: reachable.induct)
  case (reachable_move s t)
  then have "evolves s t" using move_evolves by blast
  then show ?case using reachable_move.IH by (auto simp: evolves_def)
qed (simp add: slots_ok_new swarm_inv_new)

lemma reachable_inv: "reachable e s \<Longrightarrow> sw_next_id s \<le> 2 ^ 32 \<Longrightarrow> swarm_inv s"
  using reachable_ok by blast

text \<open>Any number of moves.\<close>

inductive moves :: "('i, 'h) env \<Rightarrow> ('i, 'h) swarm \<Rightarrow> ('i, 'h) swarm \<Rightarrow> bool" for e where
  moves_none: "moves e s s"
| moves_more: "moves e s t \<Longrightarrow> move e t u \<Longrightarrow> moves e s u"

lemma moves_evolves: "moves e s t \<Longrightarrow> slots_ok s \<Longrightarrow> evolves s t"
proof (induction rule: moves.induct)
  case (moves_more s t u)
  then have "evolves s t" by simp
  moreover from this have "evolves t u" using move_evolves [OF moves_more.hyps(2)] moves_more.prems
    by (simp add: evolves_def)
  ultimately show ?case by (rule evolves_trans)
qed (rule evolves_refl)

lemma moves_reachable: "moves e s t \<Longrightarrow> reachable e s \<Longrightarrow> reachable e t"
  by (induction rule: moves.induct) (auto intro: reachable_move)

end
