(* ===== verification/Swarm_Demo.thy ===== *)
theory Swarm_Demo
  imports Swarm_Reach Mini_Codec
begin

text \<open>
  A concrete engine, host and reference codec, on which the examples run.  An instance of the
  engine is the list of the messages in its queues, each with the handle of its queue; its
  program never runs, so what it has asked for is what a host put into its queues.
\<close>

definition demo_queue :: "string \<Rightarrow> queue_handle option" where
  "demo_queue name = (if name = ''system/lifecycle'' then Some 1
     else if name = ''system/events'' then Some 2 else if name = inbox then Some 3 else None)"

type_synonym mailbox = "(queue_handle \<times> bytes) list"

fun demo_pop :: "queue_handle \<Rightarrow> mailbox \<Rightarrow> bytes option \<times> mailbox" where
  "demo_pop q [] = (None, [])"
| "demo_pop q (m # ms) = (if fst m = q then (Some (snd m), ms)
     else (case demo_pop q ms of (r, rest) \<Rightarrow> (r, m # rest)))"

section \<open>References\<close>

fun put_text :: "string \<Rightarrow> bytes" where
  "put_text [] = [0]"
| "put_text (c # cs) = 1 # byte_of (of_char c) # put_text cs"

fun get_text :: "bytes \<Rightarrow> (string \<times> bytes) option" where
  "get_text (tag # bs) = (if tag = 0 then Some ([], bs)
     else (case bs of [] \<Rightarrow> None
       | b # rest \<Rightarrow> map_option (\<lambda>(s, r). (char_of (unat b) # s, r)) (get_text rest)))"
| "get_text [] = None"

definition demo_refs :: ref_codec where
  "demo_refs = \<lparr>
     rc_write = (\<lambda>r. put_text (er_scheme r) @ put_text (er_address r) @
       (case er_identity r of None \<Rightarrow> [] | Some i \<Rightarrow> put_text i)),
     rc_read = (\<lambda>bs. case get_text bs of None \<Rightarrow> Inl ''short''
       | Some (scheme, bs1) \<Rightarrow> (case get_text bs1 of None \<Rightarrow> Inl ''short''
         | Some (address, bs2) \<Rightarrow> Inr \<lparr>er_scheme = scheme, er_address = address,
             er_identity = map_option fst (get_text bs2)\<rparr>))\<rparr>"

lemma get_put_text: "get_text (put_text s @ rest) = Some (s, rest)"
  by (induction s) simp_all

lemma demo_refs_ok: "ref_codec_ok demo_refs"
proof -
  have "get_text (put_text s) = Some (s, [])" for s using get_put_text [of s "[]"] by simp
  then have "rc_read demo_refs (rc_write demo_refs r) = Inr r" for r
    by (cases "er_identity r") (simp_all add: demo_refs_def get_put_text)
  then show ?thesis by (simp add: ref_codec_ok_def)
qed

section \<open>The engine and the host\<close>

definition demo_ref :: "nat \<Rightarrow> bytes" where
  "demo_ref n = rc_write demo_refs (endpoint_local (show_nat n @ CHR ''/'' # inbox) None)"

text \<open>The messages of queue 4 are for the far end of the endpoint 1, the inbox of instance 1.\<close>

definition demo_engine :: "mailbox engine" where
  "demo_engine = \<lparr>e_load = (\<lambda>_. Inr []), e_restore = (\<lambda>_. Inr []),
     e_queue = (\<lambda>name x. (demo_queue name, x)),
     e_queue_info = (\<lambda>q x. (Inr \<lparr>qs_len = length (filter (\<lambda>m. fst m = q) x), qs_capacity = 8,
       qs_enabled = True, qs_exported = True\<rparr>, x)),
     e_push = (\<lambda>q m x. (Inr Accepted, x @ [(q, m)])),
     e_pop = (\<lambda>q x. case demo_pop q x of (r, y) \<Rightarrow> (Inr r, y)),
     e_run = (\<lambda>x. (Inr Done, x)), e_resume = (\<lambda>q x. (Inr Done, x)),
     e_resume_timeout = (\<lambda>x. (Inr Done, x)), e_current_wait = (\<lambda>x. (None, x)),
     e_usage = (\<lambda>x. usage_default), e_exceeded = (\<lambda>x. False), e_touched_fast = (\<lambda>x. False),
     e_snapshot = (\<lambda>st x. (Inr [7], x)),
     e_endpoint_count = (\<lambda>x. if list_ex (\<lambda>m. fst m = 4) x then 1 else 0),
     e_enable_endpoints = (\<lambda>x. x), e_endpoint_queue = (\<lambda>t x. (Some 4, x)),
     e_endpoint_ref = (\<lambda>t x. Some (demo_ref 1)), e_endpoint_close = (\<lambda>q x. (Inr (), x))\<rparr>"

definition demo_host :: "(mailbox, unit) host" where
  "demo_host = \<lparr>h_drive = (\<lambda>n c x h. (DrivenAlive, x, h)), h_attached = (\<lambda>n h. h),
     h_detached = (\<lambda>n h. h), h_released = (\<lambda>n h. h), h_ended = (\<lambda>h. ([], h)), h_notices = (\<lambda>h. ([], h))\<rparr>"

text \<open>A codec whose every message is the one request, for requests the concrete codec of
  \<^verbatim>\<open>Mini_Codec\<close> does not write.\<close>

definition one_request :: "val \<Rightarrow> codec" where
  "one_request v = \<lparr>write_value = (\<lambda>_. Some []), read_value = (\<lambda>_. Some (v, []))\<rparr>"

definition demo_env :: "codec \<Rightarrow> (mailbox, unit) env" where
  "demo_env cd = \<lparr>en_engine = demo_engine, en_host = demo_host, en_codec = cd, en_refs = demo_refs\<rparr>"

definition demo_request :: val where
  "demo_request = VMap [(VStr ''op'', VStr ''spawn''), (VStr ''code'', VStr ''y''),
     (VStr ''caps'', VArr [VStr ''host:fs/read'']), (VStr ''name'', VStr ''kid''),
     (VStr ''wake_on_message'', VBool True), (VStr ''memory_kb'', VInt 64)]"

text \<open>The swarm with a root, as \<open>root\<close> leaves it, and then with a request in the
  root's lifecycle queue.\<close>

definition demo_caps :: "grant list" where
  "demo_caps = [grant_of ''lifecycle'', grant_of ''host:fs/*'']"

definition demo_budget :: budget where
  "demo_budget = \<lparr>instructions = None, memory_kb = Some 100\<rparr>"

definition demo_new :: "(mailbox, unit) swarm" where
  "demo_new = swarm_with_limits () 4 2"

definition demo_root :: "mailbox \<Rightarrow> (mailbox, unit) swarm" where
  "demo_root x = demo_new\<lparr>sw_slots := [slot_free\<lparr>sl_id := 1,
    sl_caps := root_held_by root_node demo_caps, sl_budget := demo_budget, sl_inst := Some x, sl_alive := True\<rparr>],
   sw_index := [1 \<mapsto> 0], sw_next_id := 2\<rparr>"

lemma text_ok: "utf8_valid ''x''" "utf8_valid ''y''"
  by (simp_all add: ascii_valid ascii_def)

lemma demo_claim: "claim demo_new = Some (0, demo_new\<lparr>sw_slots := [slot_free\<lparr>sl_id := 1\<rparr>],
   sw_index := [1 \<mapsto> 0], sw_next_id := 2\<rparr>)"
  by (simp add: demo_new_def claim_def swarm_with_limits_def Let_def)

lemma demo_root_call: "swarm_root (demo_env cd) ''x'' demo_caps demo_budget demo_new = (Inr 1, demo_root [])"
  unfolding swarm_root_def root_with_numeric_def demo_root_def
  by (simp add: demo_claim text_ok check_grant_names_def grant_of_def max_cap_len_def max_caps_def build_def
      put_slot_def demo_env_def demo_engine_def demo_host_def put_host_def slot_free_def numeric_default_def
      demo_caps_def) (simp add: demo_new_def swarm_with_limits_def)

lemma demo_root_reachable: "reachable (demo_env cd) (demo_root x)"
proof -
  have "reachable (demo_env cd) (demo_root [])"
    using demo_root_call [of cd] reachable_new [of "demo_env cd" "()" 4 2] 
    by (auto simp: swarm_root_def demo_new_def [symmetric] intro: reachable_move move_root)
  then have "reachable (demo_env cd) (put_inst 0 x (demo_root []))"
    by (rule reachable_move) (rule move_instance, simp add: demo_root_def)
  moreover have "put_inst 0 x (demo_root []) = demo_root x"
    by (simp add: put_inst_def put_slot_def demo_root_def)
  ultimately show ?thesis by simp
qed

section \<open>A spawn\<close>

lemma demo_fields: "field_bytes demo_request ''code'' = Some ''y''" "field_str demo_request ''name'' = Some ''kid''"
 "field_caps demo_request = Some [''host:fs/read'']"
 "field_budget demo_request = \<lparr>instructions = None, memory_kb = Some 64\<rparr>"
 "field_numeric demo_request = numeric_default" "\<not> field_bool demo_request ''sealed''"
 "field_bool demo_request ''wake_on_message''" "field_str demo_request ''op'' = Some ''spawn''"
  by (simp_all add: field_def demo_request_def field_bytes_def field_str_def field_caps_def field_budget_def field_numeric_def 
   field_bool_def field_int_def ascii_valid ascii_def utf8_lossy_valid_id max_caps_def max_cap_len_def or_else_def Let_def)

definition demo_kid_caps :: capset where
  "demo_kid_caps = CapSet [grant_of ''host:fs/read'']
     (ProvGranted root_node (root_held_by root_node demo_caps)) (Some ''root/kid'')"

lemma demo_child: "derive_path root_node (Some ''kid'') 2 = Inr ''root/kid''" by code_simp

lemma demo_attenuate: "attenuate_held_by (root_held_by root_node demo_caps) (Some ''root/kid'') root_node
     (spawn_grants (root_held_by root_node demo_caps) [''host:fs/read'']) = Inr demo_kid_caps"
 by code_simp

lemma demo_fits: "budget_fits \<lparr>instructions = None, memory_kb = Some 64\<rparr> demo_budget"
  "numeric_fits numeric_default numeric_default" 
  "budget_resolved \<lparr>instructions = None, memory_kb = Some 64\<rparr> demo_budget = \<lparr>instructions = None, memory_kb = Some 64\<rparr>"
  "numeric_resolved numeric_default numeric_default = numeric_default"
  by (simp_all add: budget_fits_def demo_budget_def bound_fits_def numeric_fits_def numeric_default_def budget_resolved_def or_else_def numeric_resolved_def)

definition demo_kid :: "mailbox slot" where
  "demo_kid = slot_free\<lparr>sl_id := 2, sl_parent := 1, sl_path := ''root/kid'', sl_caps := demo_kid_caps,
     sl_budget := \<lparr>instructions = None, memory_kb = Some 64\<rparr>, sl_wake_on_message := True,
     sl_inst := Some [], sl_alive := True\<rparr>"

definition demo_pair :: "mailbox \<Rightarrow> mailbox slot \<Rightarrow> (mailbox, unit) swarm" where
  "demo_pair x kid = demo_new\<lparr>sw_slots := [slot_free\<lparr>sl_id := 1,
    sl_caps := root_held_by root_node demo_caps, sl_budget := demo_budget, sl_inst := Some x, sl_alive := True,
    sl_endpoints := True\<rparr>, kid],
   sw_index := [1 \<mapsto> 0, 2 \<mapsto> 1], sw_next_id := 3, sw_spawns_this_step := 1\<rparr>"

definition demo_top :: "mailbox \<Rightarrow> mailbox slot" where
  "demo_top x = slot_free\<lparr>sl_id := 1, sl_caps := root_held_by root_node demo_caps, sl_budget := demo_budget,
     sl_inst := Some x, sl_alive := True\<rparr>"

lemma demo_top_fields [simp]: "sl_id (demo_top x) = 1" "sl_parent (demo_top x) = 0" "sl_path (demo_top x) = root_node"
  "sl_caps (demo_top x) = root_held_by root_node demo_caps" "sl_budget (demo_top x) = demo_budget"
  "sl_numeric (demo_top x) = numeric_default" "sl_inst (demo_top x) = Some x" "sl_alive (demo_top x)"
  "\<not> sl_unsafe_stdlib (demo_top x)" "\<not> sl_unsafe_debug (demo_top x)" "sl_deferred (demo_top x) = None" "sl_pending (demo_top x) = []"
  "sl_held (demo_top x) = []"
  by (simp_all add: demo_top_def slot_free_def)

lemma demo_root_fields [simp]: "sw_slots (demo_root x) = [demo_top x]" "sw_index (demo_root x) = [1 \<mapsto> 0]"
  "sw_next_id (demo_root x) = 2" "sw_spawn_rate (demo_root x) = 2" "sw_spawns_this_step (demo_root x) = 0"
  "sw_host_identity (demo_root x) = None"
  by (simp_all add: demo_root_def demo_top_def demo_new_def swarm_with_limits_def)

lemma demo_claim2: "claim (demo_root x) = Some (1, (demo_root x)\<lparr>sw_slots := [demo_top x, slot_free\<lparr>sl_id := 2\<rparr>],
    sw_index := [1 \<mapsto> 0, 2 \<mapsto> 1], sw_next_id := 3\<rparr>)"
  by (simp add: claim_def Let_def) (simp add: demo_root_def demo_new_def swarm_with_limits_def)


definition demo_grown :: "(mailbox, unit) swarm" where
  "demo_grown = (demo_root [])\<lparr>sw_slots := [demo_top [], demo_kid], sw_index := [1 \<mapsto> 0, 2 \<mapsto> 1], sw_next_id := 3\<rparr>"

lemma demo_build: "build (demo_env cd) 1 ''y'' (put_slot 1 (child_slot 1 ''root/kid'' demo_kid_caps 
    \<lparr>instructions = None, memory_kb = Some 64\<rparr> numeric_default True False False (slot_free\<lparr>sl_id := 2\<rparr>)) 
    ((demo_root [])\<lparr>sw_slots := [demo_top [], slot_free\<lparr>sl_id := 2\<rparr>],
    sw_index := [1 \<mapsto> 0, 2 \<mapsto> 1], sw_next_id := 3\<rparr>)) = (Inr (), demo_grown)"
  by (simp add: build_def put_slot_def Let_def text_ok demo_env_def demo_engine_def demo_host_def put_host_def demo_grown_def
     demo_kid_def child_slot_def slot_free_def)

lemma demo_spawn: "do_spawn (demo_env (one_request demo_request)) 0 demo_request (demo_root []) =
   demo_pair [(2, [])] demo_kid"
  apply (simp add: do_spawn_def Let_def demo_claim2 demo_fields demo_fits demo_attenuate demo_child demo_build del: One_nat_def)
  apply (simp add: demo_grown_def demo_kid_def slot_free_def emit_extra_def emit_fields_def enable_endpoints_def find_slot_def
    put_slot_def put_inst_def Let_def demo_env_def demo_engine_def demo_queue_def one_request_def)
  apply (simp add: demo_pair_def demo_root_def demo_top_def demo_kid_def slot_free_def)
  done

abbreviation demo_ee :: "(mailbox, unit) env" where
  "demo_ee \<equiv> demo_env (one_request demo_request)"

lemma demo_pair_fields [simp]: "sw_slots (demo_pair x k) = [(demo_top x)\<lparr>sl_endpoints := True\<rparr>, k]" "sw_index (demo_pair x k) = [1 \<mapsto> 0, 2 \<mapsto> 1]"
  "sw_next_id (demo_pair x k) = 3" "sw_spawn_rate (demo_pair x k) = 2" "sw_spawns_this_step (demo_pair x k) = 1"
  "sw_host_identity (demo_pair x k) = None" "sw_host (demo_pair x k) = ()" "sw_max_instances (demo_pair x k) = 4"
  by (simp_all add: demo_pair_def demo_top_def demo_new_def swarm_with_limits_def)

lemma demo_kid_fields [simp]:
  "sl_id demo_kid = 2" "sl_parent demo_kid = 1" "sl_path demo_kid = ''root/kid''"
  "sl_caps demo_kid = demo_kid_caps" "sl_inst demo_kid = Some []" "sl_alive demo_kid" "sl_deferred demo_kid = None" "sl_pending demo_kid = []"
  "sl_held demo_kid = []" "sl_wake_on_message demo_kid"
  by (simp_all add: demo_kid_def slot_free_def)

lemma demo_ops [simp]: "en_host (demo_env cd) = demo_host" "en_engine (demo_env cd) = demo_engine" "en_codec (demo_env cd) = cd" "en_refs (demo_env cd) = demo_refs"
  "h_drive demo_host n c x h = (DrivenAlive, x, h)" "h_ended demo_host h = ([], h)" "h_notices demo_host h = ([], h)"
  "e_endpoint_count demo_engine x = (if list_ex (\<lambda>m. fst m = 4) x then 1 else 0)"
  "e_queue demo_engine nm x = (demo_queue nm, x)"
  "e_pop demo_engine q x = (case demo_pop q x of (r, y) \<Rightarrow> (Inr r, y))"
  "e_push demo_engine q m x = (Inr Accepted, x @ [(q, m)])"
  by (simp_all add: demo_env_def demo_host_def demo_engine_def)

lemma demo_next: "next_request demo_ee 0 (demo_root [(1, [9])]) = (Some [9], demo_root [])"
  by (simp add: next_request_def demo_queue_def put_inst_def put_slot_def) (simp add: demo_root_def demo_top_def)

lemma demo_next2: "next_request demo_ee 0 (demo_pair [(2, [])] demo_kid) = (None, demo_pair [(2, [])] demo_kid)"
  by (simp add: next_request_def demo_queue_def put_inst_def put_slot_def)

lemma demo_holds: "holds (root_held_by root_node demo_caps) cap_lifecycle" "\<not> holds demo_kid_caps cap_lifecycle" by code_simp+

lemma demo_read: "read_request (one_request v) m = Some v"
  by (simp add: read_request_def one_request_def)
lemma demo_drain: "drain_loop (Suc (Suc n)) demo_ee 0 1 (demo_root [(1, [9])]) = Some (demo_pair [(2, [])] demo_kid)"
  by (simp add: demo_next demo_next2 demo_spawn do_op_def request_op_def demo_read demo_fields request_cap_bytes_def Let_def
    del: One_nat_def)

lemma demo_host_unit: "put_host h s = (s :: (mailbox, unit) swarm)" by (simp add: put_host_def)
lemma demo_reset: "(demo_root x)\<lparr>sw_spawns_this_step := 0\<rparr> = demo_root x" by (simp add: demo_root_def demo_new_def swarm_with_limits_def)
lemma demo_put: "put_inst 0 x (demo_pair y demo_kid) = demo_pair x demo_kid" "put_inst (Suc 0) [] (demo_pair y demo_kid) = demo_pair y demo_kid"
 by (simp_all add: put_inst_def put_slot_def demo_pair_def demo_top_def demo_kid_def)

lemma demo_step: "step 2 demo_ee (demo_root [(1, [9])]) = Some (2, demo_pair [(2, [])] demo_kid)"
  using demo_drain [of 0, simplified]
  by (simp add: step_def route_endpoints_def route_slot_def wake_slot_def Let_def demo_host_unit demo_reset
     drain_slot_def drain_def demo_holds numeral_2_eq_2 drive_slot_def find_slot_def demo_put alive_count_def live_slot_def)

lemma demo_pair_reachable: "reachable demo_ee (demo_pair x (demo_kid\<lparr>sl_inst := Some y\<rparr>))"
proof -
  have "reachable demo_ee (demo_pair [(2, [])] demo_kid)"
    using reachable_move [OF demo_root_reachable move_step [OF demo_step]] .
  then have "reachable demo_ee (put_inst 0 x (demo_pair [(2, [])] demo_kid))"
    by (rule reachable_move) (rule move_instance, simp)
  then have "reachable demo_ee (put_inst 1 y (demo_pair x demo_kid))"
    unfolding demo_put by (rule reachable_move) (rule move_instance, simp)
  moreover have "put_inst 1 y (demo_pair x demo_kid) = demo_pair x (demo_kid\<lparr>sl_inst := Some y\<rparr>)"
    by (simp add: put_inst_def put_slot_def) (simp add: demo_pair_def demo_top_def)
  ultimately show ?thesis by simp
qed

end
