(* ===== verification/Swarm_Tree.thy ===== *)
theory Swarm_Tree
  imports Swarm_Demo
begin

text \<open>
  What the tree of instances promises, read off the invariant of the reachable swarms: the
  shape of the table, the confinement of every instance by its ancestors, that ancestry is
  decided as the tree has it, that a kill takes a subtree and nothing else, and that a handle
  never comes to mean another instance.
\<close>

section \<open>Parents and ancestors\<close>

lemma known_slot:
  assumes "swarm_inv s" and "find_slot s n = Some i"
  shows "i < length (sw_slots s)" "sl_id (slot_at s i) = n" "n \<noteq> 0" "n < sw_next_id s"
    "sl_alive (slot_at s i)" "placed s (slot_at s i)" "local_ok (slot_at s i)"
proof -
  have tb: "table_ok s" using assms(1) by (simp add: swarm_inv_def)
  then show i: "i < length (sw_slots s)" "sl_id (slot_at s i) = n" "n \<noteq> 0"
    using table_find assms(2) by auto
  show "sl_alive (slot_at s i)" using table_alive [OF tb assms(2)] .
  show "n < sw_next_id s" using tb i by (auto simp: table_ok_def)
  show "placed s (slot_at s i)" "local_ok (slot_at s i)"
    using assms(1) i by (auto simp: swarm_inv_def swarm_tree_def slots_ok_def)
qed

lemma known_parent:
  assumes "swarm_inv s" and "find_slot s n = Some i" and "sl_parent (slot_at s i) \<noteq> 0"
  obtains p where "find_slot s (sl_parent (slot_at s i)) = Some p" "sl_parent (slot_at s i) < n"
    "child_fits (slot_at s p) (sl_path (slot_at s i)) (sl_caps (slot_at s i)) (sl_budget (slot_at s i))
       (sl_numeric (slot_at s i)) (sl_unsafe_stdlib (slot_at s i)) (sl_unsafe_debug (slot_at s i))"
proof -
  have tb: "table_ok s" using assms(1) by (simp add: swarm_inv_def)
  show ?thesis
    using that known_slot(2,6) [OF assms(1,2)] assms(3) table_find [OF tb] by (auto simp: placed_def)
qed

lemma known_parent_ex:
  assumes "swarm_inv s" and "find_slot s n = Some i" and "sl_parent (slot_at s i) \<noteq> 0"
  shows "\<exists>p. find_slot s (sl_parent (slot_at s i)) = Some p \<and> sl_parent (slot_at s i) < n"
  using known_parent [OF assms] by metis

lemma child_rel_iff:
  assumes "swarm_inv s"
  shows "child_rel s a b \<longleftrightarrow> a \<noteq> 0 \<and> (\<exists>i. find_slot s b = Some i \<and> sl_parent (slot_at s i) = a)"
proof -
  have "table_ok s" using assms by (simp add: swarm_inv_def)
  from table_find [OF this] show ?thesis by (auto simp: child_rel_def)
qed

text \<open>A strict descendant descends from the ancestor through its own parent.\<close>

lemma descends_parent:
  assumes "swarm_inv s" and "find_slot s b = Some i"
  shows "descends s a b \<longleftrightarrow> a = b \<or> sl_parent (slot_at s i) \<noteq> 0 \<and> descends s a (sl_parent (slot_at s i))"
proof
  assume "descends s a b"
  then show "a = b \<or> sl_parent (slot_at s i) \<noteq> 0 \<and> descends s a (sl_parent (slot_at s i))"
    unfolding descends_def
    by (cases rule: rtranclp.cases) (use assms in \<open>auto simp: child_rel_iff\<close>)
next
  assume "a = b \<or> sl_parent (slot_at s i) \<noteq> 0 \<and> descends s a (sl_parent (slot_at s i))"
  then show "descends s a b"
    using descends_step [of s a i] known_slot(1-3) [OF assms] by (auto simp: descends_def)
qed

lemma ancestor_walk_descends:
  assumes "swarm_inv s"
  shows "w < fuel \<Longrightarrow> w = 0 \<or> find_slot s w \<noteq> None \<Longrightarrow>
    ancestor_walk fuel s a w \<longleftrightarrow> w \<noteq> 0 \<and> descends s a w"
proof (induction fuel arbitrary: w)
  case (Suc fuel)
  show ?case
  proof (cases "w = 0")
    case False
    then obtain i where i: "find_slot s w = Some i" using Suc.prems(2) by auto
    let ?p = "sl_parent (slot_at s i)"
    have "?p < fuel \<and> (?p = 0 \<or> find_slot s ?p \<noteq> None)"
    proof (cases "?p = 0")
      case True
      then show ?thesis using False Suc.prems(1) by simp
    next
      case nz: False
      then obtain q where "find_slot s ?p = Some q" "?p < w" using known_parent [OF assms i] by metis
      then show ?thesis using Suc.prems(1) by simp
    qed
    then have "ancestor_walk fuel s a ?p \<longleftrightarrow> ?p \<noteq> 0 \<and> descends s a ?p" using Suc.IH by blast
    then show ?thesis using False i descends_parent [OF assms i, of a] by auto
  qed simp
qed simp

lemma descends_less: "swarm_inv s \<Longrightarrow> descends s a b \<Longrightarrow> a \<noteq> b \<Longrightarrow> a < b"
proof -
  assume inv: "swarm_inv s" and d: "descends s a b" and ne: "a \<noteq> b"
  have "a \<le> b" using d unfolding descends_def
  proof (induction rule: rtranclp_induct)
    case (step y z)
    then obtain i where "find_slot s z = Some i" "sl_parent (slot_at s i) = y" "y \<noteq> 0"
      using child_rel_iff [OF inv] by auto
    then have "y < z" using known_parent [OF inv, of z i] by metis
    then show ?case using step.IH by simp
  qed simp
  then show ?thesis using ne by simp
qed

lemma is_ancestor_descends:
  assumes "swarm_inv s" and "find_slot s b = Some k"
  shows "is_ancestor s a k \<longleftrightarrow> a \<noteq> b \<and> descends s a b"
proof -
  let ?p = "sl_parent (slot_at s k)"
  have "?p < sw_next_id s \<and> (?p = 0 \<or> find_slot s ?p \<noteq> None)"
  proof (cases "?p = 0")
    case True
    then show ?thesis using known_slot(4) [OF assms] by simp
  next
    case False
    then obtain q where "find_slot s ?p = Some q" "?p < b" using known_parent [OF assms] by metis
    then show ?thesis using known_slot(4) [OF assms] by simp
  qed
  then have w: "is_ancestor s a k \<longleftrightarrow> ?p \<noteq> 0 \<and> descends s a ?p"
    unfolding is_ancestor_def using ancestor_walk_descends [OF assms(1)] by blast
  have "a \<noteq> b" if "?p \<noteq> 0" "descends s a ?p"
  proof -
    have "?p < b" using known_parent [OF assms that(1)] by metis
    moreover have "a \<le> ?p" using descends_less [OF assms(1) that(2)] by (cases "a = ?p") auto
    ultimately show ?thesis by simp
  qed
  then show ?thesis using w descends_parent [OF assms, of a] by auto
qed

section \<open>Confinement\<close>

lemma descends_confined:
  assumes inv: "swarm_inv s" and "descends s a b" and i: "find_slot s a = Some i"
  shows "find_slot s b = Some j \<Longrightarrow> derived (sl_caps (slot_at s i)) (sl_caps (slot_at s j)) \<and>
    budget_within (sl_budget (slot_at s j)) (sl_budget (slot_at s i)) \<and>
    numeric_within (sl_numeric (slot_at s j)) (sl_numeric (slot_at s i)) \<and>
    (sl_unsafe_stdlib (slot_at s j) \<longrightarrow> sl_unsafe_stdlib (slot_at s i)) \<and>
    (sl_unsafe_debug (slot_at s j) \<longrightarrow> sl_unsafe_debug (slot_at s i)) \<and>
    prefix (sl_path (slot_at s i)) (sl_path (slot_at s j))"
  using assms(2) unfolding descends_def
proof (induction arbitrary: j rule: rtranclp_induct)
  case base
  then show ?case
    using i by (simp add: derived_root budget_within_def numeric_within_def bound_within_refl)
next
  case (step y z)
  have z: "sl_parent (slot_at s j) = y" "y \<noteq> 0"
    using step.hyps(2) step.prems child_rel_iff [OF inv] by auto
  then obtain p where p: "find_slot s y = Some p"
    "child_fits (slot_at s p) (sl_path (slot_at s j)) (sl_caps (slot_at s j)) (sl_budget (slot_at s j))
       (sl_numeric (slot_at s j)) (sl_unsafe_stdlib (slot_at s j)) (sl_unsafe_debug (slot_at s j))"
    using known_parent [OF inv step.prems] by metis
  obtain gs seg where fit: "attenuate_held_by (sl_caps (slot_at s p)) (Some (sl_path (slot_at s j)))
      (sl_path (slot_at s p)) gs = Inr (sl_caps (slot_at s j))"
    "node_child (sl_path (slot_at s p)) seg = Inr (sl_path (slot_at s j))"
    using p(2) by (auto simp: child_fits_def)
  have "prefix (sl_path (slot_at s p)) (sl_path (slot_at s j))"
    using fit(2) by (simp add: node_child_Inr)
  then show ?case
    using step.IH [OF p(1)] p(2) derived_step [OF _ fit(1)]
    by (auto simp: child_fits_def budget_within_def numeric_within_def
        intro: bound_within_trans prefix_order.trans)
qed

section \<open>A kill\<close>

text \<open>An event changes no slot's identity and no entry of the index.\<close>

lemma same_identity_inst: "same_identity (slot_at s j) (slot_at (put_inst k x s) j)"
  by (cases "j = k"; cases "k < length (sw_slots s)")
    (auto simp: put_inst_def put_slot_out same_identity_def)

lemma emit_frame:
  "find_slot (emit e to what about d s) n = find_slot s n \<and>
   same_identity (slot_at s j) (slot_at (emit e to what about d s) j)"
proof -
  have "find_slot (put_inst k x s) n = find_slot s n" for k x by (simp add: put_inst_def)
  then show ?thesis
    by (simp add: emit_def emit_with_def emit_fields_def same_identity_inst split: option.splits prod.splits)
qed

lemma kill_subtree_exact:
  assumes inv: "swarm_inv s" and i: "find_slot s n = Some i"
  shows "find_slot (kill_subtree e n b s) m = (if descends s n m then None else find_slot s m)"
    and "find_slot s m = Some j \<Longrightarrow> \<not> descends s n m \<Longrightarrow>
      same_identity (slot_at s j) (slot_at (kill_subtree e n b s) j)"
proof -
  have tb: "table_ok s" using inv by (simp add: swarm_inv_def)
  note k = known_slot(1-3) [OF inv i]
  have id: "sl_id (slot_at s i) \<noteq> 0" using k by simp
  let ?t = "kill_core e i s"
  have core: "kill_subtree e n b s = ?t \<or> (\<exists>p d. kill_subtree e n b s = emit e p ''exited'' n d ?t)"
    using i by (auto simp: kill_subtree_core Let_def)
  have "find_slot ?t m = (if descends s n m then None else find_slot s m)"
    using kill_core_index [OF tb k(1) id, of e m] k(2) by (simp add: find_slot_def)
  then show "find_slot (kill_subtree e n b s) m = (if descends s n m then None else find_slot s m)"
    using core by (auto simp: emit_frame)
  assume j: "find_slot s m = Some j" and nd: "\<not> descends s n m"
  have jj: "j < length (sw_slots s)" "sl_id (slot_at s j) = m" using known_slot(1,2) [OF inv j] .
  then have "sl_id (slot_at ?t j) \<noteq> 0"
    using kill_core_ids [OF tb k(1) id jj(1), of e] k(2) nd known_slot(3) [OF inv j] by simp
  then have "same_identity (slot_at s j) (slot_at ?t j)"
    using kill_core_survivor [OF tb k(1) id jj(1)] by blast
  then show "same_identity (slot_at s j) (slot_at (kill_subtree e n b s) j)"
    using core same_identity_trans [OF _ conjunct2 [OF emit_frame]] by auto
qed

section \<open>The promises\<close>

lemma demo_pair_ok: "reachable demo_ee (demo_pair [] demo_kid)"
proof -
  have "demo_kid\<lparr>sl_inst := Some []\<rparr> = demo_kid" by (simp add: demo_kid_def)
  from demo_pair_reachable [of "[]" "[]", unfolded this] show ?thesis .
qed

text \<open>
  C2. Well-formedness.  In every swarm a host can bring about, with fewer than 2^32 handles given
  out: the table is within its bound; a handle is found exactly where a slot carries it; and
  every known instance is alive, holds at most 16 waiting messages, holds back at most one
  message per far end, is resident or cached and not both, and has a known parent with a
  smaller handle unless it is a root.
\<close>

theorem reachable_well_formed:
  assumes "reachable e s" and "sw_next_id s \<le> 2 ^ 32"
  shows "length (sw_slots s) \<le> sw_max_instances s \<and>
    (find_slot s n = Some i \<longleftrightarrow> i < length (sw_slots s) \<and> sl_id (slot_at s i) = n \<and> n \<noteq> 0) \<and>
    (find_slot s n = Some i \<longrightarrow> live_slot (slot_at s i) \<and>
       length (sl_pending (slot_at s i)) \<le> max_pending \<and> distinct (map fst (sl_held (slot_at s i))) \<and>
       (sl_inst (slot_at s i) = None \<longleftrightarrow> sl_snap (slot_at s i) \<noteq> None) \<and>
       (sl_parent (slot_at s i) \<noteq> 0 \<longrightarrow>
          (\<exists>p. find_slot s (sl_parent (slot_at s i)) = Some p \<and> sl_parent (slot_at s i) < n)))"
proof -
  have inv: "swarm_inv s" using reachable_inv assms .
  then have tb: "table_ok s" by (simp add: swarm_inv_def)
  then have "length (sw_slots s) \<le> sw_max_instances s" by (simp add: table_ok_def)
  then show ?thesis
    using table_find [OF tb, of n i] known_slot [OF inv, of n i] known_parent_ex [OF inv, of n i]
    by (auto simp: live_slot_def local_ok_def)
qed

theorem reachable_well_formed_witness:
  "sl_parent (slot_at (demo_pair [] demo_kid) 1) = 1 \<and>
   (\<exists>p. find_slot (demo_pair [] demo_kid) 1 = Some p \<and> (1::nat) < 2)"
proof -
  note r = demo_pair_ok
  show ?thesis
    using reachable_well_formed [OF r, of 2 1] by (simp add: find_slot_def)
qed

text \<open>
  C1. Confinement.  Whatever an instance descends from holds it in: its capabilities come from
  the ancestor's by attenuations alone, so that it holds nothing the ancestor does not (for
  names the patterns of the ancestor and the denies on the way are fit for); its budget and
  its numeric bounds are at most the ancestor's, it has no unsafe library the ancestor has
  not, and its path lies under the ancestor's.
\<close>

theorem descendants_confined:
  assumes "reachable e s" and "sw_next_id s \<le> 2 ^ 32" and "descends s a b"
    and "find_slot s a = Some i" and "find_slot s b = Some j"
  shows "derived (sl_caps (slot_at s i)) (sl_caps (slot_at s j)) \<and>
    (clean_grants (cs_grants (sl_caps (slot_at s i))) \<and>
       (\<forall>(p, c)\<in>set ((q, sl_caps (slot_at s j)) # chain (sl_caps (slot_at s j))). clean_denies (cs_grants c)) \<and>
       holds (sl_caps (slot_at s j)) w \<longrightarrow> holds (sl_caps (slot_at s i)) w) \<and>
    budget_within (sl_budget (slot_at s j)) (sl_budget (slot_at s i)) \<and>
    numeric_within (sl_numeric (slot_at s j)) (sl_numeric (slot_at s i)) \<and>
    (sl_unsafe_stdlib (slot_at s j) \<longrightarrow> sl_unsafe_stdlib (slot_at s i)) \<and>
    (sl_unsafe_debug (slot_at s j) \<longrightarrow> sl_unsafe_debug (slot_at s i)) \<and>
    prefix (sl_path (slot_at s i)) (sl_path (slot_at s j))"
proof -
  have inv: "swarm_inv s" using reachable_inv assms(1,2) .
  note c = descends_confined [OF inv assms(3,4,5)]
  then show ?thesis using derived_holds by blast
qed

theorem descendants_confined_witness:
  "budget_within (sl_budget demo_kid) demo_budget \<and> prefix root_node ''root/kid''"
proof -
  note r = demo_pair_ok
  have "child_rel (demo_pair [] demo_kid) 1 2"
    unfolding child_rel_def by (rule exI [of _ 1]) simp
  then have d: "descends (demo_pair [] demo_kid) 1 2" by (simp add: descends_def)
  show ?thesis
    using descendants_confined [OF r _ d, of 0 1] by (simp add: find_slot_def)
qed

text \<open>
  Ancestry is decided as the tree has it: the walk a lifecycle request is gated by answers
  yes exactly when the instance descends from the asker, and is not the asker itself.
\<close>

theorem is_ancestor_iff_descends:
  assumes "reachable e s" and "sw_next_id s \<le> 2 ^ 32" and "find_slot s b = Some k"
  shows "is_ancestor s a k \<longleftrightarrow> a \<noteq> b \<and> descends s a b"
  using is_ancestor_descends [OF reachable_inv [OF assms(1,2)] assms(3)] .

theorem is_ancestor_iff_descends_witness: "descends (demo_pair [] demo_kid) 1 2"
proof -
  note r = demo_pair_ok
  have "is_ancestor (demo_pair [] demo_kid) 1 1" by (simp add: is_ancestor_def eval_nat_numeral)
  then show ?thesis using is_ancestor_iff_descends [OF r, of 2 1 1] by (simp add: find_slot_def)
qed

text \<open>
  C3. A kill takes a subtree and nothing else: after it no handle of the target's subtree is
  known, every other handle names the slot it named, and the instance there has the
  identity, the place in the tree and the authority it had.
\<close>

theorem kill_takes_exactly_the_subtree:
  assumes "reachable e s" and "sw_next_id s \<le> 2 ^ 32" and "kill e n s = (r, t)"
  shows "(r = Inr () \<longleftrightarrow> find_slot s n \<noteq> None) \<and>
    (find_slot s n \<noteq> None \<longrightarrow> find_slot t m = (if descends s n m then None else find_slot s m)) \<and>
    (find_slot t m = Some j \<longrightarrow> same_identity (slot_at s j) (slot_at t j))"
proof (cases "find_slot s n")
  case None
  then show ?thesis using assms(3) by (auto simp: kill_def)
next
  case (Some i)
  have inv: "swarm_inv s" using reachable_inv assms(1,2) .
  have "r = Inr ()" "t = kill_subtree e n True s" using assms(3) Some by (auto simp: kill_def)
  then show ?thesis
    using kill_subtree_exact(1) [OF inv Some, of e True m] kill_subtree_exact(2) [OF inv Some, of m j e True] Some
    by (auto split: if_splits)
qed

theorem kill_takes_exactly_the_subtree_witness:
  "\<exists>r t. kill demo_ee 2 (demo_pair [] demo_kid) = (r, t) \<and> r = Inr () \<and>
     find_slot t 2 = None \<and> find_slot t 1 = Some 0"
proof -
  note r = demo_pair_ok
  obtain q t where k: "kill demo_ee 2 (demo_pair [] demo_kid) = (q, t)" by fastforce
  have "descends (demo_pair [] demo_kid) 2 2" by (simp add: descends_def)
  moreover have "\<not> descends (demo_pair [] demo_kid) 2 1"
    using descends_less [OF reachable_inv [OF r], of 2 1] by auto
  ultimately have "q = Inr () \<and> find_slot t 2 = None \<and> find_slot t 1 = Some 0"
    using kill_takes_exactly_the_subtree [OF r _ k, of 2] kill_takes_exactly_the_subtree [OF r _ k, of 1]
    by (simp add: find_slot_def split: if_splits)
  then show ?thesis using k by blast
qed

text \<open>
  Handles.  Whatever is called between, a handle that was given out before and is known now
  was known before, in the same slot, and names the same instance: the same path, parent,
  capabilities and limits.  A handle not yet given out names nothing.
\<close>

theorem handles_never_reused:
  assumes "reachable e s" and "moves e s t" and "sw_next_id t \<le> 2 ^ 32"
  shows "(n < sw_next_id s \<and> find_slot t n = Some j \<longrightarrow>
      find_slot s n = Some j \<and> same_identity (slot_at s j) (slot_at t j)) \<and>
    (sw_next_id s \<le> n \<longrightarrow> find_slot s n = None)"
proof -
  have ev: "evolves s t" using moves_evolves [OF assms(2)] reachable_ok [OF assms(1)] by blast
  then have "sw_next_id s \<le> 2 ^ 32" using assms(3) by (simp add: evolves_def)
  then have inv: "swarm_inv s" by (rule reachable_inv [OF assms(1)])
  then have "keeps_names s t" using ev assms(3) by (simp add: evolves_def)
  moreover have "find_slot s n = None" if "sw_next_id s \<le> n"
    using that known_slot(4) [OF inv, of n] by (cases "find_slot s n") auto
  ultimately show ?thesis by (auto simp: keeps_names_def)
qed

theorem handles_never_reused_witness:
  "find_slot (demo_root [(1, [9])]) 2 = None \<and> find_slot (demo_root [(1, [9])]) 1 = Some 0"
proof -
  have m: "moves demo_ee (demo_root [(1, [9])]) (demo_pair [(2, [])] demo_kid)"
    by (rule moves_more [OF moves_none move_step [OF demo_step]])
  show ?thesis
    using handles_never_reused [OF demo_root_reachable m, of 2] handles_never_reused [OF demo_root_reachable m, of 1 0]
    by (simp add: find_slot_def)
qed

text \<open>What an event, and the two requests that name a target, leave resident.\<close>

lemma put_inst_resident:
  "sl_inst (slot_at s k) \<noteq> None \<Longrightarrow> sl_inst (slot_at (put_inst k x s) j) = None \<longleftrightarrow> sl_inst (slot_at s j) = None"
  by (cases "j = k"; cases "k < length (sw_slots s)") (auto simp: put_inst_def put_slot_out)

lemma emit_resident: "sl_inst (slot_at (emit e to what about d s) j) = None \<longleftrightarrow> sl_inst (slot_at s j) = None"
  by (auto simp: emit_def emit_with_def emit_fields_def put_inst_resident split: option.splits prod.splits)

lemma hibernate_resident:
  assumes "hibernate e n s = (r, t)" and "sl_inst (slot_at s j) \<noteq> None" and "sl_inst (slot_at t j) = None"
  shows "find_slot s n = Some j"
proof (cases "find_slot s n")
  case (Some k)
  have "j = k"
  proof (rule ccontr)
    assume "j \<noteq> k"
    then have "sl_inst (slot_at t j) = None \<longleftrightarrow> sl_inst (slot_at s j) = None"
      using assms(1) Some
      by (auto simp: hibernate_def Let_def put_inst_def put_host_def split: if_splits option.splits sum.splits prod.splits)
    then show False using assms(2,3) by simp
  qed
  then show ?thesis using Some by simp
qed (use assms in \<open>simp add: hibernate_def\<close>)

lemma set_wake_frame:
  "find_slot (set_wake b who s) n = find_slot s n \<and>
   sl_inst (slot_at (set_wake b who s) j) = sl_inst (slot_at s j)"
proof -
  have "sl_inst (slot_at (put_slot i ((slot_at s i)\<lparr>sl_wake_on_message := True\<rparr>) s) j) = sl_inst (slot_at s j)" for i
    by (cases "j = i"; cases "i < length (sw_slots s)") (auto simp: put_slot_out)
  then show ?thesis by (auto simp: set_wake_def split: option.splits)
qed

lemma do_hibernate_resident:
  assumes "swarm_inv s" and m: "find_slot s m = Some k"
    and j: "find_slot s n = Some j" "sl_inst (slot_at s j) \<noteq> None" "sl_inst (slot_at (do_hibernate e k request s) j) = None"
  shows "descends s m n"
proof (cases "hibernate_target k request s")
  case (Inl w)
  then show ?thesis using j(2,3) by (auto simp: do_hibernate_def Let_def deny_def emit_resident split: prod.splits)
next
  case (Inr who)
  let ?s1 = "set_wake (field_bool request ''wake_on_message'') who s"
  obtain r t where h: "hibernate e who ?s1 = (r, t)" by fastforce
  have "sl_inst (slot_at t j) = None"
    using j(3) Inr h
    by (auto simp: do_hibernate_def Let_def deny_def emit_resident split: sum.splits if_splits)
  then have "find_slot s who = Some j"
    using hibernate_resident [OF h] j(2) set_wake_frame by metis
  then have "n = who" using known_slot(2) [OF assms(1)] j(1) by auto
  moreover have "sl_id (slot_at s k) = m" using known_slot(2) [OF assms(1) m] .
  ultimately show ?thesis
    using Inr is_ancestor_descends [OF assms(1) j(1), of m] j(1)
    by (auto simp: hibernate_target_def Let_def descends_def split: option.splits if_splits)
qed

lemma do_kill_cases:
  "(\<exists>to a w. do_kill e k request s = deny e to a w s) \<or>
   (\<exists>t i. find_slot s t = Some i \<and> is_ancestor s (sl_id (slot_at s k)) i \<and>
      do_kill e k request s = kill_subtree e t True s)"
proof (cases "field_id request ''id''")
  case None
  then have "do_kill e k request s = deny e (sl_id (slot_at s k)) 0 ''no usable id in the kill request'' s"
    by (simp add: do_kill_def)
  then show ?thesis by blast
next
  case (Some t)
  then show ?thesis by (cases "find_slot s t") (auto simp: do_kill_def Let_def)
qed



end
