(* ===== verification/Swarm_Term.thy ===== *)
theory Swarm_Term
  imports Swarm_Tree
begin

text \<open>
  The draining of lifecycle queues ends.  What the loop relies on of the engine is
  \<open>drains_down\<close>: only the guest writes its lifecycle queue, and a pop that returns a request
  has taken it out.  Under it no operation of the swarm adds to what waits in any slot, which
  is one more instance of \<open>swarm_rel\<close>, and fuel beyond the number of waiting requests is enough.
\<close>

definition drains_down :: "'i engine \<Rightarrow> ('i \<Rightarrow> nat) \<Rightarrow> bool" where
  "drains_down eng bl \<longleftrightarrow>
     (\<forall>nm x. bl (snd (e_queue eng nm x)) \<le> bl x) \<and>
     (\<forall>x q y m. e_queue eng ''system/events'' x = (Some q, y) \<longrightarrow> bl (snd (e_push eng q m y)) \<le> bl y) \<and>
     (\<forall>q x. bl (snd (e_pop eng q x)) \<le> bl x) \<and>
     (\<forall>x q y m z. e_queue eng ''system/lifecycle'' x = (Some q, y) \<and> e_pop eng q y = (Inr (Some m), z) \<longrightarrow>
        bl z < bl y) \<and>
     (\<forall>x. bl (e_enable_endpoints eng x) \<le> bl x) \<and>
     (\<forall>st x. bl (snd (e_snapshot eng st x)) \<le> bl x) \<and>
     (\<forall>spec x. e_load eng spec = Inr x \<longrightarrow> bl x = 0)"

definition waiting :: "('i \<Rightarrow> nat) \<Rightarrow> 'i slot \<Rightarrow> nat" where
  "waiting bl sl = (case sl_inst sl of None \<Rightarrow> 0 | Some x \<Rightarrow> bl x) + (case sl_deferred sl of None \<Rightarrow> 0 | Some _ \<Rightarrow> 1)"

definition backlog :: "('i \<Rightarrow> nat) \<Rightarrow> ('i, 'h) swarm \<Rightarrow> nat \<Rightarrow> nat" where
  "backlog bl s k = (if k < length (sw_slots s) then waiting bl (slot_at s k) else 0)"

definition shrinks :: "('i \<Rightarrow> nat) \<Rightarrow> ('i, 'h) swarm \<Rightarrow> ('i, 'h) swarm \<Rightarrow> bool" where
  "shrinks bl s t \<longleftrightarrow> length (sw_slots s) \<le> length (sw_slots t) \<and> (\<forall>k. backlog bl t k \<le> backlog bl s k)"

lemma waiting_free [simp]: "waiting bl slot_free = 0"
  by (simp add: waiting_def)

lemma shrinks_put: "waiting bl sl \<le> waiting bl (slot_at s k) \<Longrightarrow> shrinks bl s (put_slot k sl s)"
  unfolding shrinks_def backlog_def
  by (cases "k < length (sw_slots s)") (auto simp: put_slot_def nth_list_update)

lemma shrinks_minor: "minor (\<lambda>x y. bl y \<le> bl x) (slot_at s k) sl \<Longrightarrow> shrinks bl s (put_slot k sl s)"
  by (rule shrinks_put, cases "sl_inst sl"; cases "sl_deferred (slot_at s k)")
    (auto simp: minor_def waiting_def split: option.splits)

lemma shrinks_kill: "shrinks bl s (kill_core e i s)"
proof -
  obtain h where k: "kill_core e i s = s\<lparr>sw_host := h, sw_slots := swept (marked i s) (length (sw_slots s)),
     sw_index := swept_index (sw_index s) (marked i s) (length (sw_slots s))\<rparr>"
    using kill_core_any [of e i s] by auto
  have len: "length (marked i s) = length (sw_slots s)" using map_eq_imp_length_eq [OF marked_core_any] .
  have "waiting bl (marked i s ! j) = waiting bl (slot_at s j)" if "j < length (sw_slots s)" for j
    using core_fields [OF marked_core_any that] unmarked_same [of "marked i s ! j" "slot_at s j"]
    by (simp add: waiting_def)
  then show ?thesis by (simp add: shrinks_def backlog_def k swept_def len)
qed

lemma build_loaded:
  assumes "build e c code s = (Inr u, s')"
  obtains spec x where "e_load (en_engine e) spec = Inr x"
    "sw_slots s' = (sw_slots s)[c := (slot_at s c)\<lparr>sl_inst := Some x, sl_handles := [], sl_alive := True\<rparr>]"
  using assms by (auto simp: build_def Let_def put_slot_def put_host_def split: sum.splits if_splits)

lemma shrinks_claimed:
  assumes c: "claim s = Some (c, s1)" and t: "sw_slots t = (sw_slots s1)[c := sl]" and "waiting bl sl = 0"
  shows "shrinks bl s t"
proof -
  have "backlog bl t k \<le> backlog bl s k" for k
    using claim_facts(1) [OF c] claim_facts(4) [OF c, of k] t assms(3) by (cases "k = c") (auto simp: backlog_def)
  then show ?thesis using claim_facts(2) [OF c] t by (simp add: shrinks_def)
qed

lemma drains_rel:
  assumes "drains_down (en_engine e) bl"
  shows "swarm_rel e (\<lambda>x y. bl y \<le> bl x) (shrinks bl)"
proof
  fix s t u :: "('a, 'b) swarm" and k c n p path caps b lmt stdlib debug code w s1 s3 why
  show "shrinks bl s t \<Longrightarrow> shrinks bl t u \<Longrightarrow> shrinks bl s u"
    by (auto simp: shrinks_def intro: order_trans)
  assume c: "claim s = Some (c, s1)"
  have blank: "sl_deferred (child_slot p path caps b lmt w stdlib debug (slot_at s1 c)) = None"
    for p path caps b lmt w stdlib debug using claim_facts(6) [OF c] by (simp add: child_slot_def)
  show "shrinks bl s s3" if "build e c code
      (put_slot c (child_slot (sl_id (slot_at s k)) path caps b lmt w stdlib debug (slot_at s1 c)) s1) = (Inr (), s3)"
  proof -
    note bd = that
    let ?sl = "child_slot (sl_id (slot_at s k)) path caps b lmt w stdlib debug (slot_at s1 c)"
    obtain spec x where x: "e_load (en_engine e) spec = Inr x"
      "sw_slots s3 = (sw_slots (put_slot c ?sl s1))[c :=
         (slot_at (put_slot c ?sl s1) c)\<lparr>sl_inst := Some x, sl_handles := [], sl_alive := True\<rparr>]"
      by (rule build_loaded [OF bd])
    have "bl x = 0" using x(1) assms by (simp add: drains_down_def)
    then have "waiting bl (?sl\<lparr>sl_inst := Some x, sl_handles := [], sl_alive := True\<rparr>) = 0"
      using blank by (simp add: waiting_def)
    moreover have "sw_slots s3 = (sw_slots s1)[c := ?sl\<lparr>sl_inst := Some x, sl_handles := [], sl_alive := True\<rparr>]"
      using x(2) claim_facts(1) [OF c] by (simp add: put_slot_def)
    ultimately show ?thesis using shrinks_claimed [OF c] by blast
  qed
  show "shrinks bl s (release e c s3)" if "build e c code
      (put_slot c (child_slot p path caps b lmt w stdlib debug (slot_at s1 c)) s1) = (Inl why, s3)"
    using build_cases [OF that] shrinks_claimed [OF c, of "release e c s3" slot_free]
    by (auto simp: put_slot_def)
next
  fix s t :: "('a, 'b) swarm" and x q y m nm st h n i k sl
  show "shrinks bl s s" by (simp add: shrinks_def)
  show "shrinks bl s t \<Longrightarrow> length (sw_slots s) \<le> length (sw_slots t)" by (simp add: shrinks_def)
  show "shrinks bl s (put_host h s)" by (simp add: shrinks_def backlog_def)
  show "shrinks bl s (s\<lparr>sw_spawns_this_step := n\<rparr>)" by (simp add: shrinks_def backlog_def)
  show "find_slot s n = Some i \<Longrightarrow> shrinks bl s (kill_core e i s)" by (rule shrinks_kill)
  show "minor (\<lambda>x y. bl y \<le> bl x) (slot_at s k) sl \<Longrightarrow> shrinks bl s (put_slot k sl s)" by (rule shrinks_minor)
  show "e_queue (en_engine e) ''system/events'' x = (Some q, y) \<Longrightarrow>
      bl (snd (e_push (en_engine e) q m y)) \<le> bl y" using assms by (auto simp: drains_down_def)
qed (use assms in \<open>simp_all add: drains_down_def\<close>)

text \<open>A request that is taken out no longer waits.\<close>

lemma next_request_less:
  assumes "drains_down (en_engine e) bl" and "next_request e k s = (Some m, t)" and k: "k < length (sw_slots s)"
  shows "backlog bl t k < backlog bl s k \<and> sl_deferred (slot_at t k) = None"
proof (cases "sl_deferred (slot_at s k)")
  case (Some d)
  then have "t = put_slot k ((slot_at s k)\<lparr>sl_deferred := None\<rparr>) s"
    using assms(2) by (simp add: next_request_def)
  then show ?thesis using k Some by (simp add: backlog_def waiting_def)
next
  case None
  obtain x where x: "sl_inst (slot_at s k) = Some x"
    using assms(2) None by (auto simp: next_request_def split: option.splits)
  obtain q y where q: "e_queue (en_engine e) ''system/lifecycle'' x = (Some q, y)"
    using assms(2) None x by (auto simp: next_request_def split: prod.splits option.splits)
  obtain z where z: "e_pop (en_engine e) q y = (Inr (Some m), z)" "t = put_inst k z s"
    using assms(2) None x q by (auto simp: next_request_def split: prod.splits sum.splits option.splits)
  have "bl z < bl y" using assms(1) q z(1) by (auto simp: drains_down_def)
  moreover have "bl y \<le> bl x" using assms(1) q unfolding drains_down_def by (metis snd_conv)
  ultimately show ?thesis using z(2) x None k by (simp add: backlog_def waiting_def put_inst_def)
qed

lemma shrinks_defer:
  assumes "backlog bl t k < backlog bl s k" and "shrinks bl s t" and "sl_deferred (slot_at t k) = None"
  shows "shrinks bl s (put_slot k ((slot_at t k)\<lparr>sl_deferred := Some m\<rparr>) t)"
proof -
  have "backlog bl (put_slot k ((slot_at t k)\<lparr>sl_deferred := Some m\<rparr>) t) j \<le> backlog bl s j" for j
  proof (cases "j = k")
    case True
    then show ?thesis using assms(1,3) by (cases "k < length (sw_slots t)") (auto simp: backlog_def waiting_def)
  next
    case False
    then have "backlog bl (put_slot k ((slot_at t k)\<lparr>sl_deferred := Some m\<rparr>) t) j = backlog bl t j"
      by (simp add: backlog_def)
    then show ?thesis using assms(2) by (simp add: shrinks_def)
  qed
  then show ?thesis using assms(2) by (simp add: shrinks_def)
qed

lemma drain_loop_ends:
  assumes law: "drains_down (en_engine e) bl"
  shows "k < length (sw_slots s) \<Longrightarrow> sl_id (slot_at s k) = n \<Longrightarrow> n \<noteq> 0 \<Longrightarrow> backlog bl s k < fuel \<Longrightarrow>
    \<exists>t. drain_loop fuel e k n s = Some t \<and> shrinks bl s t"
proof (induction fuel arbitrary: s)
  case (Suc fuel)
  note rel = drains_rel [OF law]
  have trans: "shrinks bl u v \<Longrightarrow> shrinks bl v w \<Longrightarrow> shrinks bl u w" for u v w
    by (auto simp: shrinks_def intro: order_trans)
  obtain m s1 where nx: "next_request e k s = (m, s1)" by fastforce
  have r1: "shrinks bl s s1" using swarm_rel.R_next_request [OF rel nx] .
  have k1: "k < length (sw_slots s1)" "sl_id (slot_at s1 k) = n" using next_request_slot [OF nx] Suc.prems by auto
  show ?case
  proof (cases m)
    case None
    then show ?thesis using nx r1 by simp
  next
    case (Some msg)
    have less: "backlog bl s1 k < backlog bl s k" "sl_deferred (slot_at s1 k) = None"
      using next_request_less [OF law _ Suc.prems(1)] nx Some by auto
    have again: "\<exists>t. drain_loop fuel e k n u = Some t \<and> shrinks bl s t"
      if "shrinks bl s1 u" "sl_id (slot_at u k) = n" for u
    proof -
      have "k < length (sw_slots u)" "backlog bl u k \<le> backlog bl s1 k"
        using that(1) k1(1) by (auto simp: shrinks_def)
      then have "\<exists>t. drain_loop fuel e k n u = Some t \<and> shrinks bl u t"
        using Suc.IH [of u] that(2) Suc.prems(3,4) less(1) by simp
      then show ?thesis using trans r1 that(1) by blast
    qed
    have denied: "\<exists>t. drain_loop fuel e k n (deny e n 0 why s1) = Some t \<and> shrinks bl s t" for why
      using again [OF swarm_rel.R_deny [OF rel]] k1(2) by (simp add: deny_def emit_slot)
    show ?thesis
    proof (cases "request_op (read_request (en_codec e) msg)")
      case None
      then show ?thesis using denied nx Some by simp
    next
      case ro: (Some ro)
      obtain request op where ro': "ro = (request, op)" by (cases ro)
      let ?s2 = "do_op e k op request s1"
      have "shrinks bl s1 ?s2" using swarm_rel.R_do_op [OF rel k1(1)] k1(2) Suc.prems(3) by simp
      then have go: "\<exists>t. (if sl_id (slot_at ?s2 k) \<noteq> n \<or> \<not> sl_alive (slot_at ?s2 k) \<or> sl_inst (slot_at ?s2 k) = None
          then Some ?s2 else drain_loop fuel e k n ?s2) = Some t \<and> shrinks bl s t"
        using again [of ?s2] trans [OF r1] by auto
      have "shrinks bl s (emit e n ''throttled'' 0 (Some ''spawn rate limit'')
          (put_slot k ((slot_at s1 k)\<lparr>sl_deferred := Some msg\<rparr>) s1))"
        using trans [OF shrinks_defer [OF less(1) r1 less(2)] swarm_rel.R_emit [OF rel]] .
      then show ?thesis using denied go nx Some ro ro' by (simp add: Let_def)
    qed
  qed
qed simp

lemma drain_slot_ends:
  assumes "drains_down (en_engine e) bl" and "k < length (sw_slots s)" and "backlog bl s k < fuel"
  shows "\<exists>t. drain_slot fuel e s k = Some t \<and> shrinks bl s t"
  using drain_loop_ends [OF assms(1,2) refl _ assms(3)] by (auto simp: drain_slot_def drain_def shrinks_def)

text \<open>
  C5. The draining round ends.  On an engine whose lifecycle queues only the guests fill, fuel
  beyond the requests that wait anywhere carries the round through every slot of the table,
  and what waits afterwards is in no slot more than before.
\<close>

theorem drain_round_ends:
  assumes "drains_down (en_engine e) bl" and "\<forall>k. backlog bl s k < fuel"
  shows "\<exists>t. foldl_opt (drain_slot fuel e) s [0..<length (sw_slots s)] = Some t \<and>
    (\<forall>k. backlog bl t k \<le> backlog bl s k)"
proof -
  have "\<exists>t. foldl_opt (drain_slot fuel e) u ks = Some t \<and> shrinks bl u t"
    if "\<forall>k\<in>set ks. k < length (sw_slots u)" "\<forall>k. backlog bl u k < fuel" for u ks
    using that
  proof (induction ks arbitrary: u)
    case (Cons k ks)
    obtain v where v: "drain_slot fuel e u k = Some v" "shrinks bl u v"
      using drain_slot_ends [OF assms(1), of k u fuel] Cons.prems by auto
    have "\<forall>j\<in>set ks. j < length (sw_slots v)" "\<forall>j. backlog bl v j < fuel"
      using v(2) Cons.prems by (auto simp: shrinks_def intro: le_less_trans less_le_trans)
    then obtain t where "foldl_opt (drain_slot fuel e) v ks = Some t" "shrinks bl v t"
      using Cons.IH by blast
    then show ?case using v by (auto simp: shrinks_def intro: order_trans)
  qed (simp add: shrinks_def)
  from this [of "[0..<length (sw_slots s)]" s] show ?thesis using assms(2) by (auto simp: shrinks_def)
qed

definition demo_waiting :: "mailbox \<Rightarrow> nat" where
  "demo_waiting x = length (filter (\<lambda>m. fst m = 1) x)"

lemma demo_pop_waiting:
  "demo_pop q x = (r, y) \<Longrightarrow> demo_waiting y \<le> demo_waiting x \<and> (r \<noteq> None \<and> q = 1 \<longrightarrow> demo_waiting y < demo_waiting x)"
  by (induction q x arbitrary: r y rule: demo_pop.induct)
    (auto simp: demo_waiting_def split: if_splits prod.splits)

lemma demo_drains_down: "drains_down demo_engine demo_waiting"
  using demo_pop_waiting
  by (auto simp: drains_down_def demo_queue_def demo_engine_def demo_waiting_def split: prod.splits if_splits)

theorem drain_round_ends_witness:
  "\<exists>t. foldl_opt (drain_slot 2 demo_ee) (demo_root [(1, [9])]) [0..<1] = Some t"
proof -
  have "drains_down (en_engine demo_ee) demo_waiting" using demo_drains_down by simp
  moreover have "\<forall>k. backlog demo_waiting (demo_root [(1, [9])]) k < 2"
    by (auto simp: backlog_def waiting_def demo_waiting_def)
  ultimately show ?thesis using drain_round_ends [of demo_ee demo_waiting "demo_root [(1, [9])]" 2] by auto
qed

end
