(* ===== verification/Swarm_Delivery.thy ===== *)
theory Swarm_Delivery
  imports Swarm_Term
begin

text \<open>
  What becomes of a message.  A push has one outcome per state of the receiver; what waits for
  a cached instance reaches it, in order, when it wakes; an instance with mail does not stay
  cached past the waking round; and a reference leads back to the instance it was made for.
\<close>

section \<open>References\<close>

lemma reference_payload: "reference e n s = VExt endpoint_ext_type
    (rc_write (en_refs e) (endpoint_local (show_nat n @ CHR ''/'' # inbox) (sw_host_identity s)))"
  by (simp add: reference_def endpoint_to_value_def)

text \<open>
  References.  The reference a swarm makes for a handle resolves to that handle, in that
  swarm at any later time and in every swarm that carries the same identity; in a swarm of
  another identity it resolves to nothing.
\<close>

theorem reference_resolves:
  assumes "ref_codec_ok (en_refs e)" and "0 < n" and "n \<le> u32_max"
    and "reference e n s = VExt endpoint_ext_type payload"
  shows "resolve_reference e payload t = (if sw_host_identity t = sw_host_identity s then Some n else None)"
proof -
  have "CHR ''/'' \<notin> set (show_nat n)" by (rule show_nat_no_slash)
  then have "split_once CHR ''/'' (show_nat n @ CHR ''/'' # inbox) = Some (show_nat n, inbox)"
    by (simp add: split_once_append)
  moreover have "rc_read (en_refs e) payload = Inr (endpoint_local (show_nat n @ CHR ''/'' # inbox) (sw_host_identity s))"
    using assms(1,4) by (auto simp: reference_payload ref_codec_ok_def)
  ultimately show ?thesis
    using assms(2,3) by (auto simp: resolve_reference_def endpoint_from_value_def endpoint_local_def parse_unsigned_show)
qed

theorem reference_resolves_witness:
  "resolve_reference demo_ee (demo_ref 1) (demo_pair [] demo_kid) = Some 1"
proof -
  have "reference demo_ee 1 (demo_root []) = VExt endpoint_ext_type (demo_ref 1)"
    by (simp add: reference_payload demo_ref_def)
  from reference_resolves [OF _ _ _ this] show ?thesis using demo_refs_ok by simp
qed

section \<open>Waiting for a cached instance\<close>

text \<open>
  What the swarm relies on of the queues of a restored instance: looking a queue up changes
  none, and a push onto a queue that exists appends to it and to no other (the restored queues
  have the room for what waited).
\<close>

definition takes_pushes :: "'i engine \<Rightarrow> ('i \<Rightarrow> string \<Rightarrow> bytes list) \<Rightarrow> bool" where
  "takes_pushes eng view \<longleftrightarrow>
     (\<forall>nm x q y. e_queue eng nm x = (q, y) \<longrightarrow> view y = view x) \<and>
     (\<forall>nm x q y m. e_queue eng nm x = (Some q, y) \<longrightarrow>
        view (snd (e_push eng q m y)) = (view y)(nm := view y nm @ [m]))"

definition mail :: "pending list \<Rightarrow> string \<Rightarrow> bytes list" where
  "mail ps nm = map pd_msg (filter (\<lambda>p. pd_queue p = nm) ps)"

lemma drain_pending_view:
  assumes "takes_pushes eng view" and "\<And>x. fst (e_queue eng nm x) \<noteq> None"
  shows "view (drain_pending eng ps x) nm = view x nm @ mail ps nm"
proof (induction ps arbitrary: x)
  case (Cons p ps)
  obtain q y where q: "e_queue eng (pd_queue p) x = (q, y)" by fastforce
  have v: "view y = view x" using assms(1) q by (simp add: takes_pushes_def)
  show ?case
  proof (cases q)
    case None
    then have "pd_queue p \<noteq> nm" using assms(2) [of x] q by auto
    then show ?thesis using None q v Cons by (simp add: mail_def)
  next
    case (Some h)
    have "view (snd (e_push eng h (pd_msg p) y)) = (view y)(pd_queue p := view y (pd_queue p) @ [pd_msg p])"
      using assms(1) q Some by (auto simp: takes_pushes_def)
    then show ?thesis using Some q v Cons by (simp add: mail_def)
  qed
qed (simp add: mail_def)

text \<open>Pushes to a cached instance that wakes on mail, while its buffer has room.\<close>

definition push_all :: "('i, 'h) env \<Rightarrow> nat \<Rightarrow> string \<Rightarrow> sender \<Rightarrow> bytes list \<Rightarrow> ('i, 'h) swarm \<Rightarrow> ('i, 'h) swarm" where
  "push_all e n queue from msgs s = foldl (\<lambda>s m. snd (push e n queue from m s)) s msgs"

lemma push_cached:
  assumes "find_slot s n = Some k" and "k < length (sw_slots s)"
    and "sl_alive (slot_at s k)" and "sl_inst (slot_at s k) = None" and "sl_wake_on_message (slot_at s k)"
    and "queue \<noteq> []" and "length queue < max_qname"
    and "length (sl_pending (slot_at s k)) + length msgs \<le> max_pending"
  shows "push_all e n queue from msgs s = put_slot k ((slot_at s k)\<lparr>sl_pending := sl_pending (slot_at s k) @
     map (\<lambda>m. \<lparr>pd_queue = queue, pd_msg = attach_sender (en_codec e) m from\<rparr>) msgs\<rparr>) s"
  using assms
proof (induction msgs arbitrary: s)
  case Nil
  then show ?case by (simp add: push_all_def put_slot_def)
next
  case (Cons m ms)
  let ?d = "\<lparr>pd_queue = queue, pd_msg = attach_sender (en_codec e) m from\<rparr>"
  let ?s1 = "put_slot k ((slot_at s k)\<lparr>sl_pending := sl_pending (slot_at s k) @ [?d]\<rparr>) s"
  have s1: "snd (push e n queue from m s) = ?s1" using Cons.prems by (simp add: push_def)
  have "push_all e n queue from ms ?s1 = put_slot k ((slot_at ?s1 k)\<lparr>sl_pending := sl_pending (slot_at ?s1 k) @
     map (\<lambda>m. \<lparr>pd_queue = queue, pd_msg = attach_sender (en_codec e) m from\<rparr>) ms\<rparr>) ?s1"
    using Cons.prems by (intro Cons.IH) simp_all
  moreover have "push_all e n queue from (m # ms) s = push_all e n queue from ms ?s1"
    by (simp add: push_all_def s1)
  ultimately show ?case using Cons.prems(2) by (simp add: put_slot_def)
qed


section \<open>Waking in the step\<close>


text \<open>The example: the child, cached, with one message waiting.\<close>

definition demo_asleep :: "mailbox slot" where
  "demo_asleep = demo_kid\<lparr>sl_inst := None, sl_snap := Some [7]\<rparr>"

lemma demo_asleep_fields [simp]: "sl_id demo_asleep = 2" "sl_inst demo_asleep = None" "sl_alive demo_asleep"
  "sl_wake_on_message demo_asleep" "sl_pending demo_asleep = []" "\<not> sl_endpoints demo_asleep"
  "sl_snap demo_asleep = Some [7]"
  by (simp_all add: demo_asleep_def) (simp add: demo_kid_def slot_free_def)

lemma demo_asleep_reachable: "reachable demo_ee (demo_pair [] demo_asleep)"
proof (rule reachable_move [OF demo_pair_ok])
  have a: "sw_allow_hibernation (demo_pair [] demo_kid)" by (simp add: demo_pair_def demo_new_def swarm_with_limits_def)
  have k: "demo_kid\<lparr>sl_snap := Some [7], sl_inst := None, sl_handles := []\<rparr> = demo_asleep"
    by (simp add: demo_asleep_def demo_kid_def slot_free_def)
  have p: "put_slot 1 demo_asleep (demo_pair [] demo_kid) = demo_pair [] demo_asleep"
    by (simp add: put_slot_def) (simp add: demo_pair_def demo_top_def)
  have "e_snapshot demo_engine st x = (Inr [7], x)" for st x by (simp add: demo_engine_def)
  then have "hibernate demo_ee 2 (demo_pair [] demo_kid) = (Inr (), demo_pair [] demo_asleep)"
    using a k p by (simp add: hibernate_def find_slot_def demo_host_unit)
  then show "move demo_ee (demo_pair [] demo_kid) (demo_pair [] demo_asleep)" by (rule move_hibernate)
qed

lemma demo_no_map: "attach_sender cd [1] from = [1]" "attach_sender cd [2] from = [2]"
  by (simp_all add: attach_sender_def map_header_def word_le_nat_alt)

definition demo_view :: "mailbox \<Rightarrow> string \<Rightarrow> bytes list" where
  "demo_view x nm = (case demo_queue nm of None \<Rightarrow> [] | Some q \<Rightarrow> map snd (filter (\<lambda>m. fst m = q) x))"

lemma demo_takes_pushes: "takes_pushes demo_engine demo_view"
proof -
  have same: "demo_queue nm = Some q \<Longrightarrow> demo_queue nm' = Some q \<Longrightarrow> nm = nm'" for nm nm' q
    by (auto simp: demo_queue_def split: if_splits)
  have "demo_view (x @ [(q, m)]) = (demo_view x)(nm := demo_view x nm @ [m])" if "demo_queue nm = Some q" for x q m nm
  proof
    fix nm'
    show "demo_view (x @ [(q, m)]) nm' = ((demo_view x)(nm := demo_view x nm @ [m])) nm'"
    proof (cases "nm' = nm")
      case False
      then have "demo_queue nm' \<noteq> Some q" using same that by blast
      then show ?thesis using False by (simp add: demo_view_def split: option.splits)
    qed (simp add: demo_view_def that)
  qed
  then show ?thesis by (simp add: takes_pushes_def)
qed



section \<open>A queue that drops its oldest\<close>

lemma resolve_queue_known:
  assumes "sl_inst (slot_at s j) \<noteq> None" and "\<And>x. fst (e_queue (en_engine e) nm x) \<noteq> None"
  shows "\<exists>q t. resolve_queue e j nm s = (Some q, t) \<and> sl_inst (slot_at t j) \<noteq> None"
proof (cases "List.find (\<lambda>(name, h). name = nm) (sl_handles (slot_at s j))")
  case None
  obtain x where x: "sl_inst (slot_at s j) = Some x" using assms(1) by auto
  obtain q y where q: "e_queue (en_engine e) nm x = (Some q, y)"
    using assms(2) [of x] by (cases "e_queue (en_engine e) nm x") auto
  show ?thesis
    using None x q by (cases "j < length (sw_slots s)") (auto simp: resolve_queue_def put_slot_out)
next
  case (Some a)
  then show ?thesis using assms(1) by (cases a) (auto simp: resolve_queue_def)
qed

lemma push_len: "push e n nm from m s = (r, t) \<Longrightarrow> length (sw_slots t) = length (sw_slots s)"
  by (auto simp: push_def resolve_queue_def put_inst_def Let_def
      split: option.splits prod.splits sum.splits push_outcome.splits if_splits)

lemma push_refused:
  assumes "find_slot s n = Some j" and "sl_alive (slot_at s j)" and "sl_inst (slot_at s j) \<noteq> None"
    and "\<And>x. fst (e_queue (en_engine e) nm x) \<noteq> None"
    and "\<And>q m x. fst (e_push (en_engine e) q m x) = Inr p" and "p \<noteq> Accepted"
  shows "fst (push e n nm from m s) = Inl (Limit (quote nm @ '' did not accept the message''))"
proof -
  obtain q t where q: "resolve_queue e j nm s = (Some q, t)" "sl_inst (slot_at t j) \<noteq> None"
    using resolve_queue_known [OF assms(3,4)] by blast
  obtain x where x: "sl_inst (slot_at t j) = Some x" using q(2) by auto
  obtain y where "e_push (en_engine e) q (attach_sender (en_codec e) m from) x = (Inr p, y)"
    using assms(5) prod.collapse by metis
  then show ?thesis using assms(1-3,6) q(1) x by (cases p) (simp_all add: push_def)
qed



end
