(* ===== verification/Swarm_Pump.thy ===== *)
theory Swarm_Pump
  imports Swarm_State Connector
begin

text \<open>
  The hostcall pump, \<^verbatim>\<open>crates/drt-swarm/src/pump.rs\<close>: answers in flight and settled,
  the draining of an instance's calls through the dispatcher, the landing of replies in order,
  and the host that wraps another with it.  A connector's future is \<open>'f\<close>; polling it is a
  parameter that answers with the call's result when it is ready.  The draining loop takes
  fuel; its requests are the ones that wait when it starts, so any fuel beyond their number is
  enough.  The assertion in \<open>land\<close> is compiled out of a release build and is not in the model;
  that it cannot fire is proved.
\<close>

section \<open>The tables\<close>

definition calls_queue :: string where "calls_queue = ''host/calls''"
definition replies_queue :: string where "replies_queue = ''host/replies''"

record 'f in_flight =
  if_id :: nat
  if_tok :: token
  if_future :: 'f

record 'f pump =
  pm_inflight :: "'f in_flight list"
  pm_settled :: "(nat \<times> bytes) list"

definition pump_new :: "'f pump" where
  "pump_new = \<lparr>pm_inflight = [], pm_settled = []\<rparr>"

text \<open>What polling and encoding need: the codec of replies, the decoder of requests, and the
  poll of a future against the state of the connectors.\<close>

record ('f, 'w) pump_env =
  pe_codec :: codec
  pe_decode :: "bytes \<Rightarrow> string + request"
  pe_poll :: "'f \<Rightarrow> 'w \<Rightarrow> (call_error + val) option \<times> 'f \<times> 'w"

fun deliver_list :: "'i engine \<Rightarrow> nat \<Rightarrow> queue_handle \<Rightarrow> (nat \<times> bytes) list \<Rightarrow> 'i
    \<Rightarrow> nat \<times> (nat \<times> bytes) list \<times> 'i" where
  "deliver_list eng n q [] x = (0, [], x)"
| "deliver_list eng n q (s # ss) x =
     (if fst s \<noteq> n then (case deliver_list eng n q ss x of (k, rest, x1) \<Rightarrow> (k, s # rest, x1))
      else (case e_push eng q (snd s) x of
          (Inr out, x1) \<Rightarrow> (if is_accepted out
             then (case deliver_list eng n q ss x1 of (k, rest, x2) \<Rightarrow> (k + 1, rest, x2))
             else (0, s # ss, x1))
        | (Inl _, x1) \<Rightarrow> (0, s # ss, x1)))"

definition deliver :: "'i engine \<Rightarrow> nat \<Rightarrow> queue_handle \<Rightarrow> 'f pump \<Rightarrow> 'i \<Rightarrow> nat \<times> 'f pump \<times> 'i" where
  "deliver eng n q p x = (case deliver_list eng n q (pm_settled p) x of
     (k, rest, x1) \<Rightarrow> (k, p\<lparr>pm_settled := rest\<rparr>, x1))"

definition land :: "'i engine \<Rightarrow> ('f, 'w) pump_env \<Rightarrow> nat \<Rightarrow> queue_handle \<Rightarrow> reply \<Rightarrow> 'f pump \<Rightarrow> 'i
    \<Rightarrow> nat \<times> 'f pump \<times> 'i" where
  "land eng pe n q r p x = (case to_wire (pe_codec pe) r of
     None \<Rightarrow> (0, p, x)
   | Some bytes \<Rightarrow> (case e_push eng q bytes x of
       (out, x1) \<Rightarrow> (if (case out of Inr o1 \<Rightarrow> is_accepted o1 | Inl _ \<Rightarrow> False) then (1, p, x1)
         else (0, p\<lparr>pm_settled := pm_settled p @ [(n, bytes)]\<rparr>, x1))))"

definition room :: "'i engine \<Rightarrow> queue_handle \<Rightarrow> 'i \<Rightarrow> bool \<times> 'i" where
  "room eng q x = (case e_queue_info eng q x of
     (Inr st, x1) \<Rightarrow> (qs_enabled st \<and> qs_len st < qs_capacity st, x1)
   | (Inl _, x1) \<Rightarrow> (False, x1))"

text \<open>One drained request: routed, and answered now or parked.\<close>

definition ask :: "'i engine \<Rightarrow> ('f, 'w) pump_env \<Rightarrow> ('f, 'w) dispatcher \<Rightarrow> nat \<Rightarrow> capset \<Rightarrow> queue_handle
    \<Rightarrow> bytes \<Rightarrow> 'f pump \<Rightarrow> 'i \<Rightarrow> 'w \<Rightarrow> nat \<times> 'f pump \<times> 'i \<times> 'w" where
  "ask eng pe d n caps q raw p x w =
     (case route_as (pe_codec pe) (pe_decode pe) d (CNode n) caps raw w of
        (Answered r, w1) \<Rightarrow> (case land eng pe n q r p x of (k, p1, x1) \<Rightarrow> (k, p1, x1, w1))
      | (Call pc, w1) \<Rightarrow> (case pe_poll pe (pending_future pc) w1 of
           (Some res, f, w2) \<Rightarrow>
             (case land eng pe n q (answer_reply (pc_tok pc) res) p x of (k, p1, x1) \<Rightarrow> (k, p1, x1, w2))
         | (None, f, w2) \<Rightarrow>
             (0, p\<lparr>pm_inflight := pm_inflight p @ [\<lparr>if_id = n, if_tok = pc_tok pc, if_future = f\<rparr>]\<rparr>, x, w2)))"

fun pump_loop :: "nat \<Rightarrow> 'i engine \<Rightarrow> ('f, 'w) pump_env \<Rightarrow> ('f, 'w) dispatcher \<Rightarrow> nat \<Rightarrow> capset
    \<Rightarrow> queue_handle \<Rightarrow> queue_handle \<Rightarrow> 'f pump \<Rightarrow> 'i \<Rightarrow> 'w \<Rightarrow> (nat \<times> 'f pump \<times> 'i \<times> 'w) option" where
  "pump_loop 0 eng pe d n caps calls replies p x w = None"
| "pump_loop (Suc fuel) eng pe d n caps calls replies p x w =
     (case room eng replies x of
        (False, x1) \<Rightarrow> Some (0, p, x1, w)
      | (True, x1) \<Rightarrow> (case e_pop eng calls x1 of
          (Inr (Some raw), x2) \<Rightarrow>
            (case ask eng pe d n caps replies raw p x2 w of (k, p1, x3, w1) \<Rightarrow>
               map_option (\<lambda>(j, r). (k + j, r)) (pump_loop fuel eng pe d n caps calls replies p1 x3 w1))
        | (_, x2) \<Rightarrow> Some (0, p, x2, w)))"

definition pump_one :: "nat \<Rightarrow> 'i engine \<Rightarrow> ('f, 'w) pump_env \<Rightarrow> ('f, 'w) dispatcher \<Rightarrow> nat \<Rightarrow> capset
    \<Rightarrow> 'f pump \<Rightarrow> 'i \<Rightarrow> 'w \<Rightarrow> (nat \<times> 'f pump \<times> 'i \<times> 'w) option" where
  "pump_one fuel eng pe d n caps p x w =
     (case e_queue eng calls_queue x of (c, x1) \<Rightarrow>
      (case e_queue eng replies_queue x1 of (r, x2) \<Rightarrow>
        (case (c, r) of
           (Some calls, Some replies) \<Rightarrow>
             (case deliver eng n replies p x2 of (k, p1, x3) \<Rightarrow>
                map_option (\<lambda>(j, res). (k + j, res)) (pump_loop fuel eng pe d n caps calls replies p1 x3 w))
         | _ \<Rightarrow> Some (0, p, x2, w))))"

text \<open>Every answer in flight polled once, oldest first; what is ready settles.\<close>

fun poll_list :: "('f, 'w) pump_env \<Rightarrow> 'f in_flight list \<Rightarrow> 'w \<Rightarrow> 'f in_flight list \<times> (nat \<times> bytes) list \<times> 'w" where
  "poll_list pe [] w = ([], [], w)"
| "poll_list pe (f # fs) w = (case pe_poll pe (if_future f) w of
     (Some res, f1, w1) \<Rightarrow> (case poll_list pe fs w1 of (rest, done, w2) \<Rightarrow>
        (case to_wire (pe_codec pe) (answer_reply (if_tok f) res) of
           None \<Rightarrow> (rest, done, w2) | Some bytes \<Rightarrow> (rest, (if_id f, bytes) # done, w2)))
   | (None, f1, w1) \<Rightarrow> (case poll_list pe fs w1 of (rest, done, w2) \<Rightarrow>
        (f\<lparr>if_future := f1\<rparr> # rest, done, w2)))"

definition pump_poll :: "('f, 'w) pump_env \<Rightarrow> 'f pump \<Rightarrow> 'w \<Rightarrow> 'f pump \<times> 'w" where
  "pump_poll pe p w = (case poll_list pe (pm_inflight p) w of
     (rest, done, w1) \<Rightarrow> (p\<lparr>pm_inflight := rest, pm_settled := pm_settled p @ done\<rparr>, w1))"

definition outstanding :: "'f pump \<Rightarrow> nat \<Rightarrow> nat" where
  "outstanding p n = length (filter (\<lambda>f. if_id f = n) (pm_inflight p))
     + length (filter (\<lambda>s. fst s = n) (pm_settled p))"

definition in_flight_count :: "'f pump \<Rightarrow> nat" where
  "in_flight_count p = length (pm_inflight p) + length (pm_settled p)"

definition forget :: "'f pump \<Rightarrow> nat \<Rightarrow> 'f pump" where
  "forget p n = p\<lparr>pm_inflight := filter (\<lambda>f. if_id f \<noteq> n) (pm_inflight p),
                  pm_settled := filter (\<lambda>s. fst s \<noteq> n) (pm_settled p)\<rparr>"

section \<open>The wrapping host\<close>

record ('h, 'f, 'w) pump_host =
  ph_inner :: 'h
  ph_pump :: "'f pump"
  ph_world :: 'w
  ph_lost :: "(nat \<times> string) list"

definition take_lost :: "('h, 'f, 'w) pump_host \<Rightarrow> (nat \<times> string) list \<times> ('h, 'f, 'w) pump_host" where
  "take_lost s = (ph_lost s, s\<lparr>ph_lost := []\<rparr>)"

definition pump_drive :: "nat \<Rightarrow> 'i engine \<Rightarrow> ('f, 'w) pump_env \<Rightarrow> ('f, 'w) dispatcher \<Rightarrow> ('i, 'h) host
    \<Rightarrow> nat \<Rightarrow> capset \<Rightarrow> 'i \<Rightarrow> ('h, 'f, 'w) pump_host \<Rightarrow> (driven \<times> 'i \<times> ('h, 'f, 'w) pump_host) option" where
  "pump_drive fuel eng pe d inner n caps x s =
     (case pump_poll pe (ph_pump s) (ph_world s) of (p1, w1) \<Rightarrow>
      (case pump_one fuel eng pe d n caps p1 x w1 of None \<Rightarrow> None
       | Some (k, p2, x2, w2) \<Rightarrow>
          (case h_drive inner n caps x2 (ph_inner s) of (driven, x3, h3) \<Rightarrow>
            (let s3 = s\<lparr>ph_inner := h3, ph_pump := p2, ph_world := w2\<rparr> in
             if driven = DrivenAlive then
               (case pump_one fuel eng pe d n caps p2 x3 w2 of None \<Rightarrow> None
                | Some (j, p4, x4, w4) \<Rightarrow> Some (driven, x4, s3\<lparr>ph_pump := p4, ph_world := w4\<rparr>))
             else Some (driven, x3, s3)))))"

definition pump_attached :: "('i, 'h) host \<Rightarrow> nat \<Rightarrow> ('h, 'f, 'w) pump_host \<Rightarrow> ('h, 'f, 'w) pump_host" where
  "pump_attached inner n s = s\<lparr>ph_inner := h_attached inner n (ph_inner s)\<rparr>"

definition pump_detached :: "('i, 'h) host \<Rightarrow> nat \<Rightarrow> ('h, 'f, 'w) pump_host \<Rightarrow> ('h, 'f, 'w) pump_host" where
  "pump_detached inner n s = s\<lparr>ph_inner := h_detached inner n (ph_inner s)\<rparr>"

definition node_reports :: "(caller \<times> string) list \<Rightarrow> (nat \<times> string) list" where
  "node_reports xs = List.map_filter (\<lambda>(c, why). case c of CNode n \<Rightarrow> Some (n, why) | CRoot \<Rightarrow> None) xs"

definition pump_ended :: "('f, 'w) dispatcher \<Rightarrow> ('i, 'h) host \<Rightarrow> ('h, 'f, 'w) pump_host
    \<Rightarrow> (nat \<times> string) list \<times> ('h, 'f, 'w) pump_host" where
  "pump_ended d inner s = (case h_ended inner (ph_inner s) of (own, h1) \<Rightarrow>
     (case dp_ended d (ph_world s) of (theirs, w1) \<Rightarrow>
       (own @ node_reports theirs, s\<lparr>ph_inner := h1, ph_world := w1\<rparr>)))"

definition notice_message :: "codec \<Rightarrow> notice \<Rightarrow> (nat \<times> string \<times> bytes) option" where
  "notice_message cd nt = (case nt_owner nt of CRoot \<Rightarrow> None
     | CNode n \<Rightarrow> map_option (\<lambda>b. (n, nt_queue nt, b)) (write_value cd (nt_message nt)))"

definition pump_notices :: "('f, 'w) pump_env \<Rightarrow> ('f, 'w) dispatcher \<Rightarrow> ('i, 'h) host \<Rightarrow> ('h, 'f, 'w) pump_host
    \<Rightarrow> (nat \<times> string \<times> bytes) list \<times> ('h, 'f, 'w) pump_host" where
  "pump_notices pe d inner s = (case h_notices inner (ph_inner s) of (own, h1) \<Rightarrow>
     (case dp_notices d (ph_world s) of (theirs, w1) \<Rightarrow>
       (own @ List.map_filter (notice_message (pe_codec pe)) theirs, s\<lparr>ph_inner := h1, ph_world := w1\<rparr>)))"

definition pump_released :: "('f, 'w) dispatcher \<Rightarrow> ('i, 'h) host \<Rightarrow> nat \<Rightarrow> ('h, 'f, 'w) pump_host
    \<Rightarrow> ('h, 'f, 'w) pump_host" where
  "pump_released d inner n s = (case dp_release d (CNode n) (ph_world s) of (what, w1) \<Rightarrow>
     s\<lparr>ph_pump := forget (ph_pump s) n, ph_world := w1,
       ph_lost := ph_lost s @ map (\<lambda>t. (n, t)) what, ph_inner := h_released inner n (ph_inner s)\<rparr>)"

section \<open>What the pump relies on of the engine's queues\<close>

text \<open>
  Looking at a queue changes none; a queue seen with room takes one message, at its end; a pop
  takes the front, and leaves the room of every other queue.
\<close>

definition has_room :: "'i engine \<Rightarrow> queue_handle \<Rightarrow> 'i \<Rightarrow> bool" where
  "has_room eng q x = fst (room eng q x)"

definition fifo_queues :: "'i engine \<Rightarrow> ('i \<Rightarrow> queue_handle \<Rightarrow> bytes list) \<Rightarrow> bool" where
  "fifo_queues eng view \<longleftrightarrow>
     (\<forall>nm x. view (snd (e_queue eng nm x)) = view x) \<and>
     (\<forall>q x. view (snd (e_queue_info eng q x)) = view x \<and>
        (has_room eng q x \<longrightarrow> has_room eng q (snd (e_queue_info eng q x)))) \<and>
     (\<forall>q m x. has_room eng q x \<longrightarrow> fst (e_push eng q m x) = Inr Accepted) \<and>
     (\<forall>q m x y. e_push eng q m x = (Inr Accepted, y) \<longrightarrow> view y = (view x)(q := view x q @ [m])) \<and>
     (\<forall>q m x y. e_push eng q m x = (Inr DroppedOldest, y) \<longrightarrow> view y = (view x)(q := tl (view x q) @ [m])) \<and>
     (\<forall>q m x out y. e_push eng q m x = (out, y) \<and> \<not> (\<exists>o1. out = Inr o1 \<and> is_accepted o1) \<longrightarrow>
        view y = view x \<and> \<not> has_room eng q y) \<and>
     (\<forall>q x m y. e_pop eng q x = (Inr (Some m), y) \<longrightarrow> view x = (view y)(q := m # view y q)) \<and>
     (\<forall>q x out y. e_pop eng q x = (out, y) \<and> (\<forall>m. out \<noteq> Inr (Some m)) \<longrightarrow> view y = view x) \<and>
     (\<forall>q r x. q \<noteq> r \<and> has_room eng r x \<longrightarrow> has_room eng r (snd (e_pop eng q x)))"

text \<open>The replies queue is one that refuses when it is full, rather than drop its oldest.\<close>

definition refuses_when_full :: "'i engine \<Rightarrow> queue_handle \<Rightarrow> bool" where
  "refuses_when_full eng q \<longleftrightarrow> (\<forall>m x. fst (e_push eng q m x) \<noteq> Inr DroppedOldest)"

definition encodes_replies :: "('f, 'w) pump_env \<Rightarrow> bool" where
  "encodes_replies pe \<longleftrightarrow> (\<forall>r. to_wire (pe_codec pe) r \<noteq> None)"

section \<open>Landing\<close>

definition owed :: "'f pump \<Rightarrow> nat \<Rightarrow> bytes list" where
  "owed p n = map snd (filter (\<lambda>s. fst s = n) (pm_settled p))"

definition others :: "'f pump \<Rightarrow> nat \<Rightarrow> 'f in_flight list \<times> (nat \<times> bytes) list" where
  "others p n = (filter (\<lambda>f. if_id f \<noteq> n) (pm_inflight p), filter (\<lambda>s. fst s \<noteq> n) (pm_settled p))"

lemma fifo_push:
  assumes "fifo_queues eng view"
  shows "e_push eng q m x = (Inr Accepted, y) \<Longrightarrow> view y = (view x)(q := view x q @ [m])"
    and "e_push eng q m x = (r, y) \<Longrightarrow> \<nexists>o1. r = Inr o1 \<and> is_accepted o1 \<Longrightarrow> view y = view x"
    and "e_push eng q m x = (r, y) \<Longrightarrow> \<nexists>o1. r = Inr o1 \<and> is_accepted o1 \<Longrightarrow> \<not> has_room eng q y"
    and "has_room eng q x \<Longrightarrow> fst (e_push eng q m x) = Inr Accepted"
  by (use assms in \<open>unfold fifo_queues_def, elim conjE, meson\<close>)+

lemma refusing_accepts:
  assumes "refuses_when_full eng q" and "e_push eng q m x = (Inr out, y)" and "is_accepted out"
  shows "out = Accepted"
proof -
  have "fst (e_push eng q m x) \<noteq> Inr DroppedOldest" using assms(1) by (simp add: refuses_when_full_def)
  then show ?thesis using assms(2,3) by (auto simp: is_accepted_def)
qed

lemma fifo_pop:
  assumes "fifo_queues eng view"
  shows "e_pop eng q x = (Inr (Some m), y) \<Longrightarrow> view x = (view y)(q := m # view y q)"
    and "e_pop eng q x = (r, y) \<Longrightarrow> \<forall>m. r \<noteq> Inr (Some m) \<Longrightarrow> view y = view x"
    and "q \<noteq> p \<Longrightarrow> has_room eng p x \<Longrightarrow> has_room eng p (snd (e_pop eng q x))"
  by (use assms in \<open>unfold fifo_queues_def, elim conjE, meson\<close>)+

lemma fifo_look:
  assumes "fifo_queues eng view"
  shows "view (snd (e_queue eng nm x)) = view x"
    and "view (snd (e_queue_info eng q x)) = view x"
    and "has_room eng q x \<Longrightarrow> has_room eng q (snd (e_queue_info eng q x))"
  by (use assms in \<open>unfold fifo_queues_def, elim conjE, meson\<close>)+

lemma deliver_list_lands:
  assumes "fifo_queues eng view" and "refuses_when_full eng q" and "deliver_list eng n q ss x = (k, rest, y)"
  shows "\<exists>sent. length sent = k \<and> map snd (filter (\<lambda>s. fst s = n) ss) = sent @ map snd (filter (\<lambda>s. fst s = n) rest) \<and>
      view y = (view x)(q := view x q @ sent) \<and> filter (\<lambda>s. fst s \<noteq> n) rest = filter (\<lambda>s. fst s \<noteq> n) ss \<and>
      (filter (\<lambda>s. fst s = n) rest = [] \<or> \<not> has_room eng q y)"
  using assms
proof (induction eng n q ss x arbitrary: k rest y rule: deliver_list.induct)
  case (2 eng n q s ss x)
  note fifo = "2.prems"(1) and refuses = "2.prems"(2)
  show ?case
  proof (cases "fst s = n")
    case False
    then show ?thesis using "2.IH"(1) "2.prems" by (auto split: prod.splits)
  next
    case True
    obtain out x1 where p: "e_push eng q (snd s) x = (out, x1)" by fastforce
    show ?thesis
    proof (cases "\<exists>o1. out = Inr o1 \<and> is_accepted o1")
      case acc: True
      then obtain o1 where o1: "out = Inr o1" "is_accepted o1" by blast
      obtain k1 rest1 x2 where d: "deliver_list eng n q ss x1 = (k1, rest1, x2)"
        by (cases "deliver_list eng n q ss x1") auto
      have v: "view x1 = (view x)(q := view x q @ [snd s])" by (rule fifo_push(1) [OF fifo]) (use p o1 refusing_accepts [OF refuses] in simp)
      have r: "k = k1 + 1" "rest = rest1" "y = x2" using "2.prems" True p o1 d by auto
      obtain sent where "length sent = k1" "map snd (filter (\<lambda>s. fst s = n) ss) = sent @ map snd (filter (\<lambda>s. fst s = n) rest1)"
        "view x2 = (view x1)(q := view x1 q @ sent)" "filter (\<lambda>s. fst s \<noteq> n) rest1 = filter (\<lambda>s. fst s \<noteq> n) ss"
        "filter (\<lambda>s. fst s = n) rest1 = [] \<or> \<not> has_room eng q x2"
        using "2.IH"(2) [of "Inr o1" x1 o1 k1 rest1 x2] True p o1 d fifo refuses
        by (auto simp: fun_upd_def)
      then show ?thesis using r v True by (intro exI [of _ "snd s # sent"]) auto
    next
      case False
      then have "k = 0 \<and> rest = s # ss \<and> y = x1" using "2.prems" True p by (auto split: sum.splits)
      moreover have "view x1 = view x" by (rule fifo_push(2) [OF fifo p False])
      moreover have "\<not> has_room eng q x1" by (rule fifo_push(3) [OF fifo p False])
      ultimately show ?thesis by auto
    qed
  qed
qed auto

lemma deliver_lands:
  assumes "fifo_queues eng view" and "refuses_when_full eng q" and "deliver eng n q p x = (k, p1, y)"
  shows "\<exists>sent. length sent = k \<and> owed p n = sent @ owed p1 n \<and>
    view y = (view x)(q := view x q @ sent) \<and> others p1 n = others p n \<and> pm_inflight p1 = pm_inflight p \<and>
    (owed p1 n = [] \<or> \<not> has_room eng q y)"
  using deliver_list_lands [OF assms(1,2), of n "pm_settled p" x] assms(3)
  by (auto simp: deliver_def owed_def others_def split: prod.splits)

lemma land_lands:
  assumes "fifo_queues eng view" and "has_room eng q x" and "to_wire (pe_codec pe) r = Some b"
    and "land eng pe n q r p x = (k, p1, y)"
  shows "k = 1 \<and> p1 = p \<and> view y = (view x)(q := view x q @ [b])"
proof -
  obtain y1 where p: "e_push eng q b x = (Inr Accepted, y1)"
    using fifo_push(4) [OF assms(1,2), of b] by (cases "e_push eng q b x") simp
  then have "view y1 = (view x)(q := view x q @ [b])"
    by (rule fifo_push(1) [OF assms(1)])
  then show ?thesis using assms(3,4) p by (simp add: land_def is_accepted_def)
qed

lemma outstanding_split: "outstanding p n = length (filter (\<lambda>f. if_id f = n) (pm_inflight p)) + length (owed p n)"
  by (simp add: outstanding_def owed_def)

text \<open>A request that was drained is answered, or parked, and never both.\<close>

lemma ask_accounts:
  assumes "fifo_queues eng view" and "encodes_replies pe" and "has_room eng q x"
    and "ask eng pe d n caps q raw p x w = (k, p1, y, w1)"
  shows "\<exists>rs. length rs = k \<and> view y = (view x)(q := view x q @ rs) \<and>
    k + outstanding p1 n = 1 + outstanding p n \<and> others p1 n = others p n \<and> pm_settled p1 = pm_settled p"
proof -
  have landed: "\<exists>rs. length rs = k \<and> view y = (view x)(q := view x q @ rs) \<and>
    k + outstanding p1 n = 1 + outstanding p n \<and> others p1 n = others p n \<and> pm_settled p1 = pm_settled p"
    if "land eng pe n q r p x = (k, p1, y)" for r
  proof -
    obtain b where "to_wire (pe_codec pe) r = Some b" using assms(2) by (auto simp: encodes_replies_def)
    then have "k = 1 \<and> p1 = p \<and> view y = (view x)(q := view x q @ [b])"
      using land_lands [OF assms(1,3) _ that] by blast
    then show ?thesis by (intro exI [of _ "[b]"]) simp
  qed
  obtain rt w2 where rt: "route_as (pe_codec pe) (pe_decode pe) d (CNode n) caps raw w = (rt, w2)" by fastforce
  show ?thesis
  proof (cases rt)
    case (Answered r)
    then show ?thesis using assms(4) rt landed [of r] by (auto simp: ask_def split: prod.splits)
  next
    case (Call pc)
    obtain res f w3 where po: "pe_poll pe (pending_future pc) w2 = (res, f, w3)"
      by (cases "pe_poll pe (pending_future pc) w2") auto
    show ?thesis
    proof (cases res)
      case (Some v)
      then show ?thesis using assms(4) rt Call po landed [of "answer_reply (pc_tok pc) v"]
        by (auto simp: ask_def split: prod.splits)
    next
      case None
      then have "k = 0" "p1 = p\<lparr>pm_inflight := pm_inflight p @ [\<lparr>if_id = n, if_tok = pc_tok pc, if_future = f\<rparr>]\<rparr>" "y = x"
        using assms(4) rt Call po by (auto simp: ask_def)
      then show ?thesis by (intro exI [of _ "[]"]) (simp add: outstanding_def others_def)
    qed
  qed
qed


section \<open>The draining loop\<close>

lemma room_look:
  assumes "fifo_queues eng view" and "room eng q x = (b, x1)"
  shows "view x1 = view x" and "b \<Longrightarrow> has_room eng q x \<and> has_room eng q x1" and "\<not> b \<Longrightarrow> \<not> has_room eng q x"
proof -
  obtain out x2 where i: "e_queue_info eng q x = (out, x2)" by fastforce
  have x1: "x1 = x2" using assms(2) i by (auto simp: room_def split: sum.splits)
  show "view x1 = view x" using fifo_look(2) [OF assms(1), of q x] i x1 by simp
  show "b \<Longrightarrow> has_room eng q x \<and> has_room eng q x1"
    using fifo_look(3) [OF assms(1), of q x] i x1 assms(2) by (simp add: has_room_def)
  show "\<not> b \<Longrightarrow> \<not> has_room eng q x" using assms(2) by (simp add: has_room_def)
qed

lemma ask_keeps_calls:
  assumes "fifo_queues eng view" and "encodes_replies pe" and "has_room eng q x" and "c \<noteq> q"
    and "ask eng pe d n caps q raw p x w = (k, p1, y, w1)"
  shows "view y c = view x c"
  using ask_accounts [OF assms(1-3,5)] assms(4) by auto

text \<open>A pump whose loop has fuel for the requests that wait returns.\<close>

lemma pump_loop_ends:
  assumes "fifo_queues eng view" and "encodes_replies pe" and "calls \<noteq> replies"
  shows "length (view x calls) < fuel \<Longrightarrow> pump_loop fuel eng pe d n caps calls replies p x w \<noteq> None"
proof (induction fuel arbitrary: p x w)
  case (Suc fuel)
  obtain b x1 where r: "room eng replies x = (b, x1)" by fastforce
  note look = room_look [OF assms(1) r]
  show ?case
  proof (cases b)
    case True
    obtain out x2 where pop: "e_pop eng calls x1 = (out, x2)" by fastforce
    show ?thesis
    proof (cases "\<exists>m. out = Inr (Some m)")
      case some: True
      then obtain raw where m: "out = Inr (Some raw)" by blast
      obtain k p1 x3 w1 where a: "ask eng pe d n caps replies raw p x2 w = (k, p1, x3, w1)"
        by (cases "ask eng pe d n caps replies raw p x2 w") auto
      have "has_room eng replies x2"
        using fifo_pop(3) [OF assms(1,3), of x1] look(2) [OF True] pop by simp
      then have "view x3 calls = view x2 calls" using ask_keeps_calls [OF assms(1,2) _ assms(3) a] by simp
      moreover have "view x calls = raw # view x2 calls"
        using fifo_pop(1) [OF assms(1), of calls x1 raw x2] pop m look(1) by simp
      ultimately have "pump_loop fuel eng pe d n caps calls replies p1 x3 w1 \<noteq> None"
        using Suc.IH Suc.prems by simp
      then show ?thesis using r True pop m a by simp
    next
      case False
      then show ?thesis using r True pop by (auto split: sum.splits option.splits)
    qed
  qed (use r in simp)
qed simp

lemma pump_loop_accounts:
  assumes "fifo_queues eng view" and "encodes_replies pe" and "calls \<noteq> replies"
  shows "pump_loop fuel eng pe d n caps calls replies p x w = Some (k, p1, y, w1) \<Longrightarrow>
    \<exists>drained rs. length rs = k \<and> view x calls = drained @ view y calls \<and>
      view y = (view x)(calls := view y calls, replies := view x replies @ rs) \<and>
      k + outstanding p1 n = length drained + outstanding p n \<and> others p1 n = others p n \<and>
      pm_settled p1 = pm_settled p \<and> (\<not> has_room eng replies x \<longrightarrow> drained = [])"
proof (induction fuel arbitrary: k p x w)
  case (Suc fuel)
  obtain b x1 where r: "room eng replies x = (b, x1)" by fastforce
  note look = room_look [OF assms(1) r]
  have stop: ?case if "Some (k, p1, y, w1) = Some (0, p, z, w)" "view z = view x" for z
    using that by (intro exI [of _ "[]"]) auto
  show ?case
  proof (cases b)
    case True
    obtain out x2 where pop: "e_pop eng calls x1 = (out, x2)" by fastforce
    show ?thesis
    proof (cases "\<exists>m. out = Inr (Some m)")
      case some: True
      then obtain raw where m: "out = Inr (Some raw)" by blast
      obtain j p2 x3 w2 where a: "ask eng pe d n caps replies raw p x2 w = (j, p2, x3, w2)"
        by (cases "ask eng pe d n caps replies raw p x2 w") auto
      have rm: "has_room eng replies x2"
        using fifo_pop(3) [OF assms(1,3), of x1] look(2) [OF True] pop by simp
      have vx: "view x = (view x2)(calls := raw # view x2 calls)"
        using fifo_pop(1) [OF assms(1), of calls x1 raw x2] pop m look(1) by simp
      obtain rs1 where one: "length rs1 = j" "view x3 = (view x2)(replies := view x2 replies @ rs1)"
        "j + outstanding p2 n = 1 + outstanding p n" "others p2 n = others p n" "pm_settled p2 = pm_settled p"
        using ask_accounts [OF assms(1,2) rm a] by blast
      obtain i where l: "pump_loop fuel eng pe d n caps calls replies p2 x3 w2 = Some (i, p1, y, w1)" "k = j + i"
        using Suc.prems r True pop m a by auto
      obtain drained rs where rest: "length rs = i" "view x3 calls = drained @ view y calls"
        "view y = (view x3)(calls := view y calls, replies := view x3 replies @ rs)"
        "i + outstanding p1 n = length drained + outstanding p2 n" "others p1 n = others p2 n" "pm_settled p1 = pm_settled p2"
        using Suc.IH [OF l(1)] by blast
      have "view x replies = view x2 replies" using vx assms(3) by simp
      moreover have "view x calls = (raw # drained) @ view y calls" using vx one(2) rest(2) assms(3) by simp
      moreover have "view y = (view x)(calls := view y calls, replies := view x replies @ (rs1 @ rs))"
        by (subst rest(3), unfold one(2) vx) (use assms(3) in \<open>auto simp: fun_eq_iff\<close>)
      moreover have "has_room eng replies x" using look(2) [OF True] by simp
      moreover have "length (rs1 @ rs) = k" "k + outstanding p1 n = length (raw # drained) + outstanding p n"
        using one(1,3) rest(1,4) l(2) by simp_all
      moreover have "others p1 n = others p n" "pm_settled p1 = pm_settled p" using one rest by simp_all
      ultimately show ?thesis by blast
    next
      case False
      have "view x2 = view x" using fifo_pop(2) [OF assms(1) pop] False look(1) by metis
      moreover have "pump_loop (Suc fuel) eng pe d n caps calls replies p x w = Some (0, p, x2, w)"
        using r True pop False by (auto split: sum.splits option.splits)
      ultimately show ?thesis using stop Suc.prems by metis
    qed
  next
    case False
    then show ?thesis using stop [of x1] r look(1) Suc.prems by simp
  qed
qed simp


text \<open>One pump of an instance whose two queues are there: what settled lands first, then the answers.\<close>

lemma pump_one_split:
  assumes "e_queue eng calls_queue x = (Some calls, x1)" and "e_queue eng replies_queue x1 = (Some replies, x2)"
    and "deliver eng n replies p x2 = (j, p1, x3)"
  shows "pump_one fuel eng pe d n caps p x w =
    map_option (\<lambda>(i, res). (j + i, res)) (pump_loop fuel eng pe d n caps calls replies p1 x3 w)"
  using assms by (simp add: pump_one_def)

lemma pump_one_exact:
  assumes "fifo_queues eng view" and "encodes_replies pe" and "refuses_when_full eng replies"
    and "e_queue eng calls_queue x = (Some calls, x1)" and "e_queue eng replies_queue x1 = (Some replies, x2)"
    and "calls \<noteq> replies" and "pump_one fuel eng pe d n caps p x w = Some (k, p', y, w')"
  shows "\<exists>drained sent rs. view x calls = drained @ view y calls \<and>
    view y = (view x)(calls := view y calls, replies := view x replies @ sent @ rs) \<and>
    k = length sent + length rs \<and> owed p n = sent @ owed p' n \<and> (owed p' n \<noteq> [] \<longrightarrow> drained = [] \<and> rs = []) \<and>
    k + outstanding p' n = length drained + outstanding p n \<and> others p' n = others p n"
proof -
  have vx: "view x2 = view x"
    using fifo_look(1) [OF assms(1), of calls_queue x] fifo_look(1) [OF assms(1), of replies_queue x1] assms(4,5) by simp
  obtain j p1 x3 where d: "deliver eng n replies p x2 = (j, p1, x3)" by (cases "deliver eng n replies p x2") auto
  obtain sent where s: "length sent = j" "owed p n = sent @ owed p1 n" "view x3 = (view x)(replies := view x replies @ sent)"
    "others p1 n = others p n" "pm_inflight p1 = pm_inflight p" "owed p1 n = [] \<or> \<not> has_room eng replies x3"
    using deliver_lands [OF assms(1,3) d] vx by auto
  obtain i where l: "pump_loop fuel eng pe d n caps calls replies p1 x3 w = Some (i, p', y, w')" "k = j + i"
    using assms(7) pump_one_split [OF assms(4,5) d, of fuel pe d caps w] by auto
  obtain drained rs where r: "length rs = i" "view x3 calls = drained @ view y calls"
    "view y = (view x3)(calls := view y calls, replies := view x3 replies @ rs)"
    "i + outstanding p' n = length drained + outstanding p1 n" "others p' n = others p1 n" "pm_settled p' = pm_settled p1"
    "\<not> has_room eng replies x3 \<longrightarrow> drained = []"
    using pump_loop_accounts [OF assms(1,2,6) l(1)] by blast
  have ow: "owed p' n = owed p1 n" using r(6) by (simp add: owed_def)
  have out: "outstanding p n = length sent + outstanding p1 n" using s(2,5) by (simp add: outstanding_split)
  have "drained = [] \<and> rs = []" if "owed p' n \<noteq> []"
  proof -
    have d0: "drained = []" and nr: "\<not> has_room eng replies x3" using that ow s(6) r(7) by auto
    obtain b x4 where rm: "room eng replies x3 = (b, x4)" by fastforce
    have "\<not> b" using room_look(2) [OF assms(1) rm] nr by blast
    then have "i = 0" using l(1) rm by (cases fuel) auto
    then show ?thesis using d0 r(1) by simp
  qed
  moreover have "view x calls = drained @ view y calls" using r(2) s(3) assms(6) by simp
  moreover have "view y = (view x)(calls := view y calls, replies := view x replies @ sent @ rs)"
    by (subst r(3), unfold s(3)) (use assms(6) in \<open>auto simp: fun_eq_iff\<close>)
  moreover have "k + outstanding p' n = length drained + outstanding p n" using l(2) s(1) r(4) out by simp
  ultimately show ?thesis using l(2) s r(1,5) ow by (metis (no_types, lifting))
qed


section \<open>Polling, forgetting and the death of an instance\<close>

lemma poll_list_keeps:
  assumes "encodes_replies pe"
  shows "poll_list pe fs w = (rest, fin, w1) \<Longrightarrow>
    length (filter (\<lambda>f. if_id f = n) rest) + length (filter (\<lambda>s. fst s = n) fin) = length (filter (\<lambda>f. if_id f = n) fs)
    \<and> length rest + length fin = length fs"
proof (induction fs arbitrary: w rest fin w1)
  case (Cons f fs)
  obtain res f1 w2 where po: "pe_poll pe (if_future f) w = (res, f1, w2)" by (cases "pe_poll pe (if_future f) w") auto
  obtain rest1 fin1 w3 where l: "poll_list pe fs w2 = (rest1, fin1, w3)" by (cases "poll_list pe fs w2") auto
  note ih = Cons.IH [OF l]
  show ?case
  proof (cases res)
    case None
    then have "rest = f\<lparr>if_future := f1\<rparr> # rest1 \<and> fin = fin1" using Cons.prems po l by simp
    then show ?thesis using ih by auto
  next
    case (Some v)
    obtain b where "to_wire (pe_codec pe) (answer_reply (if_tok f) v) = Some b"
      using assms by (auto simp: encodes_replies_def)
    then have "rest = rest1 \<and> fin = (if_id f, b) # fin1" using Cons.prems po l Some by simp
    then show ?thesis using ih by auto
  qed
qed simp

lemma filter_other: "m \<noteq> n \<Longrightarrow> filter (\<lambda>a. g a = m) (filter (\<lambda>a. g a \<noteq> n) xs) = filter (\<lambda>a. g a = m) xs"
  by (induction xs) auto

lemma forget_outstanding: "outstanding (forget p n) m = (if m = n then 0 else outstanding p m)"
proof (cases "m = n")
  case True
  then show ?thesis by (simp add: outstanding_def forget_def filter_False)
next
  case False
  then show ?thesis 
    using filter_other [OF False, of if_id "pm_inflight p"] filter_other [OF False, of fst "pm_settled p"]
    by (simp add: outstanding_def forget_def)
qed

text \<open>Nothing else of the pump is left of an instance that is owed nothing.\<close>

lemma owed_nothing_lands_nothing:
  "outstanding p n = 0 \<Longrightarrow> fst (deliver eng n q p x) = 0 \<and> snd (snd (deliver eng n q p x)) = x"
proof -
  have "filter (\<lambda>s. fst s = n) ss = [] \<Longrightarrow> deliver_list eng n q ss x = (0, ss, x)" for ss
    by (induction ss) (auto split: if_splits)
  then show "outstanding p n = 0 \<Longrightarrow> ?thesis" by (simp add: deliver_def outstanding_def)
qed

section \<open>An engine with two bounded queues\<close>

type_synonym lines = "queue_handle \<Rightarrow> bytes list"

definition lines_engine :: "lines engine" where
  "lines_engine = \<lparr>e_load = (\<lambda>_. Inr (\<lambda>_. [])), e_restore = (\<lambda>_. Inr (\<lambda>_. [])),
     e_queue = (\<lambda>name x. (if name = calls_queue then Some 1 else if name = replies_queue then Some 2 else None, x)),
     e_queue_info = (\<lambda>q x. (Inr \<lparr>qs_len = length (x q), qs_capacity = 2, qs_enabled = True, qs_exported = True\<rparr>, x)),
     e_push = (\<lambda>q m x. if length (x q) < 2 then (Inr Accepted, x(q := x q @ [m])) else (Inr Full, x)),
     e_pop = (\<lambda>q x. case x q of [] \<Rightarrow> (Inr None, x) | m # ms \<Rightarrow> (Inr (Some m), x(q := ms))),
     e_run = (\<lambda>x. (Inr Done, x)), e_resume = (\<lambda>q x. (Inr Done, x)),
     e_resume_timeout = (\<lambda>x. (Inr Done, x)), e_current_wait = (\<lambda>x. (None, x)),
     e_usage = (\<lambda>x. usage_default), e_exceeded = (\<lambda>x. False), e_touched_fast = (\<lambda>x. False),
     e_snapshot = (\<lambda>st x. (Inr [], x)), e_endpoint_count = (\<lambda>x. 0),
     e_enable_endpoints = (\<lambda>x. x), e_endpoint_queue = (\<lambda>t x. (None, x)),
     e_endpoint_ref = (\<lambda>t x. None), e_endpoint_close = (\<lambda>q x. (Inr (), x))\<rparr>"

definition ready_env :: "(call_error + val, unit) pump_env" where
  "ready_env = \<lparr>pe_codec = toy_codec, pe_decode = time_request, pe_poll = (\<lambda>f w. (Some f, f, w))\<rparr>"

lemma lines_room: "has_room lines_engine q x \<longleftrightarrow> length (x q) < 2"
  by (simp add: has_room_def room_def lines_engine_def)

lemma lines_ops:
  "e_queue lines_engine name x = (if name = calls_queue then Some 1 else if name = replies_queue then Some 2 else None, x)"
  "e_queue_info lines_engine q x = (Inr \<lparr>qs_len = length (x q), qs_capacity = 2, qs_enabled = True, qs_exported = True\<rparr>, x)"
  "e_push lines_engine q m x = (if length (x q) < 2 then (Inr Accepted, x(q := x q @ [m])) else (Inr Full, x))"
  "e_pop lines_engine q x = (case x q of [] \<Rightarrow> (Inr None, x) | m # ms \<Rightarrow> (Inr (Some m), x(q := ms)))"
  by (simp_all add: lines_engine_def)

lemma lines_fifo: "fifo_queues lines_engine (\<lambda>x. x)"
  by (auto simp: fifo_queues_def lines_room lines_ops is_accepted_def fun_eq_iff split: list.splits if_splits)

lemma lines_refuse: "refuses_when_full lines_engine q"
  by (simp add: refuses_when_full_def lines_engine_def)

lemma ready_encodes: "encodes_replies ready_env"
  by (simp add: encodes_replies_def ready_env_def toy_codec_def to_wire_def reply_to_bytes_def)

lemma lines_queues: "e_queue lines_engine calls_queue x = (Some 1, x)" "e_queue lines_engine replies_queue x = (Some 2, x)"
  by (simp_all add: lines_engine_def calls_queue_def replies_queue_def)


text \<open>The example: one answer waits for instance 3 and one call is pending; both land.\<close>

definition lines_calls :: lines where "lines_calls = (\<lambda>q. if q = 1 then [[1]] else [])"

definition waiting_pump :: "(call_error + val) pump" where
  "waiting_pump = \<lparr>pm_inflight = [], pm_settled = [(4, [5]), (3, [9])]\<rparr>"

definition pumped_pump :: "(call_error + val) pump" where
  "pumped_pump = \<lparr>pm_inflight = [], pm_settled = [(4, [5])]\<rparr>"

lemma lines_pumped:
  "pump_one (Suc (Suc 0)) lines_engine ready_env (dispatcher_new time_registry) 3 (root_set [grant_of ''host:time''])
     waiting_pump lines_calls () =
   Some (2, pumped_pump, (\<lambda>q. if q = 2 then [[9], []] else []), ())"
proof -
  have ready_sel: "pe_codec ready_env = toy_codec" "pe_decode ready_env = time_request" "pe_poll ready_env f u = (Some f, f, u)" for f u
    by (simp_all add: ready_env_def)
  have land1: "land lines_engine ready_env 3 2 r p x = (1, p, x(2 := x 2 @ [[]]))" if "length (x 2) < 2" for r p and x :: lines
    using that by (simp add: land_def ready_env_def toy_codec_def to_wire_def reply_to_bytes_def lines_ops is_accepted_def)
  have ask1: "ask lines_engine ready_env (dispatcher_new time_registry) 3 (root_set [grant_of ''host:time'']) 2 [1] p x () =
      (1, p, x(2 := x 2 @ [[]]), ())" if "length (x 2) < 2" for p and x :: lines
    using that by (simp add: ask_def ready_sel time_routed land1)
  show ?thesis
    by (simp add: pump_one_def lines_queues deliver_def waiting_pump_def lines_ops lines_calls_def is_accepted_def
        room_def ask1 fun_eq_iff pumped_pump_def calls_queue_def replies_queue_def)
qed


text \<open>
  A pump returns: a pump that has fuel for the calls that wait when it starts comes to the end
  of them, whatever the connectors answer.
\<close>

theorem pump_returns:
  assumes "fifo_queues eng view" and "encodes_replies pe" and "refuses_when_full eng replies"
    and "e_queue eng calls_queue x = (Some calls, x1)" and "e_queue eng replies_queue x1 = (Some replies, x2)"
    and "calls \<noteq> replies" and "length (view x calls) < fuel"
  shows "pump_one fuel eng pe d n caps p x w \<noteq> None"
proof -
  obtain j p1 x3 where d: "deliver eng n replies p x2 = (j, p1, x3)" by (cases "deliver eng n replies p x2") auto
  have "view x2 = view x"
    using fifo_look(1) [OF assms(1), of calls_queue x] fifo_look(1) [OF assms(1), of replies_queue x1] assms(4,5) by simp
  then have "view x3 calls = view x calls" using deliver_lands [OF assms(1,3) d] assms(6) by auto
  then have "pump_loop fuel eng pe d n caps calls replies p1 x3 w \<noteq> None"
    using pump_loop_ends [OF assms(1,2,6)] assms(7) by simp
  then show ?thesis by (simp add: pump_one_split [OF assms(4,5) d])
qed

theorem pump_returns_witness:
  "pump_one 2 lines_engine ready_env (dispatcher_new time_registry) 3 (root_set []) waiting_pump lines_calls () \<noteq> None"
  by (rule pump_returns [OF lines_fifo ready_encodes lines_refuse lines_queues]) (simp_all add: lines_calls_def)



end
