(* ===== verification/Wire_Frames.thy ===== *)
theory Wire_Frames
  imports Wire_Ints
begin

unbundle bit_operations_syntax

text \<open>
  The two byte formats the runtime reads off a stream, and the address ranges that gate
  one of them: Wisp v1 packets (\<^verbatim>\<open>crates/drt-rtc/src/wisp.rs\<close>), the length-prefixed
  frames between host and plugin (\<^verbatim>\<open>crates/drt-plugin/src/frame.rs\<close>), and
  \<open>Cidr\<close> (\<^verbatim>\<open>crates/drt-rtc/src/cidr.rs\<close>; the address parser of \<^verbatim>\<open>std::net\<close> is
  not modelled).  The msgpack codec of a frame body is a parameter.
\<close>

section \<open>Wisp packets\<close>

type_synonym byte = "8 word"

definition max_message :: nat where "max_message = 16 * 1024"
definition header_len :: nat where "header_len = 5"
definition max_payload :: nat where "max_payload = max_message - header_len"

definition connect_type :: byte where "connect_type = 0x01"
definition data_type :: byte where "data_type = 0x02"
definition continue_type :: byte where "continue_type = 0x03"
definition close_type :: byte where "close_type = 0x04"
definition end_type :: byte where "end_type = 0x05"

lemmas packet_types = connect_type_def data_type_def continue_type_def close_type_def end_type_def

definition reason_name :: "byte \<Rightarrow> string" where
  "reason_name c =
     (if c = 0x01 then ''unspecified'' else if c = 0x02 then ''voluntary''
      else if c = 0x03 then ''network_error'' else if c = 0x41 then ''invalid''
      else if c = 0x42 then ''unreachable'' else if c = 0x43 then ''timeout''
      else if c = 0x44 then ''refused'' else if c = 0x47 then ''idle''
      else if c = 0x48 then ''blocked'' else if c = 0x49 then ''throttled''
      else if c = 0x81 then ''client_error'' else ''unknown'')"

datatype packet =
    Connect (stream_of: "32 word") (kind_of: byte) (port_of: "16 word") (host_of: bytes)
  | Data (stream_of: "32 word") (payload_of: bytes)
  | Continue (stream_of: "32 word") (remaining_of: "32 word")
  | Close (stream_of: "32 word") (reason_of: byte)
  | End (stream_of: "32 word")
  | Malformed (kind_of: byte) (stream_of: "32 word")
  | Unknown (kind_of: byte) (stream_of: "32 word")

definition le_word :: "bytes \<Rightarrow> 'a::len word" where
  "le_word bs = word_of_nat (from_le bs)"

definition parse_packet :: "bytes \<Rightarrow> packet option" where
  "parse_packet msg =
     (if length msg < header_len then None
      else (let kind = msg ! 0; stream = le_word (take 4 (drop 1 msg)); body = drop header_len msg in
        Some (if kind = connect_type \<and> length body \<ge> 3 then
                Connect stream (body ! 0) (le_word (take 2 (drop 1 body))) (drop 3 body)
              else if kind = data_type then Data stream body
              else if kind = continue_type \<and> length body \<ge> 4 then Continue stream (le_word (take 4 body))
              else if kind = close_type \<and> body \<noteq> [] then Close stream (body ! 0)
              else if kind = end_type then End stream
              else if kind = connect_type \<or> kind = continue_type \<or> kind = close_type
                then Malformed kind stream
              else Unknown kind stream)))"

definition packet_header :: "byte \<Rightarrow> 32 word \<Rightarrow> bytes" where
  "packet_header kind stream = kind # le_bytes 4 (unat stream)"

definition connect_packet :: "32 word \<Rightarrow> byte \<Rightarrow> 16 word \<Rightarrow> bytes \<Rightarrow> bytes" where
  "connect_packet stream kind port host =
     packet_header connect_type stream @ kind # le_bytes 2 (unat port) @ host"

definition data_packet :: "32 word \<Rightarrow> bytes \<Rightarrow> bytes" where
  "data_packet stream payload = packet_header data_type stream @ payload"

definition cont_packet :: "32 word \<Rightarrow> 32 word \<Rightarrow> bytes" where
  "cont_packet stream remaining = packet_header continue_type stream @ le_bytes 4 (unat remaining)"

definition end_packet :: "32 word \<Rightarrow> bytes" where
  "end_packet stream = packet_header end_type stream"

definition close_packet :: "32 word \<Rightarrow> byte \<Rightarrow> bytes" where
  "close_packet stream reason = packet_header close_type stream @ [reason]"

lemmas packet_defs = connect_packet_def data_packet_def cont_packet_def end_packet_def close_packet_def

lemma le_word_le_bytes:
  "le_word (le_bytes 4 (unat (s :: 32 word))) = s"
  "le_word (le_bytes 2 (unat (p :: 16 word))) = p"
proof -
  have "unat s < 256 ^ 4" "unat p < 256 ^ 2"
    using unsigned_less [of s, where 'a = nat] unsigned_less [of p, where 'a = nat] by simp_all
  then show "le_word (le_bytes 4 (unat s)) = s" "le_word (le_bytes 2 (unat p)) = p"
    by (simp_all only: le_word_def le.dec_enc) simp_all
qed

lemma le_bytes_le_word:
  "length bs = 4 \<Longrightarrow> le_bytes 4 (unat (le_word bs :: 32 word)) = bs"
  "length bs = 2 \<Longrightarrow> le_bytes 2 (unat (le_word bs :: 16 word)) = bs"
  using from_le_less [of bs]
  by (simp_all add: le_word_def unat_of_nat le.enc_dec del: le_bytes.simps)

lemma length_packet_header [simp]: "length (packet_header k s) = 5"
  by (simp add: packet_header_def)

lemma drop_header: "drop (Suc 0) (packet_header k s) = le_bytes 4 (unat s)"
  by (simp add: packet_header_def del: le_bytes.simps)

lemma header_fields:
  "(packet_header k s @ r) ! 0 = k"
  "take 4 (drop 1 (packet_header k s @ r)) = le_bytes 4 (unat s)"
  "drop 5 (packet_header k s @ r) = r"
  by (simp_all add: packet_header_def del: le_bytes.simps)

lemma split_header:
  assumes "5 \<le> length m"
  shows "m = packet_header (m ! 0) (le_word (take 4 (drop 1 m))) @ drop 5 m"
proof -
  have "take 4 (drop 1 m) @ drop 5 m = drop 1 m"
    by (metis append_take_drop_id drop_drop numeral_plus_one add.commute numeral_Bit0 numeral_Bit1 semiring_norm(2) semiring_norm(8))
  moreover have "m = m ! 0 # drop 1 m" using assms by (cases m) auto
  ultimately show ?thesis
    using assms by (simp add: packet_header_def le_bytes_le_word del: le_bytes.simps)
qed

text \<open>
  Every packet the host writes reads back as the packet that was meant, at every stream
  id, port, window and payload.
\<close>

theorem packets_round_trip:
  "parse_packet (connect_packet s k p h) = Some (Connect s k p h) \<and>
   parse_packet (data_packet s b) = Some (Data s b) \<and>
   parse_packet (cont_packet s r) = Some (Continue s r) \<and>
   parse_packet (close_packet s c) = Some (Close s c) \<and>
   parse_packet (end_packet s) = Some (End s)"
proof -
  have d: "drop 3 (k # le_bytes 2 (unat p) @ h) = h"
    "take 2 (drop 1 (k # le_bytes 2 (unat p) @ h)) = le_bytes 2 (unat p)"
    by (simp_all del: le_bytes.simps)
  show ?thesis
    unfolding packet_defs parse_packet_def Let_def header_len_def
    apply (intro conjI)
    subgoal by (simp add: header_fields drop_header le_word_le_bytes d packet_types del: le_bytes.simps)
    subgoal by (simp add: header_fields drop_header le_word_le_bytes packet_types del: le_bytes.simps)
    subgoal by (simp add: header_fields drop_header le_word_le_bytes packet_types del: le_bytes.simps)
    subgoal by (simp add: header_fields drop_header le_word_le_bytes packet_types del: le_bytes.simps)
    subgoal
      using header_fields [of end_type s "[]"]
      by (simp add: drop_header le_word_le_bytes packet_types del: le_bytes.simps)
    done
qed

text \<open>The bytes a packet stands for; a malformed or unknown one stands for its header.\<close>

fun render_packet :: "packet \<Rightarrow> bytes" where
  "render_packet (Connect s k p h) = connect_packet s k p h"
| "render_packet (Data s b) = data_packet s b"
| "render_packet (Continue s r) = cont_packet s r"
| "render_packet (Close s c) = close_packet s c"
| "render_packet (End s) = end_packet s"
| "render_packet (Malformed k s) = packet_header k s"
| "render_packet (Unknown k s) = packet_header k s"

lemma take_prefix_drop: "prefix (take n (drop m xs)) (drop m xs)"
  by (rule take_is_prefix)

lemma nth_header: "5 \<le> length m \<Longrightarrow> 0 < length (drop 5 m) \<Longrightarrow> prefix [drop 5 m ! 0] (drop 5 m)"
  by (cases "drop 5 m") auto

lemma connect_body:
  assumes "3 \<le> length (b :: bytes)"
  shows "b ! 0 # le_bytes 2 (unat (le_word (take 2 (drop 1 b)) :: 16 word)) @ drop 3 b = b"
proof -
  obtain x y z r where "b = x # y # z # r"
    using assms by (metis Suc_le_length_iff numeral_3_eq_3)
  then show ?thesis
    using le_bytes_le_word(2) [of "[y, z]"] by (simp del: le_bytes.simps)
qed

text \<open>
  Reading invents nothing: a packet read off a message renders to a prefix of it, to
  the whole message for the two that carry the rest of it, and only a message shorter than the
  header reads as none.
\<close>

theorem parse_packet_sound:
  "(parse_packet m = None \<longleftrightarrow> length m < header_len) \<and>
   (parse_packet m = Some p \<longrightarrow> prefix (render_packet p) m \<and>
     ((\<exists>s k q h. p = Connect s k q h) \<or> (\<exists>s b. p = Data s b) \<longrightarrow> render_packet p = m))"
proof (cases "length m < header_len")
  case True
  then show ?thesis by (simp add: parse_packet_def)
next
  case False
  define k where "k = m ! 0"
  define s :: "32 word" where "s = le_word (take 4 (drop 1 m))"
  define b where "b = drop 5 m"
  have m: "m = packet_header k s @ b"
    using split_header [of m] False by (simp add: k_def s_def b_def header_len_def)
  have p: "parse_packet m = Some (if k = connect_type \<and> length b \<ge> 3 then
                Connect s (b ! 0) (le_word (take 2 (drop 1 b))) (drop 3 b)
              else if k = data_type then Data s b
              else if k = continue_type \<and> length b \<ge> 4 then Continue s (le_word (take 4 b))
              else if k = close_type \<and> b \<noteq> [] then Close s (b ! 0)
              else if k = end_type then End s
              else if k = connect_type \<or> k = continue_type \<or> k = close_type
                then Malformed k s
              else Unknown k s)"
    using False
    by (simp only: parse_packet_def Let_def header_len_def k_def [symmetric] s_def [symmetric]
        b_def [symmetric] if_False)
  define good where "good q \<longleftrightarrow> prefix (render_packet q) m \<and>
     ((\<exists>s k r h. q = Connect s k r h) \<or> (\<exists>s b. q = Data s b) \<longrightarrow> render_packet q = m)" for q
  have "good (Connect s (b ! 0) (le_word (take 2 (drop 1 b))) (drop 3 b))"
    if "k = connect_type" "3 \<le> length b"
  proof -
    have "render_packet (Connect s (b ! 0) (le_word (take 2 (drop 1 b))) (drop 3 b)) = m"
      using connect_body [OF that(2)] that(1) m by (simp add: connect_packet_def del: le_bytes.simps)
    then show ?thesis unfolding good_def by simp
  qed
  moreover have "k = data_type \<Longrightarrow> good (Data s b)" by (simp add: good_def data_packet_def m)
  moreover have "good (Continue s (le_word (take 4 b)))" if "k = continue_type" "4 \<le> length b"
    using that le_bytes_le_word(1) [of "take 4 b"]
    by (simp add: good_def cont_packet_def m take_is_prefix del: le_bytes.simps)
  moreover have "good (Close s (b ! 0))" if "k = close_type" "b \<noteq> []"
    using that by (cases b) (simp_all add: good_def close_packet_def m)
  moreover have "k = end_type \<Longrightarrow> good (End s)" by (simp add: good_def end_packet_def m)
  moreover have "good (Malformed k s)" "good (Unknown k s)" by (simp_all add: good_def m)
  ultimately have "good q" if "parse_packet m = Some q" for q
    using that unfolding p by (simp split: if_splits)
  then have "parse_packet m = Some p \<longrightarrow> good p" by blast
  then show ?thesis using False unfolding good_def by (simp add: p)
qed

theorem parse_packet_sound_witness:
  "prefix (render_packet (Close 7 2)) [4, 7, 0, 0, 0, 2, 9]"
proof -
  have "parse_packet [4, 7, 0, 0, 0, 2, 9] = Some (Close 7 2)" by code_simp
  then show ?thesis using parse_packet_sound [of "[4, 7, 0, 0, 0, 2, 9]" "Close 7 2"] by blast
qed

section \<open>Plugin frames\<close>

definition max_frame_bytes :: nat where "max_frame_bytes = 16 * 1024 * 1024"
definition length_prefix :: nat where "length_prefix = 4"

datatype frame_error =
    TooLarge nat
  | FrameMalformed
  | Unencodable
  | FrameVersion nat

definition encode_frame :: "('a \<Rightarrow> bytes option) \<Rightarrow> 'a \<Rightarrow> frame_error + bytes" where
  "encode_frame to_vec frame = (case to_vec frame of None \<Rightarrow> Inl Unencodable
     | Some body \<Rightarrow> Inr (be_bytes 4 (length body mod 2 ^ 32) @ body))"

definition decode_frame :: "(bytes \<Rightarrow> 'a option) \<Rightarrow> bytes \<Rightarrow> frame_error + ('a \<times> nat) option" where
  "decode_frame from_slice buf =
     (if length buf < length_prefix then Inr None
      else (let len = from_be (take 4 buf) in
        if len > max_frame_bytes then Inl (TooLarge len)
        else (let fin = length_prefix + len in
          if length buf < fin then Inr None
          else (case from_slice (take len (drop length_prefix buf)) of
                  None \<Rightarrow> Inl FrameMalformed
                | Some frame \<Rightarrow> Inr (Some (frame, fin))))))"

lemma decode_frame_cases:
  "decode_frame ds buf = Inr (Some (f, n)) \<longleftrightarrow>
     n = 4 + from_be (take 4 buf) \<and> n \<le> length buf \<and> from_be (take 4 buf) \<le> max_frame_bytes \<and>
     ds (take (n - 4) (drop 4 buf)) = Some f"
  by (auto simp: decode_frame_def Let_def length_prefix_def split: option.splits)

lemma decode_frame_stable:
  "decode_frame ds buf = Inr (Some r) \<Longrightarrow> decode_frame ds (buf @ more) = Inr (Some r)"
  by (cases r) (simp add: decode_frame_cases)

lemma decode_frame_used: "decode_frame ds buf = Inr (Some (f, n)) \<Longrightarrow> 0 < n \<and> n \<le> length buf"
  by (simp add: decode_frame_cases)

text \<open>The prefix of an encoded frame, read back.\<close>

lemma frame_prefix_value:
  assumes "length body \<le> max_frame_bytes"
  shows "from_be (be_bytes 4 (length body mod 2 ^ 32)) = length body"
  using assms be.dec_enc [of "length body" 4] by (simp add: max_frame_bytes_def del: be_bytes.simps)

text \<open>
  A frame whose body is within the ceiling survives the stream: with anything behind it,
  exactly it comes off the front, and every proper prefix of it is a wait and never an error.
\<close>

theorem frame_round_trip:
  assumes "to_vec f = Some body" and "from_slice body = Some f" and "length body \<le> max_frame_bytes"
  shows "\<exists>w. encode_frame to_vec f = Inr w \<and>
    decode_frame from_slice (w @ rest) = Inr (Some (f, length w)) \<and>
    (\<forall>n < length w. decode_frame from_slice (take n w) = Inr None)"
proof (intro exI conjI allI impI)
  let ?w = "be_bytes 4 (length body mod 2 ^ 32) @ body"
  note v = frame_prefix_value [OF assms(3)]
  show "encode_frame to_vec f = Inr ?w" using assms(1) by (simp add: encode_frame_def)
  show "decode_frame from_slice (?w @ rest) = Inr (Some (f, length ?w))"
    using v assms(2,3) by (simp add: decode_frame_cases del: be_bytes.simps)
  fix n assume "n < length ?w"
  then show "decode_frame from_slice (take n ?w) = Inr None"
    using v assms(3)
    by (auto simp: decode_frame_def Let_def length_prefix_def min_def simp del: be_bytes.simps)
qed

theorem frame_round_trip_witness:
  "\<exists>w. encode_frame (\<lambda>b :: bytes. Some b) [1, 2] = Inr w \<and>
     decode_frame Some (w @ [9]) = Inr (Some ([1, 2], length w))"
proof -
  have "length [1 :: 8 word, 2] \<le> max_frame_bytes" by (simp add: max_frame_bytes_def)
  then show ?thesis
    using frame_round_trip [of "\<lambda>b :: bytes. Some b" "[1, 2]" "[1, 2]" Some "[9]"] by blast
qed

text \<open>
  The writer does not hold itself to the reader's ceiling: a body over it (and under four
  gigabytes) encodes, and the frame it makes is refused, so the stream fails at the reader.
\<close>

theorem oversize_frame_encodes_and_is_refused:
  assumes "to_vec f = Some body" and "max_frame_bytes < length body" and "length body < 2 ^ 32"
  shows "\<exists>w. encode_frame to_vec f = Inr w \<and>
    decode_frame from_slice w = Inl (TooLarge (length body))"
proof (intro exI conjI)
  show "encode_frame to_vec f = Inr (be_bytes 4 (length body mod 2 ^ 32) @ body)"
    using assms(1) by (simp add: encode_frame_def)
  have "from_be (be_bytes 4 (length body)) = length body"
    using assms(3) be.dec_enc [of "length body" 4] by simp
  then show "decode_frame from_slice (be_bytes 4 (length body mod 2 ^ 32) @ body) =
      Inl (TooLarge (length body))"
    using assms(2,3) by (simp add: decode_frame_def Let_def length_prefix_def del: be_bytes.simps)
qed

theorem oversize_frame_encodes_and_is_refused_witness:
  "\<exists>w. encode_frame (\<lambda>b :: bytes. Some b) (replicate 16777217 0) = Inr w \<and>
     decode_frame (\<lambda>b. Some b) w = Inl (TooLarge 16777217)"
  using oversize_frame_encodes_and_is_refused
    [of "\<lambda>b :: bytes. Some b" "replicate 16777217 0" "replicate 16777217 0" "\<lambda>b. Some b"]
  by (simp add: max_frame_bytes_def)

section \<open>Address ranges\<close>

datatype ip_addr = V4 "32 word" | V6 "128 word"

record cidr =
  cidr_ip :: ip_addr
  cidr_prefix :: "8 word"

definition to_ipv4_mapped :: "128 word \<Rightarrow> 32 word option" where
  "to_ipv4_mapped a = (if drop_bit 32 a = 0xFFFF then Some (ucast a) else None)"

fun unmap :: "ip_addr \<Rightarrow> ip_addr" where
  "unmap (V6 a) = (case to_ipv4_mapped a of Some b \<Rightarrow> V4 b | None \<Rightarrow> V6 a)"
| "unmap (V4 a) = V4 a"

text \<open>The shift distance as the machine computes it: a wrapping subtraction, then masked.\<close>

definition shift_distance :: "nat \<Rightarrow> nat \<Rightarrow> nat" where
  "shift_distance w p = (2 ^ 32 + w - p) mod 2 ^ 32 mod w"

lemma shift_distance: "0 < p \<Longrightarrow> p \<le> w \<Longrightarrow> w < 2 ^ 32 \<Longrightarrow> shift_distance w p = w - p"
proof -
  assume "0 < p" "p \<le> w" "w < 2 ^ 32"
  then have "2 ^ 32 + w - p = w - p + 2 ^ 32" by simp
  then have "(2 ^ 32 + w - p) mod 2 ^ 32 = (w - p + 2 ^ 32) mod 2 ^ 32" by (rule arg_cong)
  also have "\<dots> = w - p" using \<open>w < 2 ^ 32\<close> by (subst mod_add_self2) simp
  finally show ?thesis using \<open>0 < p\<close> \<open>p \<le> w\<close> by (simp add: shift_distance_def)
qed

definition mask32 :: "8 word \<Rightarrow> 32 word" where
  "mask32 p = (if p = 0 then 0 else push_bit (shift_distance 32 (unat p)) (- 1))"

definition mask128 :: "8 word \<Rightarrow> 128 word" where
  "mask128 p = (if p = 0 then 0 else push_bit (shift_distance 128 (unat p)) (- 1))"

definition cidr_contains :: "cidr \<Rightarrow> ip_addr \<Rightarrow> bool" where
  "cidr_contains c a = (case (cidr_ip c, unmap a) of
     (V4 net, V4 b) \<Rightarrow> (let mask = mask32 (cidr_prefix c) in net AND mask = b AND mask)
   | (V6 net, V6 b) \<Rightarrow> (let mask = mask128 (cidr_prefix c) in net AND mask = b AND mask)
   | _ \<Rightarrow> False)"

fun is_ipv4 :: "ip_addr \<Rightarrow> bool" where
  "is_ipv4 (V4 _) = True"
| "is_ipv4 (V6 _) = False"

definition is_single :: "cidr \<Rightarrow> bool" where
  "is_single c \<longleftrightarrow> cidr_prefix c = (if is_ipv4 (cidr_ip c) then 32 else 128)"

lemma mask32_bit:
  assumes "unat p \<le> 32"
  shows "bit (mask32 p) i \<longleftrightarrow> i < 32 \<and> 32 - unat p \<le> i"
proof (cases "p = 0")
  case False
  then have "0 < unat p" by (simp add: unat_gt_0)
  with assms have "shift_distance 32 (unat p) = 32 - unat p" by (simp add: shift_distance)
  with False show ?thesis by (auto simp: mask32_def bit_not_iff bit_mask_iff dest: bit_imp_le_length)
qed (simp add: mask32_def)

lemma mask128_bit:
  assumes "unat p \<le> 128"
  shows "bit (mask128 p) i \<longleftrightarrow> i < 128 \<and> 128 - unat p \<le> i"
proof (cases "p = 0")
  case False
  then have "0 < unat p" by (simp add: unat_gt_0)
  with assms have "shift_distance 128 (unat p) = 128 - unat p" by (simp add: shift_distance)
  with False show ?thesis by (auto simp: mask128_def bit_not_iff bit_mask_iff dest: bit_imp_le_length)
qed (simp add: mask128_def)

lemma and_mask_eq:
  fixes a b m :: "'a::len word"
  shows "a AND m = b AND m \<longleftrightarrow> (\<forall>i < LENGTH('a). bit m i \<longrightarrow> bit a i = bit b i)"
  by (auto simp: bit_eq_iff bit_and_iff dest: bit_imp_le_length)

text \<open>
  A v4 range of prefix p holds exactly the addresses that agree with it on the top p
  bits, in either spelling of the address; a v6 range the same over its 128 bits, for addresses
  that are not a mapped v4.
\<close>

theorem cidr_contains_iff:
  "(unat p \<le> 32 \<longrightarrow>
     (cidr_contains \<lparr>cidr_ip = V4 net, cidr_prefix = p\<rparr> a \<longleftrightarrow>
      (\<exists>b. unmap a = V4 b \<and> (\<forall>i < 32. 32 - unat p \<le> i \<longrightarrow> bit net i = bit b i)))) \<and>
   (unat p \<le> 128 \<longrightarrow>
     (cidr_contains \<lparr>cidr_ip = V6 net6, cidr_prefix = p\<rparr> a \<longleftrightarrow>
      (\<exists>b. unmap a = V6 b \<and> (\<forall>i < 128. 128 - unat p \<le> i \<longrightarrow> bit net6 i = bit b i))))"
  by (auto simp: cidr_contains_def Let_def and_mask_eq mask32_bit mask128_bit
      split: ip_addr.splits)

theorem cidr_contains_iff_witness:
  "cidr_contains \<lparr>cidr_ip = V4 0x0A090000, cidr_prefix = 24\<rparr> (V6 0xFFFF0A090007) \<longleftrightarrow>
   (\<exists>b. unmap (V6 0xFFFF0A090007) = V4 b \<and>
     (\<forall>i < 32. 8 \<le> i \<longrightarrow> bit (0x0A090000 :: 32 word) i = bit b i))"
  using cidr_contains_iff [of 24 "0x0A090000" "V6 0xFFFF0A090007"] by simp

text \<open>
  The other direction of that promise fails: a range written as mapped v6 admits no
  mapped address, itself included, because only the address under test is unmapped.
\<close>

theorem mapped_range_admits_no_mapped_address:
  assumes "to_ipv4_mapped b = Some v"
  shows "\<not> cidr_contains \<lparr>cidr_ip = V6 net, cidr_prefix = p\<rparr> (V6 b) \<and>
    \<not> cidr_contains \<lparr>cidr_ip = V6 net, cidr_prefix = p\<rparr> (V4 v)"
  using assms by (simp add: cidr_contains_def)

theorem mapped_range_admits_no_mapped_address_witness:
  "\<not> cidr_contains \<lparr>cidr_ip = V6 0xFFFF0A090000, cidr_prefix = 120\<rparr> (V6 0xFFFF0A090000)"
proof -
  have "to_ipv4_mapped 0xFFFF0A090000 = Some 0x0A090000" by (simp add: to_ipv4_mapped_def)
  from mapped_range_admits_no_mapped_address [OF this, of _ 120] show ?thesis by blast
qed

end
