(* ===== verification/Plugin_Session.thy ===== *)
theory Plugin_Session
  imports Wire_Frames Msg_Value
begin

text \<open>
  One plugin's stream and every call on it: the frames of
  \<^verbatim>\<open>crates/drt-plugin/src/frame.rs\<close>, the channel of
  \<^verbatim>\<open>crates/drt-plugin/src/channel.rs\<close> and the session of
  \<^verbatim>\<open>crates/drt-plugin/src/session.rs\<close>.  The trait \<^verbatim>\<open>Channel\<close> is the record
  \<open>channel\<close> of its two methods and the locale \<open>byte_channel\<close> of what they promise; the loopback
  of the sources is its instance.  A poll that asks the channel until it has nothing takes fuel,
  since only the channel can end that loop; \<open>None\<close> is a poll that does not return, which is also
  what the panic of draining more than was offered is.  The msgpack library is a parameter.
\<close>

section \<open>Frames\<close>

definition protocol_version :: nat where "protocol_version = 1"

datatype error_class = ClassTransport | ClassPlugin | ClassCapability

record plugin_error =
  pe_class :: error_class
  pe_code :: string
  pe_message :: string

datatype reply_body = BodyOk val | BodyErr plugin_error

record plugin_request =
  pq_version :: nat
  pq_id :: nat
  pq_target :: string
  pq_args :: "val option"

record plugin_reply =
  py_version :: nat
  py_id :: nat
  py_final :: bool
  py_body :: reply_body

text \<open>The process-wide counter: the ids handed out so far, and the \<^verbatim>\<open>u64\<close> the next one is.\<close>

definition next_wire_id :: "nat \<Rightarrow> nat \<times> nat" where
  "next_wire_id n = (n mod 2 ^ 64, n + 1)"

record frame_codec =
  fc_write :: "plugin_request \<Rightarrow> bytes option"
  fc_read :: "bytes \<Rightarrow> plugin_reply option"
  fc_detail :: "frame_error \<Rightarrow> string"

definition frame_text :: "(frame_error \<Rightarrow> string) \<Rightarrow> frame_error \<Rightarrow> string" where
  "frame_text detail e = (case e of
     TooLarge len \<Rightarrow> ''plugin frame declares '' @ show_nat len @ '' bytes, over the '' @ show_nat max_frame_bytes
       @ ''-byte ceiling; the stream is desynced or the plugin is misframing''
   | FrameMalformed \<Rightarrow> ''plugin frame is not valid msgpack: '' @ detail e
   | Unencodable \<Rightarrow> ''plugin frame could not be encoded: '' @ detail e
   | FrameVersion found \<Rightarrow> ''plugin frame declares protocol version '' @ show_nat found
       @ '', and this host speaks '' @ show_nat protocol_version)"

section \<open>Channels\<close>

datatype channel_error = ChClosed | ChBroken string

definition channel_text :: "channel_error \<Rightarrow> string" where
  "channel_text e = (case e of ChClosed \<Rightarrow> ''the plugin closed the channel''
     | ChBroken why \<Rightarrow> ''the plugin channel failed: '' @ why)"

record 'c channel =
  write_some :: "bytes \<Rightarrow> 'c \<Rightarrow> (channel_error + nat) \<times> 'c"
  read_some :: "bytes \<Rightarrow> 'c \<Rightarrow> (channel_error + nat) \<times> bytes \<times> 'c"

record loopback =
  lb_to_peer :: bytes
  lb_from_peer :: bytes
  lb_write_limit :: "nat option"
  lb_capacity :: "nat option"
  lb_broken :: "channel_error option"

definition loopback_new :: loopback where
  "loopback_new = \<lparr>lb_to_peer = [], lb_from_peer = [], lb_write_limit = None, lb_capacity = None, lb_broken = None\<rparr>"

definition peer_take :: "loopback \<Rightarrow> bytes \<times> loopback" where
  "peer_take c = (lb_to_peer c, c\<lparr>lb_to_peer := []\<rparr>)"

definition peer_put :: "bytes \<Rightarrow> loopback \<Rightarrow> loopback" where
  "peer_put bs c = c\<lparr>lb_from_peer := lb_from_peer c @ bs\<rparr>"

definition loop_write :: "bytes \<Rightarrow> loopback \<Rightarrow> (channel_error + nat) \<times> loopback" where
  "loop_write bs c = (case lb_broken c of Some e \<Rightarrow> (Inl e, c)
   | None \<Rightarrow> (let room = (case lb_capacity c of Some cap \<Rightarrow> cap - length (lb_to_peer c) | None \<Rightarrow> length bs);
                  n = min (min (case lb_write_limit c of Some l \<Rightarrow> l | None \<Rightarrow> length bs) (length bs)) room
              in (Inr n, c\<lparr>lb_to_peer := lb_to_peer c @ take n bs\<rparr>)))"

definition loop_read :: "bytes \<Rightarrow> loopback \<Rightarrow> (channel_error + nat) \<times> bytes \<times> loopback" where
  "loop_read out c = (case lb_broken c of Some e \<Rightarrow> (Inl e, out, c)
   | None \<Rightarrow> (Inr (length (lb_from_peer c)), out @ lb_from_peer c, c\<lparr>lb_from_peer := []\<rparr>))"

definition loopback_channel :: "loopback channel" where
  "loopback_channel = \<lparr>write_some = loop_write, read_some = loop_read\<rparr>"

section \<open>The session\<close>

datatype session_error =
    SeChannel channel_error
  | SeFrame frame_error
  | SeStreamed nat
  | SeUnasked nat
  | SeSaturated nat

definition session_text :: "(frame_error \<Rightarrow> string) \<Rightarrow> session_error \<Rightarrow> string" where
  "session_text detail e = (case e of
     SeChannel c \<Rightarrow> ''the plugin channel failed: '' @ channel_text c
   | SeFrame f \<Rightarrow> ''the plugin sent a frame this host cannot read: '' @ frame_text detail f
   | SeStreamed n \<Rightarrow> ''the plugin answered call '' @ show_nat n
       @ '' with a non-final reply, and this host does not consume streamed replies''
   | SeUnasked n \<Rightarrow> ''the plugin answered call '' @ show_nat n @ '', which this host never made''
   | SeSaturated n \<Rightarrow> ''the plugin has '' @ show_nat n
       @ '' calls outstanding, its max_inflight; the call was not sent'')"

record 'c session =
  se_channel :: 'c
  se_outbound :: bytes
  se_inbound :: bytes
  se_ready :: "nat \<Rightarrow> plugin_reply option"
  se_live :: "nat set"
  se_abandoned :: "nat set"
  se_failed :: "string option"
  se_max_inflight :: nat

definition session_new :: "'c \<Rightarrow> nat \<Rightarrow> 'c session" where
  "session_new c max_inflight = \<lparr>se_channel = c, se_outbound = [], se_inbound = [], se_ready = (\<lambda>_. None),
     se_live = {}, se_abandoned = {}, se_failed = None, se_max_inflight = max_inflight\<rparr>"

definition se_in_flight :: "'c session \<Rightarrow> nat" where
  "se_in_flight s = card (se_live s)"

definition check_failed :: "'c session \<Rightarrow> session_error option" where
  "check_failed s = map_option (\<lambda>why. SeChannel (ChBroken why)) (se_failed s)"

definition se_fail :: "frame_codec \<Rightarrow> session_error \<Rightarrow> 'c session \<Rightarrow> 'c session" where
  "se_fail fc e s = (if se_failed s = None then s\<lparr>se_failed := Some (session_text (fc_detail fc) e)\<rparr> else s)"

text \<open>\<open>begin\<close> takes the process-wide counter and hands it back.\<close>

definition se_begin :: "frame_codec \<Rightarrow> string \<Rightarrow> val option \<Rightarrow> nat \<Rightarrow> 'c session
    \<Rightarrow> (session_error + nat) \<times> nat \<times> 'c session" where
  "se_begin fc target args n s = (case check_failed s of Some e \<Rightarrow> (Inl e, n, s)
   | None \<Rightarrow>
      (if se_max_inflight s \<noteq> 0 \<and> se_in_flight s \<ge> se_max_inflight s then (Inl (SeSaturated (se_in_flight s)), n, s)
       else (case next_wire_id n of (i, n1) \<Rightarrow>
         (case encode_frame (fc_write fc) \<lparr>pq_version = protocol_version, pq_id = i, pq_target = target, pq_args = args\<rparr> of
            Inl e \<Rightarrow> (Inl (SeFrame e), n1, se_fail fc (SeFrame e) s)
          | Inr bs \<Rightarrow> (Inr i, n1, s\<lparr>se_outbound := se_outbound s @ bs, se_live := insert i (se_live s)\<rparr>)))))"

definition se_take :: "nat \<Rightarrow> 'c session \<Rightarrow> (session_error + plugin_reply option) \<times> 'c session" where
  "se_take i s = (case check_failed s of Some e \<Rightarrow> (Inl e, s)
   | None \<Rightarrow> (case se_ready s i of
        Some r \<Rightarrow> (Inr (Some r), s\<lparr>se_ready := (se_ready s)(i := None), se_live := se_live s - {i}\<rparr>)
      | None \<Rightarrow> (Inr None, s)))"

definition se_abandon :: "nat \<Rightarrow> 'c session \<Rightarrow> 'c session" where
  "se_abandon i s = (let s1 = (if i \<in> se_live s then s\<lparr>se_live := se_live s - {i}, se_abandoned := insert i (se_abandoned s)\<rparr> else s)
     in s1\<lparr>se_ready := (se_ready s1)(i := None)\<rparr>)"

text \<open>Flushing: the bytes left over shrink with every turn.\<close>

function se_flush :: "frame_codec \<Rightarrow> 'c channel \<Rightarrow> 'c session \<Rightarrow> ((session_error + unit) \<times> 'c session) option" where
  "se_flush fc ch s =
     (if se_outbound s = [] then Some (Inr (), s)
      else (case write_some ch (se_outbound s) (se_channel s) of
         (Inl e, c) \<Rightarrow> Some (Inl (SeChannel e), se_fail fc (SeChannel e) (s\<lparr>se_channel := c\<rparr>))
       | (Inr n, c) \<Rightarrow>
          (if n = 0 then Some (Inr (), s\<lparr>se_channel := c\<rparr>)
           else if length (se_outbound s) < n then None
           else se_flush fc ch (s\<lparr>se_channel := c, se_outbound := drop n (se_outbound s)\<rparr>))))"
  by pat_completeness auto
termination by (relation "measure (\<lambda>(fc, ch, s). length (se_outbound s))") auto

declare se_flush.simps [simp del]

fun se_fill :: "nat \<Rightarrow> frame_codec \<Rightarrow> 'c channel \<Rightarrow> 'c session \<Rightarrow> ((session_error + unit) \<times> 'c session) option" where
  "se_fill 0 fc ch s = None"
| "se_fill (Suc fuel) fc ch s = (case read_some ch (se_inbound s) (se_channel s) of
     (Inl e, inb, c) \<Rightarrow> Some (Inl (SeChannel e), se_fail fc (SeChannel e) (s\<lparr>se_inbound := inb, se_channel := c\<rparr>))
   | (Inr n, inb, c) \<Rightarrow> (if n = 0 then Some (Inr (), s\<lparr>se_inbound := inb, se_channel := c\<rparr>)
        else se_fill fuel fc ch (s\<lparr>se_inbound := inb, se_channel := c\<rparr>)))"

text \<open>One decoded reply, filed.\<close>

definition se_file :: "frame_codec \<Rightarrow> plugin_reply \<Rightarrow> 'c session \<Rightarrow> (session_error + unit) \<times> 'c session" where
  "se_file fc r s =
     (if py_version r \<noteq> protocol_version then
        (Inl (SeFrame (FrameVersion (py_version r))), se_fail fc (SeFrame (FrameVersion (py_version r))) s)
      else if \<not> py_final r then (Inl (SeStreamed (py_id r)), se_fail fc (SeStreamed (py_id r)) s)
      else if py_id r \<in> se_abandoned s then (Inr (), s\<lparr>se_abandoned := se_abandoned s - {py_id r}\<rparr>)
      else if py_id r \<notin> se_live s then (Inl (SeUnasked (py_id r)), se_fail fc (SeUnasked (py_id r)) s)
      else (Inr (), s\<lparr>se_ready := (se_ready s)(py_id r := Some r)\<rparr>))"

lemma se_file_inbound: "se_inbound (snd (se_file fc r s)) = se_inbound s"
  by (simp add: se_file_def se_fail_def)

function se_sort :: "frame_codec \<Rightarrow> 'c session \<Rightarrow> (session_error + unit) \<times> 'c session" where
  "se_sort fc s = (case decode_frame (fc_read fc) (se_inbound s) of
     Inl e \<Rightarrow> (Inl (SeFrame e), se_fail fc (SeFrame e) s)
   | Inr None \<Rightarrow> (Inr (), s)
   | Inr (Some (r, used)) \<Rightarrow> (case se_file fc r (s\<lparr>se_inbound := drop used (se_inbound s)\<rparr>) of
        (Inl e, s1) \<Rightarrow> (Inl e, s1) | (Inr _, s1) \<Rightarrow> se_sort fc s1))"
  by pat_completeness auto
termination
proof (relation "measure (\<lambda>(fc, s). length (se_inbound s))")
  fix fc and s s1 :: "'c session" and x2 x r used y u
  assume "decode_frame (fc_read fc) (se_inbound s) = Inr x2" "x2 = Some x" "(r, used) = x"
    "(y, s1) = se_file fc r (s\<lparr>se_inbound := drop used (se_inbound s)\<rparr>)"
  moreover have "se_inbound s1 = drop used (se_inbound s)"
    using se_file_inbound [of fc r "s\<lparr>se_inbound := drop used (se_inbound s)\<rparr>"] calculation(4) by (metis session.select_convs(3) session.update_convs(3) snd_conv session.surjective)
  ultimately show "((fc, s1), (fc, s)) \<in> measure (\<lambda>(fc, s). length (se_inbound s))"
    using decode_frame_used [of "fc_read fc" "se_inbound s" r used] by auto
qed simp

declare se_sort.simps [simp del]

definition se_poll :: "nat \<Rightarrow> frame_codec \<Rightarrow> 'c channel \<Rightarrow> 'c session \<Rightarrow> ((session_error + unit) \<times> 'c session) option" where
  "se_poll fuel fc ch s = (case check_failed s of Some e \<Rightarrow> Some (Inl e, s)
   | None \<Rightarrow> (case se_flush fc ch s of None \<Rightarrow> None | Some (Inl e, s1) \<Rightarrow> Some (Inl e, s1)
     | Some (Inr _, s1) \<Rightarrow> (case se_fill fuel fc ch s1 of None \<Rightarrow> None | Some (Inl e, s2) \<Rightarrow> Some (Inl e, s2)
        | Some (Inr _, s2) \<Rightarrow> Some (se_sort fc s2))))"

section \<open>What a channel promises\<close>

lemma se_fail_simps [simp]:
  "se_channel (se_fail fc e s) = se_channel s" "se_outbound (se_fail fc e s) = se_outbound s"
  "se_inbound (se_fail fc e s) = se_inbound s" "se_ready (se_fail fc e s) = se_ready s"
  "se_live (se_fail fc e s) = se_live s" "se_abandoned (se_fail fc e s) = se_abandoned s"
  "se_max_inflight (se_fail fc e s) = se_max_inflight s" "se_failed (se_fail fc e s) \<noteq> None"
  by (simp_all add: se_fail_def)

text \<open>
  \<open>gone\<close> is all a channel has accepted to write so far, and \<open>due\<close> what has arrived and has not
  been read.  A write takes a front part of what it was offered, a read moves a front part of what is due.
\<close>

locale byte_channel =
  fixes wr :: "bytes \<Rightarrow> 'c \<Rightarrow> (channel_error + nat) \<times> 'c"
    and rd :: "bytes \<Rightarrow> 'c \<Rightarrow> (channel_error + nat) \<times> bytes \<times> 'c"
    and gone :: "'c \<Rightarrow> bytes" and due :: "'c \<Rightarrow> bytes"
  assumes wr_ok: "wr bs c = (Inr n, c') \<Longrightarrow> n \<le> length bs \<and> gone c' = gone c @ take n bs \<and> due c' = due c"
    and wr_err: "wr bs c = (Inl e, c') \<Longrightarrow> gone c' = gone c \<and> due c' = due c"
    and rd_ok: "rd out c = (Inr n, out', c') \<Longrightarrow>
      n \<le> length (due c) \<and> out' = out @ take n (due c) \<and> due c' = drop n (due c) \<and> gone c' = gone c"
    and rd_err: "rd out c = (Inl e, out', c') \<Longrightarrow> out' = out \<and> gone c' = gone c \<and> due c' = due c"
begin

text \<open>Flushing returns, and no byte is lost, doubled or reordered, however little the peer takes.\<close>

lemma flush_returns: "se_flush fc \<lparr>write_some = wr, read_some = rd\<rparr> s \<noteq> None"
proof (induction "length (se_outbound s)" arbitrary: s rule: less_induct)
  case less
  show ?case
  proof (cases "se_outbound s = []")
    case False
    obtain r c where w: "wr (se_outbound s) (se_channel s) = (r, c)" by fastforce
    show ?thesis
    proof (cases r)
      case (Inr n)
      have n: "n \<le> length (se_outbound s)" using wr_ok w Inr by blast
      show ?thesis
      proof (cases "n = 0")
        case False
        then have "se_flush fc \<lparr>write_some = wr, read_some = rd\<rparr> (s\<lparr>se_channel := c, se_outbound := drop n (se_outbound s)\<rparr>) \<noteq> None"
          using less \<open>se_outbound s \<noteq> []\<close> by simp
        then show ?thesis using w Inr n False by (simp add: se_flush.simps [of fc _ s])
      qed (use w Inr in \<open>simp add: se_flush.simps [of fc _ s]\<close>)
    qed (use w in \<open>simp add: se_flush.simps [of fc _ s]\<close>)
  qed (simp add: se_flush.simps)
qed

lemma flush_stream:
  "se_flush fc \<lparr>write_some = wr, read_some = rd\<rparr> s = Some (r, s') \<Longrightarrow>
    gone (se_channel s') @ se_outbound s' = gone (se_channel s) @ se_outbound s \<and>
    due (se_channel s') = due (se_channel s) \<and> se_inbound s' = se_inbound s \<and> se_ready s' = se_ready s \<and>
    se_live s' = se_live s \<and> se_abandoned s' = se_abandoned s \<and> se_max_inflight s' = se_max_inflight s \<and>
    (r = Inr () \<longrightarrow> se_failed s' = se_failed s)"
proof (induction "length (se_outbound s)" arbitrary: s rule: less_induct)
  case less
  show ?case
  proof (cases "se_outbound s = []")
    case False
    obtain x c where w: "wr (se_outbound s) (se_channel s) = (x, c)" by fastforce
    show ?thesis
    proof (cases x)
      case (Inl e)
      then show ?thesis using w less.prems wr_err False by (auto simp: se_flush.simps [of fc _ s])
    next
      case (Inr n)
      note ok = wr_ok [OF w [unfolded Inr]]
      let ?s = "s\<lparr>se_channel := c, se_outbound := drop n (se_outbound s)\<rparr>"
      show ?thesis
      proof (cases "n = 0")
        case True
        then show ?thesis using w Inr less.prems ok False by (auto simp: se_flush.simps [of fc _ s])
      next
        case n: False
        then have "se_flush fc \<lparr>write_some = wr, read_some = rd\<rparr> ?s = Some (r, s')"
          using w Inr less.prems ok False by (simp add: se_flush.simps [of fc _ s])
        then show ?thesis using less.hyps [of ?s] ok n False by simp
      qed
    qed
  qed (use less.prems in \<open>auto simp: se_flush.simps\<close>)
qed

text \<open>So does filling, given fuel for one turn for each byte that is due and one to see there are no more.\<close>

lemma fill_returns: "length (due (se_channel s)) < fuel \<Longrightarrow> se_fill fuel fc \<lparr>write_some = wr, read_some = rd\<rparr> s \<noteq> None"
proof (induction fuel arbitrary: s)
  case (Suc fuel)
  obtain x inb c where r: "rd (se_inbound s) (se_channel s) = (x, inb, c)" by (cases "rd (se_inbound s) (se_channel s)") auto
  show ?case
  proof (cases x)
    case (Inr n)
    note ok = rd_ok [OF r [unfolded Inr]]
    show ?thesis
    proof (cases "n = 0")
      case False
      then have "length (due c) < fuel" using ok Suc.prems by (simp, linarith)
      then show ?thesis using Suc.IH [of "s\<lparr>se_inbound := inb, se_channel := c\<rparr>"] r Inr by simp
    qed (use r Inr in simp)
  qed (use r in simp)
qed simp

lemma fill_stream:
  "se_fill fuel fc \<lparr>write_some = wr, read_some = rd\<rparr> s = Some (r, s') \<Longrightarrow>
    se_inbound s' @ due (se_channel s') = se_inbound s @ due (se_channel s) \<and>
    gone (se_channel s') = gone (se_channel s) \<and> se_outbound s' = se_outbound s \<and> se_ready s' = se_ready s \<and>
    se_live s' = se_live s \<and> se_abandoned s' = se_abandoned s \<and> se_max_inflight s' = se_max_inflight s \<and>
    (r = Inr () \<longrightarrow> se_failed s' = se_failed s)"
proof (induction fuel arbitrary: s)
  case (Suc fuel)
  obtain x inb c where rd: "rd (se_inbound s) (se_channel s) = (x, inb, c)" by (cases "rd (se_inbound s) (se_channel s)") auto
  show ?case
  proof (cases x)
    case (Inl e)
    then show ?thesis using rd Suc.prems rd_err by auto
  next
    case (Inr n)
    note ok = rd_ok [OF rd [unfolded Inr]]
    show ?thesis
    proof (cases "n = 0")
      case False
      then show ?thesis using Suc.IH [of "s\<lparr>se_inbound := inb, se_channel := c\<rparr>"] Suc.prems rd Inr ok by simp
    qed (use Suc.prems rd Inr ok in auto)
  qed
qed simp

end

interpretation lb: byte_channel loop_write loop_read lb_to_peer lb_from_peer
  by unfold_locales (auto simp: loop_write_def loop_read_def Let_def split: option.splits)

section \<open>Sorting\<close>

definition se_same :: "'c session \<Rightarrow> 'c session \<Rightarrow> bool" where
  "se_same s s' \<longleftrightarrow> se_channel s' = se_channel s \<and> se_outbound s' = se_outbound s \<and>
     se_live s' = se_live s \<and> se_max_inflight s' = se_max_inflight s"

lemma se_same_refl [simp, intro]: "se_same s s"
  by (simp add: se_same_def)

lemma se_file_same: "se_same s (snd (se_file fc r s))"
  by (simp add: se_file_def se_same_def)

lemma sort_same: "se_same s (snd (se_sort fc s))"
proof (induction fc s rule: se_sort.induct)
  case (1 fc s)
  show ?case
  proof (cases "\<exists>r used. decode_frame (fc_read fc) (se_inbound s) = Inr (Some (r, used))")
    case True
    then obtain r used where d: "decode_frame (fc_read fc) (se_inbound s) = Inr (Some (r, used))" by blast
    let ?s = "s\<lparr>se_inbound := drop used (se_inbound s)\<rparr>"
    obtain x s1 where f: "se_file fc r ?s = (x, s1)" by fastforce
    have "se_same s s1" using se_file_same [of ?s fc r] f by (simp add: se_same_def)
    moreover have "x = Inr () \<Longrightarrow> se_same s1 (snd (se_sort fc s1))" using "1.IH" [OF d refl refl f [symmetric]] by simp
    ultimately show ?thesis using d f by (cases x) (auto simp: se_sort.simps [of fc s] se_same_def)
  next
    case False
    then show ?thesis by (auto simp: se_sort.simps [of fc s] se_same_def split: sum.splits option.splits)
  qed
qed


text \<open>More bytes behind what was read change nothing of what was filed, so it does not matter how the stream was cut.\<close>

lemma se_file_inbound_update:
  "se_file fc r (s\<lparr>se_inbound := b\<rparr>) = (fst (se_file fc r s), (snd (se_file fc r s))\<lparr>se_inbound := b\<rparr>)"
  by (simp add: se_file_def se_fail_def)

lemma sort_step:
  assumes "decode_frame (fc_read fc) (se_inbound s) = Inr (Some (r, used))"
    and "se_file fc r (s\<lparr>se_inbound := drop used (se_inbound s)\<rparr>) = (Inr (), s1)"
  shows "se_sort fc s = se_sort fc s1"
  using assms by (simp add: se_sort.simps [of fc s])

lemma sort_cut:
  "se_sort fc s = (Inr (), s1) \<Longrightarrow>
    se_sort fc (s\<lparr>se_inbound := se_inbound s @ tail\<rparr>) = se_sort fc (s1\<lparr>se_inbound := se_inbound s1 @ tail\<rparr>)"
proof (induction fc s arbitrary: s1 rule: se_sort.induct)
  case (1 fc s)
  show ?case
  proof (cases "\<exists>r used. decode_frame (fc_read fc) (se_inbound s) = Inr (Some (r, used))")
    case True
    then obtain r used where d: "decode_frame (fc_read fc) (se_inbound s) = Inr (Some (r, used))" by blast
    let ?s = "s\<lparr>se_inbound := drop used (se_inbound s)\<rparr>"
    obtain x s2 where f: "se_file fc r ?s = (x, s2)" by fastforce
    have x: "x = Inr ()" using "1.prems" d f by (cases x) (simp_all add: se_sort.simps [of fc s])
    then have rest: "se_sort fc s2 = (Inr (), s1)" using "1.prems" sort_step [OF d] f by simp
    have used: "used \<le> length (se_inbound s)" using decode_frame_used [OF d] by simp
    have i2: "se_inbound s2 = drop used (se_inbound s)" using se_file_inbound [of fc r ?s] f by simp
    let ?t = "s\<lparr>se_inbound := se_inbound s @ tail\<rparr>"
    have "se_file fc r (?t\<lparr>se_inbound := drop used (se_inbound ?t)\<rparr>) = (Inr (), s2\<lparr>se_inbound := se_inbound s2 @ tail\<rparr>)"
      using se_file_inbound_update [where s = ?s and fc = fc and r = r and b = "se_inbound s2 @ tail"] f x used i2 by simp
    moreover have "decode_frame (fc_read fc) (se_inbound ?t) = Inr (Some (r, used))"
      using decode_frame_stable [OF d] by simp
    ultimately have "se_sort fc ?t = se_sort fc (s2\<lparr>se_inbound := se_inbound s2 @ tail\<rparr>)" using sort_step by blast
    also have "\<dots> = se_sort fc (s1\<lparr>se_inbound := se_inbound s1 @ tail\<rparr>)"
      using "1.IH" [OF d refl refl f [symmetric, unfolded x] refl rest] by simp
    finally show ?thesis .
  next
    case False
    then have "s1 = s" using "1.prems" by (auto simp: se_sort.simps [of fc s] split: sum.splits option.splits)
    then show ?thesis by simp
  qed
qed

text \<open>A whole frame of a reply, and a batch of them.\<close>

definition framed :: "frame_codec \<Rightarrow> plugin_reply \<Rightarrow> bytes \<Rightarrow> bool" where
  "framed fc r w \<longleftrightarrow> (\<exists>body. fc_read fc body = Some r \<and> length body \<le> max_frame_bytes \<and> w = be_bytes 4 (length body) @ body)"

definition askable :: "'c session \<Rightarrow> plugin_reply \<Rightarrow> bool" where
  "askable s r \<longleftrightarrow> py_version r = protocol_version \<and> py_final r \<and> py_id r \<in> se_live s \<union> se_abandoned s"

lemma framed_decode: "framed fc r w \<Longrightarrow> decode_frame (fc_read fc) (w @ rest) = Inr (Some (r, length w))"
proof -
  assume "framed fc r w"
  then obtain body where b: "fc_read fc body = Some r" "length body \<le> max_frame_bytes" "w = be_bytes 4 (length body) @ body"
    by (auto simp: framed_def)
  have "from_be (be_bytes 4 (length body)) = length body"
    using b(2) be.dec_enc [of "length body" 4] by (simp add: max_frame_bytes_def del: be_bytes.simps)
  then show ?thesis using b by (simp add: decode_frame_cases del: be_bytes.simps)
qed

definition filed :: "plugin_reply list \<Rightarrow> 'c session \<Rightarrow> nat \<Rightarrow> plugin_reply option" where
  "filed rs s = se_ready s ++ map_of (map (\<lambda>r. (py_id r, r)) (filter (\<lambda>r. py_id r \<notin> se_abandoned s) rs))"

lemma sort_batch:
  "list_all2 (framed fc) rs ws \<Longrightarrow> se_inbound s = concat ws @ tail \<Longrightarrow> decode_frame (fc_read fc) tail = Inr None \<Longrightarrow>
    distinct (map py_id rs) \<Longrightarrow> \<forall>r\<in>set rs. askable s r \<Longrightarrow>
    se_sort fc s = (Inr (), s\<lparr>se_inbound := tail, se_ready := filed rs s,
      se_abandoned := se_abandoned s - py_id ` set rs\<rparr>)"
proof (induction rs ws arbitrary: s rule: list_all2_induct)
  case Nil
  then show ?case by (simp add: se_sort.simps [of fc s] filed_def)
next
  case (Cons r rs w ws)
  let ?in = "concat ws @ tail"
  let ?s = "if py_id r \<in> se_abandoned s then s\<lparr>se_inbound := ?in, se_abandoned := se_abandoned s - {py_id r}\<rparr>
    else s\<lparr>se_inbound := ?in, se_ready := (se_ready s)(py_id r := Some r)\<rparr>"
  have d: "decode_frame (fc_read fc) (se_inbound s) = Inr (Some (r, length w))"
    using framed_decode [OF Cons.hyps(1), of ?in] Cons.prems(1) by simp
  have f: "se_file fc r (s\<lparr>se_inbound := drop (length w) (se_inbound s)\<rparr>) = (Inr (), ?s)"
    using Cons.prems(1,4) by (auto simp: se_file_def askable_def)
  have other: "py_id r' \<noteq> py_id r" if "r' \<in> set rs" for r'
  proof
    assume "py_id r' = py_id r"
    then have "py_id r \<in> py_id ` set rs" using that by (metis imageI)
    then show False using Cons.prems(3) by simp
  qed
  have ask: "\<forall>r'\<in>set rs. askable ?s r'" using Cons.prems(4) other by (simp add: askable_def)
  have "se_sort fc s = se_sort fc ?s" by (rule sort_step [OF d f])
  also have "\<dots> = (Inr (), ?s\<lparr>se_inbound := tail, se_ready := filed rs ?s, se_abandoned := se_abandoned ?s - py_id ` set rs\<rparr>)"
    using Cons.IH [of ?s] Cons.prems(2,3) ask by simp
  also have "filed rs ?s = filed (r # rs) s"
  proof -
    have "map_of (map (\<lambda>r. (py_id r, r)) (filter P rs)) (py_id r) = None" for P
      using Cons.prems(3) by (auto simp: map_of_eq_None_iff)
    moreover have "filter (\<lambda>x. py_id x \<in> se_abandoned s \<longrightarrow> py_id x = py_id r) rs = filter (\<lambda>x. py_id x \<notin> se_abandoned s) rs"
      by (rule filter_cong) (use other in auto)
    ultimately show ?thesis by (auto simp: filed_def fun_eq_iff map_add_def split: option.splits)
  qed
  finally show ?case by (auto simp: Diff_insert2 [symmetric])
qed

section \<open>Runs of a session\<close>

text \<open>
  A session over a loopback, its peer, and the rest of the process taking ids.  A run carries the
  ids handed out so far, the frames begun and what the peer has taken.
\<close>

inductive plug_run :: "frame_codec \<Rightarrow> nat \<Rightarrow> nat \<Rightarrow> loopback session \<Rightarrow> bytes \<Rightarrow> bytes \<Rightarrow> bool"
  for fc :: frame_codec and mx :: nat where
  run_start: "lb_to_peer c = [] \<Longrightarrow> plug_run fc mx n (session_new c mx) [] []"
| run_other: "plug_run fc mx n s asked taken \<Longrightarrow> plug_run fc mx (n + 1) s asked taken"
| run_begin: "plug_run fc mx n s asked taken \<Longrightarrow> se_begin fc target args n s = (r, n', s') \<Longrightarrow>
    se_outbound s' = se_outbound s @ bs \<Longrightarrow> plug_run fc mx n' s' (asked @ bs) taken"
| run_poll: "plug_run fc mx n s asked taken \<Longrightarrow> se_poll fuel fc loopback_channel s = Some (x, s') \<Longrightarrow>
    plug_run fc mx n s' asked taken"
| run_take: "plug_run fc mx n s asked taken \<Longrightarrow> se_take i s = (y, s') \<Longrightarrow> plug_run fc mx n s' asked taken"
| run_abandon: "plug_run fc mx n s asked taken \<Longrightarrow> plug_run fc mx n (se_abandon i s) asked taken"
| run_peer_take: "plug_run fc mx n s asked taken \<Longrightarrow> peer_take (se_channel s) = (bs, c) \<Longrightarrow>
    plug_run fc mx n (s\<lparr>se_channel := c\<rparr>) asked (taken @ bs)"
| run_peer_put: "plug_run fc mx n s asked taken \<Longrightarrow>
    plug_run fc mx n (s\<lparr>se_channel := peer_put bs (se_channel s)\<rparr>) asked taken"
| run_peer_breaks: "plug_run fc mx n s asked taken \<Longrightarrow>
    plug_run fc mx n (s\<lparr>se_channel := (se_channel s)\<lparr>lb_broken := b\<rparr>\<rparr>) asked taken"

definition session_ok :: "nat \<Rightarrow> 'c session \<Rightarrow> bool" where
  "session_ok n s \<longleftrightarrow> finite (se_live s) \<and> dom (se_ready s) \<subseteq> se_live s \<and> se_live s \<inter> se_abandoned s = {} \<and>
     (\<forall>i\<in>se_live s \<union> se_abandoned s. i < n) \<and>
     (se_max_inflight s \<noteq> 0 \<longrightarrow> se_in_flight s \<le> se_max_inflight s) \<and>
     (\<forall>i r. se_ready s i = Some r \<longrightarrow> py_id r = i \<and> py_final r \<and> py_version r = protocol_version)"

lemma file_ok: "session_ok n s \<Longrightarrow> session_ok n (snd (se_file fc r s))"
  by (auto simp: session_ok_def se_file_def se_in_flight_def)

lemma sort_ok: "session_ok n s \<Longrightarrow> session_ok n (snd (se_sort fc s))"
proof (induction fc s rule: se_sort.induct)
  case (1 fc s)
  show ?case
  proof (cases "\<exists>r used. decode_frame (fc_read fc) (se_inbound s) = Inr (Some (r, used))")
    case True
    then obtain r used where d: "decode_frame (fc_read fc) (se_inbound s) = Inr (Some (r, used))" by blast
    let ?s = "s\<lparr>se_inbound := drop used (se_inbound s)\<rparr>"
    obtain x s1 where f: "se_file fc r ?s = (x, s1)" by fastforce
    have "session_ok n ?s" using "1.prems" by (simp add: session_ok_def se_in_flight_def)
    then have "session_ok n s1" using file_ok [of n ?s fc r] f by simp
    then show ?thesis using "1.IH" [OF d refl refl f [symmetric]] d f
      by (cases x) (auto simp: se_sort.simps [of fc s])
  next
    case False
    then show ?thesis using "1.prems"
      by (auto simp: se_sort.simps [of fc s] session_ok_def se_in_flight_def split: sum.splits option.splits)
  qed
qed

lemma ok_same:
  "session_ok n s \<Longrightarrow> se_ready s' = se_ready s \<and> se_live s' = se_live s \<and> se_abandoned s' = se_abandoned s \<and>
    se_max_inflight s' = se_max_inflight s \<Longrightarrow> session_ok n s'"
  by (simp add: session_ok_def se_in_flight_def)

text \<open>A poll over a channel that keeps its promises: the invariant, and the stream.\<close>

lemma poll_keeps:
  assumes "byte_channel wr rd gone due"
    and "se_poll fuel fc \<lparr>write_some = wr, read_some = rd\<rparr> s = Some (x, s')"
  shows "session_ok n s \<Longrightarrow> session_ok n s'" and "se_live s' = se_live s \<and> se_max_inflight s' = se_max_inflight s"
    and "gone (se_channel s') @ se_outbound s' = gone (se_channel s) @ se_outbound s"
proof -
  let ?ch = "\<lparr>write_some = wr, read_some = rd\<rparr>"
  have "(session_ok n s \<longrightarrow> session_ok n s') \<and> se_live s' = se_live s \<and> se_max_inflight s' = se_max_inflight s \<and>
    gone (se_channel s') @ se_outbound s' = gone (se_channel s) @ se_outbound s"
  proof (cases "check_failed s")
    case None
    then obtain r1 s1 where fl: "se_flush fc ?ch s = Some (r1, s1)"
      using assms(2) by (auto simp: se_poll_def split: option.splits)
    note a = byte_channel.flush_stream [OF assms(1) fl]
    show ?thesis
    proof (cases r1)
      case (Inl e)
      then have "s' = s1" using assms(2) None fl by (simp add: se_poll_def)
      then show ?thesis using a ok_same [of n s s1] by simp
    next
      case (Inr u)
      then obtain r2 s2 where fi: "se_fill fuel fc ?ch s1 = Some (r2, s2)"
        using assms(2) None fl by (auto simp: se_poll_def split: option.splits)
      note b = byte_channel.fill_stream [OF assms(1) fi]
      have s2: "session_ok n s \<longrightarrow> session_ok n s2" using a b ok_same [of n s s2] by simp
      show ?thesis
      proof (cases r2)
        case (Inl e)
        then have "s' = s2" using assms(2) None fl Inr fi by (simp add: se_poll_def)
        then show ?thesis using a b s2 by simp
      next
        case (Inr v)
        then have "s' = snd (se_sort fc s2)" using assms(2) None fl \<open>r1 = Inr u\<close> fi by (simp add: se_poll_def)
        then show ?thesis using a b s2 sort_ok [of n s2 fc] sort_same [of s2 fc] by (simp add: se_same_def)
      qed
    qed
  qed (use assms(2) in \<open>simp add: se_poll_def\<close>)
  then show "session_ok n s \<Longrightarrow> session_ok n s'" and "se_live s' = se_live s \<and> se_max_inflight s' = se_max_inflight s"
    and "gone (se_channel s') @ se_outbound s' = gone (se_channel s) @ se_outbound s" by blast+
qed

lemmas loop_poll_keeps = poll_keeps [OF lb.byte_channel_axioms, folded loopback_channel_def]

lemma begin_cases:
  assumes "se_begin fc target args n s = (r, n', s')"
  shows "(\<exists>e. r = Inl e \<and> n \<le> n' \<and> n' \<le> n + 1 \<and> (s' = s \<or> s' = se_fail fc e s)) \<or>
    (\<exists>bs. r = Inr (n mod 2 ^ 64) \<and> n' = n + 1 \<and> se_failed s = None \<and>
      (se_max_inflight s \<noteq> 0 \<longrightarrow> se_in_flight s < se_max_inflight s) \<and>
      s' = s\<lparr>se_outbound := se_outbound s @ bs, se_live := insert (n mod 2 ^ 64) (se_live s)\<rparr>)"
  using assms
  by (auto simp: se_begin_def next_wire_id_def check_failed_def split: if_splits option.splits sum.splits)

lemma ok_mono:
  assumes "session_ok n s" and "n \<le> n'" shows "session_ok n' s"
proof -
  have "i < n'" if "i \<in> se_live s \<union> se_abandoned s" for i
    using that assms by (auto simp: session_ok_def intro: less_le_trans)
  then show ?thesis using assms(1) by (simp add: session_ok_def)
qed

lemma begin_ok:
  assumes "se_begin fc target args n s = (r, n', s')" and "n' \<le> 2 ^ 64" and "session_ok n s"
  shows "session_ok n' s'"
proof -
  consider (err) e where "n \<le> n'" "s' = s \<or> s' = se_fail fc e s"
    | (ok) bs where "n' = n + 1" "se_max_inflight s \<noteq> 0 \<longrightarrow> se_in_flight s < se_max_inflight s"
        "s' = s\<lparr>se_outbound := se_outbound s @ bs, se_live := insert (n mod 2 ^ 64) (se_live s)\<rparr>"
    using begin_cases [OF assms(1)] by blast
  then show ?thesis
  proof cases
    case err
    then have "session_ok n s'" using assms(3) ok_same [of n s s'] by auto
    then show ?thesis using err(1) ok_mono by blast
  next
    case ok
    have n: "n mod 2 ^ 64 = n" using assms(2) ok(1) by simp
    have "n \<notin> se_live s \<union> se_abandoned s" using assms(3) by (auto simp: session_ok_def)
    moreover have "session_ok n' s" using ok_mono [OF assms(3), of n'] ok(1) by simp
    ultimately show ?thesis using ok unfolding n by (auto simp: session_ok_def se_in_flight_def)
  qed
qed

lemma take_ok: "session_ok n s \<Longrightarrow> session_ok n (snd (se_take i s))"
  by (auto simp: session_ok_def se_take_def se_in_flight_def check_failed_def card_Diff_singleton_if split: option.splits)

lemma abandon_ok: "session_ok n s \<Longrightarrow> session_ok n (se_abandon i s)"
  by (auto simp: session_ok_def se_abandon_def se_in_flight_def Let_def card_Diff_singleton_if split: if_splits)

lemma take_frame: "se_channel (snd (se_take i s)) = se_channel s \<and> se_outbound (snd (se_take i s)) = se_outbound s \<and>
    se_max_inflight (snd (se_take i s)) = se_max_inflight s"
  by (simp add: se_take_def check_failed_def split: option.splits)

lemma abandon_frame: "se_channel (se_abandon i s) = se_channel s \<and> se_outbound (se_abandon i s) = se_outbound s \<and>
    se_max_inflight (se_abandon i s) = se_max_inflight s"
  by (simp add: se_abandon_def Let_def)

lemma run_keeps:
  "plug_run fc mx n s asked taken \<Longrightarrow> n \<le> 2 ^ 64 \<Longrightarrow>
    session_ok n s \<and> se_max_inflight s = mx \<and> taken @ lb_to_peer (se_channel s) @ se_outbound s = asked"
proof (induction rule: plug_run.induct)
  case (run_other n s asked taken)
  then show ?case using ok_mono [of n s "n + 1"] by simp
next
  case (run_begin n s asked taken target args r n' s' bs)
  have "n \<le> n'" and f: "se_channel s' = se_channel s" "se_max_inflight s' = se_max_inflight s"
    using begin_cases [OF run_begin.hyps(2)] by auto
  then show ?case using run_begin begin_ok [OF run_begin.hyps(2)] by simp
next
  case (run_poll n s asked taken fuel x s')
  then show ?case using loop_poll_keeps [OF run_poll.hyps(2)] by simp
next
  case (run_take n s asked taken i y s')
  then show ?case using take_ok [of n s i] take_frame [of i s] by simp
next
  case (run_abandon n s asked taken i)
  then show ?case using abandon_ok [of n s i] abandon_frame [of i s] by simp
next
  case (run_peer_take n s asked taken bs c)
  then show ?case using ok_same [of n s "s\<lparr>se_channel := c\<rparr>"] by (auto simp: peer_take_def)
qed (auto simp: session_new_def session_ok_def se_in_flight_def peer_put_def)

section \<open>A codec of one byte\<close>

definition byte_reply :: "8 word \<Rightarrow> plugin_reply" where
  "byte_reply b = \<lparr>py_version = 1, py_id = unat b, py_final = True, py_body = BodyOk VNil\<rparr>"

definition byte_codec :: frame_codec where
  "byte_codec = \<lparr>fc_write = (\<lambda>q. Some [of_nat (pq_id q)]),
     fc_read = (\<lambda>bs. case bs of [b] \<Rightarrow> Some (byte_reply b) | _ \<Rightarrow> None), fc_detail = (\<lambda>_. ''not a byte'')\<rparr>"

definition asking :: "loopback session" where
  "asking = (session_new loopback_new 2)\<lparr>se_outbound := [0, 0, 0, 1, 7], se_live := {7}\<rparr>"

lemma asking_begun: "se_begin byte_codec ''echo/say'' None 7 (session_new loopback_new 2) = (Inr 7, 8, asking)"
proof -
  have four: "4 = Suc (Suc (Suc (Suc 0)))" by simp
  have "be_bytes 4 1 = [0, 0, 0, 1]" unfolding four by (simp add: byte_of_def)
  then show ?thesis
    by (simp add: se_begin_def session_new_def check_failed_def se_in_flight_def next_wire_id_def encode_frame_def
        byte_codec_def asking_def)
qed

lemma asking_run: "plug_run byte_codec 2 8 asking [0, 0, 0, 1, 7] []"
proof -
  have "plug_run byte_codec 2 8 asking ([] @ [0, 0, 0, 1, 7]) []"
    by (rule run_begin [OF run_start asking_begun]) (simp_all add: loopback_new_def session_new_def asking_def)
  then show ?thesis by simp
qed

section \<open>What a session promises\<close>



text \<open>
  C12. Each reply reaches the call it answers, in whatever order the replies come: of a batch of whole
  final frames, each answers its own call and no other, the ones to abandoned calls are dropped, and
  the session goes on with the bytes of the frame that has not come whole.
\<close>

theorem replies_reach_their_callers:
  assumes "list_all2 (framed fc) rs ws" and "se_inbound s = concat ws @ tail"
    and "decode_frame (fc_read fc) tail = Inr None" and "distinct (map py_id rs)"
    and "\<forall>r\<in>set rs. askable s r" and "se_failed s = None" and "session_ok n s"
  shows "\<exists>s'. se_sort fc s = (Inr (), s') \<and> se_inbound s' = tail \<and> se_live s' = se_live s \<and>
    (\<forall>r\<in>set rs. fst (se_take (py_id r) s') = Inr (if py_id r \<in> se_live s then Some r else None)) \<and>
    (\<forall>i. i \<notin> py_id ` set rs \<longrightarrow> fst (se_take i s') = fst (se_take i s))"
proof (intro exI conjI ballI allI impI)
  let ?s' = "s\<lparr>se_inbound := tail, se_ready := filed rs s, se_abandoned := se_abandoned s - py_id ` set rs\<rparr>"
  show "se_sort fc s = (Inr (), ?s')" by (rule sort_batch [OF assms(1-5)])
  show "se_inbound ?s' = tail" and "se_live ?s' = se_live s" by simp_all
  have take: "fst (se_take i ?s') = Inr (filed rs s i)" "fst (se_take i s) = Inr (se_ready s i)" for i
    using assms(6) by (simp_all add: se_take_def check_failed_def split: option.splits)
  let ?m = "map_of (map (\<lambda>r. (py_id r, r)) (filter (\<lambda>r. py_id r \<notin> se_abandoned s) rs))"
  {
    fix i assume "i \<notin> py_id ` set rs"
    then have "?m i = None" by (auto simp: map_of_eq_None_iff)
    then show "fst (se_take i ?s') = fst (se_take i s)" unfolding take by (simp add: filed_def map_add_def)
  next
    fix r assume r: "r \<in> set rs"
    have ask: "py_id r \<in> se_live s \<union> se_abandoned s" using assms(5) r by (simp add: askable_def)
    have ready: "py_id r \<notin> se_live s \<Longrightarrow> se_ready s (py_id r) = None" and dis: "se_live s \<inter> se_abandoned s = {}"
      using assms(7) by (auto simp: session_ok_def)
    have "filed rs s (py_id r) = (if py_id r \<in> se_live s then Some r else None)"
    proof (cases "py_id r \<in> se_live s")
      case True
      have "distinct (map fst (map (\<lambda>r. (py_id r, r)) (filter (\<lambda>r. py_id r \<notin> se_abandoned s) rs)))"
        using assms(4) by (simp add: distinct_map_filter comp_def)
      moreover have "(py_id r, r) \<in> set (map (\<lambda>r. (py_id r, r)) (filter (\<lambda>r. py_id r \<notin> se_abandoned s) rs))"
        using r True dis by auto
      ultimately have "?m (py_id r) = Some r" by (rule map_of_is_SomeI)
      then show ?thesis using True by (simp add: filed_def map_add_def)
    next
      case False
      then have ab: "py_id r \<in> se_abandoned s" using ask by simp
      have "?m (py_id r) = None" using ab by (auto simp: map_of_eq_None_iff)
      then show ?thesis using False ready by (simp add: filed_def map_add_def)
    qed
    then show "fst (se_take (py_id r) ?s') = Inr (if py_id r \<in> se_live s then Some r else None)" by (simp add: take)
  }
qed

lemma asking_ok: "session_ok 8 asking"
  using run_keeps [OF asking_run] by simp

lemma byte_framed: "framed byte_codec (byte_reply b) [0, 0, 0, 1, b]"
proof -
  have four: "4 = Suc (Suc (Suc (Suc 0)))" by simp
  have "be_bytes 4 1 = [0, 0, 0, 1]" unfolding four by (simp add: byte_of_def)
  then show ?thesis unfolding framed_def
    by (intro exI [of _ "[b]"]) (simp add: byte_codec_def max_frame_bytes_def)
qed

definition answered :: "loopback session" where
  "answered = asking\<lparr>se_inbound := [0, 0, 0, 1, 7, 0, 0]\<rparr>"

theorem replies_reach_their_callers_witness:
  "\<exists>s'. se_sort byte_codec answered = (Inr (), s') \<and> fst (se_take 7 s') = Inr (Some (byte_reply 7))"
proof -
  have "\<exists>s'. se_sort byte_codec answered = (Inr (), s') \<and> se_inbound s' = [0, 0] \<and> se_live s' = se_live answered \<and>
    (\<forall>r\<in>set [byte_reply 7]. fst (se_take (py_id r) s') = Inr (if py_id r \<in> se_live answered then Some r else None)) \<and>
    (\<forall>i. i \<notin> py_id ` set [byte_reply 7] \<longrightarrow> fst (se_take i s') = fst (se_take i answered))"
  proof (rule replies_reach_their_callers)
    show "list_all2 (framed byte_codec) [byte_reply 7] [[0, 0, 0, 1, 7]]" using byte_framed by simp
    show "se_inbound answered = concat [[0, 0, 0, 1, 7]] @ [0, 0]" by (simp add: answered_def)
    show "decode_frame (fc_read byte_codec) [0, 0] = Inr None" by (simp add: decode_frame_def length_prefix_def)
    show "session_ok 8 answered" using asking_ok ok_same [of 8 asking answered] by (simp add: answered_def)
  qed (simp_all add: askable_def byte_reply_def protocol_version_def answered_def asking_def session_new_def)
  then show ?thesis by (auto simp: byte_reply_def answered_def asking_def)
qed

text \<open>
  It does not matter how the stream was cut: sorting the bytes that came first and then, with what
  was left over of them, the bytes that came later, files exactly what sorting all of them at once does,
  failures included.
\<close>

theorem stream_cut_anywhere:
  assumes "se_sort fc (s\<lparr>se_inbound := early\<rparr>) = (Inr (), s1)"
  shows "se_sort fc (s\<lparr>se_inbound := early @ late\<rparr>) = se_sort fc (s1\<lparr>se_inbound := se_inbound s1 @ late\<rparr>)"
  using sort_cut [OF assms, of late] by simp

theorem stream_cut_anywhere_witness:
  "se_sort byte_codec (answered\<lparr>se_inbound := [0, 0] @ [0, 1, 7]\<rparr>) = se_sort byte_codec (answered\<lparr>se_inbound := [0, 0, 0, 1, 7]\<rparr>)"
proof -
  have "se_sort byte_codec (answered\<lparr>se_inbound := [0, 0]\<rparr>) = (Inr (), answered\<lparr>se_inbound := [0, 0]\<rparr>)"
    by (simp add: se_sort.simps decode_frame_def length_prefix_def)
  from stream_cut_anywhere [OF this, of "[0, 1, 7]"] show ?thesis by simp
qed

lemma flush_fails:
  "se_flush fc ch s = Some (r, s') \<Longrightarrow> se_failed s = None \<Longrightarrow>
    se_failed s' = (case r of Inl e \<Rightarrow> Some (session_text (fc_detail fc) e) | Inr _ \<Rightarrow> None)"
proof (induction "length (se_outbound s)" arbitrary: s rule: less_induct)
  case less
  show ?case
  proof (cases "se_outbound s = []")
    case False
    obtain x c where w: "write_some ch (se_outbound s) (se_channel s) = (x, c)" by fastforce
    show ?thesis
    proof (cases x)
      case (Inl e)
      then show ?thesis using w less.prems False by (auto simp: se_flush.simps [of fc _ s] se_fail_def)
    next
      case (Inr n)
      let ?s = "s\<lparr>se_channel := c, se_outbound := drop n (se_outbound s)\<rparr>"
      show ?thesis
      proof (cases "n = 0")
        case False
        then have "se_flush fc ch ?s = Some (r, s')"
          using w Inr less.prems \<open>se_outbound s \<noteq> []\<close> by (simp add: se_flush.simps [of fc _ s] split: if_splits)
        then show ?thesis using less.hyps [of ?s] less.prems False \<open>se_outbound s \<noteq> []\<close> by simp
      qed (use w Inr less.prems False in \<open>auto simp: se_flush.simps [of fc _ s]\<close>)
    qed
  qed (use less.prems in \<open>auto simp: se_flush.simps [of fc _ s]\<close>)
qed

lemma fill_fails:
  "se_fill fuel fc ch s = Some (r, s') \<Longrightarrow> se_failed s = None \<Longrightarrow>
    se_failed s' = (case r of Inl e \<Rightarrow> Some (session_text (fc_detail fc) e) | Inr _ \<Rightarrow> None)"
proof (induction fuel arbitrary: s)
  case (Suc fuel)
  obtain x inb c where rd: "read_some ch (se_inbound s) (se_channel s) = (x, inb, c)"
    by (cases "read_some ch (se_inbound s) (se_channel s)") auto
  show ?case
  proof (cases x)
    case (Inl e)
    then show ?thesis using rd Suc.prems by (auto simp: se_fail_def)
  next
    case (Inr n)
    then show ?thesis using rd Suc.prems Suc.IH [of "s\<lparr>se_inbound := inb, se_channel := c\<rparr>"]
      by (auto split: if_splits)
  qed
qed simp

lemma sort_fails:
  "se_sort fc s = (r, s') \<Longrightarrow> se_failed s = None \<Longrightarrow>
    se_failed s' = (case r of Inl e \<Rightarrow> Some (session_text (fc_detail fc) e) | Inr _ \<Rightarrow> None)"
proof (induction fc s arbitrary: r s' rule: se_sort.induct)
  case (1 fc s)
  show ?case
  proof (cases "\<exists>p used. decode_frame (fc_read fc) (se_inbound s) = Inr (Some (p, used))")
    case True
    then obtain p used where d: "decode_frame (fc_read fc) (se_inbound s) = Inr (Some (p, used))" by blast
    let ?s = "s\<lparr>se_inbound := drop used (se_inbound s)\<rparr>"
    obtain x s1 where f: "se_file fc p ?s = (x, s1)" by fastforce
    have x: "se_failed s1 = (case x of Inl e \<Rightarrow> Some (session_text (fc_detail fc) e) | Inr _ \<Rightarrow> None)"
      using f "1.prems"(2) by (auto simp: se_file_def se_fail_def split: if_splits)
    show ?thesis
    proof (cases x)
      case (Inl e)
      then show ?thesis using "1.prems"(1) d f x by (auto simp: se_sort.simps [of fc s])
    next
      case (Inr u)
      then have "se_sort fc s1 = (r, s')" using "1.prems"(1) d f by (simp add: se_sort.simps [of fc s])
      then show ?thesis using "1.IH" [OF d refl refl f [symmetric] Inr] x Inr by simp
    qed
  next
    case False
    then show ?thesis using "1.prems"
      by (auto simp: se_sort.simps [of fc s] se_fail_def split: sum.splits option.splits)
  qed
qed


definition broken_session :: "loopback session" where
  "broken_session = asking\<lparr>se_channel := loopback_new\<lparr>lb_broken := Some ChClosed\<rparr>\<rparr>"


lemma loop_poll_returns:
  assumes "length (lb_from_peer (se_channel s)) < fuel"
  shows "se_poll fuel fc loopback_channel s \<noteq> None"
proof (cases "check_failed s")
  case None
  obtain r1 s1 where fl: "se_flush fc loopback_channel s = Some (r1, s1)"
    using lb.flush_returns [of fc s, folded loopback_channel_def] by auto
  then have "lb_from_peer (se_channel s1) = lb_from_peer (se_channel s)"
    using lb.flush_stream [folded loopback_channel_def] by blast
  then have "se_fill fuel fc loopback_channel s1 \<noteq> None"
    using lb.fill_returns [folded loopback_channel_def] assms by simp
  then show ?thesis using None fl by (auto simp: se_poll_def split: sum.splits)
qed (simp add: se_poll_def)

text \<open>
  A poll never blocks: over a channel that hands over what has arrived, a poll with fuel for it returns,
  however much there is to write and whatever the peer sent.
\<close>

theorem session_poll_returns:
  assumes "length (lb_from_peer (se_channel s)) < fuel"
  shows "se_poll fuel fc loopback_channel s \<noteq> None"
  by (rule loop_poll_returns [OF assms])

theorem session_poll_returns_witness: "se_poll 1 byte_codec loopback_channel asking \<noteq> None"
  by (rule session_poll_returns) (simp add: asking_def session_new_def loopback_new_def)

end
