(* ===== verification/Plugin_Connector.thy ===== *)
theory Plugin_Connector
  imports Plugin_Session Connector
begin

text \<open>
  Plugins as connectors: the manifest of \<^verbatim>\<open>crates/drt-plugin/src/manifest.rs\<close> and the
  connector of \<^verbatim>\<open>crates/drt-plugin/src/connector.rs\<close>, with one session for each scope key.
  The JSON reader gives the file's fields (\<open>wire_manifest\<close>); what starting the program gave is an
  argument, as is the clock.  A call is a future: \<open>call_poll\<close> is one poll of it, the first starts
  the plugin and sends the request, each asks the session once, and a future that is dropped is
  not polled again.  The modelled build is the one for unix; the mutex and its poisoning are left out.
\<close>

section \<open>The manifest\<close>

definition default_max_inflight :: nat where "default_max_inflight = 4"
definition default_call_timeout_ms :: nat where "default_call_timeout_ms = 30000"
definition default_dial_back_timeout_ms :: nat where "default_dial_back_timeout_ms = 10000"

datatype plugin_scope = ScopeNode | ScopeRoot
datatype transport = TProcess | TSpawn | TTcp
datatype wiring = WiringNone | WiringOwn | WiringInherit string

definition scope_spellings :: "string list" where "scope_spellings = [''node'', ''root'']"
definition transport_spellings :: "string list" where "transport_spellings = [''process'', ''spawn'', ''tcp'']"

definition starts_the_program :: "transport \<Rightarrow> bool" where
  "starts_the_program t \<longleftrightarrow> t = TProcess \<or> t = TSpawn"

datatype manifest_error =
    MfMalformed string
  | MfUnknownScope string string
  | MfUnknownTransport string string
  | MfMissing string
  | MfProcessWithoutExec
  | MfExecNotAbsolute string
  | MfZeroLimit string string

record wire_manifest =
  wm_family :: "string option"
  wm_transport :: "string option"
  wm_exec :: "string option"
  wm_scope :: "string option"
  wm_max_inflight :: "nat option"
  wm_call_timeout_ms :: "nat option"
  wm_dial_back_timeout_ms :: "nat option"
  wm_wiring :: wiring

record manifest =
  mf_family :: string
  mf_transport :: transport
  mf_exec :: "string option"
  mf_scope :: plugin_scope
  mf_max_inflight :: nat
  mf_call_timeout_ms :: nat
  mf_dial_back_timeout_ms :: nat
  mf_wiring :: wiring

record overrides =
  ov_max_inflight :: "nat option"
  ov_call_timeout_ms :: "nat option"
  ov_dial_back_timeout_ms :: "nat option"

fun quoted_spellings :: "string list \<Rightarrow> string" where
  "quoted_spellings [] = []"
| "quoted_spellings [s] = CHR 0x27 # s @ [CHR 0x27]"
| "quoted_spellings (s # t # ss) = CHR 0x27 # s @ CHR 0x27 # '' or '' @ quoted_spellings (t # ss)"

text \<open>The limits, each refused when it is zero, in the order they are looked at.\<close>

definition zero_inflight :: manifest_error where
  "zero_inflight = MfZeroLimit ''max_inflight'' ''answer no calls''"
definition zero_call_timeout :: manifest_error where
  "zero_call_timeout = MfZeroLimit ''call_timeout_ms'' ''never finish a call in time''"
definition zero_dial_back :: manifest_error where
  "zero_dial_back = MfZeroLimit ''dial_back_timeout_ms'' ''never be given time to dial back''"

definition with_overrides :: "manifest \<Rightarrow> overrides \<Rightarrow> manifest_error + manifest" where
  "with_overrides m ov =
     (if ov_max_inflight ov = Some 0 then Inl zero_inflight
      else (let m1 = (case ov_max_inflight ov of None \<Rightarrow> m | Some n \<Rightarrow> m\<lparr>mf_max_inflight := n\<rparr>) in
        if ov_call_timeout_ms ov = Some 0 then Inl zero_call_timeout
        else (let m2 = (case ov_call_timeout_ms ov of None \<Rightarrow> m1 | Some n \<Rightarrow> m1\<lparr>mf_call_timeout_ms := n\<rparr>) in
          if ov_dial_back_timeout_ms ov = Some 0 then Inl zero_dial_back
          else Inr (case ov_dial_back_timeout_ms ov of None \<Rightarrow> m2 | Some n \<Rightarrow> m2\<lparr>mf_dial_back_timeout_ms := n\<rparr>))))"

definition transport_parse :: "string option \<Rightarrow> manifest_error + transport" where
  "transport_parse t = (case t of None \<Rightarrow> Inl (MfMissing ''transport'')
   | Some s \<Rightarrow> (if s = ''process'' then Inr TProcess else if s = ''spawn'' then Inr TSpawn
       else if s = ''tcp'' then Inr TTcp
       else Inl (MfUnknownTransport s (quoted_spellings transport_spellings))))"

definition plugin_scope_parse :: "string option \<Rightarrow> manifest_error + plugin_scope" where
  "plugin_scope_parse t = (case t of None \<Rightarrow> Inr ScopeNode
   | Some s \<Rightarrow> (if s = ''node'' then Inr ScopeNode else if s = ''root'' then Inr ScopeRoot
       else Inl (MfUnknownScope s (quoted_spellings scope_spellings))))"

definition exec_check :: "transport \<Rightarrow> string option \<Rightarrow> manifest_error option" where
  "exec_check t ex = (if starts_the_program t then
      (case ex of None \<Rightarrow> Some MfProcessWithoutExec
       | Some p \<Rightarrow> (if prefix ''/'' p then None else Some (MfExecNotAbsolute p)))
    else None)"

definition manifest_parse :: "(bytes \<Rightarrow> string + wire_manifest) \<Rightarrow> bytes \<Rightarrow> manifest_error + manifest" where
  "manifest_parse from_slice bs = (case from_slice bs of Inl e \<Rightarrow> Inl (MfMalformed e)
   | Inr w \<Rightarrow> (case wm_family w of None \<Rightarrow> Inl (MfMissing ''family'')
     | Some family \<Rightarrow> (if family = [] then Inl (MfMissing ''family'')
       else (case transport_parse (wm_transport w) of Inl e \<Rightarrow> Inl e
         | Inr t \<Rightarrow> (case plugin_scope_parse (wm_scope w) of Inl e \<Rightarrow> Inl e
           | Inr sc \<Rightarrow> (case exec_check t (wm_exec w) of Some e \<Rightarrow> Inl e
             | None \<Rightarrow>
                (let mi = (case wm_max_inflight w of Some n \<Rightarrow> n | None \<Rightarrow> default_max_inflight);
                     ct = (case wm_call_timeout_ms w of Some n \<Rightarrow> n | None \<Rightarrow> default_call_timeout_ms);
                     db = (case wm_dial_back_timeout_ms w of Some n \<Rightarrow> n | None \<Rightarrow> default_dial_back_timeout_ms)
                 in if mi = 0 then Inl zero_inflight else if ct = 0 then Inl zero_call_timeout
                    else if db = 0 then Inl zero_dial_back
                    else Inr \<lparr>mf_family = family, mf_transport = t, mf_exec = wm_exec w, mf_scope = sc,
                      mf_max_inflight = mi, mf_call_timeout_ms = ct, mf_dial_back_timeout_ms = db,
                      mf_wiring = wm_wiring w\<rparr>)))))))"

section \<open>The connector\<close>

record 'c plugin_conn =
  pk_name :: string
  pk_manifest :: manifest
  pk_instances :: "(caller \<times> 'c session) list"

definition family_quoted :: "manifest \<Rightarrow> string" where
  "family_quoted m = ''the plugin '' @ CHR 0x27 # mf_family m @ [CHR 0x27]"

definition tcp_has_no_address :: "manifest \<Rightarrow> string" where
  "tcp_has_no_address m = family_quoted m @ '' asks for the `tcp` transport, whose address is the deployment''
     @ CHR 0x27 # ''s to name and which nothing in a deployment names yet''"

definition plugin_new :: "string \<Rightarrow> manifest \<Rightarrow> string + 'c plugin_conn" where
  "plugin_new name m =
     (if starts_the_program (mf_transport m) \<and> mf_exec m = None then Inl (family_quoted m @ '' names no `exec` to start'')
      else if mf_transport m = TTcp then Inl (tcp_has_no_address m)
      else Inr \<lparr>pk_name = name, pk_manifest = m, pk_instances = []\<rparr>)"

definition key_for :: "manifest \<Rightarrow> caller \<Rightarrow> caller" where
  "key_for m c = (case mf_scope m of ScopeRoot \<Rightarrow> CRoot | ScopeNode \<Rightarrow> c)"

text \<open>What starting the program came to: its channel, or why it did not start.\<close>

definition plugin_start :: "manifest \<Rightarrow> channel_error + 'c \<Rightarrow> call_error + 'c session" where
  "plugin_start m started = (case mf_transport m of
     TTcp \<Rightarrow> Inl (call_error_new (tcp_has_no_address m))
   | _ \<Rightarrow> (if mf_exec m = None then Inl (call_error_new (family_quoted m @ '' names no `exec`''))
      else (case started of
          Inl e \<Rightarrow> Inl (call_error_new (family_quoted m @ '' would not start: '' @ channel_text e))
        | Inr c \<Rightarrow> Inr (session_new c (mf_max_inflight m)))))"

definition said :: "frame_codec \<Rightarrow> manifest \<Rightarrow> session_error \<Rightarrow> call_error" where
  "said fc m e = (case e of
     SeChannel ChClosed \<Rightarrow> call_error_new (family_quoted m @ '' is gone'')
   | SeSaturated n \<Rightarrow> call_error_new (family_quoted m @ '' already has '' @ show_nat n @ '' calls outstanding, its manifest''
       @ CHR 0x27 # ''s `max_inflight`; the call was not sent'')
   | other \<Rightarrow> call_error_new (family_quoted m @ '' failed: '' @ session_text (fc_detail fc) other))"

definition relay :: "plugin_reply \<Rightarrow> call_error + val" where
  "relay r = (case py_body r of BodyOk v \<Rightarrow> Inr v
     | BodyErr e \<Rightarrow> Inl (call_error_new (pe_code e @ '': '' @ pe_message e)))"

text \<open>The first poll of a call, up to the request being queued; the counter of ids goes through it.\<close>

definition call_begin :: "frame_codec \<Rightarrow> channel_error + 'c \<Rightarrow> caller \<Rightarrow> string \<Rightarrow> val option \<Rightarrow> nat \<Rightarrow> 'c plugin_conn
    \<Rightarrow> (call_error + nat) \<times> nat \<times> 'c plugin_conn" where
  "call_begin fc started key call args n p =
     (case (case bt_get (pk_instances p) key of Some s \<Rightarrow> Inr s | None \<Rightarrow> plugin_start (pk_manifest p) started) of
        Inl e \<Rightarrow> (Inl e, n, p)
      | Inr s \<Rightarrow> (case se_begin fc call args n s of (r, n1, s1) \<Rightarrow>
          (case r of Inl e \<Rightarrow> Inl (said fc (pk_manifest p) e) | Inr i \<Rightarrow> Inr i, n1,
           p\<lparr>pk_instances := bt_insert key s1 (pk_instances p)\<rparr>)))"

text \<open>One look at the session: a result, or nothing yet.\<close>

definition call_look :: "nat \<Rightarrow> frame_codec \<Rightarrow> 'c channel \<Rightarrow> caller \<Rightarrow> nat \<Rightarrow> nat \<Rightarrow> string \<Rightarrow> nat \<Rightarrow> 'c plugin_conn
    \<Rightarrow> ((call_error + val) option \<times> 'c plugin_conn) option" where
  "call_look fuel fc ch key i deadline call now p = (case bt_get (pk_instances p) key of
     None \<Rightarrow> Some (Some (Inl (call_error_new (family_quoted (pk_manifest p) @ '' serving '' @ show_caller show_nat key
       @ '' was released while '' @ CHR 0x27 # call @ CHR 0x27 # '' was outstanding''))), p)
   | Some s \<Rightarrow> (case se_poll fuel fc ch s of None \<Rightarrow> None
     | Some (r, s1) \<Rightarrow>
        (let put = (\<lambda>s'. p\<lparr>pk_instances := bt_insert key s' (pk_instances p)\<rparr>) in
         case r of Inl e \<Rightarrow> Some (Some (Inl (said fc (pk_manifest p) e)), put s1)
         | Inr _ \<Rightarrow> (case se_take i s1 of
             (Inl e, s2) \<Rightarrow> Some (Some (Inl (said fc (pk_manifest p) e)), put s2)
           | (Inr (Some reply), s2) \<Rightarrow> Some (Some (relay reply), put s2)
           | (Inr None, s2) \<Rightarrow>
               (if now \<ge> deadline then Some (Some (Inl (call_error_timed_out (family_quoted (pk_manifest p)
                    @ '' did not answer '' @ CHR 0x27 # call @ CHR 0x27 # '' within '' @ show_nat (mf_call_timeout_ms (pk_manifest p))
                    @ '' ms (`call_timeout_ms`)''))), put (se_abandon i s2))
                else Some (None, put s2))))))"

datatype call_future =
    FutNew caller string "val option"
  | FutWaiting caller nat nat string
  | FutDone

definition call_poll :: "nat \<Rightarrow> frame_codec \<Rightarrow> 'c channel \<Rightarrow> channel_error + 'c \<Rightarrow> nat \<Rightarrow> nat \<Rightarrow> call_future \<Rightarrow> nat
    \<Rightarrow> 'c plugin_conn \<Rightarrow> ((call_error + val) option \<times> call_future \<times> nat \<times> 'c plugin_conn) option" where
  "call_poll fuel fc ch started now later fut n p =
     (let look = (\<lambda>key i deadline call n1 p1. case call_look fuel fc ch key i deadline call later p1 of
            None \<Rightarrow> None
          | Some (Some r, p2) \<Rightarrow> Some (Some r, FutDone, n1, p2)
          | Some (None, p2) \<Rightarrow> Some (None, FutWaiting key i deadline call, n1, p2)) in
      case fut of
        FutNew asker call args \<Rightarrow> (let key = key_for (pk_manifest p) asker in
          case call_begin fc started key call args n p of
            (Inl e, n1, p1) \<Rightarrow> Some (Some (Inl e), FutDone, n1, p1)
          | (Inr i, n1, p1) \<Rightarrow> look key i (now + mf_call_timeout_ms (pk_manifest p)) call n1 p1)
      | FutWaiting key i deadline call \<Rightarrow> look key i deadline call n p
      | FutDone \<Rightarrow> None)"

section \<open>Ending\<close>

definition lost :: "manifest \<Rightarrow> caller \<Rightarrow> 'c session \<Rightarrow> string list" where
  "lost m key s = (if se_in_flight s = 0 then []
     else [family_quoted m @ '' serving '' @ show_caller show_nat key @ '' ended with '' @ show_nat (se_in_flight s)
       @ '' call(s) outstanding; their answers are not coming''])"

definition plugin_release :: "caller \<Rightarrow> 'c plugin_conn \<Rightarrow> string list \<times> 'c plugin_conn" where
  "plugin_release c p = (if mf_scope (pk_manifest p) \<noteq> ScopeNode then ([], p)
     else (case bt_get (pk_instances p) c of None \<Rightarrow> ([], p)
       | Some s \<Rightarrow> (lost (pk_manifest p) c s, p\<lparr>pk_instances := bt_remove c (pk_instances p)\<rparr>)))"

definition plugin_finish :: "'c plugin_conn \<Rightarrow> string list \<times> 'c plugin_conn" where
  "plugin_finish p = (concat (map (\<lambda>(key, s). lost (pk_manifest p) key s) (pk_instances p)), p\<lparr>pk_instances := []\<rparr>)"

definition plugin_backing :: "'c plugin_conn \<Rightarrow> backing" where
  "plugin_backing p = Plugin (pk_name p)"


section \<open>What a manifest that was read promises\<close>

definition manifest_ok :: "manifest \<Rightarrow> bool" where
  "manifest_ok m \<longleftrightarrow> mf_family m \<noteq> [] \<and> 0 < mf_max_inflight m \<and> 0 < mf_call_timeout_ms m \<and> 0 < mf_dial_back_timeout_ms m \<and>
     (starts_the_program (mf_transport m) \<longrightarrow> (\<exists>p. mf_exec m = Some p \<and> prefix ''/'' p))"

lemma manifest_parse_ok:
  assumes "manifest_parse from_slice bs = Inr m"
  shows "manifest_ok m \<and> (\<exists>w. from_slice bs = Inr w \<and> wm_family w = Some (mf_family m) \<and> wm_exec w = mf_exec m \<and>
    (mf_scope m = ScopeRoot \<longleftrightarrow> wm_scope w = Some ''root''))"
proof -
  obtain w family t sc where w: "from_slice bs = Inr w" "wm_family w = Some family" "family \<noteq> []"
    "transport_parse (wm_transport w) = Inr t" "plugin_scope_parse (wm_scope w) = Inr sc" "exec_check t (wm_exec w) = None"
    using assms by (auto simp: manifest_parse_def split: sum.splits option.splits if_splits)
  define mi where "mi = (case wm_max_inflight w of Some n \<Rightarrow> n | None \<Rightarrow> default_max_inflight)"
  define ct where "ct = (case wm_call_timeout_ms w of Some n \<Rightarrow> n | None \<Rightarrow> default_call_timeout_ms)"
  define db where "db = (case wm_dial_back_timeout_ms w of Some n \<Rightarrow> n | None \<Rightarrow> default_dial_back_timeout_ms)"
  have "(if mi = 0 then Inl zero_inflight else if ct = 0 then Inl zero_call_timeout
      else if db = 0 then Inl zero_dial_back
      else Inr \<lparr>mf_family = family, mf_transport = t, mf_exec = wm_exec w, mf_scope = sc,
        mf_max_inflight = mi, mf_call_timeout_ms = ct, mf_dial_back_timeout_ms = db,
        mf_wiring = wm_wiring w\<rparr>) = Inr m"
    using assms by (simp only: manifest_parse_def Let_def w sum.case option.case if_False mi_def ct_def db_def)
  then have m: "mi \<noteq> 0" "ct \<noteq> 0" "db \<noteq> 0" "m = \<lparr>mf_family = family, mf_transport = t, mf_exec = wm_exec w, mf_scope = sc,
        mf_max_inflight = mi, mf_call_timeout_ms = ct, mf_dial_back_timeout_ms = db, mf_wiring = wm_wiring w\<rparr>"
    by (simp_all split: if_splits)
  have "sc = ScopeRoot \<longleftrightarrow> wm_scope w = Some ''root''"
    using w(5) by (auto simp: plugin_scope_parse_def split: option.splits if_splits)
  then show ?thesis using w m by (auto simp: manifest_ok_def exec_check_def split: option.splits if_splits)
qed

lemma with_overrides_ok:
  assumes "with_overrides m ov = Inr m'" and "manifest_ok m"
  shows "manifest_ok m' \<and> mf_family m' = mf_family m \<and> mf_transport m' = mf_transport m \<and> mf_exec m' = mf_exec m \<and>
    mf_scope m' = mf_scope m \<and> mf_wiring m' = mf_wiring m"
  using assms by (auto simp: with_overrides_def manifest_ok_def Let_def split: if_splits option.splits)

section \<open>The table of instances\<close>

definition conn_ok :: "'c plugin_conn \<Rightarrow> bool" where
  "conn_ok p \<longleftrightarrow> bt_ok (pk_instances p)"

definition instance_at :: "'c plugin_conn \<Rightarrow> caller \<Rightarrow> 'c session option" where
  "instance_at p k = bt_get (pk_instances p) k"

definition future_key :: "manifest \<Rightarrow> call_future \<Rightarrow> caller option" where
  "future_key m fut = (case fut of FutNew c call args \<Rightarrow> Some (key_for m c)
     | FutWaiting k i deadline call \<Rightarrow> Some k | FutDone \<Rightarrow> None)"

lemma put_instance:
  "conn_ok p \<Longrightarrow> conn_ok (p\<lparr>pk_instances := bt_insert k s (pk_instances p)\<rparr>) \<and>
    instance_at (p\<lparr>pk_instances := bt_insert k s (pk_instances p)\<rparr>) = (instance_at p)(k \<mapsto> s)"
  by (simp add: conn_ok_def instance_at_def fun_eq_iff bt.ok_ins bt.get_ins)

lemma call_begin_keeps:
  assumes "conn_ok p" and "call_begin fc started k call args n p = (r, n', p')"
  shows "conn_ok p' \<and> pk_manifest p' = pk_manifest p \<and> (\<forall>k'. k' \<noteq> k \<longrightarrow> instance_at p' k' = instance_at p k')"
proof -
  have "p' = p \<or> (\<exists>s. p' = p\<lparr>pk_instances := bt_insert k s (pk_instances p)\<rparr>)"
    using assms(2) by (auto simp: call_begin_def split: sum.splits option.splits prod.splits)
  then show ?thesis using put_instance [OF assms(1)] assms(1) by (elim disjE exE) simp_all
qed

lemma call_look_keeps:
  assumes "conn_ok p" and "call_look fuel fc ch k i deadline call now p = Some (r, p')"
  shows "conn_ok p' \<and> pk_manifest p' = pk_manifest p \<and> (\<forall>k'. k' \<noteq> k \<longrightarrow> instance_at p' k' = instance_at p k')"
proof -
  have "p' = p \<or> (\<exists>s. p' = p\<lparr>pk_instances := bt_insert k s (pk_instances p)\<rparr>)"
    using assms(2) by (auto simp: call_look_def Let_def split: sum.splits option.splits prod.splits if_splits)
  then show ?thesis using put_instance [OF assms(1)] assms(1) by (elim disjE exE) simp_all
qed

lemma call_poll_keeps:
  assumes "conn_ok p" and "call_poll fuel fc ch started now later fut n p = Some (r, fut', n', p')"
  shows "conn_ok p' \<and> pk_manifest p' = pk_manifest p \<and>
    (\<forall>k. Some k \<noteq> future_key (pk_manifest p) fut \<longrightarrow> instance_at p' k = instance_at p k) \<and>
    (r = None \<longrightarrow> future_key (pk_manifest p') fut' = future_key (pk_manifest p) fut) \<and> (r \<noteq> None \<longleftrightarrow> fut' = FutDone)"
proof (cases fut)
  case (FutNew c call args)
  let ?k = "key_for (pk_manifest p) c"
  obtain x n1 p1 where b: "call_begin fc started ?k call args n p = (x, n1, p1)" by (cases "call_begin fc started ?k call args n p") auto
  note kb = call_begin_keeps [OF assms(1) b]
  show ?thesis
  proof (cases x)
    case (Inl e)
    then show ?thesis using assms(2) FutNew b kb by (auto simp: call_poll_def Let_def future_key_def)
  next
    case (Inr i)
    then obtain y p2 where l: "call_look fuel fc ch ?k i (now + mf_call_timeout_ms (pk_manifest p)) call later p1 = Some (y, p2)"
      and "r = y" "p' = p2" "fut' = (if y = None then FutWaiting ?k i (now + mf_call_timeout_ms (pk_manifest p)) call else FutDone)"
      using assms(2) FutNew b by (auto simp: call_poll_def Let_def split: option.splits)
    then show ?thesis using call_look_keeps [OF _ l] kb FutNew by (auto simp: future_key_def)
  qed
next
  case (FutWaiting k i deadline call)
  then obtain y p2 where l: "call_look fuel fc ch k i deadline call later p = Some (y, p2)"
    and "r = y" "p' = p2" "fut' = (if y = None then FutWaiting k i deadline call else FutDone)"
    using assms(2) by (auto simp: call_poll_def Let_def split: option.splits)
  then show ?thesis using call_look_keeps [OF assms(1) l] FutWaiting by (auto simp: future_key_def)
qed (use assms(2) in \<open>simp add: call_poll_def Let_def\<close>)

lemma release_keeps:
  "mf_scope (pk_manifest p) = ScopeNode \<Longrightarrow> instance_at (snd (plugin_release c p)) = (instance_at p)(c := None)"
  "mf_scope (pk_manifest p) = ScopeRoot \<Longrightarrow> plugin_release c p = ([], p)"
  by (auto simp: plugin_release_def instance_at_def fun_eq_iff bt_get_remove split: option.splits)

text \<open>A shared plugin's sessions under everything but the polls and the release of one call.\<close>

inductive others_go_on :: "frame_codec \<Rightarrow> nat \<Rightarrow> loopback plugin_conn \<Rightarrow> loopback plugin_conn \<Rightarrow> bool"
  for fc :: frame_codec and i :: nat where
  others_refl: "others_go_on fc i p p"
| others_poll: "others_go_on fc i p p1 \<Longrightarrow> \<forall>k dl call. fut \<noteq> FutWaiting k i dl call \<Longrightarrow>
    call_poll fuel fc loopback_channel started now later fut n p1 = Some (r, fut', n', p') \<Longrightarrow> others_go_on fc i p p'"
| others_release: "others_go_on fc i p p1 \<Longrightarrow> others_go_on fc i p (snd (plugin_release c p1))"
| others_peer: "others_go_on fc i p p1 \<Longrightarrow> instance_at p1 k = Some s \<Longrightarrow>
    others_go_on fc i p (p1\<lparr>pk_instances := bt_insert k (s\<lparr>se_channel := c\<rparr>) (pk_instances p1)\<rparr>)"

definition held :: "nat \<Rightarrow> loopback plugin_conn \<Rightarrow> bool" where
  "held i p \<longleftrightarrow> conn_ok p \<and> mf_scope (pk_manifest p) = ScopeRoot \<and>
     (\<exists>s. instance_at p CRoot = Some s \<and> se_live s = {i} \<and> se_max_inflight s = 1)"

lemma full_refuses:
  assumes "se_live s = {i}" and "se_max_inflight s = 1"
  shows "se_begin fc call args n s = (case check_failed s of Some e \<Rightarrow> (Inl e, n, s) | None \<Rightarrow> (Inl (SeSaturated 1), n, s))"
  using assms by (simp add: se_begin_def se_in_flight_def split: option.split)

lemma held_begin:
  assumes "held i p"
  shows "\<exists>e. call_begin fc started CRoot call args n p = (Inl e, n, p\<lparr>pk_instances := bt_insert CRoot (the (instance_at p CRoot)) (pk_instances p)\<rparr>)"
proof -
  obtain s where s: "instance_at p CRoot = Some s" "se_live s = {i}" "se_max_inflight s = 1" using assms by (auto simp: held_def)
  obtain e where "se_begin fc call args n s = (Inl e, n, s)"
    using full_refuses [OF s(2,3), of fc call args n] by (cases "check_failed s") auto
  then show ?thesis using s(1) by (simp add: call_begin_def instance_at_def)
qed

lemma held_put:
  assumes "held i p" and "se_live s = {i}" and "se_max_inflight s = 1"
  shows "held i (p\<lparr>pk_instances := bt_insert CRoot s (pk_instances p)\<rparr>)"
  using assms put_instance [of p CRoot s] by (auto simp: held_def)

lemma held_put_other:
  assumes "held i p" and "k \<noteq> CRoot"
  shows "held i (p\<lparr>pk_instances := bt_insert k s (pk_instances p)\<rparr>)"
  using assms put_instance [of p k s] by (auto simp: held_def)

lemma take_abandon_live:
  "j \<noteq> i \<Longrightarrow> se_live s = {i} \<Longrightarrow> se_live (snd (se_take j s)) = {i} \<and> se_live (se_abandon j s) = {i}"
  by (auto simp: se_take_def se_abandon_def check_failed_def Let_def split: option.splits)

lemma held_look:
  assumes "held i p" and "k \<noteq> CRoot \<or> j \<noteq> i" and "call_look fuel fc loopback_channel k j deadline call now p = Some (r, p')"
  shows "held i p'"
proof (cases "instance_at p k")
  case None
  then have "p' = p" using assms(3) by (auto simp: call_look_def instance_at_def)
  then show ?thesis using assms(1) by simp
next
  case (Some s)
  then obtain s' where s': "p' = p\<lparr>pk_instances := bt_insert k s' (pk_instances p)\<rparr>"
    "\<exists>x s1. se_poll fuel fc loopback_channel s = Some (x, s1) \<and>
      (s' = s1 \<or> s' = snd (se_take j s1) \<or> s' = se_abandon j (snd (se_take j s1)))"
    using assms(3) by (auto simp: call_look_def instance_at_def Let_def split: sum.splits option.splits prod.splits if_splits)
  show ?thesis
  proof (cases "k = CRoot")
    case False
    then show ?thesis using held_put_other [OF assms(1)] s'(1) by simp
  next
    case True
    obtain x s1 where p: "se_poll fuel fc loopback_channel s = Some (x, s1)"
      "s' = s1 \<or> s' = snd (se_take j s1) \<or> s' = se_abandon j (snd (se_take j s1))" using s'(2) by blast
    have s: "se_live s = {i}" "se_max_inflight s = 1" using assms(1) Some True by (auto simp: held_def)
    have s1: "se_live s1 = {i}" "se_max_inflight s1 = 1" using loop_poll_keeps(2) [OF p(1)] s by simp_all
    have t: "se_live (snd (se_take j s1)) = {i}" "se_max_inflight (snd (se_take j s1)) = 1"
      using take_abandon_live [of j i s1] assms(2) True s1 take_frame [of j s1] by simp_all
    have "se_live s' = {i} \<and> se_max_inflight s' = 1"
      using p(2) s1 t take_abandon_live [of j i "snd (se_take j s1)"] assms(2) True
        abandon_frame [of j "snd (se_take j s1)"] by auto
    then show ?thesis using held_put [OF assms(1)] s'(1) True by simp
  qed
qed

lemma held_others: "others_go_on fc i p p' \<Longrightarrow> held i p \<Longrightarrow> held i p'"
proof (induction rule: others_go_on.induct)
  case (others_poll p p1 fut fuel started now later n r fut' n' p')
  then have h: "held i p1" by simp
  then have root: "key_for (pk_manifest p1) c = CRoot" for c by (simp add: held_def key_for_def)
  show ?case
  proof (cases fut)
    case (FutNew c call args)
    obtain s where s: "instance_at p1 CRoot = Some s" "se_live s = {i}" "se_max_inflight s = 1" using h by (auto simp: held_def)
    obtain e where "call_begin fc started CRoot call args n p1 =
      (Inl e, n, p1\<lparr>pk_instances := bt_insert CRoot (the (instance_at p1 CRoot)) (pk_instances p1)\<rparr>)"
      using held_begin [OF h] by blast
    then have "p' = p1\<lparr>pk_instances := bt_insert CRoot s (pk_instances p1)\<rparr>"
      using others_poll.hyps(3) FutNew root s by (auto simp: call_poll_def Let_def)
    then show ?thesis using held_put [OF h s(2,3)] by simp
  next
    case (FutWaiting k j deadline call)
    then have ne: "j \<noteq> i" using others_poll.hyps(2) by auto
    obtain y where "call_look fuel fc loopback_channel k j deadline call later p1 = Some (y, p')"
      using others_poll.hyps(3) FutWaiting by (auto simp: call_poll_def Let_def split: option.splits)
    then show ?thesis using held_look [OF h] ne by blast
  qed (use others_poll.hyps(3) in \<open>simp add: call_poll_def Let_def\<close>)
next
  case (others_release p p1 c)
  then show ?case using release_keeps(2) [of p1 c] by (simp add: held_def)
next
  case (others_peer p p1 k s c)
  then have h: "held i p1" by simp
  show ?case
  proof (cases "k = CRoot")
    case True
    then show ?thesis using held_put [OF h, of "s\<lparr>se_channel := c\<rparr>"] h others_peer.hyps(2) by (auto simp: held_def)
  qed (use held_put_other [OF h] in simp)
qed


section \<open>An example\<close>

definition echo_wire :: wire_manifest where
  "echo_wire = \<lparr>wm_family = Some ''echo'', wm_transport = Some ''spawn'', wm_exec = Some ''/bin/echo'', wm_scope = Some ''root'',
     wm_max_inflight = None, wm_call_timeout_ms = None, wm_dial_back_timeout_ms = None, wm_wiring = WiringNone\<rparr>"

definition echo_manifest :: "plugin_scope \<Rightarrow> nat \<Rightarrow> manifest" where
  "echo_manifest sc mx = \<lparr>mf_family = ''echo'', mf_transport = TSpawn, mf_exec = Some ''/bin/echo'', mf_scope = sc,
     mf_max_inflight = mx, mf_call_timeout_ms = 30000, mf_dial_back_timeout_ms = 10000, mf_wiring = WiringNone\<rparr>"

definition one_override :: overrides where
  "one_override = \<lparr>ov_max_inflight = Some 1, ov_call_timeout_ms = None, ov_dial_back_timeout_ms = None\<rparr>"

lemma echo_parsed: "manifest_parse (\<lambda>_. Inr echo_wire) bs = Inr (echo_manifest ScopeRoot 4)"
  by (simp add: manifest_parse_def echo_wire_def echo_manifest_def transport_parse_def plugin_scope_parse_def exec_check_def
      starts_the_program_def Let_def default_max_inflight_def default_call_timeout_ms_def default_dial_back_timeout_ms_def)

lemma echo_overridden: "with_overrides (echo_manifest ScopeRoot 4) one_override = Inr (echo_manifest ScopeRoot 1)"
  by (simp add: with_overrides_def one_override_def echo_manifest_def Let_def)

text \<open>A plugin with one call, 7, out.\<close>

definition echo_session :: "loopback session" where
  "echo_session = (session_new loopback_new 1)\<lparr>se_live := {7}\<rparr>"

definition echo_conn :: "plugin_scope \<Rightarrow> caller \<Rightarrow> loopback plugin_conn" where
  "echo_conn sc k = \<lparr>pk_name = ''echo'', pk_manifest = echo_manifest sc 1, pk_instances = [(k, echo_session)]\<rparr>"

lemma echo_conn_at: "conn_ok (echo_conn sc k)" "instance_at (echo_conn sc k) k = Some echo_session"
  "pk_manifest (echo_conn sc k) = echo_manifest sc 1"
  by (simp_all add: echo_conn_def conn_ok_def instance_at_def bt_get_def)

section \<open>What a plugin connector promises\<close>

text \<open>
  A plugin that was wired is bounded and can be started: read from its file, with the deployment's limits over it,
  it has a family and three limits none of which is zero, a program by its absolute path when the host
  starts one, and a session that holds it to its limit; and it is shared between nodes only if its
  file says \<open>root\<close> in so many letters.
\<close>

theorem wired_plugin_is_bounded:
  assumes "manifest_parse from_slice bs = Inr m" and "with_overrides m ov = Inr m'" and "plugin_new name m' = Inr p"
  shows "manifest_ok m' \<and> mf_family m' = mf_family m \<and> pk_instances p = [] \<and>
    plugin_start (pk_manifest p) (Inr c) = Inr (session_new c (mf_max_inflight m')) \<and>
    (mf_scope (pk_manifest p) = ScopeRoot \<longleftrightarrow> (\<exists>w. from_slice bs = Inr w \<and> wm_scope w = Some ''root''))"
proof -
  have a: "manifest_ok m" "mf_scope m = ScopeRoot \<longleftrightarrow> (\<exists>w. from_slice bs = Inr w \<and> wm_scope w = Some ''root'')"
    using manifest_parse_ok [OF assms(1)] by auto
  note b = with_overrides_ok [OF assms(2) a(1)]
  have p: "pk_manifest p = m'" "pk_instances p = []" "mf_transport m' \<noteq> TTcp" "starts_the_program (mf_transport m') \<longrightarrow> mf_exec m' \<noteq> None"
    using assms(3) by (auto simp: plugin_new_def split: if_splits)
  then have "plugin_start m' (Inr c) = Inr (session_new c (mf_max_inflight m'))"
    by (cases "mf_transport m'") (auto simp: plugin_start_def starts_the_program_def)
  then show ?thesis using a(2) b p(1,2) by simp
qed

theorem wired_plugin_is_bounded_witness:
  "manifest_ok (echo_manifest ScopeRoot 1) \<and> mf_scope (echo_manifest ScopeRoot 1) = ScopeRoot"
proof -
  have "plugin_new ''echo'' (echo_manifest ScopeRoot 1) =
    Inr (\<lparr>pk_name = ''echo'', pk_manifest = echo_manifest ScopeRoot 1, pk_instances = []\<rparr> :: loopback plugin_conn)"
    by (simp add: plugin_new_def echo_manifest_def)
  from wired_plugin_is_bounded [OF echo_parsed echo_overridden this, of loopback_new] show ?thesis by (simp add: echo_wire_def)
qed

text \<open>
  C14. A node's plugin is its own.  Whatever a call of one node does, every other node's session stays as
  it is; and the death of a node takes its plugin and no other's.
\<close>

theorem node_plugins_are_not_shared:
  assumes "conn_ok p" and "mf_scope (pk_manifest p) = ScopeNode"
    and "fut = FutNew c call args \<or> fut = FutWaiting c i deadline call"
    and "call_poll fuel fc ch started now later fut n p = Some (r, fut', n', p')"
  shows "(\<forall>k. k \<noteq> c \<longrightarrow> instance_at p' k = instance_at p k) \<and>
    instance_at (snd (plugin_release d p')) = (instance_at p')(d := None)"
proof -
  have k: "future_key (pk_manifest p) fut = Some c" using assms(2,3) by (auto simp: future_key_def key_for_def)
  note keeps = call_poll_keeps [OF assms(1,4)]
  show ?thesis using keeps k release_keeps(1) [of p' d] assms(2) by auto
qed

theorem node_plugins_are_not_shared_witness:
  "\<exists>r fut' n' p'. call_poll 1 byte_codec loopback_channel (Inr loopback_new) 0 0 (FutNew (CNode 5) ''echo/say'' None) 8
      (echo_conn ScopeNode (CNode 3)) = Some (r, fut', n', p') \<and> instance_at p' (CNode 3) = Some echo_session"
proof -
  let ?p = "echo_conn ScopeNode (CNode 3)"
  obtain r fut' n' p' where q: "call_poll 1 byte_codec loopback_channel (Inr loopback_new) 0 0 (FutNew (CNode 5) ''echo/say'' None) 8 ?p
      = Some (r, fut', n', p')"
  proof (cases "call_poll 1 byte_codec loopback_channel (Inr loopback_new) 0 0 (FutNew (CNode 5) ''echo/say'' None) 8 ?p")
    case None
    have kf: "key_for (pk_manifest ?p) (CNode 5) = CNode 5" by (simp add: echo_conn_at echo_manifest_def key_for_def)
    obtain x n1 p1 where b: "call_begin byte_codec (Inr loopback_new) (CNode 5) ''echo/say'' None 8 ?p = (x, n1, p1)"
      by (cases "call_begin byte_codec (Inr loopback_new) (CNode 5) ''echo/say'' None 8 ?p") auto
    have "x = Inr 8 \<and> (\<exists>s. instance_at p1 (CNode 5) = Some s \<and> lb_from_peer (se_channel s) = [])"
      using b
      by (auto simp: call_begin_def plugin_start_def echo_conn_at echo_manifest_def se_begin_def session_new_def
          check_failed_def se_in_flight_def next_wire_id_def encode_frame_def byte_codec_def loopback_new_def
          echo_conn_def bt_get_def instance_at_def)
    then obtain s where s: "x = Inr 8" "instance_at p1 (CNode 5) = Some s" "length (lb_from_peer (se_channel s)) < 1" by auto
    then have "call_look 1 byte_codec loopback_channel (CNode 5) 8 dl ''echo/say'' 0 p1 \<noteq> None" for dl
      using loop_poll_returns [of s 1 byte_codec]
      by (auto simp: call_look_def instance_at_def Let_def split: sum.splits option.splits prod.splits)
    from this [of "mf_call_timeout_ms (pk_manifest ?p)"] have False
      using None b s(1) kf by (auto simp: call_poll_def Let_def split: option.splits)
    then show thesis ..
  qed (use that in auto)
  have "instance_at p' (CNode 3) = instance_at ?p (CNode 3)"
    using node_plugins_are_not_shared [OF echo_conn_at(1) _ _ q, of "CNode 5"] by (auto simp: echo_conn_at echo_manifest_def)
  then show ?thesis using q by (auto simp: echo_conn_at)
qed

lemma said_error: "ce_status (said fc m e) = SError"
  by (cases e) (auto simp: said_def call_error_new_def split: channel_error.splits)

lemma relay_error: "relay r = Inl e \<Longrightarrow> ce_status e = SError"
  by (auto simp: relay_def call_error_new_def split: reply_body.splits)

lemma look_at_deadline:
  assumes "conn_ok p" and "call_look fuel fc ch k i deadline call now p = Some (r, p')"
  shows "(deadline \<le> now \<longrightarrow> r \<noteq> None) \<and>
    (\<forall>e. r = Some (Inl e) \<and> ce_status e = STimeout \<longrightarrow> deadline \<le> now \<and>
      (\<exists>s'. instance_at p' k = Some s' \<and> i \<notin> se_live s' \<and> se_ready s' i = None))"
proof (cases "instance_at p k")
  case None
  then have "\<exists>why. r = Some (Inl (call_error_new why))"
    using assms(2) by (auto simp: call_look_def instance_at_def)
  then show ?thesis by (auto simp: call_error_new_def)
next
  case (Some s)
  then obtain x s1 where po: "se_poll fuel fc ch s = Some (x, s1)"
    using assms(2) by (auto simp: call_look_def instance_at_def split: option.splits)
  obtain y s2 where tk: "se_take i s1 = (y, s2)" by fastforce
  show ?thesis
  proof (cases "(\<exists>e. x = Inl e) \<or> (\<exists>e. y = Inl e) \<or> (\<exists>reply. y = Inr (Some reply))")
    case True
    then have "(\<exists>e. r = Some (Inl (said fc (pk_manifest p) e))) \<or> (\<exists>reply. r = Some (relay reply))"
      using assms(2) Some po tk by (cases x; auto simp: call_look_def instance_at_def Let_def)
    then show ?thesis using said_error relay_error by fastforce
  next
    case False
    have x: "\<exists>u. x = Inr u" using False by (cases x) auto
    have y: "y = Inr None"
    proof (cases y)
      case (Inr v)
      then show ?thesis using False by (cases v) auto
    qed (use False in auto)
    note f = x y
    have "r = None \<and> \<not> deadline \<le> now \<or> deadline \<le> now \<and> r \<noteq> None \<and>
      p' = p\<lparr>pk_instances := bt_insert k (se_abandon i s2) (pk_instances p)\<rparr>"
      using assms(2) Some po tk f by (auto simp: call_look_def instance_at_def Let_def split: if_splits)
    then show ?thesis
    proof
      assume "deadline \<le> now \<and> r \<noteq> None \<and> p' = p\<lparr>pk_instances := bt_insert k (se_abandon i s2) (pk_instances p)\<rparr>"
      moreover from this have "instance_at p' k = Some (se_abandon i s2)" using put_instance [OF assms(1)] by simp
      moreover have "i \<notin> se_live (se_abandon i s2)" "se_ready (se_abandon i s2) i = None"
        by (simp_all add: se_abandon_def Let_def)
      ultimately show ?thesis by blast
    qed simp
  qed
qed



text \<open>
  C16. A call whose future is dropped keeps its place.  The future holds nothing that gives the call up when it
  goes, as it does when the pump forgets a dead node; for a plugin shared by \<open>root\<close> scope the session
  lives on, and whatever the other calls, the plugin and the deaths of nodes do, even when the reply has come, that place is
  taken for good: with \<open>max_inflight\<close> 1 every later call of every node is refused.
\<close>

theorem dropped_call_blocks_a_shared_plugin:
  assumes "others_go_on fc i p p'" and "held i p"
  shows "\<exists>e p''. call_poll fuel fc loopback_channel started now later (FutNew c call args) n p' = Some (Some (Inl e), FutDone, n, p'') \<and>
    ce_status e = SError \<and> held i p''"
proof -
  have h: "held i p'" using held_others assms by blast
  then have root: "key_for (pk_manifest p') c = CRoot" by (simp add: held_def key_for_def)
  obtain s where s: "instance_at p' CRoot = Some s" "se_live s = {i}" "se_max_inflight s = 1" using h by (auto simp: held_def)
  obtain e where b: "se_begin fc call args n s = (Inl e, n, s)"
    using full_refuses [OF s(2,3), of fc call args n] by (cases "check_failed s") auto
  have "call_poll fuel fc loopback_channel started now later (FutNew c call args) n p' =
    Some (Some (Inl (said fc (pk_manifest p') e)), FutDone, n, p'\<lparr>pk_instances := bt_insert CRoot s (pk_instances p')\<rparr>)"
    using s(1) b root by (simp add: call_poll_def call_begin_def instance_at_def Let_def)
  then show ?thesis using held_put [OF h s(2,3)] said_error by blast
qed

theorem dropped_call_blocks_a_shared_plugin_witness:
  "\<exists>e p''. call_poll 1 byte_codec loopback_channel (Inl ChClosed) 0 0 (FutNew (CNode 5) ''echo/say'' None) 8
      (snd (plugin_release (CNode 3) (echo_conn ScopeRoot CRoot))) = Some (Some (Inl e), FutDone, 8, p'')"
proof -
  have h: "held 7 (echo_conn ScopeRoot CRoot)"
    using echo_conn_at by (simp add: held_def echo_manifest_def echo_session_def session_new_def)
  have "others_go_on byte_codec 7 (echo_conn ScopeRoot CRoot) (snd (plugin_release (CNode 3) (echo_conn ScopeRoot CRoot)))"
    by (rule others_release [OF others_refl])
  from dropped_call_blocks_a_shared_plugin [OF this h] show ?thesis by blast
qed

end
