(* ===== verification/Snapshot_Store.thy ===== *)
theory Snapshot_Store
  imports Rust_Text
begin

text \<open>
  The snapshot store, \<^verbatim>\<open>crates/drt-swarm/src/snapshot.rs\<close>.  The trait
  \<^verbatim>\<open>SnapshotStore\<close> is a locale that states what a store promises its clients, a map from names to
  snapshots; the store of the sources, a directory of files, is its instance.  A directory is its
  files by name, in the order of their names; the operations of the file system (write, rename, read, remove, list) are
  modelled on it, and a crash between two of them leaves what the first did.  Failures of the disk are not modelled.
\<close>

type_synonym directory = "(string \<times> bytes) list"

datatype store_error = InvalidInput string

definition snapshot_char :: "char \<Rightarrow> bool" where
  "snapshot_char c \<longleftrightarrow> (CHR ''a'' \<le> c \<and> c \<le> CHR ''z'') \<or> (CHR ''A'' \<le> c \<and> c \<le> CHR ''Z'') \<or>
     (CHR ''0'' \<le> c \<and> c \<le> CHR ''9'') \<or> c = CHR ''-'' \<or> c = CHR ''_'' \<or> c = CHR ''.''"

definition dvsnap :: string where "dvsnap = ''.dvsnap''"

definition path_for :: "string \<Rightarrow> store_error + string" where
  "path_for name =
     (if name \<noteq> [] \<and> \<not> prefix ''.'' name \<and> list_all snapshot_char name then Inr (name @ dvsnap)
      else Inl (InvalidInput (CHR 0x27 # name @ CHR 0x27 # '' is not a snapshot name: one path component, no leading dot'')))"

text \<open>\<^verbatim>\<open>with_extension("dvsnap.tmp")\<close> on a path that ends in \<^verbatim>\<open>.dvsnap\<close>.\<close>

definition temp_for :: "string \<Rightarrow> string" where
  "temp_for path = path @ ''.tmp''"

definition fs_write :: "string \<Rightarrow> bytes \<Rightarrow> directory \<Rightarrow> directory" where
  "fs_write path bs d = bt_insert path bs d"

definition fs_rename :: "string \<Rightarrow> string \<Rightarrow> directory \<Rightarrow> directory" where
  "fs_rename src dst d = (case bt_get d src of None \<Rightarrow> d | Some bs \<Rightarrow> bt_insert dst bs (bt_remove src d))"

definition snap_put :: "string \<Rightarrow> bytes \<Rightarrow> directory \<Rightarrow> (store_error + unit) \<times> directory" where
  "snap_put name bs d = (case path_for name of Inl e \<Rightarrow> (Inl e, d)
     | Inr path \<Rightarrow> (let d1 = fs_write (temp_for path) bs d in (Inr (), fs_rename (temp_for path) path d1)))"

definition snap_get :: "string \<Rightarrow> directory \<Rightarrow> store_error + bytes option" where
  "snap_get name d = (case path_for name of Inl e \<Rightarrow> Inl e | Inr path \<Rightarrow> Inr (bt_get d path))"

definition snap_remove :: "string \<Rightarrow> directory \<Rightarrow> (store_error + unit) \<times> directory" where
  "snap_remove name d = (case path_for name of Inl e \<Rightarrow> (Inl e, d) | Inr path \<Rightarrow> (Inr (), bt_remove path d))"

definition snapshot_name :: "string \<Rightarrow> string option" where
  "snapshot_name path = (if suffix dvsnap path then Some (take (length path - length dvsnap) path) else None)"

definition snap_list :: "directory \<Rightarrow> string list" where
  "snap_list d = sort (List.map_filter (\<lambda>e. snapshot_name (fst e)) d)"

section \<open>What a store promises\<close>

locale snapshot_store =
  fixes put :: "string \<Rightarrow> bytes \<Rightarrow> 's \<Rightarrow> ('e + unit) \<times> 's"
    and get :: "string \<Rightarrow> 's \<Rightarrow> 'e + bytes option"
    and del :: "string \<Rightarrow> 's \<Rightarrow> ('e + unit) \<times> 's"
    and names :: "'s \<Rightarrow> string list"
    and named :: "string \<Rightarrow> bool" and ok :: "'s \<Rightarrow> bool"
  assumes ok_put: "ok s \<Longrightarrow> ok (snd (put n b s))"
    and ok_del: "ok s \<Longrightarrow> ok (snd (del n s))"
    and refuse_get: "\<not> named n \<Longrightarrow> (\<exists>e. get n s = Inl e)"
    and refuse_put: "\<not> named n \<Longrightarrow> (\<exists>e. put n b s = (Inl e, s)) \<and> (\<exists>e. del n s = (Inl e, s))"
    and done_put: "named n \<Longrightarrow> fst (put n b s) = Inr () \<and> fst (del n s) = Inr ()"
    and get_put: "ok s \<Longrightarrow> named n \<Longrightarrow> named m \<Longrightarrow> get m (snd (put n b s)) = (if m = n then Inr (Some b) else get m s)"
    and get_del: "ok s \<Longrightarrow> named n \<Longrightarrow> named m \<Longrightarrow> get m (snd (del n s)) = (if m = n then Inr None else get m s)"
    and names_get: "ok s \<Longrightarrow> named n \<Longrightarrow> n \<in> set (names s) \<longleftrightarrow> (\<exists>b. get n s = Inr (Some b))"
begin

text \<open>What a sequence of puts and removals leaves is what the last of them to touch a name said.\<close>

fun run :: "(string \<times> bytes option) list \<Rightarrow> 's \<Rightarrow> 's" where
  "run [] s = s"
| "run ((n, v) # ops) s = run ops (case v of Some b \<Rightarrow> snd (put n b s) | None \<Rightarrow> snd (del n s))"

lemma run_ok: "ok s \<Longrightarrow> ok (run ops s)"
  by (induction ops s rule: run.induct) (auto simp: ok_put ok_del split: option.splits)

lemma run_get:
  "ok s \<Longrightarrow> named m \<Longrightarrow>
    get m (run ops s) = (case map_of (rev ops) m of Some v \<Rightarrow> Inr v | None \<Rightarrow> get m s)"
proof (induction ops s rule: run.induct)
  case (2 n v ops s)
  let ?s = "case v of Some b \<Rightarrow> snd (put n b s) | None \<Rightarrow> snd (del n s)"
  have ok: "ok ?s" using "2.prems" by (simp add: ok_put ok_del split: option.split)
  have step: "get m ?s = (if m = n then Inr v else get m s)"
  proof (cases "named n")
    case True
    then show ?thesis using "2.prems" by (cases v) (simp_all add: get_put get_del)
  next
    case False
    then have "?s = s" using refuse_put [of n _ s] by (cases v) (metis snd_conv option.simps(4), metis snd_conv option.simps(5))
    moreover have "m \<noteq> n" using False "2.prems" by blast
    ultimately show ?thesis by simp
  qed
  have "get m (run ops ?s) = (case map_of (rev ops) m of Some v \<Rightarrow> Inr v | None \<Rightarrow> get m ?s)"
    using "2.IH" ok "2.prems" by blast
  then show ?case by (simp add: step map_add_def split: option.splits)
qed simp

lemma names_run: "ok s \<Longrightarrow> named m \<Longrightarrow> m \<in> set (names (run ops s)) \<longleftrightarrow> (\<exists>b. get m (run ops s) = Inr (Some b))"
  by (simp add: names_get run_ok)

end

section \<open>The directory\<close>

definition snapshot_named :: "string \<Rightarrow> bool" where
  "snapshot_named n \<longleftrightarrow> n \<noteq> [] \<and> \<not> prefix ''.'' n \<and> list_all snapshot_char n"

lemma path_for_named: "path_for n = Inr p \<longleftrightarrow> snapshot_named n \<and> p = n @ dvsnap"
  by (auto simp: path_for_def snapshot_named_def)

lemma path_for_not: "\<not> snapshot_named n \<Longrightarrow> \<exists>e. path_for n = Inl e"
  by (auto simp: path_for_def snapshot_named_def)

lemma temp_other: "temp_for p \<noteq> n @ dvsnap"
proof
  assume "temp_for p = n @ dvsnap"
  then have "rev (temp_for p) = rev (n @ dvsnap)" by simp
  then show False by (simp add: temp_for_def dvsnap_def)
qed

lemma put_dir:
  assumes "bt_ok d" and "snapshot_named n"
  shows "fst (snap_put n b d) = Inr ()" and "bt_ok (snd (snap_put n b d))"
    and "bt_get (snd (snap_put n b d)) = (bt_get d)(temp_for (n @ dvsnap) := None, n @ dvsnap \<mapsto> b)"
proof -
  let ?t = "temp_for (n @ dvsnap)"
  have p: "path_for n = Inr (n @ dvsnap)" using assms(2) by (simp add: path_for_named)
  have g: "bt_get (bt_insert ?t b d) ?t = Some b" using assms(1) by (simp add: bt.get_ins)
  have s: "snap_put n b d = (Inr (), bt_insert (n @ dvsnap) b (bt_remove ?t (bt_insert ?t b d)))"
    using g by (simp add: snap_put_def p Let_def fs_rename_def fs_write_def)
  show "fst (snap_put n b d) = Inr ()" "bt_ok (snd (snap_put n b d))"
    "bt_get (snd (snap_put n b d)) = (bt_get d)(?t := None, n @ dvsnap \<mapsto> b)"
    using assms(1) by (auto simp: s bt.ok_ins bt.ok_del bt.get_ins bt.get_del fun_eq_iff)
qed

lemma snapshot_name_file: "snapshot_name p = Some m \<longleftrightarrow> p = m @ dvsnap"
  by (auto simp: snapshot_name_def suffix_def)

lemma in_list: "bt_ok d \<Longrightarrow> n \<in> set (snap_list d) \<longleftrightarrow> bt_get d (n @ dvsnap) \<noteq> None"
proof -
  assume d: "bt_ok d"
  have "set (List.map_filter f xs) = {y. \<exists>x\<in>set xs. f x = Some y}" for f :: "string \<times> bytes \<Rightarrow> string option" and xs
    by (induction xs) (auto simp: List.map_filter_def)
  then have "n \<in> set (snap_list d) \<longleftrightarrow> (\<exists>e\<in>set d. fst e = n @ dvsnap)"
    by (simp add: snap_list_def snapshot_name_file)
  also have "\<dots> \<longleftrightarrow> (\<exists>v. bt_get d (n @ dvsnap) = Some v)" 
    by (auto simp: bt_get_in [OF d] intro: bexI [of _ "(n @ dvsnap, _)"])
  finally show ?thesis by simp
qed

interpretation dir: snapshot_store snap_put snap_get snap_remove snap_list snapshot_named bt_ok
proof
  fix d :: directory and n m b
  assume d: "bt_ok d"
  show "bt_ok (snd (snap_put n b d))"
    using put_dir(2) [OF d] path_for_not [of n] d by (cases "snapshot_named n") (auto simp: snap_put_def)
  show "bt_ok (snd (snap_remove n d))" using d by (simp add: snap_remove_def bt.ok_del split: sum.split)
  {
    assume n: "snapshot_named n" and m: "snapshot_named m"
    have p: "path_for n = Inr (n @ dvsnap)" "path_for m = Inr (m @ dvsnap)" using n m by (simp_all add: path_for_named)
    show "snap_get m (snd (snap_put n b d)) = (if m = n then Inr (Some b) else snap_get m d)"
      using temp_other [of "n @ dvsnap" m] by (auto simp: snap_get_def p put_dir(3) [OF d n])
    show "snap_get m (snd (snap_remove n d)) = (if m = n then Inr None else snap_get m d)"
      using d by (simp add: snap_get_def snap_remove_def p bt.get_del)
  next
    assume "snapshot_named n"
    then show "n \<in> set (snap_list d) \<longleftrightarrow> (\<exists>b. snap_get n d = Inr (Some b))"
      using in_list [OF d] by (simp add: snap_get_def path_for_named [THEN iffD2])
  }
next
  fix d :: directory and n b
  assume "\<not> snapshot_named n"
  then obtain e where e: "path_for n = Inl e" using path_for_not by blast
  show "\<exists>e. snap_get n d = Inl e" by (simp add: snap_get_def e)
  show "(\<exists>e. snap_put n b d = (Inl e, d)) \<and> (\<exists>e. snap_remove n d = (Inl e, d))"
    by (simp add: snap_put_def snap_remove_def e)
next
  fix d :: directory and n b
  assume "snapshot_named n"
  then have "path_for n = Inr (n @ dvsnap)" by (simp add: path_for_named)
  then show "fst (snap_put n b d) = Inr () \<and> fst (snap_remove n d) = Inr ()"
    by (simp add: snap_put_def snap_remove_def Let_def)
qed

text \<open>The store as a map: the last word on a name is what the store has under it.\<close>

definition store_run :: "(string \<times> bytes option) list \<Rightarrow> directory \<Rightarrow> directory" where
  "store_run ops d = foldl (\<lambda>d (n, v). case v of Some b \<Rightarrow> snd (snap_put n b d) | None \<Rightarrow> snd (snap_remove n d)) d ops"

lemma store_run_eq: "store_run ops d = dir.run ops d"
  by (induction ops d rule: dir.run.induct) (auto simp: store_run_def split: option.splits)

text \<open>
  C17. The directory is a map from names to snapshots.  After any puts and removals, whatever their names, a name
  that is allowed has exactly what the last of them to touch it left, under no other name's file, and is
  listed if and only if it has a snapshot; and a name that is not one plain component is refused.
\<close>

theorem store_is_a_map:
  assumes "bt_ok d"
  shows "(snapshot_named m \<longrightarrow>
      snap_get m (store_run ops d) = (case map_of (rev ops) m of Some v \<Rightarrow> Inr v | None \<Rightarrow> snap_get m d) \<and>
      (m \<in> set (snap_list (store_run ops d)) \<longleftrightarrow> (\<exists>b. snap_get m (store_run ops d) = Inr (Some b)))) \<and>
    (\<not> snapshot_named m \<longrightarrow> (\<exists>why. snap_get m d = Inl why \<and> snap_put m b d = (Inl why, d)))"
proof (intro conjI impI)
  assume m: "snapshot_named m"
  show "snap_get m (store_run ops d) = (case map_of (rev ops) m of Some v \<Rightarrow> Inr v | None \<Rightarrow> snap_get m d)"
    unfolding store_run_eq by (rule dir.run_get [OF assms m])
  show "m \<in> set (snap_list (store_run ops d)) \<longleftrightarrow> (\<exists>b. snap_get m (store_run ops d) = Inr (Some b))"
    unfolding store_run_eq by (rule dir.names_run [OF assms m])
next
  assume "\<not> snapshot_named m"
  then obtain e where e: "path_for m = Inl e" using path_for_not by blast
  then show "\<exists>why. snap_get m d = Inl why \<and> snap_put m b d = (Inl why, d)" by (simp add: snap_get_def snap_put_def)
qed

theorem store_is_a_map_witness:
  "snap_get ''a'' (store_run [(''a'', Some [1]), (''../b'', Some [2]), (''a'', Some [3])] []) = Inr (Some [3])"
proof -
  have "snapshot_named ''a''" by (simp add: snapshot_named_def snapshot_char_def)
  then show ?thesis
    using store_is_a_map [of "[]" "''a''" "[(''a'', Some [1]), (''../b'', Some [2]), (''a'', Some [3])]"] by simp
qed

text \<open>
  What a put leaves when it dies before the rename: the temporary file, holding whatever bytes had
  reached it.
\<close>

definition crashed_put :: "string \<Rightarrow> bytes \<Rightarrow> directory \<Rightarrow> directory" where
  "crashed_put n written d = (case path_for n of Inl e \<Rightarrow> d | Inr path \<Rightarrow> fs_write (temp_for path) written d)"

text \<open>
  A crash in the middle of a put leaves the previous snapshot and never part of the new one: with the
  temporary file written in full or in part and the rename not made, every name reads, and the list lists,
  what it did before; and a put that comes after is not disturbed by what the crash left.
\<close>

theorem crash_keeps_the_previous:
  assumes "bt_ok d"
  shows "snap_get m (crashed_put n written d) = snap_get m d \<and>
    set (snap_list (crashed_put n written d)) = set (snap_list d) \<and>
    (snapshot_named k \<longrightarrow> snap_get k (snd (snap_put k c (crashed_put n written d))) = Inr (Some c))"
proof -
  have c: "bt_ok (crashed_put n written d)" "bt_get (crashed_put n written d) (x @ dvsnap) = bt_get d (x @ dvsnap)" for x
    using assms temp_other [of _ x, symmetric]
    by (auto simp: crashed_put_def fs_write_def bt.ok_ins bt.get_ins split: sum.split)
  have "snap_get m (crashed_put n written d) = snap_get m d"
    using c(2) by (auto simp: snap_get_def path_for_def)
  moreover have "set (snap_list (crashed_put n written d)) = set (snap_list d)"
    using in_list [OF c(1)] in_list [OF assms] c(2) by auto
  moreover have "snapshot_named k \<longrightarrow> snap_get k (snd (snap_put k c (crashed_put n written d))) = Inr (Some c)"
    using dir.get_put [OF c(1)] by simp
  ultimately show ?thesis by blast
qed

theorem crash_keeps_the_previous_witness:
  "snap_get ''a'' (crashed_put ''a'' [9] [(''a.dvsnap'', [1])]) = Inr (Some [1])"
proof -
  have "snap_get ''a'' (crashed_put ''a'' [9] [(''a.dvsnap'', [1])]) = snap_get ''a'' [(''a.dvsnap'', [1])]"
    using crash_keeps_the_previous [of "[(''a.dvsnap'', [1])]" _ _ "[9]"] by simp
  then show ?thesis by (simp add: snap_get_def path_for_def snapshot_char_def dvsnap_def bt_get_def)
qed

end
