(* ===== verification/Civil_Time.thy ===== *)
theory Civil_Time
  imports Rust_Text "HOL-Library.Signed_Division"
begin

text \<open>
  Instants and windows, \<^verbatim>\<open>crates/drt-config/src/time.rs\<close>.  An instant is its seconds since
  the epoch; \<open>days_from_civil\<close> and \<open>civil_from_days\<close> are the source's calendar
  arithmetic with Rust's truncating division (\<open>sdiv\<close>) where the operand can be negative.  The lemmas
  show that the two are inverse on every date of the calendar, that a printed instant reads back, and that the
  windows' intersection is the intersection of what they contain.
\<close>

section \<open>The calendar\<close>

definition days_from_civil :: "int \<Rightarrow> int \<Rightarrow> int \<Rightarrow> int" where
  "days_from_civil y m d =
     (let year = (if m \<le> 2 then y - 1 else y);
          era = (if 0 \<le> year then year else year - 399) sdiv 400;
          yoe = year - era * 400;
          doy = (153 * (if 2 < m then m - 3 else m + 9) + 2) div 5 + d - 1;
          doe = yoe * 365 + yoe div 4 - yoe div 100 + doy
      in era * 146097 + doe - 719468)"

definition civil_from_days :: "int \<Rightarrow> int \<times> int \<times> int" where
  "civil_from_days days =
     (let z = days + 719468;
          era = (if 0 \<le> z then z else z - 146096) sdiv 146097;
          doe = z - era * 146097;
          yoe = (doe - doe div 1460 + doe div 36524 - doe div 146096) div 365;
          y = yoe + era * 400;
          doy = doe - (365 * yoe + yoe div 4 - yoe div 100);
          mp = (5 * doy + 2) div 153;
          d = doy - (153 * mp + 2) div 5 + 1;
          m = (if mp < 10 then mp + 3 else mp - 9)
      in (if m \<le> 2 then y + 1 else y, m, d))"

section \<open>Instants\<close>

type_synonym timestamp = int

datatype bad_timestamp = BadTimestamp string

definition is_after :: "timestamp \<Rightarrow> timestamp \<Rightarrow> bool" where
  "is_after t now \<longleftrightarrow> now < t"

text \<open>\<^verbatim>\<open>parse::<i64>()\<close> of at most four characters, which cannot overflow: a sign is allowed.\<close>

definition parse_i64 :: "string \<Rightarrow> int option" where
  "parse_i64 s = (case s of
     [] \<Rightarrow> None
   | c # cs \<Rightarrow>
      (let neg = (c = CHR ''-''); ds = (if c = CHR ''-'' \<or> c = CHR ''+'' then cs else s) in
       if ds = [] then None else map_option (\<lambda>n. if neg then - int n else int n) (parse_digits 0 ds)))"

definition slice :: "nat \<Rightarrow> nat \<Rightarrow> string \<Rightarrow> string" where
  "slice a b s = take (b - a) (drop a s)"

text \<open>The separators are ASCII, so the slices between them lie on character boundaries.\<close>

definition timestamp_parse :: "string \<Rightarrow> bad_timestamp + timestamp" where
  "timestamp_parse s =
     (if length s \<noteq> 20 \<or> s ! 4 \<noteq> CHR ''-'' \<or> s ! 7 \<noteq> CHR ''-'' \<or> s ! 10 \<noteq> CHR ''T'' \<or> s ! 13 \<noteq> CHR '':'' \<or>
         s ! 16 \<noteq> CHR '':'' \<or> s ! 19 \<noteq> CHR ''Z'' then Inl (BadTimestamp s)
      else (case (parse_i64 (slice 0 4 s), parse_i64 (slice 5 7 s), parse_i64 (slice 8 10 s),
                  parse_i64 (slice 11 13 s), parse_i64 (slice 14 16 s), parse_i64 (slice 17 19 s)) of
          (Some year, Some month, Some day, Some hour, Some minute, Some second) \<Rightarrow>
            (if \<not> (1 \<le> month \<and> month \<le> 12) \<or> \<not> (1 \<le> day \<and> day \<le> 31) then Inl (BadTimestamp s)
             else if 23 < hour \<or> 59 < minute \<or> 59 < second then Inl (BadTimestamp s)
             else Inr (days_from_civil year month day * 86400 + hour * 3600 + minute * 60 + second))
        | _ \<Rightarrow> Inl (BadTimestamp s)))"

text \<open>\<^verbatim>\<open>{n:0w}\<close>: decimal, with zeros in front up to a width that counts the sign.\<close>

definition pad_int :: "nat \<Rightarrow> int \<Rightarrow> string" where
  "pad_int w n = (let ds = show_nat (nat \<bar>n\<bar>) in
     if n < 0 then CHR ''-'' # replicate (w - 1 - length ds) CHR ''0'' @ ds
     else replicate (w - length ds) CHR ''0'' @ ds)"

definition show_timestamp :: "timestamp \<Rightarrow> string" where
  "show_timestamp t =
     (let days = t div 86400; rest = t mod 86400 in
      case civil_from_days days of (year, month, day) \<Rightarrow>
        pad_int 4 year @ ''-'' @ pad_int 2 month @ ''-'' @ pad_int 2 day @ ''T'' @ pad_int 2 (rest div 3600) @ '':''
        @ pad_int 2 ((rest mod 3600) div 60) @ '':'' @ pad_int 2 (rest mod 60) @ ''Z'')"

section \<open>Windows\<close>

record window =
  wn_from :: "timestamp option"
  wn_until :: "timestamp option"

definition tighter :: "(int \<Rightarrow> int \<Rightarrow> int) \<Rightarrow> int option \<Rightarrow> int option \<Rightarrow> int option" where
  "tighter f a b = (case (a, b) of (Some x, Some y) \<Rightarrow> Some (f x y) | (None, y) \<Rightarrow> y | (x, None) \<Rightarrow> x)"

definition intersect :: "window \<Rightarrow> window \<Rightarrow> window" where
  "intersect a b = \<lparr>wn_from = tighter max (wn_from a) (wn_from b), wn_until = tighter min (wn_until a) (wn_until b)\<rparr>"

definition is_non_empty :: "window \<Rightarrow> bool" where
  "is_non_empty w = (case (wn_from w, wn_until w) of (Some f, Some u) \<Rightarrow> f \<le> u | _ \<Rightarrow> True)"

definition window_contains :: "window \<Rightarrow> timestamp \<Rightarrow> bool" where
  "window_contains w now \<longleftrightarrow> (case wn_from w of None \<Rightarrow> True | Some f \<Rightarrow> f \<le> now) \<and>
     (case wn_until w of None \<Rightarrow> True | Some u \<Rightarrow> now \<le> u)"

section \<open>The calendar arithmetic\<close>

lemma div_range:
  assumes "0 \<le> (a :: int)" and "a < k * b" and "0 < k"
  shows "0 \<le> a div k" and "a div k < b"
proof -
  show "0 \<le> a div k" using assms by (simp add: pos_imp_zdiv_nonneg_iff)
  show "a div k < b"
  proof (rule ccontr)
    assume "\<not> a div k < b"
    then have "k * b \<le> k * (a div k)" using assms(3) by (simp add: mult_left_mono)
    also have "\<dots> \<le> a" using assms(3) pos_mod_sign [of k a] by (simp add: minus_mod_eq_mult_div [symmetric])
    finally show False using assms(2) by simp
  qed
qed

text \<open>The dates there are.\<close>

definition leap :: "int \<Rightarrow> bool" where
  "leap y \<longleftrightarrow> 4 dvd y \<and> (\<not> 100 dvd y \<or> 400 dvd y)"

definition month_days :: "int \<Rightarrow> int \<Rightarrow> int" where
  "month_days y m = (if m = 2 then (if leap y then 29 else 28) else if m = 4 \<or> m = 6 \<or> m = 9 \<or> m = 11 then 30 else 31)"

definition is_date :: "int \<Rightarrow> int \<Rightarrow> int \<Rightarrow> bool" where
  "is_date y m d \<longleftrightarrow> 1 \<le> m \<and> m \<le> 12 \<and> 1 \<le> d \<and> d \<le> month_days y m"

lemma floor_sdiv:
  assumes k: "0 < k" and l: "l = k - 1"
  shows "(if 0 \<le> x then x else x - l) sdiv k = (x :: int) div k"
proof (cases "0 \<le> x")
  case True
  then show ?thesis using k by (simp add: signed_divide_int_def sgn_if)
next
  case False
  have "(x - (k - 1)) sdiv k = - ((k - 1 - x) div k)"
    using False k by (simp add: signed_divide_int_def sgn_if)
  also have "(k - 1 - x) div k = - (x div k)"
  proof (rule int_div_pos_eq)
    have "k * (x div k) + x mod k = x" by simp
    then show "k - 1 - x = k * (- (x div k)) + (k - 1 - x mod k)" by (simp add: algebra_simps)
    show "0 \<le> k - 1 - x mod k" using pos_mod_bound [OF k, of x] by simp
    show "k - 1 - x mod k < k" using pos_mod_sign [OF k, of x] by simp
  qed
  finally show ?thesis using False l by simp
qed

text \<open>Years from March and days within an era of 400 years.\<close>

lemma year_of_day:
  assumes "0 \<le> c" "c \<le> 3" and "0 \<le> q" "q \<le> 24" and "0 \<le> r" "r \<le> 3" and "0 \<le> D" "D \<le> 365"
    and leapday: "D = 365 \<longrightarrow> r = 3 \<and> (q < 24 \<or> c = 3)" and Y: "Y = 100 * c + 4 * q + r"
  defines "doe \<equiv> 365 * Y + Y div 4 - Y div 100 + (D :: int)"
  shows "(doe - doe div 1460 + doe div 36524 - doe div 146096) div 365 = Y" and "0 \<le> doe" and "doe < 146097"
proof -
  have Y4: "Y div 4 = 25 * c + q" by (rule int_div_pos_eq [of _ _ _ r]) (use Y assms(5,6) in simp_all)
  have Y100: "Y div 100 = c" by (rule int_div_pos_eq [of _ _ _ "4 * q + r"]) (use Y assms(3-6) in simp_all)
  have doe: "doe = 36524 * c + 1461 * q + 365 * r + D" unfolding doe_def Y4 Y100 by (simp add: Y)
  show "0 \<le> doe" "doe < 146097" unfolding doe using assms(1-8) by linarith+
  define N where "N = 24 * c + q + 365 * r + D"
  define t where "t = (if N < 1460 then 0 else 1 :: int)"
  have N: "0 \<le> N" "N < 2920" unfolding N_def using assms(1-8) by linarith+
  have d1: "doe div 1460 = 25 * c + q + t"
    by (rule int_div_pos_eq [of _ _ _ "N - 1460 * t"]) (use N in \<open>auto simp: doe N_def t_def\<close>)
  show "(doe - doe div 1460 + doe div 36524 - doe div 146096) div 365 = Y"
  proof (cases "doe = 146096")
    case True
    have "c = 3" "q = 24" "r = 3" "D = 365" using True unfolding doe using assms(1-8) by linarith+
    then show ?thesis using True unfolding Y by simp
  next
    case False
    have small: "1461 * q + 365 * r + D < 36524"
    proof (rule ccontr)
      assume "\<not> 1461 * q + 365 * r + D < 36524"
      then have "q = 24" "r = 3" "D = 365" using assms(3-8) by linarith+
      then have "c = 3" using leapday by simp
      then show False using False \<open>q = 24\<close> \<open>r = 3\<close> \<open>D = 365\<close> unfolding doe by simp
    qed
    have d2: "doe div 36524 = c"
      by (rule int_div_pos_eq [of _ _ _ "1461 * q + 365 * r + D"]) (use small assms(3-8) in \<open>simp_all add: doe\<close>)
    have d3: "doe div 146096 = 0" using \<open>0 \<le> doe\<close> \<open>doe < 146097\<close> False by (simp add: div_pos_pos_trivial)
    have Dt: "0 \<le> D - t" "D - t < 365"
    proof -
      have "t = 1 \<Longrightarrow> 1 \<le> D" using assms(1-8) by (auto simp: t_def N_def split: if_splits)
      then show "0 \<le> D - t" using assms(7) by (auto simp: t_def)
      have "D = 365 \<Longrightarrow> t = 1" using leapday assms(1-4) by (auto simp: t_def N_def)
      then show "D - t < 365" using assms(8) by (cases "D = 365") (auto simp: t_def)
    qed
    have "doe - doe div 1460 + doe div 36524 - doe div 146096 = 365 * Y + (D - t)"
      unfolding d1 d2 d3 using doe Y by simp
    then show ?thesis by (rule int_div_pos_eq) (rule Dt)+
  qed
qed


lemma month_of_day:
  assumes "is_date y m d"
  defines "mp \<equiv> (if 2 < m then m - 3 else m + 9)"
  defines "D \<equiv> (153 * mp + 2) div 5 + d - 1"
  shows "0 \<le> D" and "D \<le> 365" and "(5 * D + 2) div 153 = mp" and "D = 365 \<longrightarrow> m = 2 \<and> leap y"
    and "0 \<le> mp" and "mp < 12"
proof -
  have d: "1 \<le> d" "d \<le> month_days y m" and m: "1 \<le> m" "m \<le> 12" using assms(1) by (auto simp: is_date_def)
  then have "m = 1 \<or> m = 2 \<or> m = 3 \<or> m = 4 \<or> m = 5 \<or> m = 6 \<or> m = 7 \<or> m = 8 \<or> m = 9 \<or> m = 10 \<or> m = 11 \<or> m = 12" by presburger
  then have *: "0 \<le> D \<and> D \<le> 365 \<and> (5 * D + 2) div 153 = mp \<and> (D = 365 \<longrightarrow> m = 2 \<and> leap y) \<and> 0 \<le> mp \<and> mp < 12"
    by (elim disjE; insert d; simp add: D_def mp_def month_days_def split: if_splits; presburger?)
  then show "0 \<le> D" and "D \<le> 365" and "(5 * D + 2) div 153 = mp" and "D = 365 \<longrightarrow> m = 2 \<and> leap y"
    and "0 \<le> mp" and "mp < 12" by blast+
qed

text \<open>A year counted from March, by its place in the era.\<close>

lemma year_parts:
  fixes year :: int
  defines "Y \<equiv> year mod 400"
  shows "Y = 100 * (Y div 100) + 4 * (Y mod 100 div 4) + Y mod 4" and "0 \<le> Y div 100" "Y div 100 \<le> 3"
    and "0 \<le> Y mod 100 div 4" "Y mod 100 div 4 \<le> 24" and "0 \<le> Y mod 4" "Y mod 4 \<le> 3"
proof -
  have Y: "0 \<le> Y" "Y < 400" by (simp_all add: Y_def)
  define Z where "Z = Y mod 100"
  have Z: "0 \<le> Z" "Z < 100" by (simp_all add: Z_def)
  have "Y = 100 * (Y div 100) + Z" "Z = 4 * (Z div 4) + Z mod 4" by (simp_all add: Z_def)
  moreover have "Z mod 4 = Y mod 4" by (simp add: Z_def mod_mod_cancel)
  ultimately show "Y = 100 * (Y div 100) + 4 * (Y mod 100 div 4) + Y mod 4" unfolding Z_def by linarith
  show "0 \<le> Y div 100" "Y div 100 \<le> 3" using div_range [of Y 100 4] Y by simp_all
  show "0 \<le> Y mod 100 div 4" "Y mod 100 div 4 \<le> 24" unfolding Z_def [symmetric] using div_range [of Z 4 25] Z by simp_all
  show "0 \<le> Y mod 4" "Y mod 4 \<le> 3" by presburger+
qed

lemma leap_part:
  fixes year :: int
  assumes "leap (year + 1)"
  shows "year mod 400 mod 4 = 3" and "year mod 400 mod 100 div 4 < 24 \<or> year mod 400 div 100 = 3"
proof -
  have "4 dvd year + 1" using assms by (simp add: leap_def)
  then have y4: "year mod 4 = 3" by presburger
  then show a: "year mod 400 mod 4 = 3" by (simp add: mod_mod_cancel)
  show "year mod 400 mod 100 div 4 < 24 \<or> year mod 400 div 100 = 3"
  proof (rule ccontr)
    assume n: "\<not> (year mod 400 mod 100 div 4 < 24 \<or> year mod 400 div 100 = 3)"
    define Z where "Z = year mod 100"
    have Z: "year mod 400 mod 100 = Z" "Z mod 4 = 3" "0 \<le> Z" "Z < 100"
      using y4 by (simp_all add: Z_def mod_mod_cancel)
    have "\<not> Z div 4 < 24" using n unfolding Z(1) by blast
    then have "Z = 99" using Z(2-4) by presburger
    then have "100 dvd year + 1" unfolding Z_def by presburger
    then have "400 dvd year + 1" using assms by (simp add: leap_def)
    then obtain k where "year + 1 = 400 * k" by (elim dvdE)
    then have "year = 400 * (k - 1) + 399" by simp
    then have "year mod 400 = 399" by (rule int_mod_pos_eq) simp_all
    then show False using n by simp
  qed
qed

lemma civil_of_civil:
  assumes "is_date y m d"
  shows "civil_from_days (days_from_civil y m d) = (y, m, d)"
proof -
  define year where "year = (if m \<le> 2 then y - 1 else y)"
  define era where "era = year div 400"
  define Y where "Y = year mod 400"
  define mp where "mp = (if 2 < m then m - 3 else m + 9)"
  define D where "D = (153 * mp + 2) div 5 + d - 1"
  define doe where "doe = 365 * Y + Y div 4 - Y div 100 + D"
  note month = month_of_day [OF assms, folded mp_def, folded D_def]
  have "year - era * 400 = Y" by (simp add: era_def Y_def minus_div_mult_eq_mod)
  moreover have "(if 0 \<le> year then year else year - 399) sdiv 400 = era"
    using floor_sdiv [of 400 399 year] by (simp add: era_def)
  ultimately have days: "days_from_civil y m d = era * 146097 + doe - 719468"
    unfolding days_from_civil_def Let_def year_def [symmetric] mp_def [symmetric]
    by (simp add: doe_def D_def)
  have leapday: "D = 365 \<longrightarrow> Y mod 4 = 3 \<and> (Y mod 100 div 4 < 24 \<or> Y div 100 = 3)"
  proof
    assume "D = 365"
    then have "m = 2" "leap y" using month(4) by simp_all
    then have "leap (year + 1)" by (simp add: year_def)
    then show "Y mod 4 = 3 \<and> (Y mod 100 div 4 < 24 \<or> Y div 100 = 3)" using leap_part [of year] by (simp add: Y_def)
  qed
  note yp = year_parts [of year, folded Y_def]
  note yd = year_of_day [OF yp(2-7) month(1,2) leapday yp(1), folded doe_def]
  have era: "(if 0 \<le> era * 146097 + doe then era * 146097 + doe else era * 146097 + doe - 146096) sdiv 146097 = era"
  proof -
    have "(era * 146097 + doe) div 146097 = era" by (rule int_div_pos_eq [of _ _ _ doe]) (use yd(2,3) in simp_all)
    then show ?thesis using floor_sdiv [of 146097 146096 "era * 146097 + doe"] by simp
  qed
  have D: "doe - (365 * Y + Y div 4 - Y div 100) = D" by (simp add: doe_def)
  have "era * 146097 + doe - 719468 + 719468 = era * 146097 + doe" by simp
  moreover have "era * 146097 + doe - era * 146097 = doe" by simp
  ultimately have "civil_from_days (days_from_civil y m d) =
    (let m' = (if mp < 10 then mp + 3 else mp - 9) in (if m' \<le> 2 then Y + era * 400 + 1 else Y + era * 400, m', D - (153 * mp + 2) div 5 + 1))"
    unfolding civil_from_days_def days Let_def by (simp only: era yd(1) D month(3) if_True if_False)
  moreover have "(if mp < 10 then mp + 3 else mp - 9) = m" using assms by (auto simp: mp_def is_date_def)
  moreover have "Y + era * 400 = year" by (simp add: Y_def era_def)
  ultimately show ?thesis by (simp add: D_def year_def)
qed


section \<open>The calendar the arithmetic counts\<close>

fun next_date :: "int \<times> int \<times> int \<Rightarrow> int \<times> int \<times> int" where
  "next_date (y, m, d) = (if d < month_days y m then (y, m, d + 1) else if m < 12 then (y, m + 1, 1) else (y + 1, 1, 1))"

fun prev_date :: "int \<times> int \<times> int \<Rightarrow> int \<times> int \<times> int" where
  "prev_date (y, m, d) = (if 1 < d then (y, m, d - 1) else if 1 < m then (y, m - 1, month_days y (m - 1)) else (y - 1, 12, 31))"

lemma month_range: "1 \<le> m \<Longrightarrow> m \<le> 12 \<Longrightarrow>
    m = 1 \<or> m = 2 \<or> m = 3 \<or> m = 4 \<or> m = 5 \<or> m = 6 \<or> m = 7 \<or> m = 8 \<or> m = 9 \<or> m = 10 \<or> m = 11 \<or> m = (12 :: int)"
  by presburger

lemma next_is_date: "is_date y m d \<Longrightarrow> next_date (y, m, d) = (y', m', d') \<Longrightarrow> is_date y' m' d'"
  using month_range [of m] by (auto simp: is_date_def month_days_def split: if_splits)

lemma prev_is_date: "is_date y m d \<Longrightarrow> prev_date (y, m, d) = (y', m', d') \<Longrightarrow>
    is_date y' m' d' \<and> next_date (y', m', d') = (y, m, d)"
  using month_range [of m] by (auto simp: is_date_def month_days_def split: if_splits)

lemma div_pred: "0 < k \<Longrightarrow> (y :: int) div k = (y - 1) div k + (if k dvd y then 1 else 0)"
proof -
  assume k: "0 < k"
  show ?thesis
  proof (cases "k dvd y")
    case True
    then obtain j where j: "y = k * j" by (elim dvdE)
    have "(y - 1) div k = j - 1" by (rule int_div_pos_eq [of _ _ _ "k - 1"]) (use j k in \<open>simp_all add: algebra_simps\<close>)
    then show ?thesis using True j k by simp
  next
    case False
    have r: "0 < y mod k" "y mod k < k" 
      using False k pos_mod_sign [of k y] pos_mod_bound [of k y] by (auto simp: dvd_eq_mod_eq_0 order_le_less)
    have "k * (y div k) + y mod k = y" by simp
    then have "(y - 1) div k = y div k"
      by (intro int_div_pos_eq [of _ _ _ "y mod k - 1"]) (use r in simp_all)
    then show ?thesis using False by simp
  qed
qed

lemma days_formula:
  "days_from_civil y m d =
    (let year = (if m \<le> 2 then y - 1 else y) in
     365 * year + year div 4 - year div 100 + year div 400 +
     ((153 * (if 2 < m then m - 3 else m + 9) + 2) div 5 + d - 1) - 719468)"
proof -
  define year where "year = (if m \<le> 2 then y - 1 else y)"
  define era where "era = year div 400"
  define Y where "Y = year mod 400"
  have yr: "year = 400 * era + Y" by (simp add: era_def Y_def)
  have e: "(if 0 \<le> year then year else year - 399) sdiv 400 = era"
    using floor_sdiv [of 400 399 year] by (simp add: era_def)
  have sub: "year - era * 400 = Y" using yr by simp
  have "year div 4 = 100 * era + Y div 4" "year div 100 = 4 * era + Y div 100"
    unfolding yr by (simp_all add: div_add1_eq [of "400 * era"] mult.commute flip: mult.assoc)
  then show ?thesis
    unfolding days_from_civil_def Let_def year_def [symmetric] e sub era_def [symmetric] by (simp add: yr)
qed

lemma leap_count:
  "c \<longrightarrow> b \<Longrightarrow> b \<longrightarrow> a \<Longrightarrow> (if a \<and> (\<not> b \<or> c) then 1 else 0) =
    (if a then 1 else 0) - (if b then 1 else 0) + (if c then 1 else (0 :: int))"
  by (cases a; cases b; cases c) simp_all

lemma days_next:
  assumes "is_date y m d"
  shows "days_from_civil (fst (next_date (y, m, d))) (fst (snd (next_date (y, m, d)))) (snd (snd (next_date (y, m, d)))) =
    days_from_civil y m d + 1"
proof (cases "d < month_days y m")
  case True
  then show ?thesis by (simp add: days_formula Let_def)
next
  case False
  then have d: "d = month_days y m" using assms by (simp add: is_date_def)
  have steps: "y div 4 = (y - 1) div 4 + (if 4 dvd y then 1 else 0)" "y div 100 = (y - 1) div 100 + (if 100 dvd y then 1 else 0)"
    "y div 400 = (y - 1) div 400 + (if 400 dvd y then 1 else 0)"
    by (rule div_pred, simp)+
  have lp: "(if leap y then 1 else 0) = (if 4 dvd y then 1 else 0) - (if 100 dvd y then 1 else 0) + (if 400 dvd y then 1 else (0 :: int))"
    unfolding leap_def
  proof (rule leap_count)
    have "(100 :: int) dvd 400" "(4 :: int) dvd 100" by simp_all
    then show "400 dvd y \<longrightarrow> 100 dvd y" "100 dvd y \<longrightarrow> 4 dvd y" using dvd_trans by blast+
  qed
  have feb: "month_days y 2 = 28 + (if leap y then 1 else 0)" by (simp add: month_days_def)
  have "1 \<le> m" "m \<le> 12" using assms by (simp_all add: is_date_def)
  from month_range [OF this] show ?thesis
  proof (elim disjE)
    assume m: "m = 2"
    have "days_from_civil y 3 1 = days_from_civil y 2 (month_days y 2) + 1"
      unfolding feb lp days_formula Let_def using steps by simp
    then show ?thesis using False d m by simp
  qed (use False d in \<open>simp_all add: days_formula Let_def month_days_def\<close>)
qed

lemma every_day_is_a_date: "\<exists>y m d. is_date y m d \<and> days_from_civil y m d = n"
proof (induction n rule: int_induct [of _ 0])
  case base
  have "is_date 1970 1 1" by (simp add: is_date_def month_days_def)
  moreover have "days_from_civil 1970 1 1 = 0" by (simp add: days_formula)
  ultimately show ?case by blast
next
  case (step1 i)
  then obtain y m d where d: "is_date y m d" "days_from_civil y m d = i" by blast
  obtain y' m' d' where n: "next_date (y, m, d) = (y', m', d')" by (cases "next_date (y, m, d)") auto
  have "is_date y' m' d'" by (rule next_is_date [OF d(1) n])
  moreover have "days_from_civil y' m' d' = i + 1" using days_next [OF d(1)] d(2) unfolding n by simp
  ultimately show ?case by blast
next
  case (step2 i)
  then obtain y m d where d: "is_date y m d" "days_from_civil y m d = i" by blast
  obtain y' m' d' where n: "prev_date (y, m, d) = (y', m', d')" by (cases "prev_date (y, m, d)") auto
  note p = prev_is_date [OF d(1) n]
  have x: "is_date y' m' d'" "next_date (y', m', d') = (y, m, d)" using p by simp_all
  have "i = days_from_civil y' m' d' + 1" using days_next [OF x(1)] d(2) unfolding x(2) by simp
  then have "days_from_civil y' m' d' = i - 1" by simp
  then show ?case using p by blast
qed

lemma calendar_iff:
  "civil_from_days n = (y, m, d) \<longleftrightarrow> is_date y m d \<and> days_from_civil y m d = n"
proof -
  obtain y' m' d' where e: "is_date y' m' d'" "days_from_civil y' m' d' = n" using every_day_is_a_date [of n] by blast
  have c: "civil_from_days n = (y', m', d')" using civil_of_civil [OF e(1)] e(2) by simp
  show ?thesis
  proof
    assume "civil_from_days n = (y, m, d)"
    then have "y' = y" "m' = m" "d' = d" unfolding c by simp_all
    then show "is_date y m d \<and> days_from_civil y m d = n" using e by simp
  next
    assume "is_date y m d \<and> days_from_civil y m d = n"
    then show "civil_from_days n = (y, m, d)" using civil_of_civil by blast
  qed
qed

lemma civil_from_days_of: "is_date y m d \<Longrightarrow> days_from_civil y m d = n \<Longrightarrow> civil_from_days n = (y, m, d)"
  using calendar_iff by blast

text \<open>
  C20. The arithmetic is the calendar.  The days of a date count the dates since 1970-01-01 one by one, over
  leap years and ends of months, and the date of a day is that date and no other, before the epoch and after.
\<close>

theorem calendar_exact:
  "(civil_from_days n = (y, m, d) \<longleftrightarrow> is_date y m d \<and> days_from_civil y m d = n) \<and>
   days_from_civil 1970 1 1 = 0 \<and> civil_from_days (n + 1) = next_date (civil_from_days n)"
proof (intro conjI)
  show "civil_from_days n = (y, m, d) \<longleftrightarrow> is_date y m d \<and> days_from_civil y m d = n" by (rule calendar_iff)
  show "days_from_civil 1970 1 1 = 0" by (simp add: days_formula)
  obtain y' m' d' where c: "civil_from_days n = (y', m', d')" by (cases "civil_from_days n") auto
  have e: "is_date y' m' d'" "days_from_civil y' m' d' = n" using c calendar_iff by blast+
  obtain a b f where x: "next_date (y', m', d') = (a, b, f)" by (cases "next_date (y', m', d')") auto
  have f: "is_date a b f" by (rule next_is_date [OF e(1) x])
  have "days_from_civil a b f = n + 1" using days_next [OF e(1)] e(2) unfolding x by simp
  then have "civil_from_days (n + 1) = (a, b, f)" using civil_of_civil [OF f] by simp
  then show "civil_from_days (n + 1) = next_date (civil_from_days n)" unfolding c x .
qed


section \<open>Printing and reading\<close>

lemma show_nat_length: "n < 10 ^ w \<Longrightarrow> 0 < w \<Longrightarrow> length (show_nat n) \<le> w"
proof (induction n arbitrary: w rule: show_nat.induct)
  case (1 n)
  show ?case
  proof (cases "n < 10")
    case True
    then show ?thesis using "1.prems" by (subst show_nat.simps) simp
  next
    case False
    then obtain v where w: "w = Suc v" "0 < v" using "1.prems" by (cases w; cases "w - 1") auto
    have "n div 10 < 10 ^ v" using "1.prems"(1) w by (simp add: less_mult_imp_div_less mult.commute)
    then have "length (show_nat (n div 10)) \<le> v" using "1.IH" False w by simp
    then show ?thesis using False w by (subst show_nat.simps) simp
  qed
qed

lemma parse_zeros: "parse_digits 0 (replicate k CHR ''0'' @ ds) = parse_digits 0 ds"
  by (induction k) (simp_all add: digit_val_def)

lemma pad_int_fits:
  assumes "0 \<le> n" and "n < 10 ^ w" and "0 < w"
  shows "length (pad_int w n) = w" and "parse_i64 (pad_int w n) = Some n"
proof -
  let ?ds = "show_nat (nat n)"
  have p: "pad_int w n = replicate (w - length ?ds) CHR ''0'' @ ?ds" using assms(1) by (simp add: pad_int_def Let_def)
  have "nat n < 10 ^ w" using assms(1,2) by (simp add: nat_less_iff)
  then have len: "length ?ds \<le> w" using show_nat_length assms(3) by blast
  then show "length (pad_int w n) = w" by (simp add: p)
  have digits: "parse_digits 0 (pad_int w n) = Some (nat n)" unfolding p parse_zeros by (rule parse_digits_show)
  obtain c cs where cs: "pad_int w n = c # cs" using len show_nat_not_Nil [of "nat n"] assms(3)
    by (cases "pad_int w n") (auto simp: p)
  have "c \<in> set (pad_int w n)" using cs by simp
  then have "c = CHR ''0'' \<or> (\<exists>d<10. c = digit_char d)" using show_nat_digits unfolding p by auto
  then have "c \<noteq> CHR ''+'' \<and> c \<noteq> CHR ''-''"
    by (auto dest: arg_cong [where f = "of_char :: char \<Rightarrow> nat"] simp: digit_char_range)
  then show "parse_i64 (pad_int w n) = Some n" using digits cs assms(1) by (simp add: parse_i64_def Let_def)
qed

lemma slice_append:
  "length xs = a \<Longrightarrow> length ys = b - a \<Longrightarrow> slice a b (xs @ ys @ zs) = ys"
  by (simp add: slice_def)

lemma parse_fields:
  assumes "length A = 4" "length B = 2" "length C = 2" "length D = 2" "length E = 2" "length F = 2"
    and "parse_i64 A = Some y" "parse_i64 B = Some m" "parse_i64 C = Some d"
    and "parse_i64 D = Some hh" "parse_i64 E = Some mm" "parse_i64 F = Some ss"
    and "1 \<le> m" "m \<le> 12" "1 \<le> d" "d \<le> 31" "hh \<le> 23" "mm \<le> 59" "ss \<le> 59"
  shows "timestamp_parse (A @ ''-'' @ B @ ''-'' @ C @ ''T'' @ D @ '':'' @ E @ '':'' @ F @ ''Z'') =
    Inr (days_from_civil y m d * 86400 + hh * 3600 + mm * 60 + ss)"
proof -
  let ?s = "A @ ''-'' @ B @ ''-'' @ C @ ''T'' @ D @ '':'' @ E @ '':'' @ F @ ''Z''"
  have len: "length ?s = 20" using assms(1-6) by simp
  have sep: "?s ! 4 = CHR ''-''" "?s ! 7 = CHR ''-''" "?s ! 10 = CHR ''T''" "?s ! 13 = CHR '':''" "?s ! 16 = CHR '':''" "?s ! 19 = CHR ''Z''"
    using assms(1-6) by (simp_all add: nth_append)
  have "slice 0 4 ([] @ A @ ''-'' @ B @ ''-'' @ C @ ''T'' @ D @ '':'' @ E @ '':'' @ F @ ''Z'') = A"
    by (rule slice_append) (simp_all add: assms)
  moreover have "slice 5 7 ((A @ ''-'') @ B @ ''-'' @ C @ ''T'' @ D @ '':'' @ E @ '':'' @ F @ ''Z'') = B"
    by (rule slice_append) (simp_all add: assms)
  moreover have "slice 8 10 ((A @ ''-'' @ B @ ''-'') @ C @ ''T'' @ D @ '':'' @ E @ '':'' @ F @ ''Z'') = C"
    by (rule slice_append) (simp_all add: assms)
  moreover have "slice 11 13 ((A @ ''-'' @ B @ ''-'' @ C @ ''T'') @ D @ '':'' @ E @ '':'' @ F @ ''Z'') = D"
    by (rule slice_append) (simp_all add: assms)
  moreover have "slice 14 16 ((A @ ''-'' @ B @ ''-'' @ C @ ''T'' @ D @ '':'') @ E @ '':'' @ F @ ''Z'') = E"
    by (rule slice_append) (simp_all add: assms)
  moreover have "slice 17 19 ((A @ ''-'' @ B @ ''-'' @ C @ ''T'' @ D @ '':'' @ E @ '':'') @ F @ ''Z'') = F"
    by (rule slice_append) (simp_all add: assms)
  ultimately have sl: "slice 0 4 ?s = A" "slice 5 7 ?s = B" "slice 8 10 ?s = C" "slice 11 13 ?s = D" "slice 14 16 ?s = E" "slice 17 19 ?s = F"
    by (simp_all del: append_Cons)
  show ?thesis
    unfolding timestamp_parse_def len sl sep assms(7-12) using assms(13-19) by simp
qed

text \<open>
  A printed instant reads back.  For every instant of the years 0 to 9999, what is printed is
  \<^verbatim>\<open>YYYY-MM-DDTHH:MM:SSZ\<close>, twenty characters, and reads back as exactly that instant.
\<close>

theorem timestamp_round_trip:
  assumes "civil_from_days (t div 86400) = (y, m, d)" and "0 \<le> y" and "y \<le> 9999"
  shows "timestamp_parse (show_timestamp t) = Inr t \<and> length (show_timestamp t) = 20"
proof -
  have date: "is_date y m d" "days_from_civil y m d = t div 86400"
    using calendar_iff [of "t div 86400" y m d] assms(1) by simp_all
  have md: "1 \<le> m" "m \<le> 12" "1 \<le> d" "d \<le> 31" using date(1) by (auto simp: is_date_def month_days_def split: if_splits)
  define rest where "rest = t mod 86400"
  have r: "0 \<le> rest" "rest < 86400" by (simp_all add: rest_def)
  have h: "0 \<le> rest div 3600" "rest div 3600 \<le> 23" using div_range [of rest 3600 24] r by simp_all
  have mi: "0 \<le> rest mod 3600 div 60" "rest mod 3600 div 60 \<le> 59"
    using div_range [of "rest mod 3600" 60 60] by simp_all
  have se: "0 \<le> rest mod 60" "rest mod 60 \<le> 59" using pos_mod_bound [of 60 rest] by simp_all
  have "rest = rest div 3600 * 3600 + rest mod 3600" "rest mod 3600 = rest mod 3600 div 60 * 60 + rest mod 3600 mod 60" by simp_all
  moreover have "rest mod 3600 mod 60 = rest mod 60" by (simp add: mod_mod_cancel)
  ultimately have sum: "rest div 3600 * 3600 + rest mod 3600 div 60 * 60 + rest mod 60 = rest" by linarith
  define hh where "hh = rest div 3600"
  define mm where "mm = rest mod 3600 div 60"
  define ss where "ss = rest mod 60"
  have s: "show_timestamp t = pad_int 4 y @ ''-'' @ pad_int 2 m @ ''-'' @ pad_int 2 d @ ''T'' @ pad_int 2 hh @ '':'' @
      pad_int 2 mm @ '':'' @ pad_int 2 ss @ ''Z''"
    using assms(1) by (simp add: show_timestamp_def Let_def rest_def hh_def mm_def ss_def)
  note bounds = h [folded hh_def] mi [folded mm_def] se [folded ss_def]
  have y4: "y < 10 ^ 4" using assms(3) by simp
  note py = pad_int_fits [OF assms(2) y4]
  have p2: "length (pad_int 2 k) = 2" "parse_i64 (pad_int 2 k) = Some k" if "0 \<le> k" "k \<le> 59" for k
    using pad_int_fits [of k 2] that by simp_all
  have "0 \<le> m" "m \<le> 59" "0 \<le> d" "d \<le> 59" "hh \<le> 59" using md bounds by linarith+
  note two = p2 [OF this(1,2)] p2 [OF this(3,4)] p2 [OF bounds(1) this(5)] p2 [OF bounds(3,4)] p2 [OF bounds(5,6)]
  have "timestamp_parse (show_timestamp t) = Inr (days_from_civil y m d * 86400 + hh * 3600 + mm * 60 + ss)"
    unfolding s by (rule parse_fields) (use py two md bounds in simp_all)
  moreover have "t div 86400 * 86400 + rest = t" unfolding rest_def by (rule div_mult_mod_eq)
  moreover have "hh * 3600 + mm * 60 + ss = rest" using sum by (simp only: hh_def mm_def ss_def)
  moreover have "length (show_timestamp t) = 20" unfolding s using py(1) two by simp
  ultimately show ?thesis using date(2) by simp
qed

theorem timestamp_round_trip_witness: "timestamp_parse (show_timestamp 0) = Inr 0"
proof -
  have "civil_from_days (0 div 86400) = (1970, 1, 1)"
    by (rule civil_from_days_of) (simp_all add: is_date_def month_days_def days_formula)
  from timestamp_round_trip [OF this] show ?thesis by simp
qed

text \<open>
  Two spellings of one instant are read: the day is checked against 31 and not against its month, and a
  number may carry a sign, so the thirtieth of February is the second of March and a year \<open>+026\<close> is the year 26.
\<close>

theorem two_spellings_of_an_instant:
  "timestamp_parse ''2026-02-30T00:00:00Z'' = timestamp_parse ''2026-03-02T00:00:00Z'' \<and>
   timestamp_parse ''+026-03-02T00:00:00Z'' = timestamp_parse ''0026-03-02T00:00:00Z'' \<and>
   (\<exists>t. timestamp_parse ''2026-03-02T00:00:00Z'' = Inr t)"
  by (simp add: timestamp_parse_def slice_def parse_i64_def digit_val_def days_formula)

text \<open>
  The effective window is what both windows allow: an instant is in the intersection if and only if it is in
  both, whatever ends are open, and a window has an instant in it if and only if it is not empty.
\<close>

theorem window_intersection:
  "window_contains (intersect a b) now = (window_contains a now \<and> window_contains b now) \<and>
   (is_non_empty a \<longleftrightarrow> (\<exists>t. window_contains a t))"
proof -
  have "is_non_empty a \<longleftrightarrow> (\<exists>t. window_contains a t)"
  proof (cases "wn_from a"; cases "wn_until a")
    fix f u assume "wn_from a = Some f" "wn_until a = Some u"
    then show ?thesis by (auto simp: is_non_empty_def window_contains_def intro: exI [of _ f])
  next
    fix f assume "wn_from a = Some f" "wn_until a = None"
    then show ?thesis by (auto simp: is_non_empty_def window_contains_def intro: exI [of _ f])
  next
    fix u assume "wn_from a = None" "wn_until a = Some u"
    then show ?thesis by (auto simp: is_non_empty_def window_contains_def intro: exI [of _ u])
  qed (auto simp: is_non_empty_def window_contains_def)
  then show ?thesis
    by (auto simp: window_contains_def intersect_def tighter_def split: option.splits)
qed

end
