(* ===== verification/Canon.thy ===== *)
theory Canon
  imports Msg_Value "HOL-Library.Countable"
begin

text \<open>
  Canonical JSON and the hashes of signed objects, \<^verbatim>\<open>crates/drt-config/src/canon.rs\<close>.  A
  JSON value is \<open>json\<close>, an object the list of its entries in the order its map iterates; a
  number is what \<^verbatim>\<open>serde_json::Number\<close> holds.  How \<^verbatim>\<open>serde_json\<close> writes a number and
  a string, and the SHA-256 digest, are parameters; \<open>json_texts\<close> is what is relied on of the first two.  The
  lemmas show that the canonical bytes name the value: the same bytes are the same value up to the
  order of keys, whatever order a map iterates in.
\<close>

section \<open>Values\<close>

datatype json_num = JPos nat | JNeg int | JFloat flt

datatype json =
    JNull
  | JBool bool
  | JNum json_num
  | JStr string
  | JArr "json list"
  | JObj "(string \<times> json) list"

record json_text =
  jt_num :: "json_num \<Rightarrow> string"
  jt_str :: "string \<Rightarrow> string"

section \<open>Canonical bytes\<close>

fun join_comma :: "string list \<Rightarrow> string" where
  "join_comma [] = []"
| "join_comma [s] = s"
| "join_comma (s # t # ss) = s @ '','' @ join_comma (t # ss)"

text \<open>Collected into a \<^verbatim>\<open>BTreeMap\<close>: the entries by their keys, a later one in place of an earlier one.\<close>

definition by_key :: "(string \<times> 'a) list \<Rightarrow> (string \<times> 'a) list" where
  "by_key m = foldl (\<lambda>b (k, v). bt_insert k v b) [] m"

fun write_canonical :: "json_text \<Rightarrow> json \<Rightarrow> string" where
  "write_canonical jt JNull = ''null''"
| "write_canonical jt (JBool b) = (if b then ''true'' else ''false'')"
| "write_canonical jt (JNum n) = jt_num jt n"
| "write_canonical jt (JStr s) = jt_str jt s"
| "write_canonical jt (JArr xs) = ''['' @ join_comma (map (write_canonical jt) xs) @ '']''"
| "write_canonical jt (JObj m) =
     ''{'' @ join_comma (map (\<lambda>(k, t). jt_str jt k @ '':'' @ t) (by_key (map (\<lambda>(k, v). (k, write_canonical jt v)) m))) @ ''}''"

section \<open>Hashes\<close>

definition hash_prefix :: string where "hash_prefix = ''sha256:''"

definition hex_digit :: "nat \<Rightarrow> char" where
  "hex_digit n = (if n < 10 then char_of (48 + n) else char_of (87 + n))"

definition hex_byte :: "8 word \<Rightarrow> string" where
  "hex_byte b = [hex_digit (unat b div 16), hex_digit (unat b mod 16)]"

definition canon_hash :: "(bytes \<Rightarrow> bytes) \<Rightarrow> string \<Rightarrow> string" where
  "canon_hash digest s = hash_prefix @ concat (map hex_byte (digest (map (\<lambda>c. word_of_nat (of_char c)) s)))"

definition hash_value :: "(bytes \<Rightarrow> bytes) \<Rightarrow> json_text \<Rightarrow> json \<Rightarrow> string" where
  "hash_value digest jt v = canon_hash digest (write_canonical jt v)"

definition is_hex_digit :: "char \<Rightarrow> bool" where
  "is_hex_digit c \<longleftrightarrow> (CHR ''0'' \<le> c \<and> c \<le> CHR ''9'') \<or> (CHR ''a'' \<le> c \<and> c \<le> CHR ''f'') \<or> (CHR ''A'' \<le> c \<and> c \<le> CHR ''F'')"

definition is_upper :: "char \<Rightarrow> bool" where
  "is_upper c \<longleftrightarrow> CHR ''A'' \<le> c \<and> c \<le> CHR ''Z''"

text \<open>A refusal carries the text that is no hash, and which of the three rules it breaks.\<close>

datatype hash_refusal = NoPrefix string | NotHex string | UpperHex string

definition hash_try_from :: "string \<Rightarrow> hash_refusal + string" where
  "hash_try_from s =
     (if \<not> prefix hash_prefix s then Inl (NoPrefix s)
      else (let hx = drop (length hash_prefix) s in
        if length hx \<noteq> 64 \<or> \<not> list_all is_hex_digit hx then Inl (NotHex s)
        else if list_ex is_upper hx then Inl (UpperHex s) else Inr s))"

definition hash_hex :: "string \<Rightarrow> string" where
  "hash_hex h = drop (length hash_prefix) h"

section \<open>The guest boundary\<close>

datatype not_canonical =
    NonFinite string string
  | DuplicateKey string string
  | NonStringKey string string
  | NoJsonForm string string

fun flt_text :: "flt \<Rightarrow> string" where
  "flt_text FInf = ''inf''"
| "flt_text FNegInf = ''-inf''"
| "flt_text _ = ''NaN''"

definition finite_json :: "flt \<Rightarrow> string \<Rightarrow> not_canonical + json" where
  "finite_json f loc = (case f of FFin r \<Rightarrow> Inr (JNum (JFloat (FFin r))) | _ \<Rightarrow> Inl (NonFinite loc (flt_text f)))"

fun kind_of :: "val \<Rightarrow> string" where
  "kind_of VNil = ''nil''"
| "kind_of (VBool _) = ''a boolean''"
| "kind_of (VInt _) = ''an integer''"
| "kind_of (VF32 _) = ''a float''"
| "kind_of (VF64 _) = ''a float''"
| "kind_of (VStr _) = ''a string''"
| "kind_of (VBin _) = ''a binary blob''"
| "kind_of (VArr _) = ''an array''"
| "kind_of (VMap _) = ''a map''"
| "kind_of (VExt _ _) = ''an extension value''"

fun walk :: "val \<Rightarrow> string \<Rightarrow> not_canonical + json"
  and walk_items :: "val list \<Rightarrow> nat \<Rightarrow> string \<Rightarrow> not_canonical + json list"
  and walk_pairs :: "(val \<times> val) list \<Rightarrow> (string \<times> json) list \<Rightarrow> string \<Rightarrow> not_canonical + (string \<times> json) list" where
  "walk VNil loc = Inr JNull"
| "walk (VBool b) loc = Inr (JBool b)"
| "walk (VInt i) loc =
     (if 0 \<le> i \<and> i \<le> int u64_max then Inr (JNum (JPos (nat i)))
      else if - (2 ^ 63) \<le> i \<and> i < 0 then Inr (JNum (JNeg i))
      else Inl (NoJsonForm loc ''an integer outside i64 and u64''))"
| "walk (VF32 f) loc = finite_json f loc"
| "walk (VF64 f) loc = finite_json f loc"
| "walk (VStr s) loc = (if utf8_valid s then Inr (JStr s) else Inl (NoJsonForm loc ''a string that is not UTF-8''))"
| "walk (VArr xs) loc = (case walk_items xs 0 loc of Inl e \<Rightarrow> Inl e | Inr ys \<Rightarrow> Inr (JArr ys))"
| "walk (VMap ps) loc = (case walk_pairs ps [] loc of Inl e \<Rightarrow> Inl e | Inr m \<Rightarrow> Inr (JObj m))"
| "walk (VBin _) loc = Inl (NoJsonForm loc ''a binary blob'')"
| "walk (VExt _ _) loc = Inl (NoJsonForm loc ''a msgpack extension value'')"
| "walk_items [] i loc = Inr []"
| "walk_items (x # xs) i loc = (case walk x (loc @ ''['' @ show_nat i @ '']'') of Inl e \<Rightarrow> Inl e
     | Inr y \<Rightarrow> (case walk_items xs (i + 1) loc of Inl e \<Rightarrow> Inl e | Inr ys \<Rightarrow> Inr (y # ys)))"
| "walk_pairs [] out loc = Inr out"
| "walk_pairs ((k, x) # ps) out loc = (case val_as_str k of
     None \<Rightarrow> Inl (NonStringKey loc (kind_of k))
   | Some key \<Rightarrow> (case walk x (loc @ ''.'' @ key) of Inl e \<Rightarrow> Inl e
      | Inr y \<Rightarrow> (if bt_get out key \<noteq> None then Inl (DuplicateKey loc key)
                 else walk_pairs ps (bt_insert key y out) loc)))"

definition from_msgpack :: "val \<Rightarrow> not_canonical + json" where
  "from_msgpack v = walk v ''ask''"

fun num_to_msgpack :: "json_num \<Rightarrow> val" where
  "num_to_msgpack (JPos n) = VInt (int n)"
| "num_to_msgpack (JNeg i) = VInt i"
| "num_to_msgpack (JFloat f) = VF64 f"

fun to_msgpack :: "json \<Rightarrow> val" where
  "to_msgpack JNull = VNil"
| "to_msgpack (JBool b) = VBool b"
| "to_msgpack (JNum n) = num_to_msgpack n"
| "to_msgpack (JStr s) = VStr s"
| "to_msgpack (JArr xs) = VArr (map to_msgpack xs)"
| "to_msgpack (JObj m) = VMap (map (\<lambda>(k, v). (VStr k, to_msgpack v)) m)"


section \<open>Sorting by key\<close>

lemma set_bt_insert_sub: "set (bt_insert k v b) \<subseteq> insert (k, v) (set b)"
  by (induction k v b rule: bt_insert.induct) auto

lemma bt_insert_map: "bt_insert k (f v) (map (\<lambda>(k, v). (k, f v)) b) = map (\<lambda>(k, v). (k, f v)) (bt_insert k v b)"
  by (induction k v b rule: bt_insert.induct) auto

lemma by_key_fold:
  "foldl (\<lambda>b (k, v). bt_insert k v b) (map (\<lambda>(k, v). (k, f v)) b) (map (\<lambda>(k, v). (k, f v)) m) =
   map (\<lambda>(k, v). (k, f v)) (foldl (\<lambda>b (k, v). bt_insert k v b) b m)"
  by (induction m arbitrary: b) (auto simp: bt_insert_map)

lemma by_key_map: "by_key (map (\<lambda>(k, v). (k, f v)) m) = map (\<lambda>(k, v). (k, f v)) (by_key m)"
  using by_key_fold [of f "[]" m] by (simp add: by_key_def)

lemma by_key_ok: "bt_ok (by_key m)"
proof -
  have "bt_ok b \<Longrightarrow> bt_ok (foldl (\<lambda>b (k, v). bt_insert k v b) b m)" for b :: "(string \<times> 'a) list" and m
    by (induction m arbitrary: b) (auto simp: bt.ok_ins)
  then show ?thesis by (simp add: by_key_def)
qed

lemma set_by_key_sub: "set (by_key m) \<subseteq> set m"
proof -
  have "set (foldl (\<lambda>b (k, v). bt_insert k v b) b m) \<subseteq> set b \<union> set m" for b :: "(string \<times> 'a) list" and m
  proof (induction m arbitrary: b)
    case (Cons e m)
    obtain k v where e: "e = (k, v)" by (cases e)
    show ?case using Cons [of "bt_insert k v b"] set_bt_insert_sub [of k v b] e by auto
  qed simp
  then show ?thesis by (force simp: by_key_def)
qed

lemma set_by_key: "distinct (map fst m) \<Longrightarrow> set (by_key m) = set m"
proof -
  have "distinct (map fst m) \<Longrightarrow> bt_ok b \<Longrightarrow> fst ` set b \<inter> fst ` set m = {} \<Longrightarrow>
      set (foldl (\<lambda>b (k, v). bt_insert k v b) b m) = set b \<union> set m" for b :: "(string \<times> 'a) list" and m
  proof (induction m arbitrary: b)
    case (Cons e m)
    obtain k v where e: "e = (k, v)" by (cases e)
    have k: "\<forall>x\<in>set b. fst x \<noteq> k" using Cons.prems(3) e by force
    have s: "set (bt_insert k v b) = insert (k, v) (set b)" using set_bt_insert [OF Cons.prems(2), of k v] k by auto
    have "set (foldl (\<lambda>b (k, v). bt_insert k v b) (bt_insert k v b) m) = set (bt_insert k v b) \<union> set m"
    proof (rule Cons.IH)
      show "distinct (map fst m)" using Cons.prems(1) by simp
      show "bt_ok (bt_insert k v b)" using Cons.prems(2) by (rule bt.ok_ins)
      show "fst ` set (bt_insert k v b) \<inter> fst ` set m = {}" unfolding s using Cons.prems(1,3) e by auto
    qed
    then show ?case using s e by simp
  qed simp
  then show "distinct (map fst m) \<Longrightarrow> ?thesis" by (simp add: by_key_def)
qed

lemma bt_unique: "bt_ok a \<Longrightarrow> bt_ok b \<Longrightarrow> set a = set b \<Longrightarrow> a = b"
proof (induction a arbitrary: b)
  case (Cons e a)
  then obtain f b' where b: "b = f # b'" by (cases b) auto
  have ea: "\<forall>x\<in>set a. fst e < fst x" and fb: "\<forall>x\<in>set b'. fst f < fst x" using Cons.prems b by simp_all
  have "e = f"
  proof (rule ccontr)
    assume "e \<noteq> f"
    then have "e \<in> set b'" "f \<in> set a" using Cons.prems(3) b by auto
    then show False using ea fb by (meson less_asym)
  qed
  moreover have "e \<notin> set a" "f \<notin> set b'" using ea fb by blast+
  ultimately have "set a = set b'" using Cons.prems(3) b by auto
  then show ?case using Cons b \<open>e = f\<close> by simp
qed simp

lemma by_key_sorted: "bt_ok m \<Longrightarrow> by_key m = m"
  by (rule bt_unique) (simp_all add: by_key_ok set_by_key bt_ok_distinct)

lemma by_key_order: "distinct (map fst m) \<Longrightarrow> distinct (map fst m') \<Longrightarrow> set m = set m' \<Longrightarrow> by_key m = by_key m'"
  by (rule bt_unique) (simp_all add: by_key_ok set_by_key)

section \<open>The bytes name the value\<close>

text \<open>A value with the keys of its objects in order.\<close>

fun key_sorted :: "json \<Rightarrow> json" where
  "key_sorted (JArr xs) = JArr (map key_sorted xs)"
| "key_sorted (JObj m) = JObj (by_key (map (\<lambda>(k, v). (k, key_sorted v)) m))"
| "key_sorted v = v"

text \<open>What is relied on of the writer of numbers and strings: a string's text begins with a quote and ends where it says it does; a
  number's text has only the characters of numbers, and says which number it is.\<close>

definition num_chars :: "char set" where
  "num_chars = set ''0123456789+-.eE''"

definition json_texts :: "json_text \<Rightarrow> bool" where
  "json_texts jt \<longleftrightarrow>
     (\<forall>s. \<exists>r. jt_str jt s = CHR 0x22 # r) \<and>
     (\<forall>s t x y. jt_str jt s @ x = jt_str jt t @ y \<longrightarrow> s = t \<and> x = y) \<and>
     (\<forall>n. jt_num jt n \<noteq> [] \<and> set (jt_num jt n) \<subseteq> num_chars) \<and> inj (jt_num jt)"

lemma json_textsD:
  assumes "json_texts jt"
  shows "\<exists>r. jt_str jt s = CHR 0x22 # r" and "jt_str jt s @ x = jt_str jt u @ y \<Longrightarrow> s = u \<and> x = y"
    and "jt_num jt n \<noteq> []" and "c \<in> set (jt_num jt n) \<Longrightarrow> c \<in> num_chars" and "jt_num jt n = jt_num jt m \<Longrightarrow> n = m"
  using assms unfolding json_texts_def by (blast, blast, blast, blast, simp add: inj_eq)

definition ends :: "string \<Rightarrow> bool" where
  "ends x \<longleftrightarrow> x = [] \<or> hd x \<notin> num_chars"

lemma ends_simps [simp]: "ends []" "ends (CHR '','' # x)" "ends (CHR '']'' # x)" "ends (CHR ''}'' # x)"
  by (simp_all add: ends_def num_chars_def)

definition decodes :: "json_text \<Rightarrow> json \<Rightarrow> bool" where
  "decodes jt v \<longleftrightarrow> (\<forall>w x y. ends x \<longrightarrow> ends y \<longrightarrow> write_canonical jt v @ x = write_canonical jt w @ y \<longrightarrow> key_sorted v = key_sorted w \<and> x = y)"

fun more_items :: "string \<Rightarrow> string list \<Rightarrow> string" where
  "more_items close [] = close"
| "more_items close (s # ss) = '','' @ s @ more_items close ss"

fun items_text :: "string \<Rightarrow> string list \<Rightarrow> string" where
  "items_text close [] = close"
| "items_text close (s # ss) = s @ more_items close ss"

lemma join_comma_items: "join_comma ss @ close = items_text close ss"
proof -
  have "join_comma (s # ss) @ close = s @ more_items close ss" for s
    by (induction ss arbitrary: s) simp_all
  then show ?thesis by (cases ss) simp_all
qed

lemma more_ends: "close = '']'' \<or> close = ''}'' \<Longrightarrow> ends (more_items close ss @ x)"
  by (cases ss) auto

text \<open>A list of parts, each of which ends where it says, is read back part by part.\<close>

lemma more_items_inj:
  assumes "close = '']'' \<or> close = ''}''"
    and "\<And>p q x y. p \<in> set ps \<Longrightarrow> ends x \<Longrightarrow> ends y \<Longrightarrow> f p @ x = f q @ y \<Longrightarrow> g p = g q \<and> x = y"
  shows "more_items close (map f ps) @ x = more_items close (map f qs) @ y \<Longrightarrow> map g ps = map g qs \<and> x = y"
  using assms(2)
proof (induction ps arbitrary: qs)
  case Nil
  then show ?case using assms(1) by (cases qs) auto
next
  case (Cons p ps)
  then obtain q qs' where qs: "qs = q # qs'" using assms(1) by (cases qs) auto
  have e: "f p @ (more_items close (map f ps) @ x) = f q @ (more_items close (map f qs') @ y)" using Cons.prems(1) qs by simp
  have "g p = g q \<and> more_items close (map f ps) @ x = more_items close (map f qs') @ y"
    by (rule Cons.prems(2) [OF _ more_ends [OF assms(1)] more_ends [OF assms(1)] e]) simp
  moreover have "map g ps = map g qs' \<and> x = y" if "more_items close (map f ps) @ x = more_items close (map f qs') @ y"
    by (rule Cons.IH [OF that]) (rule Cons.prems(2); simp)
  ultimately show ?case using qs by simp
qed

lemma items_inj:
  assumes "close = '']'' \<or> close = ''}''"
    and "\<And>p q x y. p \<in> set ps \<Longrightarrow> ends x \<Longrightarrow> ends y \<Longrightarrow> f p @ x = f q @ y \<Longrightarrow> g p = g q \<and> x = y"
    and "\<And>p. f p \<noteq> [] \<and> hd (f p) \<notin> set '']}''"
    and "items_text close (map f ps) @ x = items_text close (map f qs) @ y"
  shows "map g ps = map g qs \<and> x = y"
proof (cases ps)
  case Nil
  then show ?thesis using assms(1,4) assms(3) [of "hd qs"] by (cases qs; cases "f (hd qs)") auto
next
  case (Cons p ps')
  show ?thesis
  proof (cases qs)
    case Nil
    then show ?thesis using assms(1,4) assms(3) [of p] Cons by (cases "f p") auto
  next
    case q: (Cons q qs')
    have e: "f p @ (more_items close (map f ps') @ x) = f q @ (more_items close (map f qs') @ y)" using assms(4) Cons q by simp
    have 1: "g p = g q \<and> more_items close (map f ps') @ x = more_items close (map f qs') @ y"
      by (rule assms(2) [OF _ more_ends [OF assms(1)] more_ends [OF assms(1)] e]) (simp add: Cons)
    have "map g ps' = map g qs' \<and> x = y"
      by (rule more_items_inj [OF assms(1) _ 1 [THEN conjunct2]]) (rule assms(2); simp add: Cons)
    then show ?thesis using 1 Cons q by simp
  qed
qed

lemma text_start:
  assumes "json_texts jt"
  shows "write_canonical jt v \<noteq> []" and "hd (write_canonical jt v) \<notin> set '']}''"
proof -
  have "write_canonical jt v \<noteq> [] \<and> hd (write_canonical jt v) \<notin> set '']}''"
  proof (cases v)
    case (JNum m)
    have ne: "jt_num jt m \<noteq> []" by (rule json_textsD(3) [OF assms])
    then have "hd (jt_num jt m) \<in> num_chars" by (intro json_textsD(4) [OF assms, of _ m]) simp
    moreover have "CHR '']'' \<notin> num_chars" "CHR ''}'' \<notin> num_chars" by (simp_all add: num_chars_def)
    ultimately show ?thesis using JNum ne by (metis insert_iff list.set(1,2) singletonD write_canonical.simps(3))
  next
    case (JStr s)
    obtain r where "jt_str jt s = CHR 0x22 # r" using json_textsD(1) [OF assms] by blast
    then show ?thesis using JStr by simp
  qed simp_all
  then show "write_canonical jt v \<noteq> []" and "hd (write_canonical jt v) \<notin> set '']}''" by blast+
qed

text \<open>The kind of a value, by the first character of its text.\<close>

fun kind_char :: "json \<Rightarrow> char \<Rightarrow> bool" where
  "kind_char JNull c = (c = CHR ''n'')"
| "kind_char (JBool b) c = (c = (if b then CHR ''t'' else CHR ''f''))"
| "kind_char (JNum _) c = (c \<in> num_chars)"
| "kind_char (JStr _) c = (c = CHR 0x22)"
| "kind_char (JArr _) c = (c = CHR ''['')"
| "kind_char (JObj _) c = (c = CHR ''{'')"

lemma text_kind:
  assumes "json_texts jt"
  shows "\<exists>c r. write_canonical jt v = c # r \<and> kind_char v c"
proof (cases v)
  case (JNum n)
  obtain c r where c: "jt_num jt n = c # r" using json_textsD(3) [OF assms, of n] by (cases "jt_num jt n") auto
  then have "c \<in> num_chars" by (intro json_textsD(4) [OF assms, of c n]) simp
  then show ?thesis using JNum c by simp
next
  case (JStr s)
  then show ?thesis using json_textsD(1) [OF assms, of s] by auto
qed auto

lemma num_text_inj:
  assumes "json_texts jt" and "ends x" and "ends y" and "jt_num jt n @ x = jt_num jt m @ y"
  shows "n = m \<and> x = y"
proof -
  have "takeWhile (\<lambda>c. c \<in> num_chars) (jt_num jt k @ z) = jt_num jt k" if "ends z" for k z
  proof -
    have "\<forall>c\<in>set (jt_num jt k). c \<in> num_chars" using json_textsD(4) [OF assms(1)] by blast
    then have "takeWhile (\<lambda>c. c \<in> num_chars) (jt_num jt k @ z) = jt_num jt k @ takeWhile (\<lambda>c. c \<in> num_chars) z"
      by (simp add: takeWhile_append2)
    then show ?thesis using that by (cases z) (auto simp: ends_def)
  qed
  then have t: "jt_num jt n = jt_num jt m" using assms(2-4) by metis
  then show ?thesis using json_textsD(5) [OF assms(1) t] assms(4) by simp
qed

lemma text_decodes: "json_texts jt \<Longrightarrow> decodes jt v"
proof (induction v)
  case (JArr vs)
  show ?case unfolding decodes_def
  proof (intro allI impI)
    fix w x y assume e: "ends x" "ends y" "write_canonical jt (JArr vs) @ x = write_canonical jt w @ y"
    obtain c r where "write_canonical jt w = c # r" "kind_char w c" using text_kind [OF JArr.prems] by blast
    then obtain ws where w: "w = JArr ws" using e(3) by (cases w) (auto simp: num_chars_def split: if_splits)
    have "items_text '']'' (map (write_canonical jt) vs) @ x = items_text '']'' (map (write_canonical jt) ws) @ y"
      using e(3) w by (simp add: join_comma_items [symmetric])
    then have "map key_sorted vs = map key_sorted ws \<and> x = y"
    proof (rule items_inj [rotated 3])
      fix p q x y
      assume "p \<in> set vs" "ends x" "ends y" "write_canonical jt p @ x = write_canonical jt q @ y"
      then show "key_sorted p = key_sorted q \<and> x = y" using JArr.IH [OF _ JArr.prems] unfolding decodes_def by blast
    qed (use text_start [OF JArr.prems] in simp_all)
    then show "key_sorted (JArr vs) = key_sorted w \<and> x = y" using w by simp
  qed
next
  case (JObj m)
  show ?case unfolding decodes_def
  proof (intro allI impI)
    fix w x y assume e: "ends x" "ends y" "write_canonical jt (JObj m) @ x = write_canonical jt w @ y"
    obtain c r where "write_canonical jt w = c # r" "kind_char w c" using text_kind [OF JObj.prems] by blast
    then obtain m' where w: "w = JObj m'" using e(3) by (cases w) (auto simp: num_chars_def split: if_splits)
    define f where "f = (\<lambda>p. jt_str jt (fst p) @ '':'' @ write_canonical jt (snd p))"
    have "items_text ''}'' (map f (by_key m)) @ x = items_text ''}'' (map f (by_key m')) @ y"
      using e(3) w by (simp add: join_comma_items [symmetric] by_key_map f_def case_prod_beta comp_def)
    then have "map (\<lambda>(k, v). (k, key_sorted v)) (by_key m) = map (\<lambda>(k, v). (k, key_sorted v)) (by_key m') \<and> x = y"
    proof (rule items_inj [rotated 3])
      fix p q x y
      assume p: "p \<in> set (by_key m)" "ends x" "ends y" "f p @ x = f q @ y"
      obtain k v where kv: "p = (k, v)" by (cases p)
      obtain l u where lu: "q = (l, u)" by (cases q)
      have mem: "(k, v) \<in> set m" using p(1) kv set_by_key_sub by blast
      have "jt_str jt k @ ('':'' @ write_canonical jt v @ x) = jt_str jt l @ ('':'' @ write_canonical jt u @ y)"
        using p(4) kv lu by (simp add: f_def)
      then have kl: "k = l \<and> '':'' @ write_canonical jt v @ x = '':'' @ write_canonical jt u @ y"
        by (rule json_textsD(2) [OF JObj.prems])
      then have s: "k = l" "write_canonical jt v @ x = write_canonical jt u @ y" by simp_all
      have "decodes jt v" using JObj.IH [OF mem _ JObj.prems] by simp
      then have "key_sorted v = key_sorted u \<and> x = y" using p(2,3) s(2) unfolding decodes_def by blast
      then show "(\<lambda>(k, v). (k, key_sorted v)) p = (\<lambda>(k, v). (k, key_sorted v)) q \<and> x = y" using s(1) kv lu by simp
    next
      fix p :: "string \<times> json"
      obtain k v where "p = (k, v)" by (cases p)
      moreover obtain r where "jt_str jt k = CHR 0x22 # r" using json_textsD(1) [OF JObj.prems] by blast
      ultimately show "f p \<noteq> [] \<and> hd (f p) \<notin> set '']}''" by (simp add: f_def)
    qed simp
    then show "key_sorted (JObj m) = key_sorted w \<and> x = y" using w by (simp add: by_key_map)
  qed
next
  case (JNum n)
  show ?case unfolding decodes_def
  proof (intro allI impI)
    fix w x y assume e: "ends x" "ends y" "write_canonical jt (JNum n) @ x = write_canonical jt w @ y"
    obtain c r where "write_canonical jt (JNum n) = c # r" "c \<in> num_chars" using text_kind [OF JNum, of "JNum n"] by auto
    moreover obtain c' r' where "write_canonical jt w = c' # r'" "kind_char w c'" using text_kind [OF JNum] by blast
    ultimately obtain n' where w: "w = JNum n'" using e(3) by (cases w) (auto simp: num_chars_def split: if_splits)
    then show "key_sorted (JNum n) = key_sorted w \<and> x = y" using num_text_inj [OF JNum e(1,2)] e(3) by simp
  qed
next
  case (JStr s)
  show ?case unfolding decodes_def
  proof (intro allI impI)
    fix w x y assume e: "ends x" "ends y" "write_canonical jt (JStr s) @ x = write_canonical jt w @ y"
    obtain r where "jt_str jt s = CHR 0x22 # r" using json_textsD(1) [OF JStr] by blast
    moreover obtain c' r' where "write_canonical jt w = c' # r'" "kind_char w c'" using text_kind [OF JStr] by blast
    ultimately obtain t where w: "w = JStr t" using e(3) by (cases w) (auto simp: num_chars_def split: if_splits)
    then have "jt_str jt s @ x = jt_str jt t @ y" using e(3) by simp
    then have "s = t \<and> x = y" by (rule json_textsD(2) [OF JStr])
    then show "key_sorted (JStr s) = key_sorted w \<and> x = y" using w by simp
  qed
next
  case JNull
  show ?case unfolding decodes_def
  proof (intro allI impI)
    fix w x y assume e: "write_canonical jt JNull @ x = write_canonical jt w @ y"
    obtain c r where "write_canonical jt w = c # r" "kind_char w c" using text_kind [OF JNull] by blast
    then have "w = JNull" using e by (cases w) (auto simp: num_chars_def split: if_splits)
    then show "key_sorted JNull = key_sorted w \<and> x = y" using e by simp
  qed
next
  case (JBool b)
  show ?case unfolding decodes_def
  proof (intro allI impI)
    fix w x y assume e: "write_canonical jt (JBool b) @ x = write_canonical jt w @ y"
    obtain c r where "write_canonical jt w = c # r" "kind_char w c" using text_kind [OF JBool] by blast
    then have "w = JBool b" using e by (cases w) (auto simp: num_chars_def split: if_splits)
    then show "key_sorted (JBool b) = key_sorted w \<and> x = y" using e by simp
  qed
qed

lemma sorted_text: "write_canonical jt (key_sorted v) = write_canonical jt v"
proof (induction v rule: key_sorted.induct)
  case (2 m)
  let ?F = "\<lambda>(k, v). (k, write_canonical jt v)"
  let ?G = "\<lambda>(k, v). (k, key_sorted v)"
  have "by_key (map ?F (by_key (map ?G m))) = map ?F (by_key (map ?G m))"
    by (simp only: by_key_map by_key_sorted by_key_ok)
  also have "\<dots> = map ?F (map ?G (by_key m))" by (simp only: by_key_map)
  also have "\<dots> = map ?F (by_key m)"
  proof -
    have "?F (?G e) = ?F e" if "e \<in> set (by_key m)" for e
      
    proof -
      obtain k v where e: "e = (k, v)" by (cases e)
      then have "(k, v) \<in> set m" using that set_by_key_sub by blast
      then have "write_canonical jt (key_sorted v) = write_canonical jt v" using 2 by simp
      then show ?thesis using e by simp
    qed
    then show ?thesis by simp
  qed
  also have "\<dots> = by_key (map ?F m)" by (simp only: by_key_map)
  finally show ?case by simp
qed (auto simp: comp_def cong: map_cong)

section \<open>Reading a guest's value\<close>

text \<open>The values that have a JSON form.\<close>

fun jsonable :: "val \<Rightarrow> bool" where
  "jsonable (VInt i) = (- (2 ^ 63) \<le> i \<and> i \<le> int u64_max)"
| "jsonable (VF32 f) = (\<exists>r. f = FFin r)"
| "jsonable (VF64 f) = (\<exists>r. f = FFin r)"
| "jsonable (VStr s) = utf8_valid s"
| "jsonable (VArr xs) = (\<forall>x\<in>set xs. jsonable x)"
| "jsonable (VMap ps) = ((\<forall>p\<in>set ps. jsonable (fst p) \<and> jsonable (snd p) \<and> (\<exists>s. fst p = VStr s)) \<and> distinct (map fst ps))"
| "jsonable (VBin b) = False"
| "jsonable (VExt t b) = False"
| "jsonable _ = True"

lemma finite_json_ok: "(\<exists>j. finite_json f loc = Inr j) \<longleftrightarrow> (\<exists>r. f = FFin r)"
  by (cases f) (simp_all add: finite_json_def)

lemma walk_ok:
  "(\<exists>j. walk v loc = Inr j) \<longleftrightarrow> jsonable v"
  "(\<exists>ys. walk_items xs i loc = Inr ys) \<longleftrightarrow> (\<forall>x\<in>set xs. jsonable x)"
  "bt_ok out \<Longrightarrow> (\<exists>m. walk_pairs ps out loc = Inr m) \<longleftrightarrow>
     (\<forall>p\<in>set ps. jsonable (fst p) \<and> jsonable (snd p) \<and> (\<exists>s. fst p = VStr s)) \<and> distinct (map fst ps) \<and>
     (\<forall>p\<in>set ps. \<forall>s. fst p = VStr s \<longrightarrow> bt_get out s = None)"
proof (induction v loc and xs i loc and ps out loc arbitrary: and and rule: walk_walk_items_walk_pairs.induct)
  case (7 xs loc)
  then show ?case by (auto split: sum.splits)
next
  case (8 ps loc)
  have "(\<exists>m. walk_pairs ps [] loc = Inr m) \<longleftrightarrow> jsonable (VMap ps)" using 8 by (auto simp: bt_get_def)
  then show ?case by (auto split: sum.splits)
next
  case (12 x xs i loc)
  then show ?case by (auto split: sum.splits)
next
  case (14 k x ps out loc)
  show ?case
  proof (cases "val_as_str k")
    case None
    then have "\<not> (\<exists>s. k = VStr s) \<or> \<not> jsonable k" by (cases k) (auto split: if_splits)
    then show ?thesis using None by auto
  next
    case (Some key)
    then have k: "k = VStr key" "jsonable k" by (cases k; simp split: if_splits)+
    note ihx = "14.IH"(1) [OF Some]
    show ?thesis
    proof (cases "walk x (loc @ ''.'' @ key)")
      case (Inl e)
      then have "\<not> jsonable x" using ihx by auto
      then show ?thesis using Some Inl by auto
    next
      case (Inr y)
      then have x: "jsonable x" using ihx by auto
      show ?thesis
      proof (cases "bt_get out key = None")
        case True
        have ok: "bt_ok (bt_insert key y out)" using 14 by (simp add: bt.ok_ins)
        have get: "bt_get (bt_insert key y out) = (bt_get out)(key \<mapsto> y)" using 14 by (simp add: bt.get_ins)
        have ih: "(\<exists>m. walk_pairs ps (bt_insert key y out) loc = Inr m) \<longleftrightarrow>
            (\<forall>p\<in>set ps. jsonable (fst p) \<and> jsonable (snd p) \<and> (\<exists>s. fst p = VStr s)) \<and> distinct (map fst ps) \<and>
            (\<forall>p\<in>set ps. \<forall>s. fst p = VStr s \<longrightarrow> bt_get (bt_insert key y out) s = None)"
          using "14.IH"(2) [OF Some Inr _ ok] True by simp
        have "(\<forall>p\<in>set ps. \<forall>s. fst p = VStr s \<longrightarrow> bt_get (bt_insert key y out) s = None) \<longleftrightarrow>
            VStr key \<notin> fst ` set ps \<and> (\<forall>p\<in>set ps. \<forall>s. fst p = VStr s \<longrightarrow> bt_get out s = None)"
          unfolding get by (force simp: image_iff)
        then show ?thesis using ih Some Inr True x k by auto
      next
        case False
        then show ?thesis using Some Inr k by auto
      qed
    qed
  qed
qed (auto simp: finite_json_ok split: if_splits)


text \<open>The values a host can have: what \<^verbatim>\<open>serde_json\<close> can hold.\<close>

fun json_num_ok :: "json_num \<Rightarrow> bool" where
  "json_num_ok (JPos n) = (n \<le> u64_max)"
| "json_num_ok (JNeg i) = (- (2 ^ 63) \<le> i \<and> i < 0)"
| "json_num_ok (JFloat f) = (\<exists>r. f = FFin r)"

fun json_ok :: "json \<Rightarrow> bool" where
  "json_ok (JNum n) = json_num_ok n"
| "json_ok (JStr s) = utf8_valid s"
| "json_ok (JArr xs) = (\<forall>x\<in>set xs. json_ok x)"
| "json_ok (JObj m) = ((\<forall>e\<in>set m. utf8_valid (fst e) \<and> json_ok (snd e)) \<and> distinct (map fst m))"
| "json_ok _ = True"

lemma walk_items_map:
  "(\<And>x loc. x \<in> set xs \<Longrightarrow> walk (f x) loc = Inr (g x)) \<Longrightarrow> walk_items (map f xs) i loc = Inr (map g xs)"
  by (induction xs arbitrary: i) auto

lemma walk_pairs_map:
  "(\<And>k v loc. (k, v) \<in> set m \<Longrightarrow> utf8_valid k \<and> walk (f v) loc = Inr (g v)) \<Longrightarrow> distinct (map fst m) \<Longrightarrow> bt_ok out \<Longrightarrow>
    (\<forall>e\<in>set m. bt_get out (fst e) = None) \<Longrightarrow>
    walk_pairs (map (\<lambda>(k, v). (VStr k, f v)) m) out loc =
      Inr (foldl (\<lambda>b (k, v). bt_insert k v b) out (map (\<lambda>(k, v). (k, g v)) m))"
proof (induction m arbitrary: out)
  case (Cons e m)
  obtain k v where e: "e = (k, v)" by (cases e)
  have "utf8_valid k \<and> walk (f v) (loc @ ''.'' @ k) = Inr (g v)" using Cons.prems(1) [of k v] e by simp
  moreover have "walk_pairs (map (\<lambda>(k, v). (VStr k, f v)) m) (bt_insert k (g v) out) loc =
      Inr (foldl (\<lambda>b (k, v). bt_insert k v b) (bt_insert k (g v) out) (map (\<lambda>(k, v). (k, g v)) m))"
  proof (rule Cons.IH)
    show "bt_ok (bt_insert k (g v) out)" using Cons.prems(3) by (rule bt.ok_ins)
    show "\<forall>x\<in>set m. bt_get (bt_insert k (g v) out) (fst x) = None"
      using Cons.prems(2,4) e by (auto simp: bt.get_ins [OF Cons.prems(3)] image_iff)
  qed (use Cons.prems in auto)
  ultimately show ?case using Cons.prems(4) e by simp
qed simp

lemma walk_of_json: "json_ok j \<Longrightarrow> walk (to_msgpack j) loc = Inr (key_sorted j)"
proof (induction j arbitrary: loc)
  case (JNum n)
  then show ?case by (cases n) (auto simp: finite_json_def)
next
  case (JArr xs)
  have "walk_items (map to_msgpack xs) 0 loc = Inr (map key_sorted xs)"
    by (rule walk_items_map) (use JArr in auto)
  then show ?case by simp
next
  case (JObj m)
  have "walk_pairs (map (\<lambda>(k, v). (VStr k, to_msgpack v)) m) [] loc =
      Inr (foldl (\<lambda>b (k, v). bt_insert k v b) [] (map (\<lambda>(k, v). (k, key_sorted v)) m))"
  proof (rule walk_pairs_map)
    fix k v loc assume kv: "(k, v) \<in> set m"
    then have "utf8_valid k" "json_ok v" using JObj.prems by auto
    then show "utf8_valid k \<and> walk (to_msgpack v) loc = Inr (key_sorted v)" using JObj.IH [OF kv, of v] by simp
  qed (use JObj.prems in \<open>simp_all add: bt_get_def\<close>)
  then show ?case by (simp add: by_key_def)
qed simp_all

section \<open>A writer of numbers and strings\<close>

instance flt :: countable by countable_datatype
instance json_num :: countable by countable_datatype

fun escape :: "string \<Rightarrow> string" where
  "escape [] = [CHR 0x22]"
| "escape (c # cs) = (if c = CHR 0x22 \<or> c = CHR 0x5C then CHR 0x5C # c # escape cs else c # escape cs)"

definition demo_text :: json_text where
  "demo_text = \<lparr>jt_num = (\<lambda>n. show_nat (to_nat n)), jt_str = (\<lambda>s. CHR 0x22 # escape s)\<rparr>"

lemma escape_inj: "escape s @ x = escape t @ y \<Longrightarrow> s = t \<and> x = y"
proof (induction s arbitrary: t)
  case Nil
  then show ?case by (cases t) (auto split: if_splits)
next
  case (Cons c s)
  then show ?case by (cases t) (auto split: if_splits)
qed

lemma show_nat_inj: "show_nat n = show_nat m \<Longrightarrow> n = m"
  using parse_digits_show by (metis option.inject)

lemma demo_texts: "json_texts demo_text"
proof -
  have nums: "set (show_nat n) \<subseteq> num_chars" for n
  proof
    fix c assume "c \<in> set (show_nat n)"
    then obtain d where d: "d < 10" "c = digit_char d" using show_nat_digits by blast
    have "list_all (\<lambda>d. digit_char d \<in> set ''0123456789+-.eE'') [0..<10]" by code_simp
    then show "c \<in> num_chars" using d by (simp add: num_chars_def list_all_iff)
  qed
  have "\<exists>r. jt_str demo_text s = CHR 0x22 # r" for s by (simp add: demo_text_def)
  moreover have "s = t \<and> x = y" if "jt_str demo_text s @ x = jt_str demo_text t @ y" for s t x y
  proof -
    have "escape s @ x = escape t @ y" using that by (simp add: demo_text_def)
    then show ?thesis by (rule escape_inj)
  qed
  moreover have "jt_num demo_text n \<noteq> [] \<and> set (jt_num demo_text n) \<subseteq> num_chars" for n
    using nums by (simp add: demo_text_def show_nat_not_Nil)
  moreover have "inj (jt_num demo_text)"
    by (rule injI) (metis demo_text_def json_text.select_convs(1) show_nat_inj from_nat_to_nat)
  ultimately show ?thesis unfolding json_texts_def by blast
qed

section \<open>What canonical JSON promises\<close>

lemma canonical_text_iff:
  assumes "json_texts jt"
  shows "write_canonical jt v = write_canonical jt w \<longleftrightarrow> key_sorted v = key_sorted w"
proof
  assume "write_canonical jt v = write_canonical jt w"
  then have "write_canonical jt v @ [] = write_canonical jt w @ []" by simp
  then show "key_sorted v = key_sorted w"
    using text_decodes [OF assms, of v] unfolding decodes_def by (metis ends_simps(1))
next
  assume "key_sorted v = key_sorted w"
  then show "write_canonical jt v = write_canonical jt w" using sorted_text by metis
qed

text \<open>
  C18. The canonical bytes name the value.  Two values have the same bytes if and only if they are the same
  value up to the order of the keys of their objects, so what was signed cannot be read as anything
  else; and the order in which a map iterates, whichever store is behind it, is not seen.
\<close>

theorem canonical_bytes_name_the_value:
  assumes "json_texts jt"
  shows "(write_canonical jt v = write_canonical jt w \<longleftrightarrow> key_sorted v = key_sorted w) \<and>
    (distinct (map fst m) \<and> distinct (map fst m') \<and> set m = set m' \<longrightarrow>
      write_canonical jt (JObj m) = write_canonical jt (JObj m'))"
proof (intro conjI impI)
  show "write_canonical jt v = write_canonical jt w \<longleftrightarrow> key_sorted v = key_sorted w"
    by (rule canonical_text_iff [OF assms])
  assume "distinct (map fst m) \<and> distinct (map fst m') \<and> set m = set m'"
  then have "by_key m = by_key m'" using by_key_order by blast
  then show "write_canonical jt (JObj m) = write_canonical jt (JObj m')" by (simp add: by_key_map)
qed

theorem canonical_bytes_name_the_value_witness:
  "write_canonical demo_text (JObj [(''b'', JNull), (''a'', JArr [])]) = write_canonical demo_text (JObj [(''a'', JArr []), (''b'', JNull)])
   \<and> write_canonical demo_text (JArr []) \<noteq> write_canonical demo_text (JObj [])"
proof
  show "write_canonical demo_text (JObj [(''b'', JNull), (''a'', JArr [])]) =
      write_canonical demo_text (JObj [(''a'', JArr []), (''b'', JNull)])"
    using canonical_bytes_name_the_value [OF demo_texts, of _ _ "[(''b'', JNull), (''a'', JArr [])]" "[(''a'', JArr []), (''b'', JNull)]"]
    by (simp add: insert_commute)
  show "write_canonical demo_text (JArr []) \<noteq> write_canonical demo_text (JObj [])"
    using canonical_bytes_name_the_value [OF demo_texts, of "JArr []" "JObj []"] by simp
qed

text \<open>
  C19. A guest's value is taken if and only if it has one JSON form: no float that is not finite, no number outside
  64 bits, no text that is not UTF-8, no blob and no extension, no key that is not text and no key twice, at any
  depth; and what the host hands a guest comes back as the same value.
\<close>

theorem guest_boundary:
  "((\<exists>j. from_msgpack v = Inr j) \<longleftrightarrow> jsonable v) \<and> (json_ok j \<longrightarrow> from_msgpack (to_msgpack j) = Inr (key_sorted j))"
  using walk_ok(1) [of v "''ask''"] walk_of_json [of j "''ask''"] by (simp add: from_msgpack_def)

theorem guest_boundary_witness: "from_msgpack (to_msgpack (JArr [JNull, JBool True])) = Inr (JArr [JNull, JBool True])"
  using guest_boundary [of VNil "JArr [JNull, JBool True]"] by simp

end
