(* ===== verification/Realm.thy ===== *)
theory Realm
  imports Caps Rust_Text Node_Paths
begin

text \<open>
  Realms, the noun of consent, \<^verbatim>\<open>crates/drt-config/src/realm.rs\<close>: dotted policy paths with their
  coverage relation, the mapping of a grant to the realm it lives under (the registry of families with
  its structural default), and the collapse of a list of realms.  A realm is its text; \<open>is_realm\<close> is what
  the parser lets in.  The trait \<^verbatim>\<open>RealmOf\<close> is a function from grants.  The lemmas show that coverage is the
  prefix relation on segments and not on bytes, that the mapping never fails, that a family's realm
  covers the realms of its members, and that collapsing a list changes nothing of what it covers.
\<close>

section \<open>Paths\<close>

type_synonym realm = string

definition realm_root :: realm where "realm_root = ''operator''"

text \<open>What \<^verbatim>\<open>str::chars\<close> goes through: each character as its bytes.\<close>

function str_chars :: "string \<Rightarrow> string list" where
  "str_chars s = (if s = [] then []
     else take (snd (utf8_front s)) s # str_chars (drop (snd (utf8_front s)) s))"
  by pat_completeness auto
termination
  by (relation "measure length") (simp_all add: utf8_front_less)

declare str_chars.simps [simp del]

definition strip_prefix :: "string \<Rightarrow> string \<Rightarrow> string option" where
  "strip_prefix p s = (if prefix p s then Some (drop (length p) s) else None)"

definition realm_covers :: "realm \<Rightarrow> realm \<Rightarrow> bool" where
  "realm_covers r other =
     (if r = other then True
      else (case strip_prefix r other of None \<Rightarrow> False | Some rest \<Rightarrow> prefix ''.'' rest))"

definition covered_by_any :: "realm \<Rightarrow> realm list \<Rightarrow> bool" where
  "covered_by_any r rs = list_ex (\<lambda>x. realm_covers x r) rs"

datatype bad_realm = NotUnderRoot string | EmptySegment string | BadCharacter string string

definition realm_char :: "char \<Rightarrow> bool" where
  "realm_char c \<longleftrightarrow> (CHR ''a'' \<le> c \<and> c \<le> CHR ''z'') \<or> (CHR ''0'' \<le> c \<and> c \<le> CHR ''9'') \<or> c = CHR ''_'' \<or> c = CHR ''-''"

definition realm_letter :: "string \<Rightarrow> bool" where
  "realm_letter ch = (case ch of [c] \<Rightarrow> realm_char c | _ \<Rightarrow> False)"

fun check_realm_segments :: "string \<Rightarrow> string list \<Rightarrow> bad_realm + unit" where
  "check_realm_segments text [] = Inr ()"
| "check_realm_segments text (seg # segs) =
     (if seg = [] then Inl (EmptySegment text)
      else (case List.find (\<lambda>ch. \<not> realm_letter ch) (str_chars seg) of
        Some bad \<Rightarrow> Inl (BadCharacter text bad)
      | None \<Rightarrow> check_realm_segments text segs))"

definition realm_parse :: "string \<Rightarrow> bad_realm + realm" where
  "realm_parse text =
     (if hd (split_char CHR ''.'' text) \<noteq> realm_root then Inl (NotUnderRoot text)
      else (case check_realm_segments text (split_char CHR ''.'' text) of
        Inl e \<Rightarrow> Inl e | Inr _ \<Rightarrow> Inr text))"

section \<open>The realm of a grant\<close>

type_synonym realm_of = "grant \<Rightarrow> realm option"

definition trim_end_stars :: "string \<Rightarrow> string" where
  "trim_end_stars s = rev (dropWhile (\<lambda>c. c = CHR ''*'') (rev s))"

definition structural_letter :: "string \<Rightarrow> string" where
  "structural_letter ch = (case ch of
     [c] \<Rightarrow> (if realm_char c then [c] else if CHR ''A'' \<le> c \<and> c \<le> CHR ''Z'' then [to_lower c] else ''_'')
   | _ \<Rightarrow> ''_'')"

definition structural_segment :: "string \<Rightarrow> string" where
  "structural_segment seg = (let s = trim_end_stars seg in
     if s = [] then [] else CHR ''.'' # concat (map structural_letter (str_chars s)))"

definition structural_path :: "string \<Rightarrow> string" where
  "structural_path capa =
     (let name = (case strip_prefix ''host:'' capa of Some n \<Rightarrow> n | None \<Rightarrow> capa) in
      realm_root @ concat (map structural_segment (split_char CHR ''/'' name)))"

definition structural :: realm_of where
  "structural g = (case realm_parse (structural_path (capability g)) of Inl _ \<Rightarrow> None | Inr r \<Rightarrow> Some r)"

definition peer_realm :: realm_of where
  "peer_realm g = structural g"

record realm_registry =
  rr_families :: "(string \<times> realm_of) list"
  rr_fallback :: realm_of

definition realm_registry_new :: realm_registry where
  "realm_registry_new = \<lparr>rr_families = [], rr_fallback = structural\<rparr>"

definition declare_realm :: "string \<Rightarrow> realm_of \<Rightarrow> realm_registry \<Rightarrow> realm_registry" where
  "declare_realm capa f reg = reg\<lparr>rr_families := bt_insert capa f (rr_families reg)\<rparr>"

definition declare_families :: "realm_registry \<Rightarrow> realm_registry" where
  "declare_families reg = declare_realm peer_family peer_realm reg"

definition registry_realm_of :: "realm_registry \<Rightarrow> realm_of" where
  "registry_realm_of reg g = (case List.find (\<lambda>(pat, f). implies pat (capability g)) (rr_families reg) of
     Some (pat, f) \<Rightarrow> f g | None \<Rightarrow> rr_fallback reg g)"

text \<open>One forward pass over the sorted list; \<open>out\<close> is what has been kept so far.\<close>

definition collapse_step :: "realm list \<Rightarrow> realm \<Rightarrow> realm list" where
  "collapse_step out r = (if out \<noteq> [] \<and> realm_covers (last out) r then out else out @ [r])"

definition collapse :: "realm list \<Rightarrow> realm list" where
  "collapse rs = foldl collapse_step [] (remdups_adj (sort rs))"

definition realms_of :: "realm_registry \<Rightarrow> grant list \<Rightarrow> realm list" where
  "realms_of reg caps = collapse (remdups_adj (sort
     (List.map_filter (registry_realm_of reg) (filter (\<lambda>g. effect g = Grant) caps))))"

section \<open>Segments\<close>

fun join_on :: "char \<Rightarrow> string list \<Rightarrow> string" where
  "join_on c [] = []"
| "join_on c [s] = s"
| "join_on c (s # t # ss) = s @ c # join_on c (t # ss)"

lemma join_on_split: "join_on c (split_char c t) = t"
proof (induction t)
  case (Cons x t)
  obtain y ys where "split_char c t = y # ys" by (cases "split_char c t") auto
  with Cons show ?case by (cases ys) auto
qed simp

lemma join_on_append: "ss \<noteq> [] \<Longrightarrow> ts \<noteq> [] \<Longrightarrow> join_on c (ss @ ts) = join_on c ss @ c # join_on c ts"
proof (induction c ss rule: join_on.induct)
  case (2 c s)
  then show ?case by (cases ts) auto
qed auto

lemma split_char_app: "split_char c (s @ c # t) = split_char c s @ split_char c t"
  by (induction s) (auto split: list.splits)

lemma strip_prefix_Some: "strip_prefix p s = Some r \<longleftrightarrow> s = p @ r"
  by (auto simp: strip_prefix_def prefix_def)

lemma realm_covers_iff: "realm_covers r s \<longleftrightarrow> s = r \<or> (\<exists>x. s = r @ CHR ''.'' # x)"
  by (auto simp: realm_covers_def strip_prefix_def prefix_def)

lemma realm_covers_refl [simp]: "realm_covers r r"
  by (simp add: realm_covers_iff)

lemma realm_covers_trans: "realm_covers a b \<Longrightarrow> realm_covers b c \<Longrightarrow> realm_covers a c"
  by (auto simp: realm_covers_iff)

lemma covered_by_any_iff: "covered_by_any r rs \<longleftrightarrow> (\<exists>x\<in>set rs. realm_covers x r)"
  by (simp add: covered_by_any_def list_ex_iff)

lemma segments_prefix: "realm_covers r s \<longleftrightarrow> prefix (split_char CHR ''.'' r) (split_char CHR ''.'' s)"
proof
  assume "realm_covers r s"
  then show "prefix (split_char CHR ''.'' r) (split_char CHR ''.'' s)"
    by (auto simp: realm_covers_iff split_char_app)
next
  assume "prefix (split_char CHR ''.'' r) (split_char CHR ''.'' s)"
  then obtain zs where zs: "split_char CHR ''.'' s = split_char CHR ''.'' r @ zs"
    by (auto simp: prefix_def)
  have "s = join_on CHR ''.'' (split_char CHR ''.'' r @ zs)"
    by (metis zs join_on_split)
  also have "\<dots> = (if zs = [] then r else r @ CHR ''.'' # join_on CHR ''.'' zs)"
    by (cases "zs = []") (simp_all add: join_on_split join_on_append)
  finally show "realm_covers r s" by (auto simp: realm_covers_iff split: if_splits)
qed

section \<open>What parses\<close>

lemma concat_str_chars: "concat (str_chars s) = s"
proof (induction s rule: str_chars.induct)
  case (1 s)
  show ?case
  proof (cases "s = []")
    case False
    with 1 have "concat (str_chars (drop (snd (utf8_front s)) s)) = drop (snd (utf8_front s)) s" by blast
    then show ?thesis unfolding str_chars.simps [of s] using False by simp
  qed (simp add: str_chars.simps [of "[]"])
qed

lemma str_chars_ascii: "\<forall>c\<in>set s. of_char c < (128 :: nat) \<Longrightarrow> str_chars s = map (\<lambda>c. [c]) s"
proof (induction s)
  case (Cons c s)
  then have "utf8_front (c # s) = (True, 1)" by (simp add: utf8_front_simps utf8_width_def)
  with Cons show ?case by (subst str_chars.simps) simp
qed (simp add: str_chars.simps)

lemma realm_char_ascii: "realm_char c \<Longrightarrow> of_char c < (128 :: nat)"
  by (auto simp: realm_char_def less_eq_char_def)

lemma realm_letter_iff: "realm_letter ch \<longleftrightarrow> (\<exists>c. ch = [c] \<and> realm_char c)"
  by (auto simp: realm_letter_def split: list.splits)

lemma realm_letters: "(\<forall>ch\<in>set (str_chars s). realm_letter ch) \<longleftrightarrow> (\<forall>c\<in>set s. realm_char c)"
proof
  assume "\<forall>ch\<in>set (str_chars s). realm_letter ch"
  then have "\<forall>c\<in>set (concat (str_chars s)). realm_char c"
    unfolding realm_letter_iff by fastforce
  then show "\<forall>c\<in>set s. realm_char c" unfolding concat_str_chars .
next
  assume s: "\<forall>c\<in>set s. realm_char c"
  then have "str_chars s = map (\<lambda>c. [c]) s" using str_chars_ascii realm_char_ascii by blast
  with s show "\<forall>ch\<in>set (str_chars s). realm_letter ch" by (simp add: realm_letter_iff)
qed

definition good_segment :: "string \<Rightarrow> bool" where
  "good_segment s \<longleftrightarrow> s \<noteq> [] \<and> (\<forall>c\<in>set s. realm_char c)"

lemma check_realm_segments_ok: "check_realm_segments text ss = Inr u \<longleftrightarrow> (\<forall>s\<in>set ss. good_segment s)"
proof (induction ss)
  case (Cons s ss)
  have "(\<forall>c\<in>set s. realm_char c) \<longleftrightarrow> List.find (\<lambda>ch. \<not> realm_letter ch) (str_chars s) = None"
    unfolding find_None_iff realm_letters [symmetric] by blast
  with Cons show ?case by (cases "List.find (\<lambda>ch. \<not> realm_letter ch) (str_chars s)") (simp_all add: good_segment_def)
qed simp

definition is_realm :: "string \<Rightarrow> bool" where
  "is_realm t \<longleftrightarrow> (\<exists>ss. t = join_on CHR ''.'' (realm_root # ss) \<and> (\<forall>s\<in>set ss. good_segment s))"

lemma realm_parse_Inr: "realm_parse t = Inr r \<longleftrightarrow> r = t \<and> hd (split_char CHR ''.'' t) = realm_root \<and>
    (\<forall>s\<in>set (split_char CHR ''.'' t). good_segment s)"
  by (auto simp: realm_parse_def check_realm_segments_ok split: sum.splits) (metis check_realm_segments_ok Inl_Inr_False)+

lemma good_segment_dot: "good_segment s \<Longrightarrow> CHR ''.'' \<notin> set s"
  by (auto simp: good_segment_def realm_char_def less_eq_char_def)

lemma good_root: "good_segment realm_root"
  by (simp add: good_segment_def realm_root_def realm_char_def less_eq_char_def)

lemma split_join_good: "ss \<noteq> [] \<Longrightarrow> (\<forall>s\<in>set ss. good_segment s) \<Longrightarrow>
    split_char CHR ''.'' (join_on CHR ''.'' ss) = ss"
proof (induction "CHR ''.''" ss rule: join_on.induct)
  case (3 a b ss)
  then show ?case by (simp add: split_char_front good_segment_dot)
qed (auto simp: split_char_no good_segment_dot)

lemma realm_parse_is_realm: "realm_parse t = Inr r \<longleftrightarrow> r = t \<and> is_realm t"
proof
  assume "realm_parse t = Inr r"
  then have h: "r = t" "hd (split_char CHR ''.'' t) = realm_root" "\<forall>s\<in>set (split_char CHR ''.'' t). good_segment s"
    by (simp_all add: realm_parse_Inr)
  then obtain ss where "split_char CHR ''.'' t = realm_root # ss" by (cases "split_char CHR ''.'' t") auto
  with h join_on_split [of "CHR ''.''" t] show "r = t \<and> is_realm t" by (auto simp: is_realm_def)
next
  assume "r = t \<and> is_realm t"
  then show "realm_parse t = Inr r"
    using good_root split_join_good [of "realm_root # _"] by (auto simp: is_realm_def realm_parse_Inr)
qed

section \<open>Collapsing\<close>

lemma collapse_fold_sub: "set (foldl collapse_step out rs) \<subseteq> set out \<union> set rs"
proof (induction rs arbitrary: out)
  case (Cons r rs)
  have "set (collapse_step out r) \<subseteq> insert r (set out)" by (simp add: collapse_step_def subset_insertI)
  then show ?case using Cons.IH [of "collapse_step out r"] by fastforce
qed simp

lemma collapse_fold_covers:
  "x \<in> set out \<union> set rs \<Longrightarrow> \<exists>y\<in>set (foldl collapse_step out rs). realm_covers y x"
proof (induction rs arbitrary: out x)
  case Nil
  then show ?case by (auto intro: realm_covers_refl)
next
  case (Cons r rs)
  have "\<exists>y\<in>set (collapse_step out r) \<union> set rs. realm_covers y x"
    using Cons.prems by (fastforce simp: collapse_step_def intro: realm_covers_refl)
  then show ?case using Cons.IH [of _ "collapse_step out r"] realm_covers_trans by fastforce
qed

lemma collapse_covers: "covered_by_any r (collapse rs) \<longleftrightarrow> covered_by_any r rs"
proof -
  have "\<exists>y\<in>set (collapse rs). realm_covers y x" if "x \<in> set rs" for x
    using collapse_fold_covers [of x "[]" "remdups_adj (sort rs)"] that by (simp add: collapse_def)
  moreover have "set (collapse rs) \<subseteq> set rs"
    using collapse_fold_sub [of "[]" "remdups_adj (sort rs)"] by (simp add: collapse_def)
  ultimately show ?thesis unfolding covered_by_any_iff using realm_covers_trans by blast
qed

lemma map_filter_mem: "x \<in> set (List.map_filter f xs) \<longleftrightarrow> (\<exists>y\<in>set xs. f y = Some x)"
  by (induction xs) (auto split: option.splits)

lemma realms_of_covers: "covered_by_any r (realms_of reg caps) \<longleftrightarrow>
    (\<exists>g\<in>set caps. effect g = Grant \<and> (\<exists>x. registry_realm_of reg g = Some x \<and> realm_covers x r))"
  unfolding realms_of_def collapse_covers
  by (force simp: covered_by_any_iff map_filter_mem)

text \<open>
  Collapsing loses nothing and adds nothing: a realm is covered by the collapsed list exactly when it
  was covered by the list, and every realm that is kept was in it.
\<close>

theorem collapse_keeps_coverage:
  "(covered_by_any r (collapse rs) \<longleftrightarrow> covered_by_any r rs) \<and>
   covered_by_any r (realms_of reg caps) =
     list_ex (\<lambda>g. effect g = Grant \<and> (case registry_realm_of reg g of None \<Rightarrow> False | Some x \<Rightarrow> realm_covers x r)) caps"
  unfolding collapse_covers realms_of_covers by (auto simp: list_ex_iff split: option.splits)

text \<open>
  Coverage is by whole segments: a realm covers another exactly when its segments begin the other's, so
  \<^verbatim>\<open>operator.net\<close> covers \<^verbatim>\<open>operator.net.dns\<close> and not \<^verbatim>\<open>operator.network\<close>.
\<close>

theorem coverage_is_by_segment:
  "realm_covers r s = prefix (split_char CHR ''.'' r) (split_char CHR ''.'' s)"
  by (rule segments_prefix)

lemma root_covers_realms: "is_realm t \<Longrightarrow> realm_covers realm_root t"
proof -
  assume "is_realm t"
  then obtain ss where "t = join_on CHR ''.'' (realm_root # ss)" by (auto simp: is_realm_def)
  then show ?thesis by (cases ss) (auto simp: realm_covers_iff)
qed

text \<open>
  The parser lets in exactly the paths of non-empty segments of the allowed letters under the root
  realm, each unchanged.
\<close>

theorem realm_parse_iff: "(realm_parse t = Inr r) = (r = t \<and> is_realm t)"
  by (rule realm_parse_is_realm)

section \<open>Where a grant lives\<close>

lemma structural_letter_chars:
  "structural_letter ch \<noteq> [] \<and> (\<forall>c\<in>set (structural_letter ch). realm_char c)"
proof -
  have "realm_char (to_lower c)" if "CHR ''A'' \<le> c" "c \<le> CHR ''Z''" for c
  proof -
    have "(65 :: nat) \<le> of_char c" "of_char c \<le> (90 :: nat)" using that by (simp_all add: less_eq_char_def)
    then have "of_char (to_lower c) = (of_char c + 32 :: nat)" by (simp add: to_lower_def)
    with \<open>65 \<le> of_char c\<close> \<open>of_char c \<le> 90\<close> show ?thesis by (simp add: realm_char_def less_eq_char_def)
  qed
  moreover have "realm_char CHR ''_''" by (simp add: realm_char_def)
  ultimately show ?thesis by (auto simp: structural_letter_def split: list.splits)
qed

lemma structural_segment_shape:
  "structural_segment seg = [] \<or> (\<exists>w. structural_segment seg = CHR ''.'' # w \<and> good_segment w)"
proof -
  have "str_chars s \<noteq> []" if "s \<noteq> []" for s using concat_str_chars [of s] that by (metis concat.simps(1))
  then have "good_segment (concat (map structural_letter (str_chars s)))" if "s \<noteq> []" for s
    using that structural_letter_chars by (fastforce simp: good_segment_def)
  then show ?thesis by (auto simp: structural_segment_def Let_def)
qed

lemma is_realm_parts: "is_realm t \<longleftrightarrow> hd (split_char CHR ''.'' t) = realm_root \<and>
    (\<forall>s\<in>set (split_char CHR ''.'' t). good_segment s)"
  using realm_parse_is_realm [of t t] realm_parse_Inr [of t t] by simp

lemma is_realm_segment: "is_realm t \<Longrightarrow> is_realm (t @ structural_segment seg)"
  using structural_segment_shape [of seg] by (auto simp: is_realm_parts split_char_app split_char_no good_segment_dot)

lemma is_realm_segments: "is_realm t \<Longrightarrow> is_realm (t @ concat (map structural_segment segs))"
proof (induction segs arbitrary: t)
  case (Cons seg segs)
  then show ?case using Cons.IH [OF is_realm_segment [OF Cons.prems, of seg]] by simp
qed simp

lemma structural_is_realm: "is_realm (structural_path c)"
proof -
  have "is_realm realm_root" using good_root by (simp add: is_realm_parts split_char_no good_segment_dot)
  then show ?thesis by (simp add: structural_path_def is_realm_segments)
qed

lemma structural_total: "structural g = Some (structural_path (capability g))"
  using realm_parse_is_realm structural_is_realm by (simp add: structural_def split: sum.split) (metis Inr_Inl_False Inr_inject)

lemma registry_structural:
  "registry_realm_of (declare_families realm_registry_new) g = Some (structural_path (capability g))"
  by (auto simp: registry_realm_of_def declare_families_def declare_realm_def realm_registry_new_def
      peer_realm_def structural_total split: option.split)

lemma more_segments: "realm_covers r (r @ concat (map structural_segment segs))"
proof (induction segs arbitrary: r)
  case (Cons seg segs)
  have "realm_covers r (r @ structural_segment seg)"
    using structural_segment_shape [of seg] by (auto simp: realm_covers_iff)
  with Cons [of "r @ structural_segment seg"] realm_covers_trans show ?case by auto
qed simp

lemma prefix_before_slash: "CHR ''/'' \<notin> set p \<Longrightarrow> prefix p (s @ CHR ''/'' # x) \<longleftrightarrow> prefix p s"
  by (auto simp: prefix_append) (auto simp: prefix_Cons)

lemma structural_below: "structural_path (fam @ CHR ''/'' # x) =
    structural_path fam @ concat (map structural_segment (split_char CHR ''/'' x))"
proof -
  have p: "prefix ''host:'' (fam @ CHR ''/'' # x) \<longleftrightarrow> prefix ''host:'' fam" by (rule prefix_before_slash) simp
  show ?thesis
  proof (cases "prefix ''host:'' fam")
    case True
    then obtain n where "fam = ''host:'' @ n" by (auto simp: prefix_def)
    then show ?thesis by (simp add: structural_path_def strip_prefix_def split_char_app)
  next
    case False
    then show ?thesis using p by (simp add: structural_path_def strip_prefix_def split_char_app)
  qed
qed

lemma star_segment: "structural_segment ''*'' = []"
  by (simp add: structural_segment_def trim_end_stars_def)

lemma structural_family: "structural_path (fam @ ''/*'') = structural_path fam"
  using structural_below [of fam "''*''"] by (simp add: star_segment)

text \<open>
  Consent to a family reaches its members: with a grant of a family in the ceiling, every name the
  grant lets through has a realm, which the ceiling's realms cover, whether or not the list was collapsed.
\<close>

theorem consented_family_covers_its_members:
  assumes "g \<in> set caps" and "effect g = Grant" and "capability g = fam @ ''/*''" and "implies (capability g) name"
  shows "is_realm (structural_path name) \<and>
    registry_realm_of (declare_families realm_registry_new) (grant_of name) = Some (structural_path name) \<and>
    covered_by_any (structural_path name) (realms_of (declare_families realm_registry_new) caps)"
proof -
  obtain rest where "name = fam @ CHR ''/'' # rest"
    using assms(3,4) implies_pattern [of "fam @ ''/''" name] by (auto simp: prefix_def)
  then have "realm_covers (structural_path (capability g)) (structural_path name)"
    using more_segments unfolding assms(3) structural_family by (simp add: structural_below)
  with assms(1,2) have "covered_by_any (structural_path name) (realms_of (declare_families realm_registry_new) caps)"
    unfolding realms_of_covers registry_structural by blast
  then show ?thesis by (simp add: structural_is_realm registry_structural grant_of_def)
qed

theorem consented_family_covers_its_members_witness:
  "covered_by_any (structural_path ''host:fs/read'') (realms_of (declare_families realm_registry_new) [grant_of ''host:fs/*''])"
  using consented_family_covers_its_members [of "grant_of ''host:fs/*''" "[grant_of ''host:fs/*'']" "''host:fs''" "''host:fs/read''"]
  by (simp add: grant_of_def implies_def)

text \<open>
  A lone star is not a pattern, and a ceiling of it holds no call at all; its realm is the root realm all the same, so
  the ceiling covers every realm an approval can name.
\<close>

theorem lone_star_covers_every_realm:
  "realms_of (declare_families realm_registry_new) [grant_of ''*''] = [realm_root] \<and>
   \<not> holds (root_set [grant_of ''*'']) (call_capability call)"
proof -
  have "structural_path ''*'' = realm_root"
    by (simp add: structural_path_def strip_prefix_def star_segment)
  then show ?thesis
    by (simp add: realms_of_def registry_structural collapse_def collapse_step_def grant_of_def holds_def root_set_def
        grants_holds_def implies_def call_capability_def List.map_filter_def)
qed

text \<open>
  Sorted order does not put a realm right before what it covers: the hyphen sorts before the dot, so a
  sibling with a hyphen comes between, and the covered realm is kept.
\<close>

theorem collapse_keeps_a_covered_realm:
  "collapse [''operator.a'', ''operator.a-b'', ''operator.a.c''] = [''operator.a'', ''operator.a-b'', ''operator.a.c''] \<and>
   realm_covers ''operator.a'' ''operator.a.c''"
  by code_simp

end
