(* ===== verification/Project.thy ===== *)
theory Project
  imports Realm Canon Civil_Time Identity
begin

text \<open>
  The root descriptor, \<^verbatim>\<open>crates/drt-config/src/project.rs\<close> (node paths are in \<open>Node_Paths\<close>),
  and the envelope of what a root has committed, \<^verbatim>\<open>crates/drt-config/src/envelope.rs\<close>.  The structs
  are records; what serde derives for writing them is \<open>ceiling_json\<close> and \<open>envelope_json\<close>, a
  \<^verbatim>\<open>BTreeMap\<close> the list of its entries in key order.  How a scope, a message value, is written
  as JSON belongs to the message library and is a parameter, as is the digest.  The lemmas show that the ceiling's hash
  covers all of the ceiling and nothing else, what profiles a descriptor declares, and that the
  envelope's differences are exactly where two trees disagree.
\<close>

section \<open>The descriptor\<close>

type_synonym hash = string

definition profile_suffix :: string where "profile_suffix = ''.config.json''"

definition fallback_order :: "string list" where
  "fallback_order = [''debug.config.json'', ''default.config.json'', ''release.config.json'']"

datatype allow_nested = NestAllow | NestWarn | NestError

record peer_declaration =
  pr_role :: string
  pr_queues :: "string list"
  pr_contract :: string

record project =
  pj_name :: "string option"
  pj_version :: "string option"
  pj_root_id :: uuid7
  pj_duplicated_from :: "uuid7 option"
  pj_drt :: "string option"
  pj_caps :: "grant list"
  pj_peers :: "peer_declaration list"
  pj_allow_nested :: allow_nested
  pj_sources :: "json list"
  pj_require_signatures :: bool
  pj_default_profile :: "string option"
  pj_profiles :: "string list"

definition project_new :: "uuid7 \<Rightarrow> project" where
  "project_new u = \<lparr>pj_name = None, pj_version = None, pj_root_id = u, pj_duplicated_from = None, pj_drt = None,
     pj_caps = [], pj_peers = [], pj_allow_nested = NestWarn, pj_sources = [], pj_require_signatures = True,
     pj_default_profile = None, pj_profiles = []\<rparr>"

datatype bad_role = RoleEmpty | RoleSeparator string | RoleReserved string

definition check_role :: "string \<Rightarrow> bad_role + unit" where
  "check_role role =
     (if role = [] then Inl RoleEmpty
      else if CHR ''/'' \<in> set role \<or> CHR 0x5C \<in> set role then Inl (RoleSeparator role)
      else if is_reserved role then Inl (RoleReserved role) else Inr ())"

section \<open>The ceiling and its hash\<close>

record declared_ceiling =
  dc_caps :: "grant list"
  dc_peers :: "peer_declaration list"

definition ceiling_of_caps :: "grant list \<Rightarrow> declared_ceiling" where
  "ceiling_of_caps caps = \<lparr>dc_caps = caps, dc_peers = []\<rparr>"

definition ceiling_roles :: "declared_ceiling \<Rightarrow> string list" where
  "ceiling_roles c = map pr_role (dc_peers c)"

definition declared_ceiling_of :: "project \<Rightarrow> declared_ceiling" where
  "declared_ceiling_of p = \<lparr>dc_caps = pj_caps p, dc_peers = pj_peers p\<rparr>"

text \<open>What the derived serializers write: fields in their order, a skipped field left out.\<close>

definition grant_json :: "(val \<Rightarrow> string + json) \<Rightarrow> grant \<Rightarrow> string + json" where
  "grant_json sj g =
     (let head = [(''effect'', JStr (case effect g of Grant \<Rightarrow> ''grant'' | Deny \<Rightarrow> ''deny'')), (''capability'', JStr (capability g))] in
      case scope g of None \<Rightarrow> Inr (JObj head)
      | Some v \<Rightarrow> (case sj v of Inl e \<Rightarrow> Inl e | Inr j \<Rightarrow> Inr (JObj (head @ [(''scope'', j)]))))"

fun all_json :: "('a \<Rightarrow> string + json) \<Rightarrow> 'a list \<Rightarrow> string + json list" where
  "all_json f [] = Inr []"
| "all_json f (x # xs) = (case f x of Inl e \<Rightarrow> Inl e
     | Inr j \<Rightarrow> (case all_json f xs of Inl e \<Rightarrow> Inl e | Inr js \<Rightarrow> Inr (j # js)))"

definition peer_json :: "peer_declaration \<Rightarrow> json" where
  "peer_json p = JObj ([(''role'', JStr (pr_role p))]
     @ (if pr_queues p = [] then [] else [(''queues'', JArr (map JStr (pr_queues p)))])
     @ [(''contract'', JStr (pr_contract p))])"

definition ceiling_json :: "(val \<Rightarrow> string + json) \<Rightarrow> declared_ceiling \<Rightarrow> string + json" where
  "ceiling_json sj c = (case all_json (grant_json sj) (dc_caps c) of Inl e \<Rightarrow> Inl e
     | Inr caps \<Rightarrow> Inr (JObj [(''caps'', JArr caps), (''peers'', JArr (map peer_json (dc_peers c)))]))"

record hash_env =
  he_digest :: "bytes \<Rightarrow> bytes"
  he_text :: json_text
  he_scope :: "val \<Rightarrow> string + json"

datatype ceiling_hash_error = CeilingHashError string

definition ceiling_hash_of :: "hash_env \<Rightarrow> declared_ceiling \<Rightarrow> ceiling_hash_error + hash" where
  "ceiling_hash_of he c = (case ceiling_json (he_scope he) c of Inl e \<Rightarrow> Inl (CeilingHashError e)
     | Inr v \<Rightarrow> Inr (hash_value (he_digest he) (he_text he) v))"

definition ceiling_hash :: "hash_env \<Rightarrow> project \<Rightarrow> ceiling_hash_error + hash" where
  "ceiling_hash he p = ceiling_hash_of he (declared_ceiling_of p)"

definition caps_hash :: "hash_env \<Rightarrow> grant list \<Rightarrow> ceiling_hash_error + hash" where
  "caps_hash he caps = ceiling_hash_of he (ceiling_of_caps caps)"

text \<open>A ceiling as it may be stored: in the older form it is its grants alone.\<close>

datatype stored_ceiling = LegacyCeiling "grant list" | CurrentCeiling "grant list" "peer_declaration list"

definition read_ceiling :: "stored_ceiling \<Rightarrow> declared_ceiling" where
  "read_ceiling s = (case s of LegacyCeiling caps \<Rightarrow> ceiling_of_caps caps
     | CurrentCeiling caps peers \<Rightarrow> \<lparr>dc_caps = caps, dc_peers = peers\<rparr>)"

section \<open>Profiles\<close>

type_synonym profile_name = string

datatype bad_profile_name = ProfEmpty | ProfReserved string | ProfNotAName string | ProfNotAFilename string

definition profile_new :: "string \<Rightarrow> bad_profile_name + profile_name" where
  "profile_new name =
     (if name = [] then Inl ProfEmpty
      else if is_reserved name then Inl (ProfReserved name)
      else if CHR ''.'' \<in> set name \<or> CHR ''/'' \<in> set name \<or> CHR 0x5C \<in> set name then Inl (ProfNotAName name)
      else Inr name)"

definition strip_suffix :: "string \<Rightarrow> string \<Rightarrow> string option" where
  "strip_suffix x s = (if suffix x s then Some (take (length s - length x) s) else None)"

definition profile_from_filename :: "string \<Rightarrow> bad_profile_name + profile_name" where
  "profile_from_filename f = (case strip_suffix profile_suffix f of
     None \<Rightarrow> Inl (ProfNotAFilename f) | Some n \<Rightarrow> profile_new n)"

definition profile_filename :: "profile_name \<Rightarrow> string" where
  "profile_filename n = n @ profile_suffix"

fun declare_profiles :: "string list \<Rightarrow> (profile_name \<times> string) list \<Rightarrow> bad_profile_name list
    \<Rightarrow> (profile_name \<times> string) list \<times> bad_profile_name list" where
  "declare_profiles [] named bad = (named, bad)"
| "declare_profiles (f # fs) named bad = (case profile_from_filename f of
     Inr n \<Rightarrow> declare_profiles fs (bt_insert n f named) bad
   | Inl e \<Rightarrow> declare_profiles fs named (bad @ [e]))"

definition declared_profiles :: "project \<Rightarrow> (profile_name \<times> string) list \<times> bad_profile_name list" where
  "declared_profiles p = declare_profiles (pj_profiles p) [] []"

section \<open>The envelope\<close>

record envelope =
  ev_root_id :: uuid7
  ev_files :: "(string \<times> hash) list"
  ev_committed_at :: timestamp

definition envelope_new :: "uuid7 \<Rightarrow> timestamp \<Rightarrow> envelope" where
  "envelope_new u t = \<lparr>ev_root_id = u, ev_files = [], ev_committed_at = t\<rparr>"

definition envelope_json :: "envelope \<Rightarrow> json" where
  "envelope_json v = JObj [(''root_id'', JStr (show_uuid (ev_root_id v))),
     (''files'', JObj (map (\<lambda>(k, h). (k, JStr h)) (ev_files v))),
     (''committed_at'', JStr (show_timestamp (ev_committed_at v)))]"

definition envelope_hash :: "hash_env \<Rightarrow> envelope \<Rightarrow> hash" where
  "envelope_hash he v = hash_value (he_digest he) (he_text he) (envelope_json v)"

datatype difference = Missing string | Changed string | Uncommitted string

definition committed_difference :: "(string \<times> hash) list \<Rightarrow> string \<times> hash \<Rightarrow> difference option" where
  "committed_difference actual e = (case bt_get actual (fst e) of
     None \<Rightarrow> Some (Missing (fst e))
   | Some found \<Rightarrow> (if found \<noteq> snd e then Some (Changed (fst e)) else None))"

definition differences :: "envelope \<Rightarrow> (string \<times> hash) list \<Rightarrow> difference list" where
  "differences v actual = List.map_filter (committed_difference actual) (ev_files v) @
     map Uncommitted (filter (\<lambda>p. bt_get (ev_files v) p = None) (map fst actual))"

section \<open>What the ceiling's hash covers\<close>

lemma object_fields:
  assumes "distinct (map fst m)" and "distinct (map fst m')"
  shows "key_sorted (JObj m) = key_sorted (JObj m') \<longleftrightarrow>
    map_of (map (\<lambda>(k, v). (k, key_sorted v)) m) = map_of (map (\<lambda>(k, v). (k, key_sorted v)) m')"
proof -
  let ?s = "map (\<lambda>(k, v). (k, key_sorted v))"
  have d: "distinct (map fst (?s m))" "distinct (map fst (?s m'))"
    using assms by (simp_all add: comp_def split_def)
  have "by_key (?s m) = by_key (?s m') \<longleftrightarrow> set (?s m) = set (?s m')"
    using set_by_key [OF d(1)] set_by_key [OF d(2)] by_key_order [OF d] by metis
  then show ?thesis using map_of_inject_set [OF d] by simp
qed

lemma map_JStr_inj: "map JStr xs = map JStr ys \<longleftrightarrow> xs = ys"
  by (simp add: inj_map_eq_map inj_on_def)

lemma key_sorted_strs [simp]: "map (key_sorted \<circ> JStr) xs = map JStr xs"
  by simp

lemma peer_json_inj: "key_sorted (peer_json p) = key_sorted (peer_json q) \<longleftrightarrow> p = q"
proof
  assume same: "key_sorted (peer_json p) = key_sorted (peer_json q)"
  let ?m = "\<lambda>p. [(''role'', JStr (pr_role p))]
     @ (if pr_queues p = [] then [] else [(''queues'', JArr (map JStr (pr_queues p)))])
     @ [(''contract'', JStr (pr_contract p))]"
  have "distinct (map fst (?m r))" for r by simp
  then have m: "map_of (map (\<lambda>(k, v). (k, key_sorted v)) (?m p)) = map_of (map (\<lambda>(k, v). (k, key_sorted v)) (?m q))"
    using same object_fields unfolding peer_json_def by blast
  have "pr_role p = pr_role q" using fun_cong [OF m, of "''role''"] by simp
  moreover have "pr_contract p = pr_contract q" using fun_cong [OF m, of "''contract''"] by (simp split: if_splits)
  moreover have "pr_queues p = pr_queues q"
    using fun_cong [OF m, of "''queues''"] by (auto simp: map_JStr_inj split: if_splits)
  ultimately show "p = q" by simp
qed simp

text \<open>Two grants that an operator reads as one: scopes count as what they are written as.\<close>

definition same_grant :: "(val \<Rightarrow> string + json) \<Rightarrow> grant \<Rightarrow> grant \<Rightarrow> bool" where
  "same_grant sj g h \<longleftrightarrow> effect g = effect h \<and> capability g = capability h \<and>
     rel_option (\<lambda>v w. map_sum id key_sorted (sj v) = map_sum id key_sorted (sj w)) (scope g) (scope h)"

lemma grant_json_same:
  assumes "grant_json sj g = Inr a" and "grant_json sj h = Inr b"
  shows "key_sorted a = key_sorted b \<longleftrightarrow> same_grant sj g h"
proof -
  define head where "head = (\<lambda>g :: grant. [(''effect'', JStr (case effect g of Grant \<Rightarrow> ''grant'' | Deny \<Rightarrow> ''deny'')),
      (''capability'', JStr (capability g))])"
  define tail where "tail = (\<lambda>g :: grant. case scope g of None \<Rightarrow> [] | Some v \<Rightarrow> (case sj v of Inl e \<Rightarrow> [] | Inr j \<Rightarrow> [(''scope'', j)]))"
  have ab: "a = JObj (head g @ tail g)" "b = JObj (head h @ tail h)"
    using assms by (auto simp: grant_json_def head_def tail_def split: option.splits sum.splits)
  have d: "distinct (map fst (head x @ tail x))" for x
    by (auto simp: head_def tail_def split: option.splits sum.splits)
  have e: "(case effect g of Grant \<Rightarrow> ''grant'' | Deny \<Rightarrow> ''deny'') = (case effect h of Grant \<Rightarrow> ''grant'' | Deny \<Rightarrow> ''deny'')
      \<longleftrightarrow> effect g = effect h" by (cases "effect g"; cases "effect h") auto
  have ok: "scope x = Some v \<Longrightarrow> grant_json sj x = Inr y \<Longrightarrow> \<exists>j. sj v = Inr j" for x v y
    by (auto simp: grant_json_def split: sum.splits)
  show ?thesis
  proof
    assume "key_sorted a = key_sorted b"
    then have m: "map_of (map (\<lambda>(k, v). (k, key_sorted v)) (head g @ tail g)) = map_of (map (\<lambda>(k, v). (k, key_sorted v)) (head h @ tail h))"
      unfolding ab using object_fields [OF d d] by blast
    have "effect g = effect h" using fun_cong [OF m, of "''effect''"] e by (simp add: head_def)
    moreover have "capability g = capability h" using fun_cong [OF m, of "''capability''"] by (simp add: head_def)
    moreover have "rel_option (\<lambda>v w. map_sum id key_sorted (sj v) = map_sum id key_sorted (sj w)) (scope g) (scope h)"
      using fun_cong [OF m, of "''scope''"] ok [OF _ assms(1)] ok [OF _ assms(2)]
      by (cases "scope g"; cases "scope h") (force simp: head_def tail_def)+
    ultimately show "same_grant sj g h" by (simp add: same_grant_def)
  next
    assume s: "same_grant sj g h"
    then have "head g = head h" by (simp add: head_def same_grant_def)
    moreover have "map (\<lambda>(k, v). (k, key_sorted v)) (tail g) = map (\<lambda>(k, v). (k, key_sorted v)) (tail h)"
      using s ok [OF _ assms(1)] ok [OF _ assms(2)]
      by (cases "scope g"; cases "scope h") (force simp: tail_def same_grant_def)+
    ultimately show "key_sorted a = key_sorted b" by (simp add: ab)
  qed
qed

lemma all_json_same:
  assumes "\<And>x y a b. f x = Inr a \<Longrightarrow> f y = Inr b \<Longrightarrow> key_sorted a = key_sorted b \<longleftrightarrow> P x y"
  shows "all_json f xs = Inr as \<Longrightarrow> all_json f ys = Inr bs \<Longrightarrow> map key_sorted as = map key_sorted bs \<longleftrightarrow> list_all2 P xs ys"
proof (induction xs arbitrary: ys as bs)
  case Nil
  then show ?case by (cases ys) (auto split: sum.splits)
next
  case (Cons x xs)
  then show ?case
    using assms by (cases ys) (auto split: sum.splits)
qed

definition same_ceiling :: "(val \<Rightarrow> string + json) \<Rightarrow> declared_ceiling \<Rightarrow> declared_ceiling \<Rightarrow> bool" where
  "same_ceiling sj c d \<longleftrightarrow> list_all2 (same_grant sj) (dc_caps c) (dc_caps d) \<and> dc_peers c = dc_peers d"

lemma ceiling_json_same:
  assumes "ceiling_json sj c = Inr a" and "ceiling_json sj d = Inr b"
  shows "key_sorted a = key_sorted b \<longleftrightarrow> same_ceiling sj c d"
proof -
  obtain as bs where as: "all_json (grant_json sj) (dc_caps c) = Inr as" "all_json (grant_json sj) (dc_caps d) = Inr bs"
    "a = JObj [(''caps'', JArr as), (''peers'', JArr (map peer_json (dc_peers c)))]"
    "b = JObj [(''caps'', JArr bs), (''peers'', JArr (map peer_json (dc_peers d)))]"
    using assms by (auto simp: ceiling_json_def split: sum.splits)
  let ?m = "\<lambda>x y. [(''caps'', JArr x), (''peers'', JArr (map peer_json y))]"
  have fields: "key_sorted (JObj (?m x y)) = key_sorted (JObj (?m u v)) \<longleftrightarrow>
      map key_sorted x = map key_sorted u \<and> map (key_sorted \<circ> peer_json) y = map (key_sorted \<circ> peer_json) v" for x y u v
  proof
    assume "key_sorted (JObj (?m x y)) = key_sorted (JObj (?m u v))"
    then have m: "map_of (map (\<lambda>(k, v). (k, key_sorted v)) (?m x y)) = map_of (map (\<lambda>(k, v). (k, key_sorted v)) (?m u v))"
      using object_fields [of "?m x y" "?m u v"] by simp
    show "map key_sorted x = map key_sorted u \<and> map (key_sorted \<circ> peer_json) y = map (key_sorted \<circ> peer_json) v"
      using fun_cong [OF m, of "''caps''"] fun_cong [OF m, of "''peers''"] by simp
  qed simp
  have "map (key_sorted \<circ> peer_json) (dc_peers c) = map (key_sorted \<circ> peer_json) (dc_peers d) \<longleftrightarrow> dc_peers c = dc_peers d"
    by (rule inj_map_eq_map) (simp add: inj_def peer_json_inj)
  with all_json_same [of "grant_json sj" "same_grant sj", OF grant_json_same as(1,2)] show ?thesis
    unfolding as(3,4) fields same_ceiling_def by blast
qed

text \<open>
  What consent compares.  Two descriptors whose ceilings can be written have the same bytes under the hash if and only if
  they declare the same ceiling, grant by grant with effect, name and scope, and peer by peer with role, queues and contract; so
  nothing in the ceiling can change unseen, and an edit anywhere else in the descriptor leaves the hash as it is.
\<close>

theorem ceiling_hash_covers_the_ceiling:
  assumes "json_texts (he_text he)" and "ceiling_json (he_scope he) (declared_ceiling_of p) = Inr a"
    and "ceiling_json (he_scope he) (declared_ceiling_of q) = Inr b"
  shows "(write_canonical (he_text he) a = write_canonical (he_text he) b) = same_ceiling (he_scope he) (declared_ceiling_of p) (declared_ceiling_of q)
    \<and> ceiling_hash he p = Inr (hash_value (he_digest he) (he_text he) a)
    \<and> ceiling_hash he (p\<lparr>pj_version := v, pj_profiles := fs, pj_drt := r, pj_default_profile := dp\<rparr>) = ceiling_hash he p"
  using assms canonical_text_iff [OF assms(1), of a b] ceiling_json_same [OF assms(2,3)]
  by (simp add: ceiling_hash_def ceiling_hash_of_def declared_ceiling_of_def)

definition demo_hashing :: hash_env where
  "demo_hashing = \<lparr>he_digest = id, he_text = demo_text,
     he_scope = (\<lambda>v. case from_msgpack v of Inl e \<Rightarrow> Inl ''no JSON form'' | Inr j \<Rightarrow> Inr j)\<rparr>"

theorem ceiling_hash_covers_the_ceiling_witness:
  "ceiling_hash demo_hashing ((project_new (Uuid7 []))\<lparr>pj_caps := [grant_of ''host:time'']\<rparr>) =
   Inr (hash_value id demo_text (JObj [(''caps'', JArr [JObj [(''effect'', JStr ''grant''), (''capability'', JStr ''host:time'')]]), (''peers'', JArr [])]))"
proof -
  let ?p = "(project_new (Uuid7 []))\<lparr>pj_caps := [grant_of ''host:time'']\<rparr>"
  let ?j = "JObj [(''caps'', JArr [JObj [(''effect'', JStr ''grant''), (''capability'', JStr ''host:time'')]]), (''peers'', JArr [])]"
  have "ceiling_json (he_scope demo_hashing) (declared_ceiling_of ?p) = Inr ?j"
    by (simp add: ceiling_json_def declared_ceiling_of_def project_new_def grant_json_def grant_of_def)
  then show ?thesis
    using ceiling_hash_covers_the_ceiling [of demo_hashing ?p ?j ?p ?j] demo_texts by (simp add: demo_hashing_def)
qed

section \<open>Which profiles are declared\<close>

lemma strip_suffix_Some: "strip_suffix x s = Some r \<longleftrightarrow> s = r @ x"
  by (auto simp: strip_suffix_def suffix_def)

lemma profile_from_filename_Inr: "profile_from_filename f = Inr n \<longleftrightarrow> f = profile_filename n \<and> profile_new n = Inr n"
proof -
  have "profile_new s = Inr n \<Longrightarrow> s = n" for s by (simp add: profile_new_def split: if_splits)
  then show ?thesis
    by (auto simp: profile_from_filename_def profile_filename_def strip_suffix_Some split: option.splits)
      (metis option.discI strip_suffix_Some)
qed

lemma declare_profiles_get:
  "bt_ok named \<Longrightarrow> bt_ok (fst (declare_profiles fs named bad)) \<and>
   bt_get (fst (declare_profiles fs named bad)) n =
     (if profile_filename n \<in> set fs \<and> profile_new n = Inr n then Some (profile_filename n) else bt_get named n) \<and>
   snd (declare_profiles fs named bad) =
     bad @ List.map_filter (\<lambda>f. case profile_from_filename f of Inl e \<Rightarrow> Some e | Inr n \<Rightarrow> None) fs"
proof (induction fs arbitrary: named bad)
  case (Cons f fs)
  show ?case
  proof (cases "profile_from_filename f")
    case (Inl e)
    then have "\<not> (f = profile_filename n \<and> profile_new n = Inr n)" using profile_from_filename_Inr by (metis Inl_Inr_False)
    with Inl Cons show ?thesis by (auto simp: map_filter_simps)
  next
    case (Inr k)
    then have k: "f = profile_filename k" "profile_new k = Inr k" by (simp_all add: profile_from_filename_Inr)
    then have "profile_filename n = f \<longleftrightarrow> n = k" by (simp add: profile_filename_def)
    with Inr k Cons show ?thesis by (auto simp: bt.ok_ins bt.get_ins map_filter_simps)
  qed
qed (simp add: map_filter_simps)

text \<open>
  The list of filenames is the authority: a name is a profile of the root exactly when its one filename is listed and
  it may be a profile's name, it then lives under that filename, and what is listed and is none is reported, in the list's order.
\<close>

theorem declared_profiles_exact:
  "bt_get (fst (declared_profiles p)) n =
     (if profile_filename n \<in> set (pj_profiles p) \<and> profile_new n = Inr n then Some (profile_filename n) else None) \<and>
   snd (declared_profiles p) =
     List.map_filter (\<lambda>f. case profile_from_filename f of Inl e \<Rightarrow> Some e | Inr n \<Rightarrow> None) (pj_profiles p)"
  using declare_profiles_get [of "[]" "pj_profiles p" "[]" n] by (simp add: declared_profiles_def bt_get_def)

section \<open>What the envelope finds\<close>

lemma committed_difference_kind:
  "committed_difference actual (q, h) = Some (Missing p) \<longleftrightarrow> q = p \<and> bt_get actual p = None"
  "committed_difference actual (q, h) = Some (Changed p) \<longleftrightarrow> q = p \<and> (\<exists>h'. bt_get actual p = Some h' \<and> h' \<noteq> h)"
  "committed_difference actual (q, h) \<noteq> Some (Uncommitted p)"
  by (cases "bt_get actual q"; auto simp: committed_difference_def)+

lemma in_differences:
  assumes "bt_ok (ev_files v)" and "bt_ok actual"
  shows "Missing p \<in> set (differences v actual) \<longleftrightarrow> bt_get (ev_files v) p \<noteq> None \<and> bt_get actual p = None"
    and "Changed p \<in> set (differences v actual) \<longleftrightarrow>
      (\<exists>h h'. bt_get (ev_files v) p = Some h \<and> bt_get actual p = Some h' \<and> h \<noteq> h')"
    and "Uncommitted p \<in> set (differences v actual) \<longleftrightarrow> bt_get (ev_files v) p = None \<and> bt_get actual p \<noteq> None"
proof -
  have get: "(\<exists>e\<in>set (ev_files v). P e) \<longleftrightarrow> (\<exists>q h. bt_get (ev_files v) q = Some h \<and> P (q, h))" for P
    unfolding bt_get_in [OF assms(1)] by force
  have mem: "d \<in> set (differences v actual) \<longleftrightarrow>
      (\<exists>q h. bt_get (ev_files v) q = Some h \<and> committed_difference actual (q, h) = Some d)" if "\<And>q. d \<noteq> Uncommitted q" for d
  proof -
    have "d \<in> set (differences v actual) \<longleftrightarrow> (\<exists>e\<in>set (ev_files v). committed_difference actual e = Some d)"
      using that by (auto simp: differences_def map_filter_mem)
    then show ?thesis using get [of "\<lambda>e. committed_difference actual e = Some d"] by simp
  qed
  show "Missing p \<in> set (differences v actual) \<longleftrightarrow> bt_get (ev_files v) p \<noteq> None \<and> bt_get actual p = None"
    by (subst mem) (auto simp: committed_difference_kind)
  show "Changed p \<in> set (differences v actual) \<longleftrightarrow>
      (\<exists>h h'. bt_get (ev_files v) p = Some h \<and> bt_get actual p = Some h' \<and> h \<noteq> h')"
    by (subst mem) (auto simp: committed_difference_kind)
  have "p \<in> fst ` set actual \<longleftrightarrow> (\<exists>h. bt_get actual p = Some h)" unfolding bt_get_in [OF assms(2)] by force
  moreover have "Uncommitted p \<notin> set (List.map_filter (committed_difference actual) (ev_files v))"
    by (auto simp: map_filter_mem committed_difference_kind)
  ultimately show "Uncommitted p \<in> set (differences v actual) \<longleftrightarrow> bt_get (ev_files v) p = None \<and> bt_get actual p \<noteq> None"
    by (auto simp: differences_def)
qed

text \<open>
  Every disagreement between what was committed and what is there is reported, once for the path and by its kind, and
  nothing else is: the list is empty exactly when the two are the same files with the same contents.
\<close>

theorem differences_exact:
  assumes "bt_ok (ev_files v)" and "bt_ok actual"
  shows "(Missing p \<in> set (differences v actual)) = (bt_get (ev_files v) p \<noteq> None \<and> bt_get actual p = None) \<and>
    (Changed p \<in> set (differences v actual)) =
      (bt_get (ev_files v) p \<noteq> None \<and> bt_get actual p \<noteq> None \<and> bt_get (ev_files v) p \<noteq> bt_get actual p) \<and>
    (Uncommitted p \<in> set (differences v actual)) = (bt_get (ev_files v) p = None \<and> bt_get actual p \<noteq> None) \<and>
    (differences v actual = []) = (ev_files v = actual)"
proof -
  have "differences v actual = [] \<longleftrightarrow> ev_files v = actual"
  proof
    assume "differences v actual = []"
    then have "bt_get (ev_files v) q = bt_get actual q" for q
      using in_differences [OF assms, of q] by (cases "bt_get (ev_files v) q"; cases "bt_get actual q") auto
    then have "set (ev_files v) = set actual" using bt_get_in [OF assms(1)] bt_get_in [OF assms(2)] by auto
    then show "ev_files v = actual" using assms bt_unique by blast
  next
    assume "ev_files v = actual"
    then have "\<And>q. Missing q \<notin> set (differences v actual) \<and> Changed q \<notin> set (differences v actual) \<and> Uncommitted q \<notin> set (differences v actual)"
      using in_differences [OF assms] by auto
    then show "differences v actual = []" by (metis difference.exhaust ex_in_conv set_empty)
  qed
  then show ?thesis using in_differences [OF assms, of p] by auto
qed

theorem differences_exact_witness:
  "Changed ''a'' \<in> set (differences \<lparr>ev_root_id = Uuid7 [], ev_files = [(''a'', ''1'')], ev_committed_at = 0\<rparr> [(''a'', ''2'')])"
  using differences_exact [of "\<lparr>ev_root_id = Uuid7 [], ev_files = [(''a'', ''1'')], ev_committed_at = 0\<rparr>" "[(''a'', ''2'')]" "''a''"]
  by (simp add: bt_get_def)

end
