(* ===== verification/Consent.thy ===== *)
theory Consent
  imports Project
begin

text \<open>
  Keys and signatures, \<^verbatim>\<open>crates/drt-config/src/sign.rs\<close>, and the operator's consent,
  \<^verbatim>\<open>crates/drt-config/src/consent.rs\<close>: the file, the widen relation over both halves of a ceiling, and \<open>check\<close>,
  what a start must do.  Signing and base64 belong to other crates: they are the records \<open>ed25519\<close> and \<open>base64\<close> of their
  operations.  The lemmas show that an unprompted start is one the operator agreed to: nothing the new
  ceiling holds lies outside the accepted one, and no role is new; and where the relation does not look.
\<close>

section \<open>Keys and signatures\<close>

datatype alg = Ed25519

type_synonym key_id = string

record ed25519 =
  ed_public :: "bytes \<Rightarrow> bytes"
  ed_key_ok :: "bytes \<Rightarrow> bool"
  ed_sign :: "bytes \<Rightarrow> bytes \<Rightarrow> bytes"
  ed_verify :: "bytes \<Rightarrow> bytes \<Rightarrow> bytes \<Rightarrow> bool"

record base64 =
  b64_encode :: "bytes \<Rightarrow> string"
  b64_decode :: "string \<Rightarrow> string + bytes"

datatype verify_failed = DoesNotVerify | MalformedKey

definition key_verify :: "ed25519 \<Rightarrow> bytes \<Rightarrow> bytes \<Rightarrow> bytes \<Rightarrow> verify_failed + unit" where
  "key_verify ed key bs sig =
     (if \<not> ed_key_ok ed key then Inl MalformedKey
      else if ed_verify ed key bs sig then Inr () else Inl DoesNotVerify)"

definition text_to_bytes :: "string \<Rightarrow> bytes" where
  "text_to_bytes s = map (\<lambda>c. word_of_nat (of_char c)) s"

definition signing_bytes :: "json_text \<Rightarrow> json \<Rightarrow> string \<Rightarrow> bytes" where
  "signing_bytes jt v omit = text_to_bytes (write_canonical jt
     (case v of JObj m \<Rightarrow> JObj (filter (\<lambda>e. fst e \<noteq> omit) m) | _ \<Rightarrow> v))"

definition fixed :: "base64 \<Rightarrow> nat \<Rightarrow> string \<Rightarrow> string \<Rightarrow> string + bytes" where
  "fixed b n text what = (case b64_decode b text of
     Inl e \<Rightarrow> Inl (what @ '' is not base64: '' @ e)
   | Inr bs \<Rightarrow> (if length bs = n then Inr bs
       else Inl (what @ '' is '' @ show_nat (length bs) @ '' bytes; ed25519 wants '' @ show_nat n)))"

definition public_key_of_text :: "base64 \<Rightarrow> string \<Rightarrow> string + bytes" where
  "public_key_of_text b s = fixed b 32 s ''a public key''"

definition signature_of_text :: "base64 \<Rightarrow> string \<Rightarrow> string + bytes" where
  "signature_of_text b s = fixed b 64 s ''a signature''"

text \<open>The white space \<^verbatim>\<open>str::trim\<close> takes off.\<close>

definition white_chars :: "string list" where
  "white_chars = map (map char_of) [[9 :: nat], [10], [11], [12], [13], [32], [0xC2, 0x85], [0xC2, 0xA0], [0xE1, 0x9A, 0x80],
     [0xE2, 0x80, 0x80], [0xE2, 0x80, 0x81], [0xE2, 0x80, 0x82], [0xE2, 0x80, 0x83], [0xE2, 0x80, 0x84], [0xE2, 0x80, 0x85],
     [0xE2, 0x80, 0x86], [0xE2, 0x80, 0x87], [0xE2, 0x80, 0x88], [0xE2, 0x80, 0x89], [0xE2, 0x80, 0x8A], [0xE2, 0x80, 0xA8],
     [0xE2, 0x80, 0xA9], [0xE2, 0x80, 0xAF], [0xE2, 0x81, 0x9F], [0xE3, 0x80, 0x80]]"

definition trim :: "string \<Rightarrow> string" where
  "trim s = (let white = (\<lambda>ch. List.member white_chars ch) in
     concat (rev (dropWhile white (rev (dropWhile white (str_chars s))))))"

definition key_file_text :: "base64 \<Rightarrow> bytes \<Rightarrow> string" where
  "key_file_text b seed = b64_encode b seed @ [char_of (10 :: nat)]"

definition key_from_file_text :: "base64 \<Rightarrow> string \<Rightarrow> string + bytes" where
  "key_from_file_text b text = fixed b 32 (trim text) ''a key file''"

section \<open>The consent file\<close>

datatype accepted =
    AcceptAll realm hash timestamp
  | AcceptListed realm hash declared_ceiling timestamp

fun accepted_realm :: "accepted \<Rightarrow> realm" where
  "accepted_realm (AcceptAll r h t) = r"
| "accepted_realm (AcceptListed r h c t) = r"

fun accepted_at :: "accepted \<Rightarrow> timestamp" where
  "accepted_at (AcceptAll r h t) = t"
| "accepted_at (AcceptListed r h c t) = t"

fun accepted_realms :: "realm_registry \<Rightarrow> accepted \<Rightarrow> realm list" where
  "accepted_realms reg (AcceptAll r h t) = [r]"
| "accepted_realms reg (AcceptListed r h c t) = realms_of reg (dc_caps c)"

record signer =
  sg_key_id :: key_id
  sg_alg :: alg
  sg_public_key :: bytes
  sg_realms :: "realm list"

datatype peer_kind = PeerIsRoot uuid7 bytes | PeerIsPlugin bytes

record peer_binding =
  pb_peer :: string
  pb_kind :: peer_kind
  pb_queues :: "string list"

definition binding_text :: "peer_binding \<Rightarrow> string" where
  "binding_text b = (case pb_kind b of
     PeerIsRoot u k \<Rightarrow> CHR 0x27 # pb_peer b @ CHR 0x27 # '' (root '' @ show_uuid u @ '')''
   | PeerIsPlugin k \<Rightarrow> CHR 0x27 # pb_peer b @ CHR 0x27 # '' (a plugin)'')"

record consent =
  cn_root_id :: uuid7
  cn_accepted :: "accepted list"
  cn_signers :: "signer list"
  cn_peers :: "peer_binding list"

definition consent_new :: "uuid7 \<Rightarrow> consent" where
  "consent_new u = \<lparr>cn_root_id = u, cn_accepted = [], cn_signers = [], cn_peers = []\<rparr>"

definition root_entry :: "consent \<Rightarrow> accepted option" where
  "root_entry c = List.find (\<lambda>e. accepted_realm e = realm_root) (cn_accepted c)"

definition consent_signer :: "consent \<Rightarrow> key_id \<Rightarrow> signer option" where
  "consent_signer c k = List.find (\<lambda>s. sg_key_id s = k) (cn_signers c)"

section \<open>The widen relation\<close>

datatype objection = ObjectCaps attenuation_error | ObjectPeers "string list"

definition widen_check :: "grant list \<Rightarrow> grant list \<Rightarrow> objection + unit" where
  "widen_check new acc = (case attenuate (root_set acc) ''consent-widen-check'' new of
     Inl e \<Rightarrow> Inl (ObjectCaps e) | Inr _ \<Rightarrow> Inr ())"

definition roles_not_in :: "declared_ceiling \<Rightarrow> declared_ceiling \<Rightarrow> string list" where
  "roles_not_in a b = map pr_role (filter (\<lambda>p. \<not> list_ex (\<lambda>q. pr_role q = pr_role p) (dc_peers b)) (dc_peers a))"

definition widen_check_ceiling :: "declared_ceiling \<Rightarrow> declared_ceiling \<Rightarrow> objection + unit" where
  "widen_check_ceiling new acc = (case widen_check (dc_caps new) (dc_caps acc) of
     Inl e \<Rightarrow> Inl e
   | Inr _ \<Rightarrow> (if roles_not_in new acc = [] then Inr () else Inl (ObjectPeers (roles_not_in new acc))))"

record change =
  ch_added :: "grant list"
  ch_removed :: "grant list"
  ch_peers_added :: "string list"
  ch_peers_removed :: "string list"

definition change_between :: "declared_ceiling \<Rightarrow> declared_ceiling \<Rightarrow> change" where
  "change_between acc new =
     (let same = (\<lambda>a b :: grant. effect a = effect b \<and> capability a = capability b \<and> scope a = scope b) in
      \<lparr>ch_added = filter (\<lambda>g. \<not> list_ex (\<lambda>a. same a g) (dc_caps acc)) (dc_caps new),
       ch_removed = filter (\<lambda>g. \<not> list_ex (\<lambda>n. same n g) (dc_caps new)) (dc_caps acc),
       ch_peers_added = roles_not_in new acc, ch_peers_removed = roles_not_in acc new\<rparr>)"

definition change_line :: "char \<Rightarrow> grant \<Rightarrow> string" where
  "change_line sign g = sign # '' '' @ (case effect g of Grant \<Rightarrow> '''' | Deny \<Rightarrow> ''deny '') @ capability g"

definition change_lines :: "change \<Rightarrow> string list" where
  "change_lines c = map (change_line CHR ''+'') (ch_added c) @ map (change_line CHR ''-'') (ch_removed c)
     @ map (\<lambda>r. ''+ peer '' @ r) (ch_peers_added c) @ map (\<lambda>r. ''- peer '' @ r) (ch_peers_removed c)"

definition change_is_empty :: "change \<Rightarrow> bool" where
  "change_is_empty c \<longleftrightarrow> ch_added c = [] \<and> ch_removed c = [] \<and> ch_peers_added c = [] \<and> ch_peers_removed c = []"

section \<open>What a start must do\<close>

datatype consent_answer =
    Blanket timestamp bool
  | First hash
  | Unchanged
  | Narrowed hash change
  | Widened hash objection change

datatype consent_failure =
    RootIdMismatch uuid7 uuid7
  | NoCeiling
  | CeilingHashFails ceiling_hash_error
  | PeersNotSupported string

definition consent_check :: "hash_env \<Rightarrow> project \<Rightarrow> consent option \<Rightarrow> consent_failure + consent_answer" where
  "consent_check he p co =
     (if pj_caps p = [] then Inl NoCeiling
      else (case ceiling_hash he p of Inl e \<Rightarrow> Inl (CeilingHashFails e)
      | Inr h \<Rightarrow>
        (case co of None \<Rightarrow> Inr (First h)
        | Some c \<Rightarrow>
          (if cn_root_id c \<noteq> pj_root_id p then Inl (RootIdMismatch (pj_root_id p) (cn_root_id c))
           else (case cn_peers c of b # _ \<Rightarrow> Inl (PeersNotSupported (binding_text b))
           | [] \<Rightarrow>
             (case root_entry c of
                None \<Rightarrow> Inr (First h)
              | Some (AcceptAll r against t) \<Rightarrow> Inr (Blanket t (against \<noteq> h))
              | Some (AcceptListed r acc_hash acc t) \<Rightarrow>
                 (if acc_hash = h then Inr Unchanged
                  else (let new = declared_ceiling_of p; change = change_between acc new in
                    case widen_check_ceiling new acc of
                      Inr _ \<Rightarrow> Inr (Narrowed h change)
                    | Inl o1 \<Rightarrow> Inr (Widened h o1 change)))))))))"

section \<open>What goes without a prompt\<close>

lemma set_roles_not_in: "set (roles_not_in a b) = pr_role ` set (dc_peers a) - pr_role ` set (dc_peers b)"
proof -
  have "list_ex (\<lambda>q. pr_role q = r) (dc_peers b) \<longleftrightarrow> r \<in> pr_role ` set (dc_peers b)" for r
    by (auto simp: list_ex_iff)
  then show ?thesis by (auto simp: roles_not_in_def)
qed

lemma roles_not_in_Nil: "roles_not_in a b = [] \<longleftrightarrow> pr_role ` set (dc_peers a) \<subseteq> pr_role ` set (dc_peers b)"
  using set_roles_not_in [of a b] by (metis Diff_eq_empty_iff set_empty)

lemma widen_check_ok: "widen_check new acc = Inr () \<longleftrightarrow> (\<exists>c. attenuate_held_by (root_set acc) None ''consent-widen-check'' new = Inr c)"
  by (auto simp: widen_check_def attenuate_def split: sum.split)

lemma widen_check_iff: "widen_check new acc = Inr () \<longleftrightarrow>
    (\<forall>g\<in>set new. effect g = Grant \<longrightarrow> holds (root_set acc) (capability g)) \<and>
    (\<forall>d\<in>set acc. effect d = Deny \<longrightarrow> deny_covered new (capability d))"
proof -
  have "cs_grants (root_set acc) = acc" by (simp add: root_set_def)
  then show ?thesis
    unfolding widen_check_ok first_not_held_None [symmetric]
    using first_deny_dropped_None [of new acc]
    by (auto simp: attenuate_held_by_def deny_covered_def list_ex_iff split: option.splits)
qed

lemma widen_check_ceiling_ok: "widen_check_ceiling new acc = Inr () \<longleftrightarrow>
    widen_check (dc_caps new) (dc_caps acc) = Inr () \<and> pr_role ` set (dc_peers new) \<subseteq> pr_role ` set (dc_peers acc)"
  by (auto simp: widen_check_ceiling_def roles_not_in_Nil split: sum.split)

text \<open>What is there when consent comes to compare two ceilings.\<close>

definition compares :: "hash_env \<Rightarrow> project \<Rightarrow> consent \<Rightarrow> hash \<Rightarrow> declared_ceiling \<Rightarrow> bool" where
  "compares he p c h acc \<longleftrightarrow> pj_caps p \<noteq> [] \<and> ceiling_hash he p = Inr h \<and> cn_root_id c = pj_root_id p \<and> cn_peers c = [] \<and>
     (\<exists>r h0 t. root_entry c = Some (AcceptListed r h0 acc t) \<and> h0 \<noteq> h)"

lemma compares_check: "compares he p c h acc \<Longrightarrow> consent_check he p (Some c) =
    (case widen_check_ceiling (declared_ceiling_of p) acc of
       Inr _ \<Rightarrow> Inr (Narrowed h (change_between acc (declared_ceiling_of p)))
     | Inl o1 \<Rightarrow> Inr (Widened h o1 (change_between acc (declared_ceiling_of p))))"
  by (auto simp: compares_def consent_check_def Let_def split: sum.split)

lemma narrowed_compares:
  assumes "consent_check he p (Some c) = Inr (Narrowed h ch)"
  obtains acc where "compares he p c h acc" and "widen_check_ceiling (declared_ceiling_of p) acc = Inr ()"
    and "ch = change_between acc (declared_ceiling_of p)"
  using assms that
  by (auto simp: consent_check_def compares_def Let_def split: if_splits sum.splits list.splits option.splits accepted.splits)

text \<open>
  C36. An edit goes through without a prompt only when it is a narrowing: whatever call the new ceiling holds the
  operator had accepted, and every peer role was one of the accepted, provided no accepted grant and no new deny is a pattern
  ending in two stars.
\<close>

theorem silent_edit_is_inside:
  assumes "consent_check he p (Some c) = Inr (Narrowed h ch)"
    and "root_entry c = Some (AcceptListed r h0 acc t)" and "clean_grants (dc_caps acc)" and "clean_denies (pj_caps p)"
  shows "(holds (root_set (pj_caps p)) w \<longrightarrow> holds (root_set (dc_caps acc)) w) \<and>
    pr_role ` set (pj_peers p) \<subseteq> pr_role ` set (dc_peers acc) \<and> ch_peers_added ch = [] \<and> cn_root_id c = pj_root_id p"
proof -
  obtain acc' where a: "compares he p c h acc'" "widen_check_ceiling (declared_ceiling_of p) acc' = Inr ()"
      "ch = change_between acc' (declared_ceiling_of p)"
    by (rule narrowed_compares [OF assms(1)])
  have acc: "acc' = acc" and root: "cn_root_id c = pj_root_id p" using a(1) assms(2) by (auto simp: compares_def)
  have w: "widen_check (pj_caps p) (dc_caps acc) = Inr ()" and roles: "pr_role ` set (pj_peers p) \<subseteq> pr_role ` set (dc_peers acc)"
    using a(2) by (simp_all add: acc widen_check_ceiling_ok declared_ceiling_of_def)
  obtain d where d: "attenuate_held_by (root_set (dc_caps acc)) None ''consent-widen-check'' (pj_caps p) = Inr d"
    using w by (auto simp: widen_check_ok)
  have gs: "cs_grants d = pj_caps p" using attenuate_InrD(1) [OF d] by simp
  have "holds (root_set (dc_caps acc)) w" if "holds (root_set (pj_caps p)) w"
    using attenuate_narrows [OF d _ assms(4), of w] that assms(3) gs by (simp add: holds_def root_set_def)
  moreover have "ch_peers_added ch = []"
    using roles by (simp add: a(3) acc change_between_def Let_def roles_not_in_Nil declared_ceiling_of_def)
  ultimately show ?thesis using roles root by blast
qed

text \<open>
  When the ceiling moved, a prompt is asked for in exactly three cases: a grant the accepted ceiling does not hold, a deny of
  the accepted ceiling that no new deny reaches, a peer role that was not accepted. The dropped deny is one of them.
\<close>

theorem prompts_exactly_for_a_widening:
  assumes "compares he p c h acc"
  shows "(\<exists>o1. consent_check he p (Some c) = Inr (Widened h o1 (change_between acc (declared_ceiling_of p)))) =
    (list_ex (\<lambda>g. effect g = Grant \<and> \<not> holds (root_set (dc_caps acc)) (capability g)) (pj_caps p) \<or>
     list_ex (\<lambda>d. effect d = Deny \<and> \<not> deny_covered (pj_caps p) (capability d)) (dc_caps acc) \<or>
     list_ex (\<lambda>q. pr_role q \<notin> pr_role ` set (dc_peers acc)) (pj_peers p))"
proof -
  have "(\<exists>o1. consent_check he p (Some c) = Inr (Widened h o1 (change_between acc (declared_ceiling_of p)))) \<longleftrightarrow>
      widen_check_ceiling (declared_ceiling_of p) acc \<noteq> Inr ()"
    unfolding compares_check [OF assms] by (cases "widen_check_ceiling (declared_ceiling_of p) acc") auto
  then show ?thesis
    unfolding widen_check_ceiling_ok widen_check_iff by (auto simp: list_ex_iff declared_ceiling_of_def)
qed

text \<open>
  The relation does not look at scopes. With the effects, the names and the roles left as they were, no edit of a scope
  asks for a prompt, not even one that takes it away, wherever the accepted ceiling passes its own check.
\<close>

theorem scope_edits_are_silent:
  assumes "compares he p c h acc" and "widen_check (dc_caps acc) (dc_caps acc) = Inr ()"
    and "map (\<lambda>g. (effect g, capability g)) (pj_caps p) = map (\<lambda>g. (effect g, capability g)) (dc_caps acc)"
    and "map pr_role (pj_peers p) = map pr_role (dc_peers acc)"
  shows "consent_check he p (Some c) = Inr (Narrowed h (change_between acc (declared_ceiling_of p)))"
proof -
  let ?f = "\<lambda>g :: grant. (effect g, capability g)"
  have s: "\<exists>x\<in>set gs. effect x = effect g \<and> capability x = capability g" if "map ?f gs = map ?f hs" "g \<in> set hs" for gs hs g
  proof -
    have "?f g \<in> set (map ?f hs)" using that(2) by simp
    then have "?f g \<in> set (map ?f gs)" using that(1) by simp
    then show ?thesis by force
  qed
  have a: "\<And>g. g \<in> set (dc_caps acc) \<Longrightarrow> effect g = Grant \<Longrightarrow> holds (root_set (dc_caps acc)) (capability g)"
    "\<And>d. d \<in> set (dc_caps acc) \<Longrightarrow> effect d = Deny \<Longrightarrow> deny_covered (dc_caps acc) (capability d)"
    using assms(2) by (auto simp: widen_check_iff)
  have "holds (root_set (dc_caps acc)) (capability g)" if g: "g \<in> set (pj_caps p)" "effect g = Grant" for g
  proof -
    obtain x where "x \<in> set (dc_caps acc)" "effect x = effect g" "capability x = capability g"
      using s [OF assms(3) [symmetric] g(1)] by blast
    with a(1) [of x] g(2) show ?thesis by simp
  qed
  moreover have "deny_covered (pj_caps p) (capability d)" if d: "d \<in> set (dc_caps acc)" "effect d = Deny" for d
  proof -
    obtain x where x: "x \<in> set (dc_caps acc)" "effect x = Deny" "implies (capability x) (capability d)"
      using a(2) [OF d] by (auto simp: deny_covered_def list_ex_iff)
    then obtain y where "y \<in> set (pj_caps p)" "effect y = effect x" "capability y = capability x"
      using s [OF assms(3)] by blast
    with x show ?thesis by (auto simp: deny_covered_def list_ex_iff)
  qed
  moreover have "pr_role ` set (pj_peers p) = pr_role ` set (dc_peers acc)" using arg_cong [OF assms(4), of set] by simp
  ultimately have "widen_check_ceiling (declared_ceiling_of p) acc = Inr ()"
    by (simp add: widen_check_ceiling_ok widen_check_iff declared_ceiling_of_def)
  then show ?thesis by (simp add: compares_check [OF assms(1)])
qed

section \<open>Examples\<close>

definition demo_root :: uuid7 where "demo_root = Uuid7 []"

definition demo_project :: "grant list \<Rightarrow> project" where
  "demo_project caps = (project_new demo_root)\<lparr>pj_caps := caps\<rparr>"

definition demo_consent :: "grant list \<Rightarrow> consent" where
  "demo_consent caps = (consent_new demo_root)\<lparr>cn_accepted := [AcceptListed realm_root ''stale'' (ceiling_of_caps caps) 0]\<rparr>"

lemma demo_compares:
  assumes "caps \<noteq> []" and "ceiling_json (he_scope demo_hashing) (ceiling_of_caps caps) = Inr j"
  shows "compares demo_hashing (demo_project caps) (demo_consent acc) (hash_value id demo_text j) (ceiling_of_caps acc)"
proof -
  have "hash_value id demo_text j \<noteq> ''stale''"
    by (simp add: hash_value_def canon_hash_def hash_prefix_def)
  moreover have "declared_ceiling_of (demo_project caps) = ceiling_of_caps caps"
    by (simp add: declared_ceiling_of_def demo_project_def project_new_def ceiling_of_caps_def)
  ultimately show ?thesis
    using assms by (simp add: compares_def demo_project_def demo_consent_def project_new_def consent_new_def root_entry_def
        ceiling_hash_def ceiling_hash_of_def demo_hashing_def)
qed

definition scoped :: grant where
  "scoped = \<lparr>effect = Grant, capability = ''host:fs/*'', scope = Some (VStr ''/tmp'')\<rparr>"

lemma demo_unscoped: "ceiling_json (he_scope demo_hashing) (ceiling_of_caps [grant_of ''host:fs/*'']) =
    Inr (JObj [(''caps'', JArr [JObj [(''effect'', JStr ''grant''), (''capability'', JStr ''host:fs/*'')]]), (''peers'', JArr [])])"
  by (simp add: ceiling_json_def ceiling_of_caps_def grant_json_def grant_of_def)

lemma demo_self: "widen_check [scoped] [scoped] = Inr ()"
  by (simp add: widen_check_iff scoped_def holds_iff root_set_def)

lemma demo_silent: "\<exists>h ch. consent_check demo_hashing (demo_project [grant_of ''host:fs/*'']) (Some (demo_consent [scoped])) = Inr (Narrowed h ch)"
proof -
  have "widen_check_ceiling (declared_ceiling_of (demo_project [grant_of ''host:fs/*''])) (ceiling_of_caps [scoped]) = Inr ()"
    by (simp add: widen_check_ceiling_ok widen_check_iff declared_ceiling_of_def demo_project_def project_new_def ceiling_of_caps_def
        scoped_def grant_of_def holds_iff root_set_def)
  then show ?thesis
    using compares_check [OF demo_compares [OF _ demo_unscoped, of "[scoped]"]] by simp
qed

theorem silent_edit_is_inside_witness:
  "holds (root_set [scoped]) ''host:fs/read''"
proof -
  obtain h ch where "consent_check demo_hashing (demo_project [grant_of ''host:fs/*'']) (Some (demo_consent [scoped])) = Inr (Narrowed h ch)"
    using demo_silent by blast
  from silent_edit_is_inside [OF this, of realm_root "''stale''" "ceiling_of_caps [scoped]" 0 "''host:fs/read''"]
  show ?thesis
    by (simp add: root_entry_def demo_consent_def consent_new_def demo_project_def project_new_def ceiling_of_caps_def
        clean_grants_def clean_denies_def scoped_def grant_of_def double_star_def holds_iff root_set_def implies_def)
qed

theorem prompts_exactly_for_a_widening_witness:
  "\<exists>o1. consent_check demo_hashing (demo_project [grant_of ''host:fs/*'']) (Some (demo_consent [grant_of ''host:fs/*'', deny_of ''host:fs/write''])) =
     Inr (Widened (hash_value id demo_text (JObj [(''caps'', JArr [JObj [(''effect'', JStr ''grant''), (''capability'', JStr ''host:fs/*'')]]), (''peers'', JArr [])])) o1
       (change_between (ceiling_of_caps [grant_of ''host:fs/*'', deny_of ''host:fs/write'']) (declared_ceiling_of (demo_project [grant_of ''host:fs/*'']))))"
  unfolding prompts_exactly_for_a_widening [OF demo_compares [OF _ demo_unscoped, of "[grant_of ''host:fs/*'', deny_of ''host:fs/write'']"], simplified]
  by (simp add: ceiling_of_caps_def demo_project_def grant_of_def deny_of_def deny_covered_def)

theorem scope_edits_are_silent_witness:
  "consent_check demo_hashing (demo_project [grant_of ''host:fs/*'']) (Some (demo_consent [scoped])) =
     Inr (Narrowed (hash_value id demo_text (JObj [(''caps'', JArr [JObj [(''effect'', JStr ''grant''), (''capability'', JStr ''host:fs/*'')]]), (''peers'', JArr [])]))
       (change_between (ceiling_of_caps [scoped]) (declared_ceiling_of (demo_project [grant_of ''host:fs/*'']))))"
  using scope_edits_are_silent [OF demo_compares [OF _ demo_unscoped, of "[scoped]"]] demo_self
  by (simp add: ceiling_of_caps_def demo_project_def scoped_def grant_of_def project_new_def)

end
