(* ===== verification/Grant_Requests.thy ===== *)
theory Grant_Requests
  imports Consent
begin

text \<open>
  Grant signing requests, \<^verbatim>\<open>crates/drt-config/src/gsr.rs\<close>: a request with its identity, the hash of what is
  asked; a decision with the bytes its signature covers; and \<open>gsr_verify\<close>, the chain of four steps from
  a decision in a file to a grant.  Writing a decision as JSON cannot fail on the model's types, so the refusal the
  source has for it does not arise.  The lemmas show that the identity is what was asked and nothing else, that a
  grant needs every link of the chain and lies within the ask and the approval, and
  that an approval signed by a consented key for a consented realm is one that verifies.
\<close>

record gsr_request =
  gq_created :: uuid7
  gq_root_id :: uuid7
  gq_node :: node_path
  gq_realm :: realm
  gq_ask :: json
  gq_from :: "timestamp option"
  gq_until :: "timestamp option"
  gq_reason :: string

definition gsr_request_new :: "uuid7 \<Rightarrow> uuid7 \<Rightarrow> node_path \<Rightarrow> realm \<Rightarrow> json \<Rightarrow> gsr_request" where
  "gsr_request_new u rid node r ask = \<lparr>gq_created = u, gq_root_id = rid, gq_node = node, gq_realm = r, gq_ask = ask,
     gq_from = None, gq_until = None, gq_reason = []\<rparr>"

definition with_window :: "window \<Rightarrow> gsr_request \<Rightarrow> gsr_request" where
  "with_window w q = q\<lparr>gq_from := wn_from w, gq_until := wn_until w\<rparr>"

definition with_reason :: "string \<Rightarrow> gsr_request \<Rightarrow> gsr_request" where
  "with_reason r q = q\<lparr>gq_reason := r\<rparr>"

definition request_window :: "gsr_request \<Rightarrow> window" where
  "request_window q = \<lparr>wn_from = gq_from q, wn_until = gq_until q\<rparr>"

definition optional_time :: "string \<Rightarrow> timestamp option \<Rightarrow> (string \<times> json) list" where
  "optional_time k t = (case t of None \<Rightarrow> [] | Some t \<Rightarrow> [(k, JStr (show_timestamp t))])"

definition identity_json :: "gsr_request \<Rightarrow> json" where
  "identity_json q = JObj ([(''root_id'', JStr (show_uuid (gq_root_id q))), (''node'', JStr (gq_node q)),
     (''realm'', JStr (gq_realm q)), (''ask'', gq_ask q)]
     @ optional_time ''valid_from'' (gq_from q) @ optional_time ''valid_until'' (gq_until q))"

definition gsr_identity :: "hash_env \<Rightarrow> gsr_request \<Rightarrow> hash" where
  "gsr_identity he q = hash_value (he_digest he) (he_text he) (identity_json q)"

definition gsr_filename :: "hash_env \<Rightarrow> gsr_request \<Rightarrow> string" where
  "gsr_filename he q = hash_hex (gsr_identity he q) @ ''.json''"

datatype verdict = Approve | DenyIt

record decision =
  de_request_hash :: hash
  de_verdict :: verdict
  de_not_after :: timestamp
  de_key_id :: key_id
  de_alg :: alg
  de_signature :: bytes

definition decision_json :: "base64 \<Rightarrow> decision \<Rightarrow> json" where
  "decision_json b d = JObj [(''request_hash'', JStr (de_request_hash d)),
     (''decision'', JStr (case de_verdict d of Approve \<Rightarrow> ''approve'' | DenyIt \<Rightarrow> ''deny'')),
     (''not_after'', JStr (show_timestamp (de_not_after d))), (''key_id'', JStr (de_key_id d)),
     (''alg'', JStr (case de_alg d of Ed25519 \<Rightarrow> ''ed25519'')), (''signature'', JStr (b64_encode b (de_signature d)))]"

definition decision_bytes :: "hash_env \<Rightarrow> base64 \<Rightarrow> decision \<Rightarrow> bytes" where
  "decision_bytes he b d = signing_bytes (he_text he) (decision_json b d) ''signature''"

definition decision_sign :: "hash_env \<Rightarrow> base64 \<Rightarrow> ed25519 \<Rightarrow> hash \<Rightarrow> verdict \<Rightarrow> timestamp \<Rightarrow> key_id \<Rightarrow> bytes \<Rightarrow> decision" where
  "decision_sign he b ed h v t k seed =
     (let unsigned = \<lparr>de_request_hash = h, de_verdict = v, de_not_after = t, de_key_id = k, de_alg = Ed25519,
        de_signature = replicate 64 0\<rparr>
      in unsigned\<lparr>de_signature := ed_sign ed seed (decision_bytes he b unsigned)\<rparr>)"

datatype verified = Granted window | Denied

datatype unverified =
    WrongRequest hash hash
  | UnknownKey key_id
  | WrongAlgorithm key_id alg alg
  | BadSignature verify_failed
  | SignerNotAuthorized key_id realm
  | OutsideCeiling realm
  | Expired timestamp
  | EmptyWindow

record verify_env =
  ve_hash :: hash_env
  ve_b64 :: base64
  ve_ed :: ed25519
  ve_reg :: realm_registry

definition gsr_verify :: "verify_env \<Rightarrow> gsr_request \<Rightarrow> decision \<Rightarrow> consent \<Rightarrow> timestamp \<Rightarrow> unverified + verified" where
  "gsr_verify ve q d c now =
     (let i = gsr_identity (ve_hash ve) q in
      if de_request_hash d \<noteq> i then Inl (WrongRequest i (de_request_hash d))
      else (case consent_signer c (de_key_id d) of
        None \<Rightarrow> Inl (UnknownKey (de_key_id d))
      | Some sg \<Rightarrow>
        (if sg_alg sg \<noteq> de_alg d then Inl (WrongAlgorithm (de_key_id d) (sg_alg sg) (de_alg d))
         else (case key_verify (ve_ed ve) (sg_public_key sg) (decision_bytes (ve_hash ve) (ve_b64 ve) d) (de_signature d) of
           Inl e \<Rightarrow> Inl (BadSignature e)
         | Inr _ \<Rightarrow>
           (if \<not> covered_by_any (gq_realm q) (sg_realms sg) then Inl (SignerNotAuthorized (de_key_id d) (gq_realm q))
            else (let consented = (case root_entry c of Some e \<Rightarrow> accepted_realms (ve_reg ve) e | None \<Rightarrow> []) in
              if \<not> covered_by_any (gq_realm q) consented then Inl (OutsideCeiling (gq_realm q))
              else if \<not> is_after (de_not_after d) now then Inl (Expired (de_not_after d))
              else if de_verdict d = DenyIt then Inr Denied
              else (let w = intersect (request_window q) \<lparr>wn_from = None, wn_until = Some (de_not_after d)\<rparr> in
                if \<not> is_non_empty w then Inl EmptyWindow else Inr (Granted w))))))))"

definition decision_is_expired :: "decision \<Rightarrow> timestamp \<Rightarrow> bool" where
  "decision_is_expired d now \<longleftrightarrow> \<not> is_after (de_not_after d) now"

section \<open>The chain\<close>

text \<open>Step 1: a key the operator trusts signed these bytes.\<close>

definition authentic :: "verify_env \<Rightarrow> gsr_request \<Rightarrow> decision \<Rightarrow> consent \<Rightarrow> signer \<Rightarrow> bool" where
  "authentic ve q d c sg \<longleftrightarrow> de_request_hash d = gsr_identity (ve_hash ve) q \<and> consent_signer c (de_key_id d) = Some sg \<and>
     sg_alg sg = de_alg d \<and> ed_key_ok (ve_ed ve) (sg_public_key sg) \<and>
     ed_verify (ve_ed ve) (sg_public_key sg) (decision_bytes (ve_hash ve) (ve_b64 ve) d) (de_signature d)"

text \<open>Steps 2 and 3: the signer may speak for the realm, and the operator's own consent covers it.\<close>

definition authorized :: "verify_env \<Rightarrow> gsr_request \<Rightarrow> consent \<Rightarrow> signer \<Rightarrow> bool" where
  "authorized ve q c sg \<longleftrightarrow> covered_by_any (gq_realm q) (sg_realms sg) \<and>
     (\<exists>e. root_entry c = Some e \<and> covered_by_any (gq_realm q) (accepted_realms (ve_reg ve) e))"

lemma key_verify_Inr: "key_verify ed k bs sig = Inr u \<longleftrightarrow> ed_key_ok ed k \<and> ed_verify ed k bs sig"
  by (simp add: key_verify_def)

lemma authentic_signer: "authentic ve q d c sg \<Longrightarrow> sg \<in> set (cn_signers c) \<and> sg_key_id sg = de_key_id d"
  by (auto simp: authentic_def consent_signer_def dest: find_SomeD)

lemma covered_Nil [simp]: "\<not> covered_by_any r []"
  by (simp add: covered_by_any_def)

lemma verify_chain: "authentic ve q d c sg \<Longrightarrow> authorized ve q c sg \<Longrightarrow> gsr_verify ve q d c now =
    (if \<not> is_after (de_not_after d) now then Inl (Expired (de_not_after d))
     else if de_verdict d = DenyIt then Inr Denied
     else (let w = intersect (request_window q) \<lparr>wn_from = None, wn_until = Some (de_not_after d)\<rparr> in
        if \<not> is_non_empty w then Inl EmptyWindow else Inr (Granted w)))"
  by (auto simp: gsr_verify_def authentic_def authorized_def key_verify_def)

lemma verify_links:
  "gsr_verify ve q d c now = res \<Longrightarrow> (\<exists>v. res = Inr v) \<or> (\<exists>t. res = Inl (Expired t)) \<or> res = Inl EmptyWindow \<Longrightarrow>
   \<exists>sg. authentic ve q d c sg \<and> authorized ve q c sg"
  by (auto simp: gsr_verify_def authentic_def authorized_def key_verify_def Let_def
      split: if_splits option.splits sum.splits)

text \<open>
  A grant needs every link.  When a decision in a file is read as a grant, a signer of the operator's consent signed exactly
  these bytes for exactly this request, may speak for its realm, the consented ceiling covers the realm, and the
  decision is an approval that has not lapsed; and the grant holds at an instant exactly when the ask did and the approval does.
\<close>

theorem grant_needs_every_link:
  assumes "gsr_verify ve q d c now = Inr (Granted w)"
  shows "(\<exists>sg\<in>set (cn_signers c). authentic ve q d c sg \<and> authorized ve q c sg) \<and>
    de_verdict d = Approve \<and> now < de_not_after d \<and> (\<exists>i. window_contains w i) \<and>
    window_contains w at_time = (window_contains (request_window q) at_time \<and> at_time \<le> de_not_after d)"
proof -
  obtain sg where sg: "authentic ve q d c sg" "authorized ve q c sg" using verify_links [OF assms] by auto
  then have w: "w = intersect (request_window q) \<lparr>wn_from = None, wn_until = Some (de_not_after d)\<rparr>"
    "is_non_empty w" "is_after (de_not_after d) now" "de_verdict d = Approve"
    using assms verdict.exhaust by (auto simp: verify_chain Let_def split: if_splits)
  have "window_contains w at_time \<longleftrightarrow> window_contains (request_window q) at_time \<and> at_time \<le> de_not_after d"
    unfolding w(1) using window_intersection by (simp add: window_contains_def)
  with w sg authentic_signer [OF sg(1)] window_intersection show ?thesis by (auto simp: is_after_def)
qed

text \<open>
  Nothing is read out of a decision that is not authentic: an answer about its date, its verdict or its window, and not
  only a grant, means that the signature was verified and the realm admitted before.
\<close>

theorem nothing_unauthentic_is_interpreted:
  assumes "gsr_verify ve q d c now = Inr Denied \<or> gsr_verify ve q d c now = Inl (Expired t) \<or> gsr_verify ve q d c now = Inl EmptyWindow"
  shows "\<exists>sg\<in>set (cn_signers c). authentic ve q d c sg \<and> authorized ve q c sg"
proof -
  obtain sg where "authentic ve q d c sg" "authorized ve q c sg" using verify_links [OF refl] assms by blast
  then show ?thesis using authentic_signer by blast
qed

section \<open>What is signed and what is asked\<close>

lemma text_to_bytes_inj: "text_to_bytes s = text_to_bytes u \<longleftrightarrow> s = u"
proof -
  have "inj (\<lambda>c :: char. word_of_nat (of_char c) :: 8 word)"
  proof (rule injI)
    fix x y :: char assume "word_of_nat (of_char x) = (word_of_nat (of_char y) :: 8 word)"
    then have "unat (word_of_nat (of_char x) :: 8 word) = unat (word_of_nat (of_char y) :: 8 word)" by simp
    then have "(of_char x :: nat) = of_char y" by (simp add: unat_of_nat take_bit_eq_mod)
    then show "x = y" by simp
  qed
  then show ?thesis by (simp add: text_to_bytes_def inj_map_eq_map)
qed

definition signed_fields :: "decision \<Rightarrow> (string \<times> json) list" where
  "signed_fields d = [(''request_hash'', JStr (de_request_hash d)),
     (''decision'', JStr (case de_verdict d of Approve \<Rightarrow> ''approve'' | DenyIt \<Rightarrow> ''deny'')),
     (''not_after'', JStr (show_timestamp (de_not_after d))), (''key_id'', JStr (de_key_id d)),
     (''alg'', JStr (case de_alg d of Ed25519 \<Rightarrow> ''ed25519''))]"

lemma decision_bytes_fields: "decision_bytes he b d = text_to_bytes (write_canonical (he_text he) (JObj (signed_fields d)))"
  by (simp add: decision_bytes_def signing_bytes_def decision_json_def signed_fields_def)

lemma signed_fields_same:
  "key_sorted (JObj (signed_fields d)) = key_sorted (JObj (signed_fields e)) \<longleftrightarrow>
   de_request_hash d = de_request_hash e \<and> de_verdict d = de_verdict e \<and>
   show_timestamp (de_not_after d) = show_timestamp (de_not_after e) \<and> de_key_id d = de_key_id e"
proof
  have "distinct (map fst (signed_fields x))" for x by (simp add: signed_fields_def)
  note f = object_fields [OF this this]
  assume "key_sorted (JObj (signed_fields d)) = key_sorted (JObj (signed_fields e))"
  then have m: "map_of (map (\<lambda>(k, v). (k, key_sorted v)) (signed_fields d)) = map_of (map (\<lambda>(k, v). (k, key_sorted v)) (signed_fields e))"
    unfolding f .
  show "de_request_hash d = de_request_hash e \<and> de_verdict d = de_verdict e \<and>
      show_timestamp (de_not_after d) = show_timestamp (de_not_after e) \<and> de_key_id d = de_key_id e"
    using fun_cong [OF m, of "''request_hash''"] fun_cong [OF m, of "''decision''"] fun_cong [OF m, of "''not_after''"]
      fun_cong [OF m, of "''key_id''"]
    by (simp add: signed_fields_def split: verdict.splits)
next
  assume "de_request_hash d = de_request_hash e \<and> de_verdict d = de_verdict e \<and>
      show_timestamp (de_not_after d) = show_timestamp (de_not_after e) \<and> de_key_id d = de_key_id e"
  then show "key_sorted (JObj (signed_fields d)) = key_sorted (JObj (signed_fields e))"
    by (cases "de_alg d"; cases "de_alg e") (simp add: signed_fields_def)
qed

text \<open>A date of the years a text can hold.\<close>

definition datable :: "timestamp \<Rightarrow> bool" where
  "datable t \<longleftrightarrow> (case civil_from_days (t div 86400) of (y, m, d) \<Rightarrow> 0 \<le> y \<and> y \<le> 9999)"

lemma datable_parse: "datable t \<Longrightarrow> timestamp_parse (show_timestamp t) = Inr t"
proof -
  assume "datable t"
  moreover obtain y m d where "civil_from_days (t div 86400) = (y, m, d)" by (cases "civil_from_days (t div 86400)")
  ultimately show ?thesis using timestamp_round_trip [of t y m d] by (simp add: datable_def)
qed

lemma show_timestamp_inj: "datable t \<Longrightarrow> datable u \<Longrightarrow> show_timestamp t = show_timestamp u \<longleftrightarrow> t = u"
  using datable_parse [of t] datable_parse [of u] by (metis Inr_inject)

text \<open>
  A signature covers the whole decision: two decisions have the same bytes to be signed if and only if they answer the same
  request with the same verdict until the same instant under the same key, whatever their signatures are.
\<close>

theorem signature_covers_the_decision:
  assumes "json_texts (he_text he)" and "datable (de_not_after d)" and "datable (de_not_after e)"
  shows "(decision_bytes he b d = decision_bytes he b e) =
    (de_request_hash d = de_request_hash e \<and> de_verdict d = de_verdict e \<and> de_not_after d = de_not_after e \<and> de_key_id d = de_key_id e)"
  unfolding decision_bytes_fields text_to_bytes_inj canonical_text_iff [OF assms(1)] signed_fields_same
  by (simp add: show_timestamp_inj assms)

lemma optional_time_get: "distinct (map fst (optional_time k t))"
  "map_of (map (\<lambda>(k, v). (k, key_sorted v)) (optional_time k t)) = (case t of None \<Rightarrow> Map.empty | Some u \<Rightarrow> [k \<mapsto> JStr (show_timestamp u)])"
  by (simp_all add: optional_time_def split: option.split)

definition identity_fields :: "gsr_request \<Rightarrow> (string \<times> json) list" where
  "identity_fields q = [(''root_id'', JStr (show_uuid (gq_root_id q))), (''node'', JStr (gq_node q)),
     (''realm'', JStr (gq_realm q)), (''ask'', gq_ask q)]
     @ optional_time ''valid_from'' (gq_from q) @ optional_time ''valid_until'' (gq_until q)"

lemma identity_fields_same:
  "key_sorted (identity_json p) = key_sorted (identity_json q) \<longleftrightarrow>
   show_uuid (gq_root_id p) = show_uuid (gq_root_id q) \<and> gq_node p = gq_node q \<and> gq_realm p = gq_realm q \<and>
   key_sorted (gq_ask p) = key_sorted (gq_ask q) \<and> map_option show_timestamp (gq_from p) = map_option show_timestamp (gq_from q) \<and>
   map_option show_timestamp (gq_until p) = map_option show_timestamp (gq_until q)"
proof -
  let ?v = "\<lambda>q. [(''root_id'', JStr (show_uuid (gq_root_id q))), (''node'', JStr (gq_node q)),
     (''realm'', JStr (gq_realm q)), (''ask'', key_sorted (gq_ask q))]
     @ optional_time ''valid_from'' (gq_from q) @ optional_time ''valid_until'' (gq_until q)"
  have j: "identity_json x = JObj (identity_fields x)" for x by (simp add: identity_json_def identity_fields_def)
  have d: "distinct (map fst (identity_fields x))" for x
    by (simp add: identity_fields_def optional_time_def split: option.split)
  have s: "map (\<lambda>(k, v). (k, key_sorted v)) (optional_time k t) = optional_time k t" for k t
    by (simp add: optional_time_def split: option.split)
  have v: "map (\<lambda>(k, v). (k, key_sorted v)) (identity_fields x) = ?v x" for x
    by (simp add: identity_fields_def s)
  have "map_of (?v p) = map_of (?v q) \<longleftrightarrow> show_uuid (gq_root_id p) = show_uuid (gq_root_id q) \<and> gq_node p = gq_node q \<and>
     gq_realm p = gq_realm q \<and> key_sorted (gq_ask p) = key_sorted (gq_ask q) \<and>
     map_option show_timestamp (gq_from p) = map_option show_timestamp (gq_from q) \<and>
     map_option show_timestamp (gq_until p) = map_option show_timestamp (gq_until q)" (is "?l = ?r")
  proof
    assume m: ?l
    have "map_option show_timestamp (gq_from p) = map_option show_timestamp (gq_from q)"
      using fun_cong [OF m, of "''valid_from''"]
      by (cases "gq_from p"; cases "gq_from q"; cases "gq_until p"; cases "gq_until q") (simp_all add: optional_time_def)
    moreover have "map_option show_timestamp (gq_until p) = map_option show_timestamp (gq_until q)"
      using fun_cong [OF m, of "''valid_until''"]
      by (cases "gq_from p"; cases "gq_from q"; cases "gq_until p"; cases "gq_until q") (simp_all add: optional_time_def)
    ultimately show ?r
      using fun_cong [OF m, of "''root_id''"] fun_cong [OF m, of "''node''"] fun_cong [OF m, of "''realm''"] fun_cong [OF m, of "''ask''"]
      by simp
  next
    assume r: ?r
    have o: "optional_time k t = optional_time k u" if "map_option show_timestamp t = map_option show_timestamp u" for k t u
      using that by (cases t; cases u) (auto simp: optional_time_def)
    have "?v p = ?v q"
      using r o [of "gq_from p" "gq_from q" "''valid_from''"] o [of "gq_until p" "gq_until q" "''valid_until''"] by simp
    then show ?l by (rule arg_cong)
  qed
  then show ?thesis unfolding j object_fields [OF d d] v .
qed

definition optionally :: "('a \<Rightarrow> bool) \<Rightarrow> 'a option \<Rightarrow> bool" where
  "optionally P t = (case t of None \<Rightarrow> True | Some u \<Rightarrow> P u)"

text \<open>
  A request is what it asks.  Two requests have the same bytes under the identity if and only if the same node of the same root asks
  for the same thing in the same realm for the same window, absent bounds told from present ones; when it was made and why is not in it.
\<close>

theorem identity_is_the_ask:
  assumes "json_texts (he_text he)" and "uuid_ok (gq_root_id p)" and "uuid_ok (gq_root_id q)"
    and "optionally datable (gq_from p)" and "optionally datable (gq_until p)"
    and "optionally datable (gq_from q)" and "optionally datable (gq_until q)"
  shows "(write_canonical (he_text he) (identity_json p) = write_canonical (he_text he) (identity_json q)) =
      (gq_root_id p = gq_root_id q \<and> gq_node p = gq_node q \<and> gq_realm p = gq_realm q \<and>
       key_sorted (gq_ask p) = key_sorted (gq_ask q) \<and> request_window p = request_window q) \<and>
    gsr_identity he (with_reason r (p\<lparr>gq_created := u\<rparr>)) = gsr_identity he p"
proof -
  have o: "map_option show_timestamp t = map_option show_timestamp u \<longleftrightarrow> t = u" if "optionally datable t" "optionally datable u" for t u
    using that by (cases t; cases u) (simp_all add: optionally_def show_timestamp_inj)
  have u: "show_uuid (gq_root_id p) = show_uuid (gq_root_id q) \<longleftrightarrow> gq_root_id p = gq_root_id q"
    using show_uuid_inj [OF assms(2,3)] by auto
  have "gsr_identity he (with_reason r (p\<lparr>gq_created := u\<rparr>)) = gsr_identity he p"
    by (simp add: gsr_identity_def identity_json_def with_reason_def)
  then show ?thesis
    unfolding canonical_text_iff [OF assms(1)] identity_fields_same u o [OF assms(4,6)] o [OF assms(5,7)]
    by (simp add: request_window_def)
qed

section \<open>An approval that was signed verifies\<close>

text \<open>What is relied on of the signing library: a key verifies what its seed signed.\<close>

definition ed_sound :: "ed25519 \<Rightarrow> bool" where
  "ed_sound ed \<longleftrightarrow> (\<forall>seed m. ed_key_ok ed (ed_public ed seed) \<and> ed_verify ed (ed_public ed seed) m (ed_sign ed seed m))"

lemma signed_authentic:
  assumes "ed_sound (ve_ed ve)" and "consent_signer c k = Some sg" and "sg_public_key sg = ed_public (ve_ed ve) seed"
  shows "authentic ve q (decision_sign (ve_hash ve) (ve_b64 ve) (ve_ed ve) (gsr_identity (ve_hash ve) q) v t k seed) c sg"
proof -
  have "sg_alg sg = Ed25519" by (cases "sg_alg sg")
  with assms show ?thesis
    by (simp add: authentic_def decision_sign_def Let_def ed_sound_def decision_bytes_fields signed_fields_def)
qed

lemma signed_decision:
  assumes "ed_sound (ve_ed ve)" and "consent_signer c k = Some sg" and "sg_public_key sg = ed_public (ve_ed ve) seed"
    and "authorized ve q c sg" and "now < t" and "optionally (\<lambda>f. f \<le> t) (gq_from q)" and "is_non_empty (request_window q)"
  shows "gsr_verify ve q (decision_sign (ve_hash ve) (ve_b64 ve) (ve_ed ve) (gsr_identity (ve_hash ve) q) v t k seed) c now =
    Inr (case v of DenyIt \<Rightarrow> Denied | Approve \<Rightarrow> Granted (intersect (request_window q) \<lparr>wn_from = None, wn_until = Some t\<rparr>))"
proof -
  let ?d = "decision_sign (ve_hash ve) (ve_b64 ve) (ve_ed ve) (gsr_identity (ve_hash ve) q) v t k seed"
  have d: "de_not_after ?d = t" "de_verdict ?d = v" by (simp_all add: decision_sign_def Let_def)
  have "is_non_empty (intersect (request_window q) \<lparr>wn_from = None, wn_until = Some t\<rparr>)"
    using assms(6,7) by (auto simp: is_non_empty_def intersect_def tighter_def request_window_def optionally_def split: option.splits)
  then show ?thesis
    using assms(5) by (simp add: verify_chain [OF signed_authentic [OF assms(1-3)] assms(4)] d is_after_def Let_def split: verdict.split)
qed

text \<open>
  The operator's side meets the node's: a decision signed with the key of a signer the operator consented to, for a request whose
  realm the signer and the ceiling cover, is read back as what it says as long as it has not lapsed.
\<close>

theorem signed_decision_is_honoured:
  assumes "ed_sound (ve_ed ve)" and "consent_signer c k = Some sg" and "sg_public_key sg = ed_public (ve_ed ve) seed"
    and "authorized ve q c sg" and "now < t" and "optionally (\<lambda>f. f \<le> t) (gq_from q)" and "is_non_empty (request_window q)"
  shows "gsr_verify ve q (decision_sign (ve_hash ve) (ve_b64 ve) (ve_ed ve) (gsr_identity (ve_hash ve) q) v t k seed) c now =
    Inr (case v of DenyIt \<Rightarrow> Denied | Approve \<Rightarrow> Granted (intersect (request_window q) \<lparr>wn_from = None, wn_until = Some t\<rparr>))"
  using assms by (rule signed_decision)

section \<open>An example\<close>

definition demo_verify :: verify_env where
  "demo_verify = \<lparr>ve_hash = demo_hashing,
     ve_b64 = \<lparr>b64_encode = (\<lambda>bs. map (\<lambda>b. char_of (unat b)) bs), b64_decode = (\<lambda>s. Inr (text_to_bytes s))\<rparr>,
     ve_ed = \<lparr>ed_public = id, ed_key_ok = (\<lambda>k. True), ed_sign = (\<lambda>k m. k @ m), ed_verify = (\<lambda>k m s. s = k @ m)\<rparr>,
     ve_reg = declare_families realm_registry_new\<rparr>"

definition demo_signer :: signer where
  "demo_signer = \<lparr>sg_key_id = ''ops'', sg_alg = Ed25519, sg_public_key = [7], sg_realms = [realm_root]\<rparr>"

definition demo_trust :: consent where
  "demo_trust = (consent_new demo_root)\<lparr>cn_accepted := [AcceptAll realm_root [] 0], cn_signers := [demo_signer]\<rparr>"

definition demo_request :: gsr_request where
  "demo_request = gsr_request_new demo_root demo_root root_node realm_root JNull"

definition demo_decision :: "verdict \<Rightarrow> decision" where
  "demo_decision v = decision_sign (ve_hash demo_verify) (ve_b64 demo_verify) (ve_ed demo_verify)
     (gsr_identity (ve_hash demo_verify) demo_request) v 10 ''ops'' [7]"

lemma demo_sound: "ed_sound (ve_ed demo_verify)" "consent_signer demo_trust ''ops'' = Some demo_signer"
  "sg_public_key demo_signer = ed_public (ve_ed demo_verify) [7]" "authorized demo_verify demo_request demo_trust demo_signer"
  "optionally (\<lambda>f. f \<le> 10) (gq_from demo_request)" "is_non_empty (request_window demo_request)"
  by (simp_all add: ed_sound_def demo_verify_def consent_signer_def demo_trust_def demo_signer_def consent_new_def authorized_def
      demo_request_def gsr_request_new_def covered_by_any_def root_entry_def optionally_def is_non_empty_def request_window_def)

lemma demo_verifies: "0 \<le> now \<Longrightarrow> now < 10 \<Longrightarrow> gsr_verify demo_verify demo_request (demo_decision v) demo_trust now =
    Inr (case v of DenyIt \<Rightarrow> Denied | Approve \<Rightarrow> Granted (intersect (request_window demo_request) \<lparr>wn_from = None, wn_until = Some 10\<rparr>))"
  unfolding demo_decision_def using signed_decision [OF demo_sound(1-4) _ demo_sound(5,6)] by blast

theorem grant_needs_every_link_witness: "\<exists>sg\<in>set (cn_signers demo_trust). authentic demo_verify demo_request (demo_decision Approve) demo_trust sg"
  using grant_needs_every_link [of demo_verify demo_request "demo_decision Approve" demo_trust 0
      "intersect (request_window demo_request) \<lparr>wn_from = None, wn_until = Some 10\<rparr>"] demo_verifies [of 0 Approve] by auto

theorem nothing_unauthentic_is_interpreted_witness:
  "\<exists>sg\<in>set (cn_signers demo_trust). authentic demo_verify demo_request (demo_decision DenyIt) demo_trust sg"
  using nothing_unauthentic_is_interpreted [of demo_verify demo_request "demo_decision DenyIt" demo_trust 0 0] demo_verifies [of 0 DenyIt] by auto

theorem signed_decision_is_honoured_witness:
  "gsr_verify demo_verify demo_request (demo_decision DenyIt) demo_trust 0 = Inr Denied"
  using signed_decision_is_honoured [OF demo_sound(1-4) _ demo_sound(5,6), of 0 DenyIt] by (simp add: demo_decision_def)

lemma datable_zero: "datable 0"
proof -
  have "civil_from_days (0 div 86400) = (1970, 1, 1)"
    by (rule civil_from_days_of) (simp_all add: is_date_def month_days_def days_formula)
  then show ?thesis by (simp add: datable_def)
qed

theorem signature_covers_the_decision_witness:
  "decision_bytes demo_hashing (ve_b64 demo_verify) (demo_decision Approve\<lparr>de_not_after := 0\<rparr>) \<noteq> decision_bytes demo_hashing (ve_b64 demo_verify) (demo_decision DenyIt\<lparr>de_not_after := 0\<rparr>)"
  using signature_covers_the_decision [of demo_hashing "demo_decision Approve\<lparr>de_not_after := 0\<rparr>" "demo_decision DenyIt\<lparr>de_not_after := 0\<rparr>" "ve_b64 demo_verify"]
    datable_zero demo_texts
  by (simp add: demo_hashing_def demo_decision_def decision_sign_def Let_def)

definition asked :: "timestamp option \<Rightarrow> gsr_request" where
  "asked t = (gsr_request_new demo_root (Uuid7 [0,0,0,0,0,0,0x7A,0,0,0,0,0,0,0,0,0xFF]) root_node realm_root JNull)\<lparr>gq_until := t\<rparr>"

theorem identity_is_the_ask_witness:
  "write_canonical demo_text (identity_json (asked None)) \<noteq> write_canonical demo_text (identity_json (asked (Some 0)))"
proof -
  have "optionally datable (gq_from (asked t))" "uuid_ok (gq_root_id (asked t))" for t
    by (simp_all add: asked_def gsr_request_new_def optionally_def uuid_ok_def)
  moreover have "optionally datable (gq_until (asked None))" "optionally datable (gq_until (asked (Some 0)))"
    "request_window (asked None) \<noteq> request_window (asked (Some 0))"
    by (simp_all add: asked_def gsr_request_new_def optionally_def datable_zero request_window_def)
  ultimately show ?thesis
    using identity_is_the_ask [of demo_hashing "asked None" "asked (Some 0)"] demo_texts by (simp add: demo_hashing_def)
qed

end
