(* ===== verification/Resolve.thy ===== *)
theory Resolve
  imports Consent Inst_Config
begin

text \<open>
  What a start would do, \<^verbatim>\<open>crates/drt-config/src/resolve.rs\<close>: entries, the arguments of a program and their overrides,
  the reading of a typed argument, and \<open>resolve\<close>, a function of what was already read of a root. The
  comparison of versions is \<^verbatim>\<open>version.rs\<close>.  Of a profile the model has what resolution reads (\<open>root_config\<close>).  Every
  early return of the source ends a \<open>resolution\<close>, which collects the findings on the way.  The lemmas show
  what a resolution without a blocking finding guarantees, that the ceiling is the project's whatever the command line asks, and
  that overrides keep the types of what the profile declares.
\<close>

section \<open>Versions\<close>

definition is_digit :: "char \<Rightarrow> bool" where
  "is_digit c \<longleftrightarrow> CHR ''0'' \<le> c \<and> c \<le> CHR ''9''"

definition legacy_kind :: string where "legacy_kind = ''rc''"

text \<open>The index after one more component: a dot before all but the first, and at least one digit.\<close>

definition component_end :: "string \<Rightarrow> nat \<Rightarrow> nat \<Rightarrow> nat option" where
  "component_end s k i =
     (if 0 < k \<and> \<not> (i < length s \<and> s ! i = CHR ''.'') then None
      else (let start = (if 0 < k then i + 1 else i); n = length (takeWhile is_digit (drop start s)) in
        if n = 0 then None else Some (start + n)))"

definition split_base :: "string \<Rightarrow> (string \<times> string) option" where
  "split_base s = map_option (\<lambda>i. (take i s, drop i s))
     (Option.bind (component_end s 0 0) (\<lambda>i. Option.bind (component_end s 1 i) (component_end s 2)))"

definition canonical_version :: "string \<Rightarrow> string" where
  "canonical_version s = (case split_base s of None \<Rightarrow> s
     | Some (base, rest) \<Rightarrow> (case strip_prefix legacy_kind rest of
          Some n \<Rightarrow> (if n \<noteq> [] \<and> list_all is_digit n then base @ ''-'' @ legacy_kind @ ''.'' @ n else s)
        | None \<Rightarrow> s))"

definition same_version :: "string \<Rightarrow> string \<Rightarrow> bool" where
  "same_version a b \<longleftrightarrow> canonical_version a = canonical_version b"

section \<open>Entries and arguments\<close>

datatype entry = EntryFile string | EntryStdlib string

definition stdlib_prefix :: string where "stdlib_prefix = ''stdlib:''"

datatype bad_entry = EmptyEntry | EmptyStdlibName

definition entry_parse :: "string \<Rightarrow> bad_entry + entry" where
  "entry_parse text = (case strip_prefix stdlib_prefix text of
     Some name \<Rightarrow> (if name = [] then Inl EmptyStdlibName else Inr (EntryStdlib name))
   | None \<Rightarrow> (if text = [] then Inl EmptyEntry else Inr (EntryFile text)))"

fun entry_as_written :: "entry \<Rightarrow> string" where
  "entry_as_written (EntryFile path) = path"
| "entry_as_written (EntryStdlib name) = stdlib_prefix @ name"

datatype arg_value = ArgBool bool | ArgInt int | ArgStr string | ArgList "string list"

fun arg_to_msgpack :: "arg_value \<Rightarrow> val" where
  "arg_to_msgpack (ArgBool b) = VBool b"
| "arg_to_msgpack (ArgInt n) = VInt n"
| "arg_to_msgpack (ArgStr s) = VStr s"
| "arg_to_msgpack (ArgList items) = VArr (map VStr items)"

fun type_name :: "arg_value \<Rightarrow> string" where
  "type_name (ArgBool b) = ''a boolean''"
| "type_name (ArgInt n) = ''an integer''"
| "type_name (ArgStr s) = ''a string''"
| "type_name (ArgList l) = ''a list''"

type_synonym args = "(string \<times> arg_value) list"
type_synonym overrides = "(string \<times> string option) list"

definition args_to_msgpack :: "args \<Rightarrow> val" where
  "args_to_msgpack a = VMap (map (\<lambda>(k, v). (VStr k, arg_to_msgpack v)) a)"

datatype arg_error =
    NotAnArgument string
  | UndeclaredKey string "string list"
  | MissingValue string string
  | NotTheDeclaredType string string string

fun parse_overrides :: "string list \<Rightarrow> arg_error + overrides" where
  "parse_overrides [] = Inr []"
| "parse_overrides (token # toks) = (case strip_prefix ''--'' token of
     None \<Rightarrow> Inl (NotAnArgument token)
   | Some rest \<Rightarrow> (case split_once CHR ''='' rest of
       Some (key, v) \<Rightarrow> map_sum id (Cons (key, Some v)) (parse_overrides toks)
     | None \<Rightarrow> (case toks of
         next_token # others \<Rightarrow>
           (if \<not> prefix ''--'' next_token then map_sum id (Cons (rest, Some next_token)) (parse_overrides others)
            else map_sum id (Cons (rest, None)) (parse_overrides toks))
       | [] \<Rightarrow> Inr [(rest, None)])))"

text \<open>\<^verbatim>\<open>parse::<i64>()\<close>: a sign, digits, and a value of the type.\<close>

definition parse_int64 :: "string \<Rightarrow> int option" where
  "parse_int64 s = (case parse_i64 s of
     Some n \<Rightarrow> (if - (2 ^ 63) \<le> n \<and> n < 2 ^ 63 then Some n else None) | None \<Rightarrow> None)"

definition want :: "string \<Rightarrow> arg_value \<Rightarrow> string option \<Rightarrow> arg_error + string" where
  "want key dflt raw = (case raw of Some v \<Rightarrow> Inr v | None \<Rightarrow> Inl (MissingValue key (type_name dflt)))"

definition override_value :: "string \<Rightarrow> arg_value \<Rightarrow> arg_value option \<Rightarrow> string option \<Rightarrow> arg_error + arg_value" where
  "override_value key dflt held raw = (case dflt of
     ArgBool b \<Rightarrow> (case raw of
         None \<Rightarrow> Inr (ArgBool True)
       | Some t \<Rightarrow> (if t = ''true'' then Inr (ArgBool True) else if t = ''false'' then Inr (ArgBool False)
           else Inl (NotTheDeclaredType key ''a boolean'' t)))
   | ArgInt n \<Rightarrow> (case want key dflt raw of Inl e \<Rightarrow> Inl e
       | Inr t \<Rightarrow> (case parse_int64 t of Some v \<Rightarrow> Inr (ArgInt v) | None \<Rightarrow> Inl (NotTheDeclaredType key ''an integer'' t)))
   | ArgStr s \<Rightarrow> (case want key dflt raw of Inl e \<Rightarrow> Inl e | Inr t \<Rightarrow> Inr (ArgStr t))
   | ArgList l \<Rightarrow> (case want key dflt raw of Inl e \<Rightarrow> Inl e
       | Inr t \<Rightarrow> Inr (ArgList ((case held of Some (ArgList existing) \<Rightarrow> existing | _ \<Rightarrow> []) @ [t]))))"

fun merge_from :: "args \<Rightarrow> overrides \<Rightarrow> args \<Rightarrow> arg_error + args" where
  "merge_from declared [] merged = Inr merged"
| "merge_from declared ((key, raw) # os) merged = (case bt_get declared key of
     None \<Rightarrow> Inl (UndeclaredKey key (map fst declared))
   | Some dflt \<Rightarrow> (case override_value key dflt (bt_get merged key) raw of
       Inl e \<Rightarrow> Inl e | Inr v \<Rightarrow> merge_from declared os (bt_insert key v merged)))"

definition merge_args :: "args \<Rightarrow> overrides \<Rightarrow> arg_error + args" where
  "merge_args declared os = merge_from declared os declared"

section \<open>What was typed\<close>

datatype explicit = ExplicitFile | ExplicitCode | ExplicitProfile

datatype requested = ReqDefault | ReqProfile string | ReqFile string | ReqCode string | ReqStdlib string | ReqStdin

definition code_evidence :: "char list" where
  "code_evidence = [char_of (10 :: nat), CHR ''('', CHR '')'', CHR 0x27, CHR 0x22, CHR ''='', CHR '';'']"

definition classify :: "string \<Rightarrow> explicit option \<Rightarrow> profile_name list \<Rightarrow> requested" where
  "classify token ex profiles = (case ex of
     Some ExplicitFile \<Rightarrow> ReqFile token
   | Some ExplicitCode \<Rightarrow> ReqCode token
   | Some ExplicitProfile \<Rightarrow> ReqProfile token
   | None \<Rightarrow>
      (if token = ''-'' then ReqStdin
       else (case strip_prefix stdlib_prefix token of
         Some name \<Rightarrow> ReqStdlib name
       | None \<Rightarrow>
         (if prefix ''/'' token \<or> prefix ''./'' token then ReqFile token
          else if list_ex (\<lambda>c. c \<in> set code_evidence) token then ReqCode token
          else if token \<in> set profiles then ReqProfile token
          else ReqFile token))))"

section \<open>Resolution\<close>

record root_config =
  rc_root :: instance_config
  rc_dlua_dir :: "string option"
  rc_entry :: "entry option"
  rc_args :: args

record root_inputs =
  ri_project :: "project option"
  ri_consent :: "consent option"
  ri_profiles :: "(string \<times> root_config) list"
  ri_profile_dir :: "string list"
  ri_dlua_dir :: "string list"
  ri_init :: "string list"
  ri_binary_version :: "string option"

record resolve_inputs =
  rn_root :: "root_inputs option"
  rn_config_flag :: "root_config option"
  rn_requested :: requested
  rn_overrides :: overrides
  rn_cwd :: "string list"

datatype rule = RuleExplicit | RuleDefaultProfile | RuleFallbackOrder string | RuleConfigFlag | RuleFromProfile
  | RuleProjectCeiling | RuleNoRootDefault | RuleDefault

datatype 'a decided = Decided (dd_value: 'a) (dd_rule: rule)

datatype finding =
    NothingToRun
  | NoProfilesDeclared
  | NoDefaultProfile nat
  | UndeclaredProfile string "string list"
  | DeclaredProfileMissing string
  | UndeclaredProfilePresent string
  | NoEntry string
  | EntryMissing string string string
  | DluaDirWithoutEntry string
  | PinMismatch string string
  | NoPin
  | ProfileExceedsCeiling string config_error
  | NoProjectName
  | NoProjectVersion
  | NoCeilingStated
  | ConsentRefused consent_failure
  | BadArgs arg_error
  | BadProfileFilename bad_profile_name

definition blocks :: "finding \<Rightarrow> bool" where
  "blocks f = (case f of NoProjectName \<Rightarrow> False | NoProjectVersion \<Rightarrow> False | NoPin \<Rightarrow> False
     | UndeclaredProfilePresent n \<Rightarrow> False | _ \<Rightarrow> True)"

record resolution =
  rs_profile :: "profile_name decided option"
  rs_entry :: "entry decided option"
  rs_dlua_dir :: "string decided option"
  rs_ceiling :: "grant list decided option"
  rs_args :: args
  rs_consent :: "consent_answer option"
  rs_pin :: "string decided option"
  rs_findings :: "finding list"

definition resolution_empty :: resolution where
  "resolution_empty = \<lparr>rs_profile = None, rs_entry = None, rs_dlua_dir = None, rs_ceiling = None, rs_args = [],
     rs_consent = None, rs_pin = None, rs_findings = []\<rparr>"

definition found :: "finding list \<Rightarrow> resolution \<Rightarrow> resolution" where
  "found fs out = out\<lparr>rs_findings := rs_findings out @ fs\<rparr>"

definition blocker :: "resolution \<Rightarrow> finding option" where
  "blocker out = List.find blocks (rs_findings out)"

definition fallback :: "string list \<Rightarrow> string option" where
  "fallback cwd = List.find (\<lambda>c. c \<in> set cwd) fallback_order"

definition take_profile_fields :: "resolution \<Rightarrow> root_config \<Rightarrow> string \<Rightarrow> rule \<Rightarrow> resolution" where
  "take_profile_fields out config profile r =
     (let out1 = (case rc_dlua_dir config of Some dir \<Rightarrow> out\<lparr>rs_dlua_dir := Some (Decided dir r)\<rparr> | None \<Rightarrow> out) in
      case rc_entry config of
        Some e \<Rightarrow> out1\<lparr>rs_entry := Some (Decided e r)\<rparr>
      | None \<Rightarrow> (if rs_entry out1 = None
          then found [if rc_dlua_dir config \<noteq> None then DluaDirWithoutEntry profile else NoEntry profile] out1 else out1))"

definition merge_into :: "resolution \<Rightarrow> root_config \<Rightarrow> overrides \<Rightarrow> resolution" where
  "merge_into out config os = (case merge_args (rc_args config) os of
     Inr a \<Rightarrow> out\<lparr>rs_args := a\<rparr>
   | Inl e \<Rightarrow> found [BadArgs e] (out\<lparr>rs_args := rc_args config\<rparr>))"

definition check_pin :: "project \<Rightarrow> root_inputs \<Rightarrow> resolution \<Rightarrow> resolution" where
  "check_pin p ri out = (case pj_drt p of
     None \<Rightarrow> found [NoPin] out
   | Some pinned \<Rightarrow> (let out1 = out\<lparr>rs_pin := Some (Decided pinned RuleProjectCeiling)\<rparr> in
       case ri_binary_version ri of
         Some present \<Rightarrow> (if \<not> same_version pinned present then found [PinMismatch pinned present] out1 else out1)
       | None \<Rightarrow> out1))"

definition check_profile_dir :: "(profile_name \<times> string) list \<Rightarrow> root_inputs \<Rightarrow> finding list" where
  "check_profile_dir declared ri =
     map DeclaredProfileMissing (filter (\<lambda>f. f \<notin> set (ri_profile_dir ri)) (map snd declared)) @
     map UndeclaredProfilePresent (filter (\<lambda>f. f \<notin> set (map snd declared)) (ri_profile_dir ri))"

definition ceiling_config :: "project \<Rightarrow> instance_config" where
  "ceiling_config p = \<lparr>ic_program = None, ic_caps = pj_caps p, ic_budget = budget_default, ic_numeric = numeric_default\<rparr>"

definition exceeds :: "project \<Rightarrow> root_inputs \<Rightarrow> profile_name \<times> string \<Rightarrow> finding option" where
  "exceeds p ri e = (case bt_get (ri_profiles ri) (snd e) of None \<Rightarrow> None
     | Some config \<Rightarrow> (case check_attenuation (rc_root config) (ceiling_config p) of
         Inl err \<Rightarrow> Some (ProfileExceedsCeiling (fst e) err) | Inr _ \<Rightarrow> None))"

definition check_ceiling :: "project \<Rightarrow> (profile_name \<times> string) list \<Rightarrow> root_inputs \<Rightarrow> finding list" where
  "check_ceiling p declared ri = List.map_filter (exceeds p ri) declared"

definition check_entry :: "string \<Rightarrow> root_inputs \<Rightarrow> resolution \<Rightarrow> resolution" where
  "check_entry profile ri out = (case rs_entry out of
     Some (Decided (EntryFile path) r) \<Rightarrow>
       (let (listing, where_from) = (case rs_dlua_dir out of
              Some dir \<Rightarrow> (ri_dlua_dir ri, dd_value dir) | None \<Rightarrow> (ri_init ri, ''init/'')) in
        if path \<notin> set listing then found [EntryMissing profile path where_from] out else out)
   | _ \<Rightarrow> out)"

text \<open>With no root there is \<^verbatim>\<open>--config\<close> or nothing, and its own grants are the ceiling.\<close>

definition resolve_no_root :: "resolve_inputs \<Rightarrow> resolution" where
  "resolve_no_root rn = (case rn_config_flag rn of
     Some config \<Rightarrow>
       (let out = take_profile_fields resolution_empty config ''--config'' RuleConfigFlag;
            caps = ic_caps (rc_root config);
            out1 = out\<lparr>rs_ceiling := Some (if caps = [] then Decided [grant_of ''host:*''] RuleNoRootDefault
              else Decided caps RuleConfigFlag)\<rparr>
        in merge_into out1 config (rn_overrides rn))
   | None \<Rightarrow> found [NothingToRun] resolution_empty)"

definition resolve_no_project :: "resolve_inputs \<Rightarrow> root_inputs \<Rightarrow> resolution" where
  "resolve_no_project rn ri = (case fallback (rn_cwd rn) of
     Some file \<Rightarrow>
       (case (case bt_get (ri_profiles ri) file of Some c \<Rightarrow> Some c | None \<Rightarrow> rn_config_flag rn) of
          Some config \<Rightarrow> merge_into (take_profile_fields resolution_empty config file (RuleFallbackOrder file)) config (rn_overrides rn)
        | None \<Rightarrow> resolution_empty)
   | None \<Rightarrow> found [NothingToRun] resolution_empty)"

text \<open>What of a project is settled before a profile is picked.\<close>

definition resolve_project_facts :: "hash_env \<Rightarrow> project \<Rightarrow> root_inputs \<Rightarrow> resolution" where
  "resolve_project_facts he p ri =
     (let out1 = found ((if pj_name p = None then [NoProjectName] else []) @ (if pj_version p = None then [NoProjectVersion] else []))
            resolution_empty;
          out2 = check_pin p ri out1;
          out3 = out2\<lparr>rs_ceiling := Some (Decided (pj_caps p) RuleProjectCeiling)\<rparr>;
          out4 = (if pj_caps p = [] then found [NoCeilingStated] out3
            else (case consent_check he p (ri_consent ri) of
              Inr c \<Rightarrow> out3\<lparr>rs_consent := Some c\<rparr> | Inl e \<Rightarrow> found [ConsentRefused e] out3));
          (declared, bad) = declared_profiles p
      in found (map BadProfileFilename bad @ check_profile_dir declared ri @ check_ceiling p declared ri) out4)"

definition pick_profile :: "project \<Rightarrow> (profile_name \<times> string) list \<Rightarrow> requested \<Rightarrow> resolution
    \<Rightarrow> (string \<times> rule) option \<times> resolution" where
  "pick_profile p declared req out =
     (let dflt = map_option (\<lambda>n. (n, RuleDefaultProfile)) (pj_default_profile p) in
      case req of
        ReqProfile name \<Rightarrow> (Some (name, RuleExplicit), out)
      | ReqDefault \<Rightarrow> (case pj_default_profile p of
          Some n \<Rightarrow> (Some (n, RuleDefaultProfile), out)
        | None \<Rightarrow> (None, found [if declared = [] then NoProfilesDeclared else NoDefaultProfile (length declared)] out))
      | ReqFile path \<Rightarrow> (dflt, out\<lparr>rs_entry := Some (Decided (EntryFile path) RuleExplicit)\<rparr>)
      | ReqStdlib name \<Rightarrow> (dflt, out\<lparr>rs_entry := Some (Decided (EntryStdlib name) RuleExplicit)\<rparr>)
      | ReqCode c \<Rightarrow> (dflt, out)
      | ReqStdin \<Rightarrow> (dflt, out))"

definition restore_entry :: "requested \<Rightarrow> resolution \<Rightarrow> resolution" where
  "restore_entry req out = (case req of
     ReqFile path \<Rightarrow> out\<lparr>rs_entry := Some (Decided (EntryFile path) RuleExplicit)\<rparr>
   | ReqStdlib n \<Rightarrow> out\<lparr>rs_entry := Some (Decided (EntryStdlib n) RuleExplicit)\<rparr>
   | _ \<Rightarrow> out)"

definition run_profile :: "resolve_inputs \<Rightarrow> root_inputs \<Rightarrow> profile_name \<Rightarrow> rule \<Rightarrow> root_config \<Rightarrow> resolution \<Rightarrow> resolution" where
  "run_profile rn ri n r config out =
     (let out1 = out\<lparr>rs_profile := Some (Decided n r)\<rparr>;
          explicit_entry = (rs_entry out1 \<noteq> None);
          out2 = take_profile_fields out1 config n RuleFromProfile;
          out3 = (if explicit_entry then restore_entry (rn_requested rn) out2 else out2)
      in merge_into (check_entry n ri out3) config (rn_overrides rn))"

definition resolve_project :: "hash_env \<Rightarrow> resolve_inputs \<Rightarrow> root_inputs \<Rightarrow> project \<Rightarrow> resolution" where
  "resolve_project he rn ri p =
     (let declared = fst (declared_profiles p) in
      case pick_profile p declared (rn_requested rn) (resolve_project_facts he p ri) of
        (None, out) \<Rightarrow> out
      | (Some (name, r), out) \<Rightarrow>
          (case profile_new name of
             Inl e \<Rightarrow> found [BadProfileFilename e] out
           | Inr n \<Rightarrow> (case bt_get declared n of
               None \<Rightarrow> found [UndeclaredProfile n (map fst declared)] out
             | Some filename \<Rightarrow> (case bt_get (ri_profiles ri) filename of
                 None \<Rightarrow> found [DeclaredProfileMissing filename] out
               | Some config \<Rightarrow> run_profile rn ri n r config out))))"

definition resolve_run :: "hash_env \<Rightarrow> resolve_inputs \<Rightarrow> resolution" where
  "resolve_run he rn = (case rn_root rn of
     None \<Rightarrow> resolve_no_root rn
   | Some ri \<Rightarrow> (case ri_project ri of
       None \<Rightarrow> resolve_no_project rn ri
     | Some p \<Rightarrow> resolve_project he rn ri p))"

section \<open>Findings accumulate\<close>

text \<open>\<open>extends a b\<close>: \<open>b\<close> has what \<open>a\<close> settled, and all its findings.\<close>

definition extends :: "resolution \<Rightarrow> resolution \<Rightarrow> bool" where
  "extends a b \<longleftrightarrow> rs_ceiling b = rs_ceiling a \<and> rs_consent b = rs_consent a \<and> rs_pin b = rs_pin a \<and>
     prefix (rs_findings a) (rs_findings b)"

lemma extends_refl [simp]: "extends a a"
  by (simp add: extends_def)

lemma extends_trans: "extends a b \<Longrightarrow> extends b c \<Longrightarrow> extends a c"
  by (auto simp: extends_def)

lemma extends_found [simp]: "extends a (found fs a)"
  by (simp add: extends_def found_def)

lemma extends_update [simp]:
  "extends a (a\<lparr>rs_profile := x\<rparr>)" "extends a (a\<lparr>rs_entry := y\<rparr>)" "extends a (a\<lparr>rs_dlua_dir := z\<rparr>)" "extends a (a\<lparr>rs_args := w\<rparr>)"
  by (simp_all add: extends_def)

lemma found_fields [simp]:
  "rs_profile (found fs a) = rs_profile a" "rs_entry (found fs a) = rs_entry a" "rs_dlua_dir (found fs a) = rs_dlua_dir a"
  "rs_ceiling (found fs a) = rs_ceiling a" "rs_consent (found fs a) = rs_consent a" "rs_pin (found fs a) = rs_pin a"
  "rs_args (found fs a) = rs_args a" "rs_findings (found fs a) = rs_findings a @ fs"
  by (simp_all add: found_def)

lemma take_extends: "extends a (take_profile_fields a c p r)"
  by (auto simp: take_profile_fields_def Let_def extends_def split: option.split)

lemma merge_extends: "extends a (merge_into a c os)"
  by (auto simp: merge_into_def extends_def split: sum.split)

lemma check_entry_extends: "extends a (check_entry p ri a)"
  by (auto simp: check_entry_def Let_def extends_def split: option.split decided.split entry.split prod.split)

lemma restore_extends: "extends a (restore_entry q a)"
  by (simp add: restore_entry_def split: requested.split)

lemma run_profile_extends: "extends a (run_profile rn ri n r config a)"
proof -
  let ?b = "a\<lparr>rs_profile := Some (Decided n r)\<rparr>"
  let ?c = "take_profile_fields ?b config n RuleFromProfile"
  let ?d = "if rs_entry ?b \<noteq> None then restore_entry (rn_requested rn) ?c else ?c"
  have "extends a ?c" using take_extends [of ?b config n RuleFromProfile] by (rule extends_trans [rotated]) simp
  moreover have "extends ?c ?d" using restore_extends by simp
  ultimately have "extends a ?d" by (rule extends_trans)
  then show ?thesis
    unfolding run_profile_def Let_def
    using check_entry_extends [of ?d n ri] merge_extends extends_trans by meson
qed

lemma pick_extends: "pick_profile p declared req a = (n, b) \<Longrightarrow> extends a b"
  by (auto simp: pick_profile_def Let_def split: requested.splits option.splits)

lemma resolve_project_extends: "extends (resolve_project_facts he p ri) (resolve_project he rn ri p)"
proof -
  obtain n out where pick: "pick_profile p (fst (declared_profiles p)) (rn_requested rn) (resolve_project_facts he p ri) = (n, out)"
    by fastforce
  have "extends out (resolve_project he rn ri p)"
    unfolding resolve_project_def Let_def pick
    by (auto simp: run_profile_extends split: option.split sum.split)
  then show ?thesis using pick_extends [OF pick] extends_trans by blast
qed

lemma facts_ceiling: "rs_ceiling (resolve_project_facts he p ri) = Some (Decided (pj_caps p) RuleProjectCeiling)"
  by (simp add: resolve_project_facts_def Let_def split: sum.split prod.split)

lemma blocker_None: "blocker a = None \<longleftrightarrow> (\<forall>f\<in>set (rs_findings a). \<not> blocks f)"
  unfolding blocker_def find_None_iff by blast

lemma blocker_mono: "extends a b \<Longrightarrow> blocker b = None \<Longrightarrow> blocker a = None"
  by (auto simp: blocker_None extends_def prefix_def)

lemma in_check_ceiling: "e \<in> set declared \<Longrightarrow> bt_get (ri_profiles ri) (snd e) = Some config \<Longrightarrow>
    (\<forall>f\<in>set (check_ceiling p declared ri). \<not> blocks f) \<Longrightarrow> check_attenuation (rc_root config) (ceiling_config p) = Inr ()"
proof (rule ccontr)
  assume e: "e \<in> set declared" "bt_get (ri_profiles ri) (snd e) = Some config"
    and b: "\<forall>f\<in>set (check_ceiling p declared ri). \<not> blocks f"
    and "check_attenuation (rc_root config) (ceiling_config p) \<noteq> Inr ()"
  then obtain err where "check_attenuation (rc_root config) (ceiling_config p) = Inl err"
    by (cases "check_attenuation (rc_root config) (ceiling_config p)") auto
  with e have "ProfileExceedsCeiling (fst e) err \<in> set (check_ceiling p declared ri)"
    by (auto simp: check_ceiling_def map_filter_mem exceeds_def intro!: bexI [of _ e])
  with b show False by (auto simp: blocks_def)
qed

text \<open>What the facts of a project have settled when nothing in them blocks.\<close>

definition startable :: "hash_env \<Rightarrow> project \<Rightarrow> root_inputs \<Rightarrow> bool" where
  "startable he p ri \<longleftrightarrow> pj_caps p \<noteq> [] \<and> (\<exists>c. consent_check he p (ri_consent ri) = Inr c) \<and> snd (declared_profiles p) = [] \<and>
     (\<forall>e\<in>set (fst (declared_profiles p)). snd e \<in> set (ri_profile_dir ri) \<and>
        (\<forall>config. bt_get (ri_profiles ri) (snd e) = Some config \<longrightarrow> check_attenuation (rc_root config) (ceiling_config p) = Inr ())) \<and>
     (\<forall>a b. pj_drt p = Some a \<longrightarrow> ri_binary_version ri = Some b \<longrightarrow> same_version a b)"

lemma facts_unblocked:
  assumes "blocker (resolve_project_facts he p ri) = None"
  shows "startable he p ri" and "consent_check he p (ri_consent ri) = Inr c \<Longrightarrow> rs_consent (resolve_project_facts he p ri) = Some c"
proof -
  obtain declared bad where db: "declared_profiles p = (declared, bad)" by fastforce
  let ?out = "check_pin p ri (found ((if pj_name p = None then [NoProjectName] else []) @ (if pj_version p = None then [NoProjectVersion] else []))
            resolution_empty)\<lparr>rs_ceiling := Some (Decided (pj_caps p) RuleProjectCeiling)\<rparr>"
  let ?out4 = "if pj_caps p = [] then found [NoCeilingStated] ?out
            else (case consent_check he p (ri_consent ri) of
              Inr c \<Rightarrow> ?out\<lparr>rs_consent := Some c\<rparr> | Inl e \<Rightarrow> found [ConsentRefused e] ?out)"
  have facts: "resolve_project_facts he p ri = found (map BadProfileFilename bad @ check_profile_dir declared ri @ check_ceiling p declared ri) ?out4"
    by (simp only: resolve_project_facts_def db Let_def prod.case)
  have u: "\<forall>f\<in>set (rs_findings ?out4). \<not> blocks f" "\<forall>f\<in>set (check_profile_dir declared ri). \<not> blocks f"
    "\<forall>f\<in>set (check_ceiling p declared ri). \<not> blocks f" "\<forall>b\<in>set bad. \<not> blocks (BadProfileFilename b)"
    using assms unfolding facts blocker_None found_fields by auto
  have caps: "pj_caps p \<noteq> []" using u(1) by (auto simp: blocks_def)
  then obtain c where c: "consent_check he p (ri_consent ri) = Inr c"
    using u(1) by (cases "consent_check he p (ri_consent ri)") (auto simp: blocks_def)
  have "\<forall>f\<in>set (rs_findings ?out). \<not> blocks f" using u(1) caps c by simp
  then have pin: "same_version a b" if "pj_drt p = Some a" "ri_binary_version ri = Some b" for a b
    using that by (auto simp: check_pin_def Let_def blocks_def split: if_splits)
  have "bad = []" using u(4) by (cases bad) (auto simp: blocks_def)
  moreover have "snd e \<in> set (ri_profile_dir ri)" if "e \<in> set declared" for e
  proof (rule ccontr)
    assume "snd e \<notin> set (ri_profile_dir ri)"
    with that have "DeclaredProfileMissing (snd e) \<in> set (check_profile_dir declared ri)"
      by (simp add: check_profile_dir_def)
    with u(2) show False by (auto simp: blocks_def)
  qed
  ultimately show "startable he p ri"
    using caps c pin in_check_ceiling [OF _ _ u(3)] by (auto simp: startable_def db)
  show "rs_consent (resolve_project_facts he p ri) = Some c" if "consent_check he p (ri_consent ri) = Inr c" for c
    using that caps by (simp add: facts)
qed

lemma project_unblocked:
  assumes "rn_root rn = Some ri" and "ri_project ri = Some p" and "blocker (resolve_run he rn) = None"
  shows "startable he p ri" and "\<exists>c. consent_check he p (ri_consent ri) = Inr c \<and> rs_consent (resolve_run he rn) = Some c"
proof -
  have run: "resolve_run he rn = resolve_project he rn ri p" using assms(1,2) by (simp add: resolve_run_def)
  have b: "blocker (resolve_project_facts he p ri) = None"
    using blocker_mono [OF resolve_project_extends] assms(3) run by metis
  show s: "startable he p ri" by (rule facts_unblocked(1) [OF b])
  then obtain c where c: "consent_check he p (ri_consent ri) = Inr c" by (auto simp: startable_def)
  have "rs_consent (resolve_run he rn) = Some c"
    using facts_unblocked(2) [OF b c] resolve_project_extends [of he p ri rn] run by (simp add: extends_def)
  with c show "\<exists>c. consent_check he p (ri_consent ri) = Inr c \<and> rs_consent (resolve_run he rn) = Some c" by blast
qed

text \<open>
  Inside a root the ceiling is the project's, whatever profile, file or configuration the command line names and whatever else is
  wrong; the wide default is given only where there is no root.
\<close>

theorem ceiling_is_the_projects:
  assumes "rs_ceiling (resolve_run he rn) = Some cl" and "rn_root rn = Some ri"
  shows "\<exists>p. ri_project ri = Some p \<and> cl = Decided (pj_caps p) RuleProjectCeiling"
proof (cases "ri_project ri")
  case None
  have "extends resolution_empty (resolve_no_project rn ri)"
    unfolding resolve_no_project_def using take_extends merge_extends extends_trans by (auto split: option.split) meson+
  then show ?thesis using None assms by (simp add: resolve_run_def extends_def resolution_empty_def)
next
  case (Some p)
  then have "rs_ceiling (resolve_run he rn) = Some (Decided (pj_caps p) RuleProjectCeiling)"
    using assms(2) resolve_project_extends [of he p ri rn] by (simp add: resolve_run_def extends_def facts_ceiling)
  then show ?thesis using Some assms(1) by simp
qed

section \<open>The profile that runs\<close>

lemma run_profile_profile: "rs_profile (run_profile rn ri n r config a) = Some (Decided n r)"
proof -
  have t: "rs_profile (take_profile_fields b c q s) = rs_profile b" for b c q s
    by (auto simp: take_profile_fields_def Let_def split: option.split)
  have "rs_profile (merge_into b c os) = rs_profile b" for b c os
    by (auto simp: merge_into_def split: sum.split)
  moreover have "rs_profile (check_entry q ri b) = rs_profile b" for q b
    by (auto simp: check_entry_def Let_def split: option.split decided.split entry.split prod.split)
  moreover have "rs_profile (restore_entry q b) = rs_profile b" for q b
    by (simp add: restore_entry_def split: requested.split)
  ultimately show ?thesis by (simp add: run_profile_def Let_def t)
qed

lemma pick_profile_field: "pick_profile p declared req a = (n, b) \<Longrightarrow> rs_profile b = rs_profile a"
  by (auto simp: pick_profile_def Let_def split: requested.splits option.splits)

lemma facts_profile: "rs_profile (resolve_project_facts he p ri) = None"
  by (simp add: resolve_project_facts_def check_pin_def resolution_empty_def Let_def split: sum.split prod.split option.split)

lemma resolved_profile:
  assumes "rs_profile (resolve_project he rn ri p) = Some (Decided n r)"
  obtains config where "bt_get (fst (declared_profiles p)) n = Some (profile_filename n)"
    and "bt_get (ri_profiles ri) (profile_filename n) = Some config"
proof -
  obtain pick out where pick: "pick_profile p (fst (declared_profiles p)) (rn_requested rn) (resolve_project_facts he p ri) = (pick, out)"
    by fastforce
  have none: "rs_profile out = None" using pick_profile_field [OF pick] by (simp add: facts_profile)
  then obtain name r' where "pick = Some (name, r')"
    using assms by (cases pick) (auto simp: resolve_project_def Let_def pick)
  with assms none pick obtain m fname config where m: "profile_new name = Inr m" "bt_get (fst (declared_profiles p)) m = Some fname"
      "bt_get (ri_profiles ri) fname = Some config" "m = n"
    by (auto simp: resolve_project_def Let_def run_profile_profile split: sum.splits option.splits)
  moreover have "fname = profile_filename m"
    using m(2) declare_profiles_get [of "[]" "pj_profiles p" "[]" m] by (simp add: declared_profiles_def bt_get_def split: if_splits)
  ultimately show thesis using that by blast
qed

lemma declared_in: "bt_get (fst (declared_profiles p)) n = Some f \<Longrightarrow> (n, f) \<in> set (fst (declared_profiles p))"
  using declare_profiles_get [of "[]" "pj_profiles p" "[]" n] bt_get_in
  unfolding declared_profiles_def by (metis bt_ok_simps(1))

text \<open>
  What a start that nothing blocks runs is a profile the project lists and has, under a ceiling that is not empty and whose consent
  could be evaluated, with every pin met; and no call is held by the profile that the ceiling does not hold, provided no
  grant of the ceiling and no deny of the profile is a pattern ending in two stars.
\<close>

theorem unblocked_start_is_bounded:
  assumes "rn_root rn = Some ri" and "ri_project ri = Some p" and "blocker (resolve_run he rn) = None"
    and "rs_profile (resolve_run he rn) = Some (Decided n r)"
  shows "\<exists>config c. bt_get (ri_profiles ri) (profile_filename n) = Some config \<and> profile_filename n \<in> set (pj_profiles p) \<and>
    consent_check he p (ri_consent ri) = Inr c \<and> rs_consent (resolve_run he rn) = Some c \<and> pj_caps p \<noteq> [] \<and>
    (clean_grants (pj_caps p) \<longrightarrow> clean_denies (ic_caps (rc_root config)) \<longrightarrow>
      holds (root_set (ic_caps (rc_root config))) w \<longrightarrow> holds (root_set (pj_caps p)) w)"
proof -
  have s: "startable he p ri" and c: "\<exists>c. consent_check he p (ri_consent ri) = Inr c \<and> rs_consent (resolve_run he rn) = Some c"
    using project_unblocked [OF assms(1-3)] by blast+
  have "rs_profile (resolve_project he rn ri p) = Some (Decided n r)" using assms by (simp add: resolve_run_def)
  then obtain config where config: "bt_get (fst (declared_profiles p)) n = Some (profile_filename n)"
      "bt_get (ri_profiles ri) (profile_filename n) = Some config"
    by (rule resolved_profile)
  have listed: "profile_filename n \<in> set (pj_profiles p)"
    using config(1) declare_profiles_get [of "[]" "pj_profiles p" "[]" n] by (simp add: declared_profiles_def bt_get_def split: if_splits)
  have "check_attenuation (rc_root config) (ceiling_config p) = Inr ()"
    using s declared_in [OF config(1)] config(2) by (fastforce simp: startable_def)
  then obtain d where d: "attenuate_held_by (root_set (pj_caps p)) None ''attenuation-check'' (ic_caps (rc_root config)) = Inr d"
    by (auto simp: check_attenuation_def ceiling_config_def attenuate_def split: sum.splits)
  have "holds (root_set (pj_caps p)) w" if "clean_grants (pj_caps p)" "clean_denies (ic_caps (rc_root config))"
    "holds (root_set (ic_caps (rc_root config))) w"
    using attenuate_narrows [OF d _ that(2), of w] that attenuate_InrD(1) [OF d] by (simp add: holds_def root_set_def)
  then show ?thesis using config(2) listed c s by (auto simp: startable_def)
qed

section \<open>Overrides\<close>

fun same_kind :: "arg_value \<Rightarrow> arg_value \<Rightarrow> bool" where
  "same_kind (ArgBool a) (ArgBool b) = True"
| "same_kind (ArgInt a) (ArgInt b) = True"
| "same_kind (ArgStr a) (ArgStr b) = True"
| "same_kind (ArgList a) (ArgList b) = True"
| "same_kind a b = False"

fun in_range :: "arg_value \<Rightarrow> bool" where
  "in_range (ArgInt n) \<longleftrightarrow> - (2 ^ 63) \<le> n \<and> n < 2 ^ 63"
| "in_range v \<longleftrightarrow> True"

lemma same_kind_refl [simp]: "same_kind a a"
  by (cases a) simp_all

lemma override_kind: "override_value key d held raw = Inr v \<Longrightarrow> same_kind d v \<and> in_range v"
  by (auto simp: override_value_def parse_int64_def split: arg_value.splits option.splits sum.splits if_splits)

lemma merge_from_ok:
  assumes "merge_from declared os merged = Inr out" and "bt_ok merged"
    and "\<And>k. rel_option (\<lambda>d v. same_kind d v) (bt_get declared k) (bt_get merged k)"
  shows "bt_ok out \<and> rel_option (\<lambda>d v. same_kind d v) (bt_get declared k) (bt_get out k) \<and>
    (k \<notin> fst ` set os \<longrightarrow> bt_get out k = bt_get merged k) \<and> fst ` set os \<subseteq> {k. bt_get declared k \<noteq> None}"
  using assms
proof (induction declared os merged rule: merge_from.induct)
  case (2 declared key raw os merged)
  from "2.prems"(1) obtain d v where d: "bt_get declared key = Some d"
    "override_value key d (bt_get merged key) raw = Inr v" "merge_from declared os (bt_insert key v merged) = Inr out"
    by (auto split: option.splits sum.splits)
  have "rel_option same_kind (bt_get declared j) (bt_get (bt_insert key v merged) j)" for j
    using "2.prems"(3) [of j] d(1) override_kind [OF d(2)] by (simp add: bt.get_ins [OF "2.prems"(2)])
  from "2.IH" [OF d(1,2) d(3) bt.ok_ins [OF "2.prems"(2)] this]
  show ?case using d(1) by (auto simp: bt.get_ins [OF "2.prems"(2)])
qed auto

text \<open>
  A profile is the whole declaration of its command line: after the overrides the arguments have exactly the declared keys, each value of the
  kind its default has, and a key that was not named has its default; an override of a key that is not declared is refused.
\<close>

theorem overrides_keep_the_declaration:
  assumes "merge_args declared os = Inr out" and "bt_ok declared"
  shows "map fst out = map fst declared \<and> rel_option same_kind (bt_get declared k) (bt_get out k) \<and>
    (k \<notin> fst ` set os \<longrightarrow> bt_get out k = bt_get declared k) \<and> fst ` set os \<subseteq> set (map fst declared)"
proof -
  have "rel_option same_kind x x" for x by (cases x) simp_all
  then have ok: "bt_ok out \<and> rel_option same_kind (bt_get declared j) (bt_get out j) \<and>
    (j \<notin> fst ` set os \<longrightarrow> bt_get out j = bt_get declared j) \<and> fst ` set os \<subseteq> {k. bt_get declared k \<noteq> None}" for j
    using merge_from_ok [OF assms(1) [unfolded merge_args_def] assms(2)] by blast
  have keys: "bt_ok m \<Longrightarrow> set (map fst m) = {k. bt_get m k \<noteq> None}" for m :: args
    by (force simp: bt_get_in)
  have "bt_get declared j = None \<longleftrightarrow> bt_get out j = None" for j
    using ok [of j] by (cases "bt_get declared j"; cases "bt_get out j") auto
  then have "set (map fst out) = set (map fst declared)" using keys ok assms(2) by blast
  then have "map fst out = map fst declared"
    using ok assms(2) unfolding bt_ok_def by (metis sorted_distinct_set_unique strict_sorted_iff)
  then show ?thesis using ok [of k] keys [OF assms(2)] by blast
qed

text \<open>Writing overrides as tokens, each with its value behind an equals sign.\<close>

fun override_token :: "string \<times> string option \<Rightarrow> string" where
  "override_token (k, Some v) = ''--'' @ k @ ''='' @ v"
| "override_token (k, None) = ''--'' @ k"

lemma strip_dashes: "strip_prefix ''--'' (''--'' @ s) = Some s"
  by (simp add: strip_prefix_def)

text \<open>
  Whatever overrides a caller means, values with dashes and equals signs included, it can say: written as tokens they read
  back as they were, in their order.
\<close>

theorem overrides_round_trip:
  assumes "\<forall>(k, v)\<in>set os. CHR ''='' \<notin> set k"
  shows "parse_overrides (map override_token os) = Inr os"
  using assms
proof (induction os)
  case (Cons o1 os)
  obtain k v where o1: "o1 = (k, v)" by (cases o1)
  have k: "CHR ''='' \<notin> set k" and ih: "parse_overrides (map override_token os) = Inr os" using Cons o1 by auto
  have dashes: "prefix ''--'' (override_token x)" for x by (cases x rule: override_token.cases) simp_all
  have once: "split_once CHR ''='' k = None" using k by (simp add: split_once_def)
  show ?case
  proof (cases v)
    case None
    then have "override_token o1 = ''--'' @ k" using o1 by simp
    with None o1 ih once dashes show ?thesis by (cases os) (simp_all add: strip_dashes [simplified])
  next
    case (Some w)
    then have "override_token o1 = ''--'' @ k @ CHR ''='' # w" using o1 by simp
    with Some o1 ih split_once_append [OF k, of w] show ?thesis by (simp add: strip_dashes [simplified])
  qed
qed simp

theorem overrides_round_trip_witness:
  "parse_overrides [''--stun=--a=b'', ''--verbose''] = Inr [(''stun'', Some ''--a=b''), (''verbose'', None)]"
  using overrides_round_trip [of "[(''stun'', Some ''--a=b''), (''verbose'', None)]"] by simp

lemma entry_round_trip: "entry_parse t = Inr e \<Longrightarrow> entry_as_written e = t"
  by (auto simp: entry_parse_def strip_prefix_Some split: option.splits if_splits)

text \<open>
  A root without a descriptor can resolve to nothing without a finding: a fallback name in the working directory that
  is no profile of the root, and no configuration named, blocks nothing and names no profile, entry or ceiling.
\<close>

theorem resolution_without_a_reason:
  assumes "rn_root rn = Some ri" and "ri_project ri = None" and "rn_config_flag rn = None"
    and "fallback (rn_cwd rn) = Some fname" and "bt_get (ri_profiles ri) fname = None"
  shows "resolve_run he rn = resolution_empty \<and> blocker (resolve_run he rn) = None"
  using assms by (simp add: resolve_run_def resolve_no_project_def blocker_def resolution_empty_def)

section \<open>An example\<close>

definition demo_profile :: root_config where
  "demo_profile = \<lparr>rc_root = \<lparr>ic_program = None, ic_caps = [grant_of ''host:fs/*''], ic_budget = budget_default, ic_numeric = numeric_default\<rparr>,
     rc_dlua_dir = None, rc_entry = Some (EntryFile ''a.dlua''), rc_args = [(''port'', ArgInt 1)]\<rparr>"

definition demo_start :: resolve_inputs where
  "demo_start = \<lparr>rn_root = Some \<lparr>ri_project = Some ((demo_project [grant_of ''host:fs/*''])\<lparr>pj_profiles := [''debug.config.json''], pj_default_profile := Some ''debug''\<rparr>),
     ri_consent = None, ri_profiles = [(''debug.config.json'', demo_profile)], ri_profile_dir = [''debug.config.json''],
     ri_dlua_dir = [], ri_init = [''a.dlua''], ri_binary_version = None\<rparr>,
     rn_config_flag = None, rn_requested = ReqDefault, rn_overrides = [(''port'', Some ''8092'')], rn_cwd = []\<rparr>"

lemma demo_declared: "declared_profiles ((demo_project caps)\<lparr>pj_profiles := [''debug.config.json''], pj_default_profile := d\<rparr>) =
    ([(''debug'', ''debug.config.json'')], [])"
  by (simp add: declared_profiles_def demo_project_def project_new_def profile_from_filename_def strip_suffix_def profile_suffix_def
      suffix_def profile_new_def is_reserved_def reserved_names_def eq_ignore_ascii_case_def to_lower_def)

definition demo_pj :: project where
  "demo_pj = (demo_project [grant_of ''host:fs/*''])\<lparr>pj_profiles := [''debug.config.json''], pj_default_profile := Some ''debug''\<rparr>"

lemma demo_consented: "\<exists>h. consent_check demo_hashing demo_pj None = Inr (First h)"
proof -
  have "declared_ceiling_of demo_pj = ceiling_of_caps [grant_of ''host:fs/*'']"
    by (simp add: declared_ceiling_of_def demo_pj_def demo_project_def project_new_def ceiling_of_caps_def)
  moreover have "pj_caps demo_pj \<noteq> []" by (simp add: demo_pj_def demo_project_def)
  ultimately show ?thesis
    by (simp add: consent_check_def ceiling_hash_def ceiling_hash_of_def demo_unscoped)
qed

lemma demo_attenuates: "check_attenuation (rc_root demo_profile) (ceiling_config demo_pj) = Inr ()"
  by (simp add: demo_profile_def ceiling_config_def demo_pj_def demo_project_def check_attenuation_def attenuate_def
      attenuate_held_by_def root_set_def may_grant_def holds_def grants_holds_def grant_of_def deny_covered_def
      budget_fits_def bound_fits_def budget_default_def numeric_fits_def numeric_default_def numeric_is_unbounded_def Let_def)

lemma demo_merged: "merge_args (rc_args demo_profile) [(''port'', Some ''8092'')] = Inr [(''port'', ArgInt 8092)]"
  by (simp add: demo_profile_def merge_args_def bt_get_def override_value_def want_def parse_int64_def parse_i64_def digit_val_def)

lemma demo_resolved: "blocker (resolve_run demo_hashing demo_start) = None \<and>
    rs_profile (resolve_run demo_hashing demo_start) = Some (Decided ''debug'' RuleDefaultProfile) \<and>
    rs_ceiling (resolve_run demo_hashing demo_start) = Some (Decided [grant_of ''host:fs/*''] RuleProjectCeiling)"
proof -
  define ri where "ri = \<lparr>ri_project = Some demo_pj, ri_consent = None, ri_profiles = [(''debug.config.json'', demo_profile)],
     ri_profile_dir = [''debug.config.json''], ri_dlua_dir = [], ri_init = [''a.dlua''], ri_binary_version = None\<rparr>"
  have start: "rn_root demo_start = Some ri" "rn_requested demo_start = ReqDefault" "rn_overrides demo_start = [(''port'', Some ''8092'')]"
    by (simp_all add: demo_start_def ri_def demo_pj_def)
  have rip: "ri_project ri = Some demo_pj" "ri_profiles ri = [(''debug.config.json'', demo_profile)]"
    by (simp_all add: ri_def)
  have pj: "pj_drt demo_pj = None" "pj_name demo_pj = None" "pj_version demo_pj = None" "pj_caps demo_pj = [grant_of ''host:fs/*'']"
    "pj_default_profile demo_pj = Some ''debug''"
    by (simp_all add: demo_pj_def demo_project_def project_new_def)
  have declared: "declared_profiles demo_pj = ([(''debug'', ''debug.config.json'')], [])"
    unfolding demo_pj_def by (rule demo_declared)
  obtain h where "consent_check demo_hashing demo_pj None = Inr (First h)" using demo_consented by blast
  then have facts: "resolve_project_facts demo_hashing demo_pj ri =
      resolution_empty\<lparr>rs_ceiling := Some (Decided [grant_of ''host:fs/*''] RuleProjectCeiling), rs_consent := Some (First h),
        rs_findings := [NoProjectName, NoProjectVersion, NoPin]\<rparr>"
    by (simp add: resolve_project_facts_def Let_def declared pj ri_def check_pin_def check_profile_dir_def check_ceiling_def exceeds_def
        bt_get_def demo_attenuates map_filter_simps found_def resolution_empty_def)
  have "profile_new ''debug'' = Inr ''debug''"
    by (simp add: profile_new_def is_reserved_def reserved_names_def eq_ignore_ascii_case_def to_lower_def)
  then have "resolve_run demo_hashing demo_start = run_profile demo_start ri ''debug'' RuleDefaultProfile demo_profile (resolve_project_facts demo_hashing demo_pj ri)"
    by (simp add: resolve_run_def start rip resolve_project_def pick_profile_def declared pj bt_get_def)
  moreover have "rs_findings (run_profile demo_start ri ''debug'' RuleDefaultProfile demo_profile (resolve_project_facts demo_hashing demo_pj ri)) =
      [NoProjectName, NoProjectVersion, NoPin]"
    by (simp add: run_profile_def take_profile_fields_def start merge_into_def demo_merged check_entry_def facts resolution_empty_def)
      (simp add: demo_profile_def ri_def check_entry_def)
  ultimately show ?thesis
    using run_profile_profile run_profile_extends [of "resolve_project_facts demo_hashing demo_pj ri" demo_start ri "''debug''" RuleDefaultProfile demo_profile]
    by (simp add: blocker_def blocks_def extends_def facts)
qed

theorem ceiling_is_the_projects_witness:
  "\<exists>ri p. rn_root demo_start = Some ri \<and> ri_project ri = Some p"
  using ceiling_is_the_projects [of demo_hashing demo_start] demo_resolved by (auto simp: demo_start_def)

theorem unblocked_start_is_bounded_witness:
  "\<exists>config. bt_get [(''debug.config.json'', demo_profile)] (profile_filename ''debug'') = Some config"
proof -
  obtain ri where ri: "rn_root demo_start = Some ri" "ri_profiles ri = [(''debug.config.json'', demo_profile)]" "ri_project ri = Some demo_pj"
    by (simp add: demo_start_def demo_pj_def)
  show ?thesis
    using unblocked_start_is_bounded [OF ri(1,3)] demo_resolved ri(2) by metis
qed

theorem overrides_keep_the_declaration_witness:
  "\<exists>v. bt_get [(''port'', ArgInt 8092)] ''port'' = Some v \<and> same_kind (ArgInt 1) v"
  using overrides_keep_the_declaration [OF demo_merged, of "''port''"] by (simp add: demo_profile_def bt_get_def)

theorem resolution_without_a_reason_witness:
  "blocker (resolve_run demo_hashing \<lparr>rn_root = Some \<lparr>ri_project = None, ri_consent = None, ri_profiles = [], ri_profile_dir = [], ri_dlua_dir = [],
      ri_init = [], ri_binary_version = None\<rparr>, rn_config_flag = None, rn_requested = ReqDefault, rn_overrides = [],
      rn_cwd = [''debug.config.json'']\<rparr>) = None"
  using resolution_without_a_reason [of "\<lparr>rn_root = Some \<lparr>ri_project = None, ri_consent = None, ri_profiles = [], ri_profile_dir = [], ri_dlua_dir = [],
      ri_init = [], ri_binary_version = None\<rparr>, rn_config_flag = None, rn_requested = ReqDefault, rn_overrides = [],
      rn_cwd = [''debug.config.json'']\<rparr>" _ "''debug.config.json''" demo_hashing]
  by (simp add: fallback_def fallback_order_def bt_get_def blocker_def resolution_empty_def)

end
