(* ===== verification/Mem_Fs.thy ===== *)
theory Mem_Fs
  imports Msg_Value
begin

text \<open>
  The filesystem behind the \<^verbatim>\<open>fs\<close> connector and a root's layout, \<^verbatim>\<open>crates/drt-platform/src/fs.rs\<close>: the
  trait \<^verbatim>\<open>Backend\<close> as the record \<open>backend\<close> of its operations on a state, and the filesystem in a map, \<^verbatim>\<open>MemFs\<close>,
  with every operation of it.  A \<^verbatim>\<open>Path\<close> is what its \<^verbatim>\<open>components()\<close> are, which is what the library compares and
  takes apart; an absolute folded path is the list of its names.  Errors are the kinds of
  \<^verbatim>\<open>io::Error\<close> with the path they name.  The locale \<open>plain_files\<close> states what a
  filesystem without links promises, \<open>mem\<close> is the interpretation on \<^verbatim>\<open>MemFs\<close>.
\<close>

section \<open>Paths\<close>

datatype comp = RootDir | CurDir | ParentDir | Normal string

type_synonym path = "comp list"
type_synonym names = "string list"

definition piece :: "string \<Rightarrow> comp option" where
  "piece s = (if s = [] \<or> s = ''.'' then None else if s = ''..'' then Some ParentDir else Some (Normal s))"

definition path_of :: "string \<Rightarrow> path" where
  "path_of s =
     (let ps = split_char CHR ''/'' s; rest = List.map_filter piece ps in
      if prefix ''/'' s then RootDir # rest
      else if hd ps = ''.'' then CurDir # rest else rest)"

definition has_root :: "path \<Rightarrow> bool" where
  "has_root p \<longleftrightarrow> (case p of RootDir # _ \<Rightarrow> True | _ \<Rightarrow> False)"

definition path_join :: "path \<Rightarrow> path \<Rightarrow> path" where
  "path_join p q = (if has_root q then q else if p = [] then q else p @ filter (\<lambda>c. c \<noteq> CurDir) q)"

definition path_parent :: "path \<Rightarrow> path option" where
  "path_parent p = (if p = [] \<or> last p = RootDir then None else Some (butlast p))"

definition path_file_name :: "path \<Rightarrow> string option" where
  "path_file_name p = (if p = [] then None else case last p of Normal n \<Rightarrow> Some n | _ \<Rightarrow> None)"

definition starts_with :: "path \<Rightarrow> path \<Rightarrow> bool" where
  "starts_with p base \<longleftrightarrow> prefix base p"

definition abs_path :: "names \<Rightarrow> path" where
  "abs_path ns = RootDir # map Normal ns"

fun fold_part :: "names \<Rightarrow> comp \<Rightarrow> names" where
  "fold_part out ParentDir = butlast out"
| "fold_part out (Normal n) = out @ [n]"
| "fold_part out _ = out"

definition normalize :: "path \<Rightarrow> names" where
  "normalize p = foldl fold_part [] p"

section \<open>The trait\<close>

datatype io_error = NotFound path | IsADirectory path | NotADirectory path | AlreadyExists path | OtherIo string

record metadata =
  md_len :: nat
  md_is_dir :: bool

definition is_file :: "metadata \<Rightarrow> bool" where
  "is_file m \<longleftrightarrow> \<not> md_is_dir m"

record 's backend =
  bk_canonicalize :: "'s \<Rightarrow> path \<Rightarrow> io_error + path"
  bk_metadata :: "'s \<Rightarrow> path \<Rightarrow> io_error + metadata"
  bk_read :: "'s \<Rightarrow> path \<Rightarrow> io_error + bytes"
  bk_write :: "'s \<Rightarrow> path \<Rightarrow> bytes \<Rightarrow> bool \<Rightarrow> (io_error + unit) \<times> 's"
  bk_read_dir :: "'s \<Rightarrow> path \<Rightarrow> io_error + string list"
  bk_remove_file :: "'s \<Rightarrow> path \<Rightarrow> (io_error + unit) \<times> 's"
  bk_create_dir_all :: "'s \<Rightarrow> path \<Rightarrow> (io_error + unit) \<times> 's"
  bk_remove_dir_all :: "'s \<Rightarrow> path \<Rightarrow> (io_error + unit) \<times> 's"

definition path_exists :: "'s backend \<Rightarrow> 's \<Rightarrow> path \<Rightarrow> bool" where
  "path_exists be s p \<longleftrightarrow> (case bk_metadata be s p of Inl _ \<Rightarrow> False | Inr _ \<Rightarrow> True)"

definition is_dir :: "'s backend \<Rightarrow> 's \<Rightarrow> path \<Rightarrow> bool" where
  "is_dir be s p \<longleftrightarrow> (case bk_metadata be s p of Inl _ \<Rightarrow> False | Inr m \<Rightarrow> md_is_dir m)"

definition text_of :: "bytes \<Rightarrow> string" where
  "text_of b = map (\<lambda>x. char_of (unat x)) b"

definition read_to_string :: "'s backend \<Rightarrow> 's \<Rightarrow> path \<Rightarrow> io_error + string" where
  "read_to_string be s p = (case bk_read be s p of Inl e \<Rightarrow> Inl e
   | Inr b \<Rightarrow> (if utf8_valid (text_of b) then Inr (text_of b) else Inl (OtherIo ''invalid utf-8'')))"

section \<open>The filesystem in a map\<close>

record mem_state =
  ms_cwd :: names
  ms_dirs :: "names list"
  ms_files :: "(names \<times> bytes) list"

definition mem_new :: mem_state where
  "mem_new = \<lparr>ms_cwd = [], ms_dirs = [[]], ms_files = []\<rparr>"

definition absolute :: "mem_state \<Rightarrow> path \<Rightarrow> names" where
  "absolute s p = (if has_root p then normalize p else normalize (path_join (abs_path (ms_cwd s)) p))"

fun mkdirs :: "names \<Rightarrow> names \<Rightarrow> names list \<Rightarrow> names list" where
  "mkdirs cur [] dirs = dirs"
| "mkdirs cur (n # ns) dirs = mkdirs (cur @ [n]) ns (insort_insert (cur @ [n]) dirs)"

definition mkdir_p :: "names \<Rightarrow> mem_state \<Rightarrow> mem_state" where
  "mkdir_p a s = s\<lparr>ms_dirs := mkdirs [] a (ms_dirs s)\<rparr>"

definition mem_is_dir :: "mem_state \<Rightarrow> names \<Rightarrow> bool" where
  "mem_is_dir s a \<longleftrightarrow> a \<in> set (ms_dirs s)"

definition add_dir :: "path \<Rightarrow> mem_state \<Rightarrow> mem_state" where
  "add_dir p s = mkdir_p (absolute s p) s"

definition add_file :: "path \<Rightarrow> bytes \<Rightarrow> mem_state \<Rightarrow> mem_state" where
  "add_file p b s = (let a = absolute s p; s1 = (if a = [] then s else mkdir_p (butlast a) s) in
     s1\<lparr>ms_files := bt_insert a b (ms_files s1)\<rparr>)"

definition set_cwd :: "path \<Rightarrow> mem_state \<Rightarrow> mem_state" where
  "set_cwd p s = (let a = absolute s p in (mkdir_p a s)\<lparr>ms_cwd := a\<rparr>)"

definition mem_canonicalize :: "mem_state \<Rightarrow> path \<Rightarrow> io_error + path" where
  "mem_canonicalize s p = (let a = absolute s p in
     if mem_is_dir s a \<or> bt_get (ms_files s) a \<noteq> None then Inr (abs_path a) else Inl (NotFound p))"

definition mem_metadata :: "mem_state \<Rightarrow> path \<Rightarrow> io_error + metadata" where
  "mem_metadata s p = (let a = absolute s p in
     if mem_is_dir s a then Inr \<lparr>md_len = 0, md_is_dir = True\<rparr>
     else (case bt_get (ms_files s) a of
       Some b \<Rightarrow> Inr \<lparr>md_len = length b, md_is_dir = False\<rparr> | None \<Rightarrow> Inl (NotFound p)))"

definition mem_read :: "mem_state \<Rightarrow> path \<Rightarrow> io_error + bytes" where
  "mem_read s p = (let a = absolute s p in
     if mem_is_dir s a then Inl (IsADirectory p)
     else (case bt_get (ms_files s) a of Some b \<Rightarrow> Inr b | None \<Rightarrow> Inl (NotFound p)))"

text \<open>The parent of the root is the empty path, which is no directory of the set.\<close>

definition mem_parent_is_dir :: "mem_state \<Rightarrow> names \<Rightarrow> bool" where
  "mem_parent_is_dir s a \<longleftrightarrow> a \<noteq> [] \<and> mem_is_dir s (butlast a)"

definition mem_write :: "mem_state \<Rightarrow> path \<Rightarrow> bytes \<Rightarrow> bool \<Rightarrow> (io_error + unit) \<times> mem_state" where
  "mem_write s p data appending = (let a = absolute s p in
     if mem_is_dir s a then (Inl (IsADirectory p), s)
     else if \<not> mem_parent_is_dir s a then (Inl (NotFound (if a = [] then [] else abs_path (butlast a))), s)
     else (Inr (), s\<lparr>ms_files := bt_insert a
       (if appending then (case bt_get (ms_files s) a of Some b \<Rightarrow> b | None \<Rightarrow> []) @ data else data) (ms_files s)\<rparr>))"

definition mem_read_dir :: "mem_state \<Rightarrow> path \<Rightarrow> io_error + string list" where
  "mem_read_dir s p = (let a = absolute s p in
     if \<not> mem_is_dir s a then Inl (if bt_get (ms_files s) a \<noteq> None then NotADirectory p else NotFound p)
     else Inr (remdups_adj (sort (map last (filter (\<lambda>q. q \<noteq> [] \<and> butlast q = a) (ms_dirs s @ map fst (ms_files s)))))))"

definition mem_remove_file :: "mem_state \<Rightarrow> path \<Rightarrow> (io_error + unit) \<times> mem_state" where
  "mem_remove_file s p = (let a = absolute s p in
     if mem_is_dir s a then (Inl (IsADirectory p), s)
     else if bt_get (ms_files s) a = None then (Inl (NotFound p), s)
     else (Inr (), s\<lparr>ms_files := bt_remove a (ms_files s)\<rparr>))"

definition mem_create_dir_all :: "mem_state \<Rightarrow> path \<Rightarrow> (io_error + unit) \<times> mem_state" where
  "mem_create_dir_all s p = (let a = absolute s p in
     if bt_get (ms_files s) a \<noteq> None then (Inl (AlreadyExists p), s) else (Inr (), mkdir_p a s))"

definition mem_remove_dir_all :: "mem_state \<Rightarrow> path \<Rightarrow> (io_error + unit) \<times> mem_state" where
  "mem_remove_dir_all s p = (let a = absolute s p in
     (Inr (), s\<lparr>ms_files := filter (\<lambda>e. \<not> prefix a (fst e)) (ms_files s),
        ms_dirs := filter (\<lambda>q. \<not> prefix a q \<or> q = []) (ms_dirs s)\<rparr>))"

definition mem_fs :: "mem_state backend" where
  "mem_fs = \<lparr>bk_canonicalize = mem_canonicalize, bk_metadata = mem_metadata, bk_read = mem_read, bk_write = mem_write,
     bk_read_dir = mem_read_dir, bk_remove_file = mem_remove_file, bk_create_dir_all = mem_create_dir_all,
     bk_remove_dir_all = mem_remove_dir_all\<rparr>"

section \<open>What a filesystem without links promises\<close>

text \<open>
  \<open>at s p\<close> is where a path leads, \<open>file\<close> and \<open>dir\<close> what is there; \<open>ok\<close> is the invariant.  Every
  operation acts where its path leads and nowhere else.
\<close>

locale plain_files =
  fixes be :: "'s backend" and ok :: "'s \<Rightarrow> bool" and at_path :: "'s \<Rightarrow> path \<Rightarrow> names"
    and file_at :: "'s \<Rightarrow> names \<Rightarrow> bytes option" and dir_at :: "'s \<Rightarrow> names \<Rightarrow> bool"
  assumes at_root: "has_root p \<Longrightarrow> at_path s p = normalize p"
    and at_join: "at_path s (path_join p [Normal n]) = at_path s p @ [n]"
    and finite_dirs: "ok s \<Longrightarrow> finite {q. dir_at s q}"
    and root_dir: "ok s \<Longrightarrow> dir_at s []"
    and dir_up: "ok s \<Longrightarrow> dir_at s (ns @ [n]) \<Longrightarrow> dir_at s ns"
    and file_up: "ok s \<Longrightarrow> file_at s (ns @ [n]) \<noteq> None \<Longrightarrow> dir_at s ns"
    and canon: "bk_canonicalize be s p = (if dir_at s (at_path s p) \<or> file_at s (at_path s p) \<noteq> None
      then Inr (abs_path (at_path s p)) else Inl (NotFound p))"
    and meta: "bk_metadata be s p = (if dir_at s (at_path s p) then Inr \<lparr>md_len = 0, md_is_dir = True\<rparr>
      else (case file_at s (at_path s p) of Some b \<Rightarrow> Inr \<lparr>md_len = length b, md_is_dir = False\<rparr> | None \<Rightarrow> Inl (NotFound p)))"
    and read: "bk_read be s p = (if dir_at s (at_path s p) then Inl (IsADirectory p)
      else (case file_at s (at_path s p) of Some b \<Rightarrow> Inr b | None \<Rightarrow> Inl (NotFound p)))"
    and listing: "ok s \<Longrightarrow> dir_at s (at_path s p) \<Longrightarrow> \<exists>xs. bk_read_dir be s p = Inr xs \<and> sorted xs \<and> distinct xs \<and>
      set xs = {n. dir_at s (at_path s p @ [n]) \<or> file_at s (at_path s p @ [n]) \<noteq> None}"
    and no_listing: "\<not> dir_at s (at_path s p) \<Longrightarrow>
      bk_read_dir be s p = Inl (if file_at s (at_path s p) \<noteq> None then NotADirectory p else NotFound p)"
    and write_ok: "ok s \<Longrightarrow> bk_write be s p d a = (Inr u, s') \<Longrightarrow>
      ok s' \<and> at_path s' = at_path s \<and> dir_at s' = dir_at s \<and> file_at s' = (file_at s)(at_path s p \<mapsto>
        (if a then (case file_at s (at_path s p) of Some b \<Rightarrow> b | None \<Rightarrow> []) else []) @ d)"
    and write_err: "bk_write be s p d a = (Inl e, s') \<Longrightarrow> s' = s"
    and write_says: "fst (bk_write be s p d a) = (if dir_at s (at_path s p) then Inl (IsADirectory p)
      else if at_path s p = [] then Inl (NotFound [])
      else if \<not> dir_at s (butlast (at_path s p)) then Inl (NotFound (abs_path (butlast (at_path s p)))) else Inr ())"
    and remove_ok: "ok s \<Longrightarrow> bk_remove_file be s p = (Inr u, s') \<Longrightarrow>
      ok s' \<and> at_path s' = at_path s \<and> dir_at s' = dir_at s \<and> file_at s' = (file_at s)(at_path s p := None)
"
    and remove_err: "bk_remove_file be s p = (Inl e, s') \<Longrightarrow> s' = s"
    and remove_says: "fst (bk_remove_file be s p) = (if dir_at s (at_path s p) then Inl (IsADirectory p)
      else if file_at s (at_path s p) = None then Inl (NotFound p) else Inr ())"
    and mkdir_ok: "ok s \<Longrightarrow> bk_create_dir_all be s p = (Inr u, s') \<Longrightarrow>
      ok s' \<and> at_path s' = at_path s \<and> file_at s' = file_at s \<and>
      dir_at s' = (\<lambda>q. dir_at s q \<or> q \<noteq> [] \<and> prefix q (at_path s p))"
    and mkdir_err: "bk_create_dir_all be s p = (Inl e, s') \<Longrightarrow> s' = s"
    and mkdir_can: "file_at s (at_path s p) = None \<Longrightarrow> \<exists>s'. bk_create_dir_all be s p = (Inr (), s')"
    and rmdir_ok: "ok s \<Longrightarrow> bk_remove_dir_all be s p = (r, s') \<Longrightarrow>
      r = Inr () \<and> ok s' \<and> at_path s' = at_path s \<and>
      file_at s' = (\<lambda>q. if prefix (at_path s p) q then None else file_at s q) \<and>
      dir_at s' = (\<lambda>q. dir_at s q \<and> (\<not> prefix (at_path s p) q \<or> q = []))"

lemma fold_names: "foldl fold_part out (map Normal ns) = out @ ns"
  by (induction ns arbitrary: out) auto

lemma normalize_abs [simp]: "normalize (abs_path ns) = ns"
  by (simp add: normalize_def abs_path_def fold_names)

lemma has_root_abs [simp]: "has_root (abs_path ns)"
  by (simp add: has_root_def abs_path_def)

lemma absolute_abs [simp]: "absolute s (abs_path ns) = ns"
  by (simp add: absolute_def)

definition mem_file :: "mem_state \<Rightarrow> names \<Rightarrow> bytes option" where
  "mem_file s a = bt_get (ms_files s) a"

definition closed_up :: "(names \<Rightarrow> bool) \<Rightarrow> (names \<Rightarrow> bytes option) \<Rightarrow> bool" where
  "closed_up d f \<longleftrightarrow> d [] \<and> (\<forall>q n. d (q @ [n]) \<or> f (q @ [n]) \<noteq> None \<longrightarrow> d q)"

lemma closed_up_put: "closed_up d f \<Longrightarrow> (\<And>q n. q @ [n] = a \<Longrightarrow> d q) \<Longrightarrow> closed_up d (f(a \<mapsto> b))"
  unfolding closed_up_def by (metis fun_upd_apply)

lemma closed_up_del: "closed_up d f \<Longrightarrow> closed_up d (f(a := None))"
  unfolding closed_up_def by (metis fun_upd_apply)

lemma closed_up_mkdir: "closed_up d f \<Longrightarrow> closed_up (\<lambda>q. d q \<or> q \<noteq> [] \<and> prefix q a) f"
  unfolding closed_up_def by (metis append_prefixD)

lemma closed_up_rmdir: "closed_up d f \<Longrightarrow>
    closed_up (\<lambda>q. d q \<and> (\<not> prefix a q \<or> q = [])) (\<lambda>q. if prefix a q then None else f q)"
  unfolding closed_up_def by (auto split: if_splits)

text \<open>The maps are maps, and what is there has a directory above it.\<close>

definition mem_ok :: "mem_state \<Rightarrow> bool" where
  "mem_ok s \<longleftrightarrow> bt_ok (ms_files s) \<and> sorted (ms_dirs s) \<and> distinct (ms_dirs s) \<and> closed_up (mem_is_dir s) (mem_file s)"

lemma absolute_same: "ms_cwd s' = ms_cwd s \<Longrightarrow> absolute s' = absolute s"
  by (simp add: absolute_def fun_eq_iff)

lemma set_insort_insert: "set (insort_insert x xs) = insert x (set xs)"
  by (auto simp: insort_insert_key_def set_insort_key)

lemma set_mkdirs: "set (mkdirs cur ns dirs) = set dirs \<union> {q. \<exists>k. 0 < k \<and> k \<le> length ns \<and> q = cur @ take k ns}"
proof (induction ns arbitrary: cur dirs)
  case (Cons n ns)
  have "(\<exists>k. 0 < k \<and> k \<le> length (n # ns) \<and> q = cur @ take k (n # ns)) \<longleftrightarrow>
      q = cur @ [n] \<or> (\<exists>k. 0 < k \<and> k \<le> length ns \<and> q = (cur @ [n]) @ take k ns)" for q
  proof
    assume "\<exists>k. 0 < k \<and> k \<le> length (n # ns) \<and> q = cur @ take k (n # ns)"
    then obtain k where k: "0 < k" "k \<le> length (n # ns)" "q = cur @ take k (n # ns)" by blast
    then obtain j where "k = Suc j" by (cases k) auto
    with k show "q = cur @ [n] \<or> (\<exists>k. 0 < k \<and> k \<le> length ns \<and> q = (cur @ [n]) @ take k ns)"
      by (cases j) auto
  next
    assume "q = cur @ [n] \<or> (\<exists>k. 0 < k \<and> k \<le> length ns \<and> q = (cur @ [n]) @ take k ns)"
    then show "\<exists>k. 0 < k \<and> k \<le> length (n # ns) \<and> q = cur @ take k (n # ns)"
      by (auto intro: exI [of _ 1] exI [of _ "Suc k" for k])
  qed
  with Cons show ?case by (auto simp: set_insort_insert)
qed auto

lemma prefix_take_iff: "(\<exists>k. 0 < k \<and> k \<le> length a \<and> q = take k a) \<longleftrightarrow> q \<noteq> [] \<and> prefix q a"
proof
  assume "q \<noteq> [] \<and> prefix q a"
  then show "\<exists>k. 0 < k \<and> k \<le> length a \<and> q = take k a"
    by (auto simp: prefix_def intro!: exI [of _ "length q"])
qed (auto simp: take_is_prefix)

lemma mem_is_dir_mkdir: "mem_is_dir (mkdir_p a s) q \<longleftrightarrow> mem_is_dir s q \<or> q \<noteq> [] \<and> prefix q a"
  using prefix_take_iff [of a q] by (auto simp: mem_is_dir_def mkdir_p_def set_mkdirs)

lemma mkdirs_ok: "sorted dirs \<and> distinct dirs \<Longrightarrow> sorted (mkdirs cur ns dirs) \<and> distinct (mkdirs cur ns dirs)"
  by (induction ns arbitrary: cur dirs) (auto simp: sorted_insort_insert distinct_insort_insert)

lemma sorted_remdups_adj_distinct: "sorted xs \<Longrightarrow> sorted (remdups_adj xs) \<and> distinct (remdups_adj xs)"
  by (induction xs rule: remdups_adj.induct) auto

lemma last_children: "last ` {q. P q \<and> q \<noteq> [] \<and> butlast q = a} = {n. P (a @ [n])}"
proof (intro set_eqI iffI)
  fix n assume "n \<in> {n. P (a @ [n])}"
  then show "n \<in> last ` {q. P q \<and> q \<noteq> [] \<and> butlast q = a}" by (intro image_eqI [of _ _ "a @ [n]"]) auto
qed (auto dest: append_butlast_last_id)

lemma get_under: "bt_get (filter (\<lambda>e. \<not> prefix a (fst e)) m) q = (if prefix a q then None else bt_get m q)"
  for a q :: names and m :: "(names \<times> bytes) list"
  by (induction m) (auto simp: bt_get_def)

lemma mem_write_ok: "mem_ok s \<Longrightarrow> mem_write s p d ap = (Inr u, s') \<Longrightarrow>
    mem_ok s' \<and> absolute s' = absolute s \<and> mem_is_dir s' = mem_is_dir s \<and> mem_file s' = (mem_file s)(absolute s p \<mapsto>
      (if ap then (case mem_file s (absolute s p) of Some b \<Rightarrow> b | None \<Rightarrow> []) else []) @ d)"
proof -
  assume ok: "mem_ok s" and w: "mem_write s p d ap = (Inr u, s')"
  let ?a = "absolute s p" and ?b = "(if ap then (case mem_file s (absolute s p) of Some b \<Rightarrow> b | None \<Rightarrow> []) else []) @ d"
  have s': "s' = s\<lparr>ms_files := bt_insert ?a ?b (ms_files s)\<rparr>" and up: "mem_parent_is_dir s ?a"
    using w by (auto simp: mem_write_def Let_def mem_file_def split: if_splits)
  have f: "mem_file s' = (mem_file s)(?a \<mapsto> ?b)" using ok by (auto simp: s' mem_file_def mem_ok_def bt.get_ins)
  have d: "mem_is_dir s' = mem_is_dir s" by (simp add: s' mem_is_dir_def fun_eq_iff)
  have "mem_is_dir s q" if "q @ [n] = ?a" for q n
    using up unfolding that [symmetric] by (simp add: mem_parent_is_dir_def)
  then have "closed_up (mem_is_dir s) ((mem_file s)(?a \<mapsto> ?b))" using ok closed_up_put [of "mem_is_dir s" "mem_file s" ?a ?b] by (simp add: mem_ok_def)
  with ok have "mem_ok s'" unfolding mem_ok_def f d by (simp add: s' bt.ok_ins)
  with f d show ?thesis using absolute_same [of s' s] by (simp add: s')
qed

lemma mem_remove_ok: "mem_ok s \<Longrightarrow> mem_remove_file s p = (Inr u, s') \<Longrightarrow>
    mem_ok s' \<and> absolute s' = absolute s \<and> mem_is_dir s' = mem_is_dir s \<and> mem_file s' = (mem_file s)(absolute s p := None)"
proof -
  assume ok: "mem_ok s" and r: "mem_remove_file s p = (Inr u, s')"
  have s': "s' = s\<lparr>ms_files := bt_remove (absolute s p) (ms_files s)\<rparr>" "True"
    using r by (auto simp: mem_remove_file_def Let_def mem_file_def split: if_splits)
  have f: "mem_file s' = (mem_file s)(absolute s p := None)" by (simp add: s' mem_file_def fun_eq_iff bt_get_remove)
  have d: "mem_is_dir s' = mem_is_dir s" by (simp add: s' mem_is_dir_def fun_eq_iff)
  have "mem_ok s'" using ok closed_up_del [of "mem_is_dir s" "mem_file s" "absolute s p"] unfolding mem_ok_def f d by (simp add: s' bt_ok_remove)
  with f d s' show ?thesis using absolute_same [of s' s] by simp
qed

lemma mem_mkdir_ok: "mem_ok s \<Longrightarrow> mem_ok (mkdir_p a s)"
proof -
  assume ok: "mem_ok s"
  have f: "mem_file (mkdir_p a s) = mem_file s" by (simp add: mem_file_def mkdir_p_def fun_eq_iff)
  have d: "mem_is_dir (mkdir_p a s) = (\<lambda>q. mem_is_dir s q \<or> q \<noteq> [] \<and> prefix q a)"
    using mem_is_dir_mkdir by blast
  show ?thesis
    using ok closed_up_mkdir [of "mem_is_dir s" "mem_file s" a] unfolding mem_ok_def f d by (simp add: mkdir_p_def mkdirs_ok)
qed

lemma mem_rmdir_ok:
  assumes "mem_ok s" and "mem_remove_dir_all s p = (r, s')"
  shows "r = Inr () \<and> mem_ok s' \<and> absolute s' = absolute s \<and>
    mem_file s' = (\<lambda>q. if prefix (absolute s p) q then None else mem_file s q) \<and>
    mem_is_dir s' = (\<lambda>q. mem_is_dir s q \<and> (\<not> prefix (absolute s p) q \<or> q = []))"
proof -
  let ?a = "absolute s p"
  have s': "s' = s\<lparr>ms_files := filter (\<lambda>e. \<not> prefix ?a (fst e)) (ms_files s),
        ms_dirs := filter (\<lambda>q. \<not> prefix ?a q \<or> q = []) (ms_dirs s)\<rparr>" "r = Inr ()"
    using assms(2) by (simp_all add: mem_remove_dir_all_def Let_def)
  have f: "mem_file s' = (\<lambda>q. if prefix ?a q then None else mem_file s q)"
    unfolding s'(1) by (simp add: mem_file_def fun_eq_iff get_under)
  have d: "mem_is_dir s' = (\<lambda>q. mem_is_dir s q \<and> (\<not> prefix ?a q \<or> q = []))"
    unfolding s'(1) by (auto simp: mem_is_dir_def fun_eq_iff)
  have "bt_ok (ms_files s') \<and> sorted (ms_dirs s') \<and> distinct (ms_dirs s')"
    unfolding s'(1) using assms(1) by (auto simp: mem_ok_def bt_ok_filter sorted_wrt_filter)
  with assms(1) have "mem_ok s'" using closed_up_rmdir [of "mem_is_dir s" "mem_file s" ?a] unfolding mem_ok_def f d by simp
  with f d s' show ?thesis using absolute_same [of s' s] by simp
qed

lemma absolute_join: "absolute s (path_join p [Normal n]) = absolute s p @ [n]"
proof -
  have "has_root (p @ [Normal n]) \<longleftrightarrow> has_root p" by (cases p) (auto simp: has_root_def)
  moreover have "\<not> has_root [Normal n]" by (simp add: has_root_def)
  moreover have "abs_path ns \<noteq> []" for ns by (simp add: abs_path_def)
  ultimately show ?thesis
    by (cases "p = []") (simp_all add: absolute_def path_join_def normalize_def)
qed

interpretation mem: plain_files mem_fs mem_ok absolute mem_file mem_is_dir
proof (unfold_locales, goal_cases)
  case (2 s p n)
  then show ?case by (simp add: absolute_join)
next
  case (3 s)
  then show ?case by (simp add: mem_is_dir_def)
next
  case (10 s p)
  define xs where xs: "xs = remdups_adj (sort (map last (filter (\<lambda>q. q \<noteq> [] \<and> butlast q = absolute s p) (ms_dirs s @ map fst (ms_files s)))))"
  have "bk_read_dir mem_fs s p = Inr xs" unfolding xs using 10(2) by (simp add: mem_fs_def mem_read_dir_def Let_def)
  moreover have "sorted xs \<and> distinct xs" unfolding xs by (rule sorted_remdups_adj_distinct) simp
  moreover have "set xs = last ` {q \<in> set (ms_dirs s @ map fst (ms_files s)). q \<noteq> [] \<and> butlast q = absolute s p}"
    unfolding xs by (simp only: remdups_adj_set set_sort set_map set_filter)
  moreover have "q \<in> set (ms_dirs s @ map fst (ms_files s)) \<longleftrightarrow> mem_is_dir s q \<or> mem_file s q \<noteq> None" for q
    by (simp add: mem_file_def mem_is_dir_def bt_get_def map_of_eq_None_iff)
  ultimately show ?case using last_children [of "\<lambda>q. mem_is_dir s q \<or> mem_file s q \<noteq> None" "absolute s p"] by simp
next
  case (11 s p)
  then show ?case by (simp add: mem_fs_def mem_read_dir_def mem_file_def)
next
  case (12 s p d a u s')
  then show ?case using mem_write_ok by (simp add: mem_fs_def)
next
  case (15 s p u s')
  then show ?case using mem_remove_ok by (simp add: mem_fs_def)
next
  case (18 s p u s')
  then have "s' = mkdir_p (absolute s p) s" by (auto simp: mem_fs_def mem_create_dir_all_def Let_def split: if_splits)
  then show ?case using mem_mkdir_ok [OF 18(1)] mem_is_dir_mkdir [of "absolute s p" s]
    by (auto simp: mem_file_def mkdir_p_def fun_eq_iff absolute_def)
next
  case (21 s p r s')
  then show ?case using mem_rmdir_ok by (simp add: mem_fs_def)
qed (auto simp: mem_fs_def mem_canonicalize_def mem_metadata_def mem_read_def mem_write_def mem_remove_file_def mem_create_dir_all_def
    Let_def mem_file_def mem_parent_is_dir_def mem_ok_def closed_up_def absolute_def split: if_splits option.splits)

end
