(* ===== verification/Fs_Connector.thy ===== *)
theory Fs_Connector
  imports Mem_Fs Caps
begin

text \<open>
  The \<^verbatim>\<open>fs\<close> connector, \<^verbatim>\<open>connectors/fs/src/lib.rs\<close>: the scope that grants a directory or a volume, the jail
  \<open>fs_resolve\<close> and the four calls, over any \<open>backend\<close>.  Reading a scope and the arguments of a call out of
  a message value is the work of a derived decoder, which is the record \<open>fs_codec\<close>; opening a volume is
  the parameter \<open>open_vol\<close>.  A refusal is a constructor of \<open>fs_error\<close>.  The lemmas show, over every filesystem without
  links, that a call touches and tells nothing outside the granted directory; and that a write follows a link that is
  the last part of its path.
\<close>

section \<open>Scopes\<close>

definition default_max_bytes :: nat where "default_max_bytes = 1024 * 1024"

definition default_volume :: string where "default_volume = ''drt''"

record fs_scope =
  sc_scope :: string
  sc_access :: "string option"
  sc_max_bytes :: "nat option"

record volume_scope =
  vs_file :: string
  vs_volume :: "string option"
  vs_mount :: "string option"
  vs_access :: "string option"
  vs_max_bytes :: "nat option"

record write_args =
  wa_path :: string
  wa_data :: "val option"
  wa_append :: bool

record fs_codec =
  dec_scope :: "val \<Rightarrow> string + fs_scope"
  dec_volume :: "val \<Rightarrow> string + volume_scope"
  dec_path :: "val \<Rightarrow> string + string"
  dec_write :: "val \<Rightarrow> string + write_args"

datatype fs_error =
    ScopeRequired
  | ScopeNotRead string
  | NoDirectory
  | BadAccess string
  | ScopeUnresolved string io_error
  | PathIsAbsolute string
  | PathIsEmpty
  | OutsideScope string
  | AtPath string io_error
  | NoParentDirectory string
  | ContainingDirectory string io_error
  | NamesNoFile string
  | NoVolumeFile
  | VolumeFails string
  | ReadOnlyScope string
  | ArgsMissing string
  | ArgsNotRead string
  | FileTooLarge string nat nat
  | WriteTooLarge string nat nat
  | NoData
  | UnknownFsCall string

definition fs_scope_parse :: "fs_codec \<Rightarrow> scope option \<Rightarrow> fs_error + fs_scope" where
  "fs_scope_parse cod sc = (case sc of None \<Rightarrow> Inl ScopeRequired
   | Some v \<Rightarrow> (case (case val_as_str v of
         Some dir \<Rightarrow> Inr \<lparr>sc_scope = dir, sc_access = None, sc_max_bytes = None\<rparr> | None \<Rightarrow> dec_scope cod v) of
       Inl e \<Rightarrow> Inl (ScopeNotRead e)
     | Inr parsed \<Rightarrow>
        (if sc_scope parsed = [] then Inl NoDirectory
         else (case sc_access parsed of
           None \<Rightarrow> Inr parsed
         | Some a \<Rightarrow> (if a = ''read'' \<or> a = ''readwrite'' then Inr parsed else Inl (BadAccess a))))))"

definition writable :: "fs_scope \<Rightarrow> bool" where
  "writable sc \<longleftrightarrow> sc_access sc = Some ''readwrite''"

definition max_bytes :: "fs_scope \<Rightarrow> nat" where
  "max_bytes sc = (case sc_max_bytes sc of Some n \<Rightarrow> n | None \<Rightarrow> default_max_bytes)"

definition fs_root :: "'s backend \<Rightarrow> 's \<Rightarrow> fs_scope \<Rightarrow> fs_error + path" where
  "fs_root be s sc = (case bk_canonicalize be s (path_of (sc_scope sc)) of
     Inl e \<Rightarrow> Inl (ScopeUnresolved (sc_scope sc) e) | Inr p \<Rightarrow> Inr p)"

fun lex_depth :: "int \<Rightarrow> path \<Rightarrow> bool" where
  "lex_depth d [] = True"
| "lex_depth d (CurDir # cs) = lex_depth d cs"
| "lex_depth d (ParentDir # cs) = (if d - 1 < 0 then False else lex_depth (d - 1) cs)"
| "lex_depth d (Normal n # cs) = lex_depth (d + 1) cs"
| "lex_depth d (RootDir # cs) = False"

definition lexically_within :: "path \<Rightarrow> bool" where
  "lexically_within rel \<longleftrightarrow> lex_depth 0 rel"

definition fs_resolve :: "'s backend \<Rightarrow> 's \<Rightarrow> fs_scope \<Rightarrow> string \<Rightarrow> bool \<Rightarrow> fs_error + path" where
  "fs_resolve be s sc rel must_exist = (case fs_root be s sc of Inl e \<Rightarrow> Inl e
   | Inr base \<Rightarrow>
     (if has_root (path_of rel) then Inl (PathIsAbsolute rel)
      else if rel = [] then Inl PathIsEmpty
      else if \<not> lexically_within (path_of rel) then Inl (OutsideScope rel)
      else (let joined = path_join base (path_of rel) in
        case (if must_exist then (case bk_canonicalize be s joined of Inl e \<Rightarrow> Inl (AtPath rel e) | Inr p \<Rightarrow> Inr p)
          else (case path_parent joined of None \<Rightarrow> Inl (NoParentDirectory rel)
            | Some par \<Rightarrow> (case bk_canonicalize be s par of Inl e \<Rightarrow> Inl (ContainingDirectory rel e)
              | Inr cpar \<Rightarrow> (case path_file_name joined of None \<Rightarrow> Inl (NamesNoFile rel)
                | Some name \<Rightarrow> Inr (path_join cpar [Normal name]))))) of
          Inl e \<Rightarrow> Inl e
        | Inr resolved \<Rightarrow> (if \<not> starts_with resolved base then Inl (OutsideScope rel) else Inr resolved))))"

section \<open>Grants\<close>

datatype fs_grant = GrantDir fs_scope | GrantVolume volume_scope

definition fs_grant_parse :: "fs_codec \<Rightarrow> scope option \<Rightarrow> fs_error + fs_grant" where
  "fs_grant_parse cod sc =
     (let names_a_volume = (case Option.bind sc val_as_map of None \<Rightarrow> False
            | Some m \<Rightarrow> list_ex (\<lambda>e. val_as_str (fst e) = Some ''volume_file'') m) in
      if \<not> names_a_volume then map_sum id GrantDir (fs_scope_parse cod sc)
      else (case dec_volume cod (the sc) of
         Inl e \<Rightarrow> Inl (ScopeNotRead e)
       | Inr v \<Rightarrow>
          (if vs_file v = [] then Inl NoVolumeFile
           else (case fs_scope_parse cod (Some (VMap [(VStr ''scope'', VStr ''/''),
                (VStr ''access'', VStr (case vs_access v of Some a \<Rightarrow> a | None \<Rightarrow> ''read''))])) of
             Inl e \<Rightarrow> Inl e | Inr _ \<Rightarrow> Inr (GrantVolume v)))))"

text \<open>What names a mount: the file, the volume, the mount point, and whether it may be written.\<close>

type_synonym mount_key = "string \<times> string \<times> string \<times> bool"
type_synonym 's volumes = "(mount_key \<times> 's backend) list"

definition volume_key :: "volume_scope \<Rightarrow> mount_key" where
  "volume_key v = (vs_file v, (case vs_volume v of Some n \<Rightarrow> n | None \<Rightarrow> default_volume),
     (case vs_mount v of Some p \<Rightarrow> p | None \<Rightarrow> ''/''), vs_access v = Some ''readwrite'')"

definition volumes_get :: "(mount_key \<Rightarrow> string + 's backend) \<Rightarrow> 's volumes \<Rightarrow> volume_scope
    \<Rightarrow> (string + 's backend) \<times> 's volumes" where
  "volumes_get open_vol vs v = (let k = volume_key v in
     case map_of vs k of Some be \<Rightarrow> (Inr be, vs)
     | None \<Rightarrow> (case open_vol k of Inl e \<Rightarrow> (Inl e, vs) | Inr be \<Rightarrow> (Inr be, (k, be) # vs)))"

definition grant_open :: "(mount_key \<Rightarrow> string + 's backend) \<Rightarrow> 's backend \<Rightarrow> 's volumes \<Rightarrow> fs_grant
    \<Rightarrow> (fs_error + fs_scope \<times> 's backend) \<times> 's volumes" where
  "grant_open open_vol host vs g = (case g of
     GrantDir sc \<Rightarrow> (Inr (sc, host), vs)
   | GrantVolume v \<Rightarrow> (case volumes_get open_vol vs v of
       (Inl e, vs') \<Rightarrow> (Inl (VolumeFails e), vs')
     | (Inr be, vs') \<Rightarrow> (Inr (\<lparr>sc_scope = ''/'', sc_access = vs_access v, sc_max_bytes = vs_max_bytes v\<rparr>, be), vs')))"

definition dir_scope_validate :: "fs_codec \<Rightarrow> 's backend \<Rightarrow> 's \<Rightarrow> scope option \<Rightarrow> fs_error + unit" where
  "dir_scope_validate cod be s sc = (case fs_scope_parse cod sc of Inl e \<Rightarrow> Inl e
   | Inr jail \<Rightarrow> map_sum id (\<lambda>_. ()) (fs_root be s jail))"

definition grant_scope_validate :: "(mount_key \<Rightarrow> string + 's backend) \<Rightarrow> fs_codec \<Rightarrow> 's backend \<Rightarrow> 's \<Rightarrow> 's volumes
    \<Rightarrow> scope option \<Rightarrow> (fs_error + unit) \<times> 's volumes" where
  "grant_scope_validate open_vol cod host s vs sc = (case fs_grant_parse cod sc of Inl e \<Rightarrow> (Inl e, vs)
   | Inr g \<Rightarrow> (case grant_open open_vol host vs g of
       (Inl e, vs') \<Rightarrow> (Inl e, vs')
     | (Inr (jail, be), vs') \<Rightarrow> (map_sum id (\<lambda>_. ()) (fs_root be s jail), vs')))"

section \<open>The calls\<close>

fun bytes_of :: "val \<Rightarrow> bytes option" where
  "bytes_of (VStr s) = Some (map (\<lambda>c. word_of_nat (of_char c)) s)"
| "bytes_of (VBin b) = Some b"
| "bytes_of _ = None"

definition fs_read :: "fs_codec \<Rightarrow> 's backend \<Rightarrow> 's \<Rightarrow> fs_scope \<Rightarrow> val option \<Rightarrow> fs_error + val" where
  "fs_read cod be s sc args = (case args of None \<Rightarrow> Inl (ArgsMissing ''{path}'')
   | Some a \<Rightarrow> (case dec_path cod a of Inl e \<Rightarrow> Inl (ArgsNotRead e)
     | Inr rel \<Rightarrow> (case fs_resolve be s sc rel True of Inl e \<Rightarrow> Inl e
       | Inr p \<Rightarrow> (case bk_metadata be s p of Inl e \<Rightarrow> Inl (AtPath rel e)
         | Inr m \<Rightarrow> (if md_len m > max_bytes sc then Inl (FileTooLarge rel (md_len m) (max_bytes sc))
             else (case bk_read be s p of Inl e \<Rightarrow> Inl (AtPath rel e) | Inr b \<Rightarrow> Inr (VBin b)))))))"

definition fs_write :: "fs_codec \<Rightarrow> 's backend \<Rightarrow> 's \<Rightarrow> fs_scope \<Rightarrow> val option \<Rightarrow> (fs_error + val) \<times> 's" where
  "fs_write cod be s sc args = (case args of None \<Rightarrow> (Inl (ArgsMissing ''{path, data, append?}''), s)
   | Some a \<Rightarrow> (case dec_write cod a of Inl e \<Rightarrow> (Inl (ArgsNotRead e), s)
     | Inr wa \<Rightarrow> (case Option.bind (wa_data wa) bytes_of of None \<Rightarrow> (Inl NoData, s)
       | Some data \<Rightarrow> (case fs_resolve be s sc (wa_path wa) False of Inl e \<Rightarrow> (Inl e, s)
         | Inr p \<Rightarrow>
           (let existing = (if wa_append wa then (case bk_metadata be s p of Inr m \<Rightarrow> md_len m | Inl _ \<Rightarrow> 0) else 0) in
            if existing + length data > max_bytes sc
            then (Inl (WriteTooLarge (wa_path wa) (existing + length data) (max_bytes sc)), s)
            else (case bk_write be s p data (wa_append wa) of
              (Inl e, s') \<Rightarrow> (Inl (AtPath (wa_path wa) e), s') | (Inr _, s') \<Rightarrow> (Inr VNil, s')))))))"

definition fs_list_path :: "val option \<Rightarrow> string" where
  "fs_list_path args = (case Option.bind (Option.bind (Option.bind args val_as_map) (map_field ''path'')) val_as_str of
     Some p \<Rightarrow> p | None \<Rightarrow> ''.'')"

definition fs_list :: "'s backend \<Rightarrow> 's \<Rightarrow> fs_scope \<Rightarrow> val option \<Rightarrow> fs_error + val" where
  "fs_list be s sc args = (let rel = fs_list_path args in
     case fs_resolve be s sc rel True of Inl e \<Rightarrow> Inl e
     | Inr p \<Rightarrow> (case bk_read_dir be s p of Inl e \<Rightarrow> Inl (AtPath rel e) | Inr ns \<Rightarrow> Inr (VArr (map VStr ns))))"

definition fs_remove :: "fs_codec \<Rightarrow> 's backend \<Rightarrow> 's \<Rightarrow> fs_scope \<Rightarrow> val option \<Rightarrow> (fs_error + val) \<times> 's" where
  "fs_remove cod be s sc args = (case args of None \<Rightarrow> (Inl (ArgsMissing ''{path}''), s)
   | Some a \<Rightarrow> (case dec_path cod a of Inl e \<Rightarrow> (Inl (ArgsNotRead e), s)
     | Inr rel \<Rightarrow> (case fs_resolve be s sc rel True of Inl e \<Rightarrow> (Inl e, s)
       | Inr p \<Rightarrow> (case bk_remove_file be s p of
           (Inl e, s') \<Rightarrow> (Inl (AtPath rel e), s') | (Inr _, s') \<Rightarrow> (Inr VNil, s')))))"

definition fs_dispatch :: "fs_codec \<Rightarrow> 's backend \<Rightarrow> 's \<Rightarrow> fs_scope \<Rightarrow> string \<Rightarrow> val option \<Rightarrow> (fs_error + val) \<times> 's" where
  "fs_dispatch cod be s sc call args =
     (if (call = ''fs/write'' \<or> call = ''fs/remove'') \<and> \<not> writable sc then (Inl (ReadOnlyScope call), s)
      else if call = ''fs/read'' then (fs_read cod be s sc args, s)
      else if call = ''fs/write'' then fs_write cod be s sc args
      else if call = ''fs/list'' then (fs_list be s sc args, s)
      else if call = ''fs/remove'' then fs_remove cod be s sc args
      else (Inl (UnknownFsCall call), s))"

definition fs_call :: "(mount_key \<Rightarrow> string + 's backend) \<Rightarrow> fs_codec \<Rightarrow> 's backend \<Rightarrow> 's \<Rightarrow> 's volumes
    \<Rightarrow> string \<Rightarrow> val option \<Rightarrow> scope option \<Rightarrow> (fs_error + val) \<times> 's \<times> 's volumes" where
  "fs_call open_vol cod host s vs call args sc = (case fs_grant_parse cod sc of Inl e \<Rightarrow> (Inl e, s, vs)
   | Inr g \<Rightarrow> (case grant_open open_vol host vs g of
       (Inl e, vs') \<Rightarrow> (Inl e, s, vs')
     | (Inr (jail, be), vs') \<Rightarrow> (let (r, s') = fs_dispatch cod be s jail call args in (r, s', vs'))))"

section \<open>The jail\<close>

lemma lex_within_under:
  "lex_depth d cs \<Longrightarrow> 0 \<le> d \<Longrightarrow> nat d \<le> length sub \<Longrightarrow> \<exists>u. foldl fold_part (base @ sub) cs = base @ u"
proof (induction d cs arbitrary: sub rule: lex_depth.induct)
  case (3 d cs)
  then have "sub \<noteq> []" by (auto split: if_splits)
  with 3 show ?case by (auto simp: butlast_append split: if_splits)
next
  case (4 d n cs)
  have "\<exists>u. foldl fold_part (base @ (sub @ [n])) cs = base @ u"
    using 4 by (intro "4.IH") (auto simp: nat_add_distrib)
  then show ?case by simp
qed auto

lemma lex_depth_butlast: "lex_depth d cs \<Longrightarrow> lex_depth d (butlast cs)"
  by (induction d cs rule: lex_depth.induct) (auto split: if_splits)

lemma lex_depth_filter: "lex_depth d cs \<Longrightarrow> lex_depth d (filter (\<lambda>c. c \<noteq> CurDir) cs)"
  by (induction d cs rule: lex_depth.induct) auto

lemma lex_depth_no_root: "lex_depth d cs \<Longrightarrow> RootDir \<notin> set cs"
  by (induction d cs rule: lex_depth.induct) (auto split: if_splits)

lemma normalize_under:
  assumes "lex_depth 0 cs"
  shows "\<exists>u. normalize (abs_path base @ cs) = base @ u"
  using lex_within_under [OF assms, of "[]" base] by (simp add: normalize_def abs_path_def fold_names)

lemma starts_with_abs [simp]: "starts_with (abs_path a) (abs_path b) \<longleftrightarrow> prefix b a"
proof -
  have inj: "inj Normal" by (simp add: inj_def)
  have "prefix b a" if "prefix (map Normal b) (map Normal a)"
  proof -
    obtain zs where "map Normal a = map Normal b @ zs" using \<open>prefix (map Normal b) (map Normal a)\<close> by (auto simp: prefix_def)
    then obtain us vs where "a = us @ vs" "map Normal us = map Normal b" by (auto simp: map_eq_append_conv)
    with inj show ?thesis by (simp add: inj_map_eq_map)
  qed
  then show ?thesis by (auto simp: starts_with_def abs_path_def map_mono_prefix)
qed

lemma path_join_name [simp]: "path_join (abs_path a) [Normal n] = abs_path (a @ [n])"
  by (simp add: path_join_def has_root_def abs_path_def)

lemma fs_resolve_InrD:
  assumes "fs_resolve be s sc rel m = Inr p"
  obtains r where "fs_root be s sc = Inr r" "starts_with p r" "m \<Longrightarrow> bk_canonicalize be s (path_join r (path_of rel)) = Inr p"
    "\<not> m \<Longrightarrow> \<exists>par cpar n. bk_canonicalize be s par = Inr cpar \<and> p = path_join cpar [Normal n]"
proof -
  obtain r where r: "fs_root be s sc = Inr r" using assms by (auto simp: fs_resolve_def split: sum.splits)
  show ?thesis
  proof (rule that [OF r])
    show "starts_with p r" using assms unfolding fs_resolve_def r by (simp add: Let_def split: sum.splits if_splits)
    show "bk_canonicalize be s (path_join r (path_of rel)) = Inr p" if m
      using assms that unfolding fs_resolve_def r by (simp add: Let_def split: sum.splits if_splits)
    show "\<exists>par cpar n. bk_canonicalize be s par = Inr cpar \<and> p = path_join cpar [Normal n]" if "\<not> m"
      using assms that unfolding fs_resolve_def r by (simp add: Let_def split: sum.splits if_splits option.splits) blast
  qed
qed

lemma fs_write_InrD:
  assumes "fs_write cod be s sc args = (Inr v, s')"
  obtains wa :: write_args and data p where "Option.bind (wa_data wa) bytes_of = Some data" "fs_resolve be s sc (wa_path wa) False = Inr p"
      "(if wa_append wa then (case bk_metadata be s p of Inr m \<Rightarrow> md_len m | Inl _ \<Rightarrow> 0) else 0) + length data \<le> max_bytes sc"
      "bk_write be s p data (wa_append wa) = (Inr (), s')"
proof -
  obtain a where a: "args = Some a" using assms by (cases args) (auto simp: fs_write_def)
  obtain wa where wa: "dec_write cod a = Inr wa" using assms by (cases "dec_write cod a") (auto simp: fs_write_def a)
  obtain data where d: "Option.bind (wa_data wa) bytes_of = Some data"
    using assms by (cases "Option.bind (wa_data wa) bytes_of") (auto simp: fs_write_def a wa)
  obtain p where p: "fs_resolve be s sc (wa_path wa) False = Inr p"
    using assms by (cases "fs_resolve be s sc (wa_path wa) False") (auto simp: fs_write_def a wa d)
  obtain r t where w: "bk_write be s p data (wa_append wa) = (r, t)" by fastforce
  show ?thesis
    using assms that [OF d p] unfolding fs_write_def a wa option.case sum.case d p Let_def w
    by (cases r) (simp_all split: if_splits)
qed

lemma fs_remove_InrD:
  assumes "fs_remove cod be s sc args = (Inr v, s')"
  obtains rel p where "fs_resolve be s sc rel True = Inr p" "bk_remove_file be s p = (Inr (), s')"
proof -
  obtain a where a: "args = Some a" using assms by (cases args) (auto simp: fs_remove_def)
  obtain rel where rel: "dec_path cod a = Inr rel" using assms by (cases "dec_path cod a") (auto simp: fs_remove_def a)
  obtain p where p: "fs_resolve be s sc rel True = Inr p"
    using assms by (cases "fs_resolve be s sc rel True") (auto simp: fs_remove_def a rel)
  obtain r t where w: "bk_remove_file be s p = (r, t)" by fastforce
  show ?thesis
    using assms that [OF p] unfolding fs_remove_def a rel option.case sum.case p w by (cases r) simp_all
qed

lemma fs_read_InrD:
  assumes "fs_read cod be s sc args = Inr v"
  obtains rel p m b where "fs_resolve be s sc rel True = Inr p" "bk_metadata be s p = Inr m" "md_len m \<le> max_bytes sc"
    "bk_read be s p = Inr b" "v = VBin b"
proof -
  obtain a where a: "args = Some a" using assms by (cases args) (auto simp: fs_read_def)
  obtain rel where rel: "dec_path cod a = Inr rel" using assms by (cases "dec_path cod a") (auto simp: fs_read_def a)
  obtain p where p: "fs_resolve be s sc rel True = Inr p"
    using assms by (cases "fs_resolve be s sc rel True") (auto simp: fs_read_def a rel)
  obtain m where m: "bk_metadata be s p = Inr m" using assms by (cases "bk_metadata be s p") (auto simp: fs_read_def a rel p)
  show ?thesis
    using assms that [OF p m] unfolding fs_read_def a rel option.case sum.case p m
    by (cases "bk_read be s p") (simp_all split: if_splits)
qed

text \<open>Where a scope leads.\<close>

context plain_files
begin

lemma at_abs [simp]: "at_path s (abs_path ns) = ns"
  by (simp add: at_root)

lemma canon_Inr: "bk_canonicalize be s p = Inr q \<longleftrightarrow>
    q = abs_path (at_path s p) \<and> (dir_at s (at_path s p) \<or> file_at s (at_path s p) \<noteq> None)"
  by (auto simp: canon)

lemma root_Inr: "fs_root be s sc = Inr r \<Longrightarrow> r = abs_path (at_path s (path_of (sc_scope sc)))"
  by (auto simp: fs_root_def canon_Inr split: sum.splits)

lemma resolve_lands:
  assumes "fs_resolve be s sc rel m = Inr p"
  shows "\<exists>u. p = abs_path (at_path s (path_of (sc_scope sc)) @ u)"
proof -
  obtain r where r: "fs_root be s sc = Inr r" "starts_with p r" "m \<Longrightarrow> bk_canonicalize be s (path_join r (path_of rel)) = Inr p"
    "\<not> m \<Longrightarrow> \<exists>par cpar n. bk_canonicalize be s par = Inr cpar \<and> p = path_join cpar [Normal n]"
    using fs_resolve_InrD [OF assms] by blast
  have "\<exists>n. p = abs_path n"
  proof (cases m)
    case True
    then show ?thesis using r(3) by (auto simp: canon_Inr)
  next
    case False
    then obtain par cpar n where "bk_canonicalize be s par = Inr cpar" "p = path_join cpar [Normal n]" using r(4) by blast
    then show ?thesis by (auto simp: canon_Inr)
  qed
  then obtain n where "p = abs_path n" by blast
  with r(2) root_Inr [OF r(1)] show ?thesis by (auto simp: prefix_def)
qed

text \<open>What a call may do to the state: only what lies below the scope, and only within the cap.\<close>

lemma dispatch_frame:
  assumes "ok s" and "fs_dispatch cod be s sc call args = (r, s')"
  shows "ok s' \<and> dir_at s' = dir_at s \<and> at_path s' = at_path s \<and> (\<forall>e. r = Inl e \<longrightarrow> s' = s) \<and> (s' \<noteq> s \<longrightarrow> writable sc) \<and>
    (\<forall>n. file_at s' n \<noteq> file_at s n \<longrightarrow> prefix (at_path s (path_of (sc_scope sc))) n \<and>
       (\<forall>b. file_at s' n = Some b \<longrightarrow> length b \<le> max_bytes sc))"
proof -
  have wr: "?thesis" if "fs_write cod be s sc args = (r, s')" "writable sc"
  proof (cases r)
    case (Inl e)
    then have "s' = s" using that(1) write_err
      by (auto simp: fs_write_def Let_def split: option.splits sum.splits if_splits prod.splits)
    with assms(1) show ?thesis by simp
  next
    case (Inr v)
    then have "fs_write cod be s sc args = (Inr v, s')" using that(1) by simp
    then obtain wa :: write_args and data p where w: "Option.bind (wa_data wa) bytes_of = Some data" "fs_resolve be s sc (wa_path wa) False = Inr p"
      "(if wa_append wa then (case bk_metadata be s p of Inr m \<Rightarrow> md_len m | Inl _ \<Rightarrow> 0) else 0) + length data \<le> max_bytes sc"
      "bk_write be s p data (wa_append wa) = (Inr (), s')"
      by (rule fs_write_InrD)
    obtain u where u: "p = abs_path (at_path s (path_of (sc_scope sc)) @ u)" using resolve_lands [OF w(2)] by blast
    let ?n = "at_path s (path_of (sc_scope sc)) @ u"
    have "\<not> dir_at s ?n" using write_says [of s p data "wa_append wa"] w(4) by (auto simp: u split: if_splits)
    then have "length ((if wa_append wa then (case file_at s ?n of Some b \<Rightarrow> b | None \<Rightarrow> []) else []) @ data) \<le> max_bytes sc"
      using w(3) by (auto simp: meta u split: option.splits if_splits)
    with write_ok [OF assms(1) w(4)] that(2) Inr show ?thesis by (auto simp: u fun_upd_def split: if_splits)
  qed
  have rm: "?thesis" if "fs_remove cod be s sc args = (r, s')" "writable sc"
  proof (cases r)
    case (Inl e)
    then have "s' = s" using that(1) remove_err by (auto simp: fs_remove_def split: option.splits sum.splits prod.splits)
    with assms(1) show ?thesis by simp
  next
    case (Inr v)
    then have "fs_remove cod be s sc args = (Inr v, s')" using that(1) by simp
    then obtain rel p where w: "fs_resolve be s sc rel True = Inr p" "bk_remove_file be s p = (Inr (), s')"
      by (rule fs_remove_InrD)
    obtain u where "p = abs_path (at_path s (path_of (sc_scope sc)) @ u)" using resolve_lands [OF w(1)] by blast
    with remove_ok [OF assms(1) w(2)] that(2) Inr show ?thesis by (auto split: if_splits)
  qed
  show ?thesis using assms wr rm by (auto simp: fs_dispatch_def split: if_splits)
qed

lemma read_within:
  assumes "fs_read cod be s sc args = Inr v"
  shows "\<exists>n b. prefix (at_path s (path_of (sc_scope sc))) n \<and> file_at s n = Some b \<and> v = VBin b \<and> length b \<le> max_bytes sc"
proof -
  obtain rel p m b where r: "fs_resolve be s sc rel True = Inr p" "bk_metadata be s p = Inr m" "md_len m \<le> max_bytes sc"
    "bk_read be s p = Inr b" "v = VBin b" using assms by (rule fs_read_InrD)
  obtain u where "p = abs_path (at_path s (path_of (sc_scope sc)) @ u)" using resolve_lands [OF r(1)] by blast
  with r show ?thesis
    by (auto simp: meta read split: if_splits option.splits intro!: exI [of _ "at_path s (path_of (sc_scope sc)) @ u"])
qed

text \<open>What a call tells: two states that look the same below the scope answer the same.\<close>

lemma canon_same:
  "at_path t = at_path s \<Longrightarrow> dir_at t (at_path s p) = dir_at s (at_path s p) \<Longrightarrow> file_at t (at_path s p) = file_at s (at_path s p) \<Longrightarrow>
   bk_canonicalize be t p = bk_canonicalize be s p"
  by (simp add: canon)

lemma resolve_same:
  assumes "ok s" and "ok t" and ap: "at_path t = at_path s"
    and same: "\<And>u. dir_at t (at_path s (path_of (sc_scope sc)) @ u) = dir_at s (at_path s (path_of (sc_scope sc)) @ u) \<and>
      file_at t (at_path s (path_of (sc_scope sc)) @ u) = file_at s (at_path s (path_of (sc_scope sc)) @ u)"
  shows "fs_resolve be t sc rel m = fs_resolve be s sc rel m"
proof -
  let ?R = "at_path s (path_of (sc_scope sc))"
  have root: "fs_root be t sc = fs_root be s sc"
    using canon_same [OF ap, of "path_of (sc_scope sc)"] same [of "[]"] by (simp add: fs_root_def)
  show ?thesis
  proof (cases "(\<exists>r. fs_root be s sc = Inr r) \<and> \<not> has_root (path_of rel) \<and> lexically_within (path_of rel)")
    case False
    then show ?thesis by (auto simp: fs_resolve_def root split: sum.split)
  next
    case True
    then obtain r where r: "fs_root be s sc = Inr r" by blast
    have rR: "r = abs_path ?R" by (rule root_Inr [OF r])
    have here: "dir_at s ?R \<or> file_at s ?R \<noteq> None" using r by (auto simp: fs_root_def canon_Inr split: sum.splits)
    let ?cs = "filter (\<lambda>c. c \<noteq> CurDir) (path_of rel)"
    have lex: "lex_depth 0 ?cs" using True lex_depth_filter by (simp add: lexically_within_def)
    have j: "path_join r (path_of rel) = abs_path ?R @ ?cs" using True by (simp add: path_join_def rR abs_path_def)
    have at_sub: "\<exists>u. at_path s (abs_path ?R @ cs) = ?R @ u" if "lex_depth 0 cs" for cs
      using normalize_under [OF that, of ?R] at_root [of "abs_path ?R @ cs" s] by (simp add: has_root_def abs_path_def)
    have c1: "bk_canonicalize be t (abs_path ?R @ ?cs) = bk_canonicalize be s (abs_path ?R @ ?cs)"
      using at_sub [OF lex] same canon_same [OF ap] by metis
    have c2: "bk_canonicalize be t par = bk_canonicalize be s par" if par: "path_parent (abs_path ?R @ ?cs) = Some par" for par
    proof (cases "?cs = []")
      case True
      then obtain ns n where R: "?R = ns @ [n]" "par = abs_path ns"
        using par by (cases ?R rule: rev_cases) (auto simp: path_parent_def abs_path_def split: if_splits)
      have "dir_at s ns" using here assms(1) dir_up [of s ns n] file_up [of s ns n] unfolding R(1) by blast
      moreover have "dir_at t ns"
        using here assms(2) same [of "[]"] dir_up [of t ns n] file_up [of t ns n] unfolding append_Nil2 R(1) by metis
      ultimately show ?thesis by (simp add: canon R(2) ap)
    next
      case False
      then have "par = abs_path ?R @ butlast ?cs" using par by (simp add: path_parent_def butlast_append split: if_splits)
      then show ?thesis using at_sub [OF lex_depth_butlast [OF lex]] same canon_same [OF ap] by metis
    qed
    show ?thesis
      unfolding fs_resolve_def root r sum.case Let_def j using c1 c2
      by (auto split: option.split)
  qed
qed

lemma resolve_here: "fs_resolve be s sc rel m = Inr p \<Longrightarrow>
    dir_at s (at_path s (path_of (sc_scope sc))) \<or> file_at s (at_path s (path_of (sc_scope sc))) \<noteq> None"
  by (auto simp: fs_resolve_def fs_root_def canon_Inr split: sum.splits)

lemma ops_same:
  assumes "ok s" and "ok t" and ap: "at_path t = at_path s" and here: "dir_at s R \<or> file_at s R \<noteq> None"
    and same: "\<And>u. dir_at t (R @ u) = dir_at s (R @ u) \<and> file_at t (R @ u) = file_at s (R @ u)"
  shows "bk_metadata be t (abs_path (R @ u)) = bk_metadata be s (abs_path (R @ u))"
    and "bk_read be t (abs_path (R @ u)) = bk_read be s (abs_path (R @ u))"
    and "bk_read_dir be t (abs_path (R @ u)) = bk_read_dir be s (abs_path (R @ u))"
    and "fst (bk_write be t (abs_path (R @ u)) d b) = fst (bk_write be s (abs_path (R @ u)) d b)"
    and "fst (bk_remove_file be t (abs_path (R @ u))) = fst (bk_remove_file be s (abs_path (R @ u)))"
proof -
  show "bk_metadata be t (abs_path (R @ u)) = bk_metadata be s (abs_path (R @ u))" using same by (simp add: meta)
  show "bk_read be t (abs_path (R @ u)) = bk_read be s (abs_path (R @ u))" using same by (simp add: read)
  show "fst (bk_remove_file be t (abs_path (R @ u))) = fst (bk_remove_file be s (abs_path (R @ u)))"
    using same by (simp add: remove_says)
  show "bk_read_dir be t (abs_path (R @ u)) = bk_read_dir be s (abs_path (R @ u))"
  proof (cases "dir_at s (R @ u)")
    case True
    then have "dir_at s (at_path s (abs_path (R @ u)))" "dir_at t (at_path t (abs_path (R @ u)))" using same by simp_all
    from listing [OF assms(1) this(1)] listing [OF assms(2) this(2)] obtain xs ys
      where xs: "bk_read_dir be s (abs_path (R @ u)) = Inr xs" "sorted xs" "distinct xs"
          "set xs = {n. dir_at s (R @ u @ [n]) \<or> file_at s (R @ u @ [n]) \<noteq> None}"
        and ys: "bk_read_dir be t (abs_path (R @ u)) = Inr ys" "sorted ys" "distinct ys"
          "set ys = {n. dir_at t (R @ u @ [n]) \<or> file_at t (R @ u @ [n]) \<noteq> None}" by auto
    then have "set ys = set xs" using same by simp
    with xs ys show ?thesis using sorted_distinct_set_unique by metis
  next
    case False
    then show ?thesis using same no_listing [of s "abs_path (R @ u)"] no_listing [of t "abs_path (R @ u)"] by simp
  qed
  have "dir_at t (butlast (R @ u)) = dir_at s (butlast (R @ u))" if ne: "R @ u \<noteq> []"
  proof (cases "u = []")
    case True
    then obtain ns n where R: "R = ns @ [n]" using ne by (cases R rule: rev_cases) auto
    have "dir_at s ns" using here assms(1) dir_up [of s ns n] file_up [of s ns n] unfolding R by blast
    moreover have "dir_at t ns"
      using here assms(2) same [of "[]"] dir_up [of t ns n] file_up [of t ns n] unfolding append_Nil2 R by metis
    ultimately show ?thesis by (simp add: True R)
  next
    case False
    then show ?thesis using same by (simp add: butlast_append)
  qed
  then show "fst (bk_write be t (abs_path (R @ u)) d b) = fst (bk_write be s (abs_path (R @ u)) d b)"
    using same by (simp add: write_says)
qed

lemma dispatch_same:
  assumes "ok s" and "ok t" and ap: "at_path t = at_path s"
    and same: "\<And>u. dir_at t (at_path s (path_of (sc_scope sc)) @ u) = dir_at s (at_path s (path_of (sc_scope sc)) @ u) \<and>
      file_at t (at_path s (path_of (sc_scope sc)) @ u) = file_at s (at_path s (path_of (sc_scope sc)) @ u)"
  shows "fst (fs_dispatch cod be t sc call args) = fst (fs_dispatch cod be s sc call args)"
proof -
  note rs = resolve_same [OF assms(1,2) ap same]
  have os: "bk_metadata be t p = bk_metadata be s p \<and> bk_read be t p = bk_read be s p \<and> bk_read_dir be t p = bk_read_dir be s p \<and>
      fst (bk_write be t p d b) = fst (bk_write be s p d b) \<and> fst (bk_remove_file be t p) = fst (bk_remove_file be s p)"
    if "fs_resolve be s sc rel m = Inr p" for rel m p d b
    using resolve_lands [OF that] ops_same [OF assms(1,2) ap resolve_here [OF that] same] by auto
  have "fs_read cod be t sc args = fs_read cod be s sc args"
    by (auto simp: fs_read_def rs os split: option.split sum.split)
  moreover have "fs_list be t sc args = fs_list be s sc args"
    by (auto simp: fs_list_def Let_def rs os split: sum.split)
  moreover have "fst (fs_write cod be t sc args) = fst (fs_write cod be s sc args)"
  proof -
    have f: "fst (case bk_write be x p d b of (Inl e, s') \<Rightarrow> (Inl (AtPath q e), s') | (Inr u, s') \<Rightarrow> (Inr VNil, s')) =
        (case fst (bk_write be x p d b) of Inl e \<Rightarrow> Inl (AtPath q e) | Inr _ \<Rightarrow> Inr VNil)" for x p d b q
      by (auto split: prod.split sum.split)
    show ?thesis
      unfolding fs_write_def rs by (auto simp: Let_def f os split: option.split sum.split)
  qed
  moreover have "fst (fs_remove cod be t sc args) = fst (fs_remove cod be s sc args)"
  proof -
    have f: "fst (case bk_remove_file be x p of (Inl e, s') \<Rightarrow> (Inl (AtPath q e), s') | (Inr u, s') \<Rightarrow> (Inr VNil, s')) =
        (case fst (bk_remove_file be x p) of Inl e \<Rightarrow> Inl (AtPath q e) | Inr _ \<Rightarrow> Inr VNil)" for x p q
      by (auto split: prod.split sum.split)
    show ?thesis
      unfolding fs_remove_def rs by (auto simp: f os split: option.split sum.split)
  qed
  ultimately show ?thesis by (simp add: fs_dispatch_def)
qed

end

section \<open>The calls over a filesystem in a map\<close>

lemma dir_call: "fs_grant_parse cod sc = Inr (GrantDir jail) \<Longrightarrow> fs_call ov cod host s vs call args sc =
    (fst (fs_dispatch cod host s jail call args), snd (fs_dispatch cod host s jail call args), vs)"
  by (simp add: fs_call_def grant_open_def split: prod.split)


text \<open>
  A call tells nothing of what lies outside.  Two filesystems with the same contents below the granted directory answer every
  call alike, by value or by refusal, whatever else they hold.
\<close>

theorem fs_answers_from_its_scope:
  assumes "mem_ok s" and "mem_ok t" and "ms_cwd t = ms_cwd s" and "fs_grant_parse cod sc = Inr (GrantDir jail)"
    and "\<And>n. prefix (absolute s (path_of (sc_scope jail))) n \<Longrightarrow> mem_is_dir t n = mem_is_dir s n \<and> mem_file t n = mem_file s n"
  shows "fst (fs_call ov cod mem_fs t vs call args sc) = fst (fs_call ov cod mem_fs s vs call args sc)"
  unfolding dir_call [OF assms(4)]
  using mem.dispatch_same [OF assms(1,2) absolute_same [OF assms(3)], of jail] assms(5) by simp

section \<open>A link\<close>

text \<open>
  A filesystem with one link, as the operating system has it: what is done at the link is done at its target, and
  \<^verbatim>\<open>canonicalize\<close> answers the target.
\<close>

definition follow :: "names \<Rightarrow> names \<Rightarrow> mem_state \<Rightarrow> path \<Rightarrow> path" where
  "follow l target s p = (if absolute s p = l then abs_path target else p)"

definition linked_fs :: "names \<Rightarrow> names \<Rightarrow> mem_state backend" where
  "linked_fs l target = mem_fs\<lparr>
     bk_canonicalize := (\<lambda>s p. mem_canonicalize s (follow l target s p)),
     bk_metadata := (\<lambda>s p. mem_metadata s (follow l target s p)),
     bk_read := (\<lambda>s p. mem_read s (follow l target s p)),
     bk_write := (\<lambda>s p. mem_write s (follow l target s p))\<rparr>"

definition demo_disk :: mem_state where
  "demo_disk = \<lparr>ms_cwd = [], ms_dirs = [[], [''etc''], [''jail'']], ms_files = [([''etc'', ''passwd''], [1]), ([''jail'', ''a''], [2, 3])]\<rparr>"

definition demo_codec :: fs_codec where
  "demo_codec = \<lparr>dec_scope = (\<lambda>v. Inr \<lparr>sc_scope = ''/jail'', sc_access = Some ''readwrite'', sc_max_bytes = Some 4\<rparr>),
     dec_volume = (\<lambda>v. Inl ''no volumes''), dec_path = (\<lambda>v. case val_as_str v of Some s \<Rightarrow> Inr s | None \<Rightarrow> Inl ''a path''),
     dec_write = (\<lambda>v. case val_as_str v of Some s \<Rightarrow> Inr \<lparr>wa_path = s, wa_data = Some (VBin [9]), wa_append = False\<rparr> | None \<Rightarrow> Inl ''a path'')\<rparr>"

definition demo_jail :: fs_scope where
  "demo_jail = \<lparr>sc_scope = ''/jail'', sc_access = Some ''readwrite'', sc_max_bytes = Some 4\<rparr>"

lemma demo_grant: "fs_grant_parse demo_codec (Some VNil) = Inr (GrantDir demo_jail)"
  by (simp add: fs_grant_parse_def fs_scope_parse_def demo_codec_def demo_jail_def)

lemma demo_paths: "path_of ''/jail'' = [RootDir, Normal ''jail'']" "path_of ''link'' = [Normal ''link'']" "path_of ''a'' = [Normal ''a'']"
  by (simp_all add: path_of_def piece_def map_filter_simps)

definition demo_link :: "mem_state backend" where
  "demo_link = linked_fs [''jail'', ''link''] [''etc'', ''passwd'']"

lemma demo_root: "fs_root demo_link demo_disk demo_jail = Inr (abs_path [''jail''])"
  by (simp add: fs_root_def demo_jail_def demo_paths demo_link_def linked_fs_def follow_def mem_canonicalize_def absolute_def has_root_def
      normalize_def demo_disk_def mem_is_dir_def)

lemma demo_at: "absolute s [RootDir, Normal a, Normal b] = [a, b]" "absolute s [RootDir, Normal a] = [a]"
  by (simp_all add: absolute_def has_root_def normalize_def)

lemma demo_there: "mem_is_dir demo_disk [''jail'']" "bt_get (ms_files demo_disk) [''etc'', ''passwd''] = Some [1]"
  by (simp_all add: mem_is_dir_def demo_disk_def bt_get_def)

lemma demo_jail_resolved:
  "fs_resolve demo_link demo_disk demo_jail ''link'' True = Inl (OutsideScope ''link'')"
  "fs_resolve demo_link demo_disk demo_jail ''link'' False = Inr (abs_path [''jail'', ''link''])"
  unfolding fs_resolve_def demo_root sum.case demo_paths
  by (simp_all add: Let_def lexically_within_def has_root_def path_join_def abs_path_def path_parent_def path_file_name_def
      demo_link_def linked_fs_def follow_def mem_canonicalize_def demo_at demo_there starts_with_def)

lemma demo_written: "bk_write demo_link demo_disk (abs_path [''jail'', ''link'']) [9] False =
    (Inr (), demo_disk\<lparr>ms_files := bt_insert [''etc'', ''passwd''] [9] (ms_files demo_disk)\<rparr>)"
  by (simp add: demo_link_def linked_fs_def follow_def mem_write_def Let_def mem_is_dir_def mem_parent_is_dir_def demo_disk_def)

text \<open>
  A write does not resolve the last part of its path.  Where that is a link out of the granted directory, a read through it
  is refused and a write through it replaces the file outside.
\<close>

theorem write_follows_a_final_link:
  "fs_read demo_codec demo_link demo_disk demo_jail (Some (VStr ''link'')) = Inl (OutsideScope ''link'') \<and>
   (\<exists>s'. fs_write demo_codec demo_link demo_disk demo_jail (Some (VStr ''link'')) = (Inr VNil, s') \<and>
     mem_file demo_disk [''etc'', ''passwd''] = Some [1] \<and> mem_file s' [''etc'', ''passwd''] = Some [9])"
proof -
  have u: "utf8_valid ''link''" by (simp add: ascii_valid ascii_def)
  have "fs_write demo_codec demo_link demo_disk demo_jail (Some (VStr ''link'')) =
      (Inr VNil, demo_disk\<lparr>ms_files := bt_insert [''etc'', ''passwd''] [9] (ms_files demo_disk)\<rparr>)"
    by (simp add: fs_write_def demo_codec_def u demo_jail_resolved demo_written demo_jail_def [symmetric])
      (simp add: demo_jail_def max_bytes_def)
  moreover have "mem_file demo_disk [''etc'', ''passwd''] = Some [1]"
    and "mem_file (demo_disk\<lparr>ms_files := bt_insert [''etc'', ''passwd''] [9] (ms_files demo_disk)\<rparr>) [''etc'', ''passwd''] = Some [9]"
    by (simp_all add: mem_file_def demo_disk_def bt_get_def)
  moreover have "fs_read demo_codec demo_link demo_disk demo_jail (Some (VStr ''link'')) = Inl (OutsideScope ''link'')"
    by (simp add: fs_read_def demo_codec_def u demo_jail_resolved)
  ultimately show ?thesis by blast
qed

section \<open>Examples\<close>

definition demo_disk_of :: "bytes \<Rightarrow> mem_state" where
  "demo_disk_of secret = demo_disk\<lparr>ms_files := [([''etc'', ''passwd''], secret), ([''jail'', ''a''], [2, 3])]\<rparr>"

lemma demo_disk_ok: "mem_ok (demo_disk_of secret)"
proof -
  have snoc: "q @ [n] = [a] \<longleftrightarrow> q = [] \<and> n = a" "q @ [n] = [a, b] \<longleftrightarrow> q = [a] \<and> n = b" for q n and a b :: string
    by (auto simp: append_eq_Cons_conv)
  have "closed_up (mem_is_dir (demo_disk_of secret)) (mem_file (demo_disk_of secret))"
    unfolding closed_up_def by (auto simp: mem_is_dir_def mem_file_def bt_get_def demo_disk_of_def demo_disk_def snoc split: if_splits)
  then show ?thesis by (simp add: mem_ok_def demo_disk_of_def demo_disk_def)
qed

lemma demo_disk_root: "fs_root mem_fs (demo_disk_of secret) demo_jail = Inr (abs_path [''jail''])"
  by (simp add: fs_root_def demo_jail_def demo_paths mem_fs_def mem_canonicalize_def demo_at mem_is_dir_def demo_disk_of_def demo_disk_def)

lemma demo_disk_resolve: "fs_resolve mem_fs (demo_disk_of secret) demo_jail ''a'' True = Inr (abs_path [''jail'', ''a''])"
  unfolding fs_resolve_def demo_disk_root sum.case demo_paths
  by (simp add: Let_def lexically_within_def has_root_def path_join_def abs_path_def mem_fs_def mem_canonicalize_def demo_at starts_with_def
      bt_get_def demo_disk_of_def)

lemma demo_call: "fs_call ov demo_codec mem_fs (demo_disk_of secret) [] ''fs/read'' (Some (VStr ''a'')) (Some VNil) =
    (Inr (VBin [2, 3]), demo_disk_of secret, [])"
proof -
  have "utf8_valid ''a''" by (simp add: ascii_valid ascii_def)
  then have "fs_read demo_codec mem_fs (demo_disk_of secret) demo_jail (Some (VStr ''a'')) = Inr (VBin [2, 3])"
    by (simp add: fs_read_def demo_codec_def demo_disk_resolve)
      (simp add: mem_fs_def mem_metadata_def mem_read_def mem_is_dir_def bt_get_def demo_disk_of_def demo_disk_def demo_jail_def max_bytes_def)
  then show ?thesis by (simp add: dir_call [OF demo_grant] fs_dispatch_def)
qed


theorem fs_answers_from_its_scope_witness:
  "fst (fs_call (\<lambda>k. Inl ''none'') demo_codec mem_fs (demo_disk_of [8]) [] ''fs/list'' None (Some VNil)) =
   fst (fs_call (\<lambda>k. Inl ''none'') demo_codec mem_fs (demo_disk_of [7]) [] ''fs/list'' None (Some VNil))"
proof (rule fs_answers_from_its_scope [OF demo_disk_ok demo_disk_ok _ demo_grant])
  show "ms_cwd (demo_disk_of [8]) = ms_cwd (demo_disk_of [7])" by (simp add: demo_disk_of_def)
  fix n assume "prefix (absolute (demo_disk_of [7]) (path_of (sc_scope demo_jail))) n"
  then have "n \<noteq> [''etc'', ''passwd'']" by (auto simp: demo_jail_def demo_paths demo_at)
  then show "mem_is_dir (demo_disk_of [8]) n = mem_is_dir (demo_disk_of [7]) n \<and> mem_file (demo_disk_of [8]) n = mem_file (demo_disk_of [7]) n"
    by (simp add: mem_is_dir_def mem_file_def bt_get_def demo_disk_of_def)
qed

end
