(* ===== verification/Drt_Root.thy ===== *)
theory Drt_Root
  imports Mem_Fs Resolve Grant_Requests
begin

text \<open>
  A root on disk, \<^verbatim>\<open>crates/drt/src/drt_root.rs\<close>: the layout, discovery, the walk upward for an outer root, what is
  read for a resolution, and the writes, over any backend.  Reading and writing JSON is
  the record \<open>root_codec\<close>.  The lemma shows where the walk upward goes wrong.
\<close>

section \<open>The layout\<close>

record root = rt_dir :: path

definition root_meta :: "root \<Rightarrow> path" where
  "root_meta r = path_join (rt_dir r) (path_of ''.drt_root'')"

definition root_project_json :: "root \<Rightarrow> path" where
  "root_project_json r = path_join (root_meta r) (path_of ''project.json'')"

definition root_consent_json :: "root \<Rightarrow> path" where
  "root_consent_json r = path_join (root_meta r) (path_of ''consent.json'')"

definition root_init :: "root \<Rightarrow> path" where
  "root_init r = path_join (root_meta r) (path_of ''init'')"

definition root_live :: "root \<Rightarrow> path" where
  "root_live r = path_join (root_meta r) (path_of ''live'')"

definition root_log :: "root \<Rightarrow> path" where
  "root_log r = path_join (root_meta r) (path_of ''log'')"

definition root_profile_dir :: "root \<Rightarrow> path" where
  "root_profile_dir r = path_join (root_meta r) (path_of ''profile'')"

definition root_state :: "root \<Rightarrow> path" where
  "root_state r = path_join (root_meta r) (path_of ''state'')"

definition gsr_pending :: "root \<Rightarrow> path" where
  "gsr_pending r = path_join (root_state r) (path_of ''gsr/pending'')"

definition gsr_decided :: "root \<Rightarrow> path" where
  "gsr_decided r = path_join (root_state r) (path_of ''gsr/decided'')"

definition peer_endpoint :: "root \<Rightarrow> path" where
  "peer_endpoint r = path_join (root_state r) (path_of ''peer.sock'')"

definition root_binary :: "root \<Rightarrow> path" where
  "root_binary r = path_join (root_meta r) (path_of ''drt'')"

text \<open>The tag of a release without its leading letter, or the version of the crate.\<close>

definition pin_string :: "string option \<Rightarrow> string \<Rightarrow> string" where
  "pin_string tag crate_version = (case map_option trim tag of
     Some t \<Rightarrow> (if t \<noteq> [] then (case strip_prefix ''v'' t of Some u \<Rightarrow> u | None \<Rightarrow> t) else crate_version)
   | None \<Rightarrow> crate_version)"

section \<open>Finding a root\<close>

definition discover :: "'s backend \<Rightarrow> 's \<Rightarrow> path \<Rightarrow> path option \<Rightarrow> root option" where
  "discover be s cwd flag = (let r = \<lparr>rt_dir = (case flag of Some named \<Rightarrow> named | None \<Rightarrow> cwd)\<rparr> in
     if is_dir be s (root_meta r) then Some r else None)"

datatype root_error =
    NotARoot path
  | CannotCreate path io_error
  | CannotWrite path io_error
  | CannotRead path io_error
  | CannotSerialize string
  | NotJson path string

definition check_named :: "'s backend \<Rightarrow> 's \<Rightarrow> path option \<Rightarrow> root_error + unit" where
  "check_named be s flag = (case flag of
     Some named \<Rightarrow> (if \<not> is_dir be s (root_meta \<lparr>rt_dir = named\<rparr>) then Inl (NotARoot named) else Inr ())
   | None \<Rightarrow> Inr ())"

datatype nesting = NestedFree | NestedAllowed path | NestedWarn path | NestedRefused path

lemma path_parent_shorter: "path_parent p = Some q \<Longrightarrow> length q < length p"
  by (auto simp: path_parent_def split: if_splits)

function nesting_above :: "'s backend \<Rightarrow> 's \<Rightarrow> allow_nested \<Rightarrow> path \<Rightarrow> nesting" where
  "nesting_above be s policy p = (case path_parent p of None \<Rightarrow> NestedFree
   | Some dir \<Rightarrow>
      (if is_dir be s (path_join dir (path_of ''.drt_root''))
       then (case policy of NestAllow \<Rightarrow> NestedAllowed dir | NestWarn \<Rightarrow> NestedWarn dir | NestError \<Rightarrow> NestedRefused dir)
       else nesting_above be s policy dir))"
  by pat_completeness auto
termination
  by (relation "measure (\<lambda>(be, s, policy, p). length p)") (auto dest: path_parent_shorter)

declare nesting_above.simps [simp del]

definition root_nesting :: "'s backend \<Rightarrow> 's \<Rightarrow> root \<Rightarrow> allow_nested \<Rightarrow> nesting" where
  "root_nesting be s r policy = nesting_above be s policy (rt_dir r)"

section \<open>Reading and writing\<close>

record root_codec =
  rd_project :: "string \<Rightarrow> string + project"
  rd_consent :: "string \<Rightarrow> string + consent"
  rd_config :: "string \<Rightarrow> string + root_config"
  rd_decision :: "string \<Rightarrow> string + decision"
  wr_consent :: "consent \<Rightarrow> string + string"
  wr_envelope :: "envelope \<Rightarrow> string + string"
  wr_request :: "gsr_request \<Rightarrow> string + string"

definition line_bytes :: "string \<Rightarrow> bytes" where
  "line_bytes text = text_to_bytes (text @ [char_of (10 :: nat)])"

text \<open>A file that is not there is nothing, one that does not parse is nothing with a line said.\<close>

definition read_json :: "'s backend \<Rightarrow> 's \<Rightarrow> (string \<Rightarrow> string + 'a) \<Rightarrow> path \<Rightarrow> root_error list \<Rightarrow> 'a option \<times> root_error list" where
  "read_json be s dec p soft = (case read_to_string be s p of Inl _ \<Rightarrow> (None, soft)
   | Inr text \<Rightarrow> (case dec text of Inr v \<Rightarrow> (Some v, soft) | Inl e \<Rightarrow> (None, soft @ [NotJson p e])))"

fun read_profiles :: "'s backend \<Rightarrow> 's \<Rightarrow> root_codec \<Rightarrow> path \<Rightarrow> string list \<Rightarrow> (string \<times> root_config) list \<Rightarrow> root_error list
    \<Rightarrow> (string \<times> root_config) list \<times> root_error list" where
  "read_profiles be s rc dir [] profiles soft = (profiles, soft)"
| "read_profiles be s rc dir (f # fs) profiles soft =
     (case read_json be s (rd_config rc) (path_join dir (path_of f)) soft of
        (Some config, soft1) \<Rightarrow> read_profiles be s rc dir fs (bt_insert f config profiles) soft1
      | (None, soft1) \<Rightarrow> read_profiles be s rc dir fs profiles soft1)"

definition listing_or_none :: "'s backend \<Rightarrow> 's \<Rightarrow> path \<Rightarrow> string list" where
  "listing_or_none be s p = (case bk_read_dir be s p of Inl _ \<Rightarrow> [] | Inr ns \<Rightarrow> ns)"

definition root_read :: "'s backend \<Rightarrow> 's \<Rightarrow> root_codec \<Rightarrow> string \<Rightarrow> root \<Rightarrow> requested \<Rightarrow> overrides
    \<Rightarrow> resolve_inputs \<times> root_error list" where
  "root_read be s rc version r req os =
     (let (p, soft1) = read_json be s (rd_project rc) (root_project_json r) [];
          (c, soft2) = read_json be s (rd_consent rc) (root_consent_json r) soft1;
          pdir = listing_or_none be s (root_profile_dir r);
          (profiles, soft3) = read_profiles be s rc (root_profile_dir r) pdir [] soft2;
          dlua = concat (map (\<lambda>e. case rc_dlua_dir (snd e) of
                   Some dir \<Rightarrow> listing_or_none be s (path_join (rt_dir r) (path_of dir)) | None \<Rightarrow> []) profiles)
      in (\<lparr>rn_root = Some \<lparr>ri_project = p, ri_consent = c, ri_profiles = profiles, ri_profile_dir = pdir,
             ri_dlua_dir = remdups_adj (sort dlua), ri_init = listing_or_none be s (root_init r), ri_binary_version = Some version\<rparr>,
           rn_config_flag = None, rn_requested = req, rn_overrides = os, rn_cwd = listing_or_none be s (rt_dir r)\<rparr>, soft3))"

definition write_consent :: "'s backend \<Rightarrow> root_codec \<Rightarrow> root \<Rightarrow> consent \<Rightarrow> 's \<Rightarrow> (root_error + unit) \<times> 's" where
  "write_consent be rc r c s = (case wr_consent rc c of Inl e \<Rightarrow> (Inl (CannotSerialize e), s)
   | Inr text \<Rightarrow> (case bk_create_dir_all be s (root_meta r) of
       (Inl e, s1) \<Rightarrow> (Inl (CannotCreate (root_meta r) e), s1)
     | (Inr _, s1) \<Rightarrow> (case bk_write be s1 (root_consent_json r) (line_bytes text) False of
         (Inl e, s2) \<Rightarrow> (Inl (CannotWrite (root_consent_json r) e), s2) | (Inr _, s2) \<Rightarrow> (Inr (), s2))))"

definition ensure_state :: "'s backend \<Rightarrow> root \<Rightarrow> 's \<Rightarrow> (root_error + unit) \<times> 's" where
  "ensure_state be r s = (case bk_create_dir_all be s (gsr_pending r) of
     (Inl e, s1) \<Rightarrow> (Inl (CannotCreate (gsr_pending r) e), s1)
   | (Inr _, s1) \<Rightarrow> (case bk_create_dir_all be s1 (gsr_decided r) of
       (Inl e, s2) \<Rightarrow> (Inl (CannotCreate (gsr_decided r) e), s2) | (Inr _, s2) \<Rightarrow> (Inr (), s2)))"

section \<open>Where the walk upward goes wrong\<close>

text \<open>
  The walk takes the path as it was written.  A root named by a path of one relative part is compared with the working
  directory alone, and the root \<^verbatim>\<open>.\<close> finds itself above itself: with the policy of refusing, \<^verbatim>\<open>--root .\<close> never starts.
\<close>

lemma mem_is_dir_iff: "is_dir mem_fs s p \<longleftrightarrow> mem_is_dir s (absolute s p)"
  by (simp add: is_dir_def mem_fs_def mem_metadata_def Let_def split: option.split)

theorem dot_root_is_nested_in_itself:
  assumes "discover mem_fs s cwd (Some (path_of ''.'')) = Some r"
  shows "root_nesting mem_fs s r NestError = NestedRefused []"
proof -
  have p: "path_of ''.'' = [CurDir]" "path_of ''.drt_root'' = [Normal ''.drt_root'']"
    by (simp_all add: path_of_def piece_def map_filter_simps)
  have a: "absolute s [CurDir, Normal ''.drt_root''] = absolute s [Normal ''.drt_root'']"
    by (simp add: absolute_def has_root_def path_join_def abs_path_def)
  have r: "rt_dir r = [CurDir]" and d: "mem_is_dir s (absolute s [CurDir, Normal ''.drt_root''])"
    using assms by (auto simp: discover_def Let_def root_meta_def p path_join_def has_root_def mem_is_dir_iff split: if_splits)
  have "path_parent [CurDir] = Some []" by (simp add: path_parent_def)
  then show ?thesis
    using d unfolding root_nesting_def r nesting_above.simps [of _ _ _ "[CurDir]"]
    by (simp add: p path_join_def has_root_def mem_is_dir_iff a)
qed

end
