(* ===== verification/Deploy.thy ===== *)
theory Deploy
  imports Drt_Root
begin

text \<open>
  What a root deploys, \<^verbatim>\<open>crates/drt/src/deploy.rs\<close>: \<open>deploy\<close> from its source into \<^verbatim>\<open>live/\<close>, \<open>deploy_remove\<close>, and
  \<open>deploy_commit\<close> of what is live, with the hashes of its files, over any backend.  The copy is a loop over a stack of
  directories and takes fuel.  A name that a directory lists is one component of a path.  The lemmas
  show that over a filesystem without links a deploy ends, with fuel for every directory of its source, and makes the deployment
  a copy of it, touching nothing else; and that a name may lead out of \<^verbatim>\<open>live/\<close>.
\<close>

section \<open>Sources and names\<close>

definition max_files :: nat where "max_files = 10000"
definition max_copy_bytes :: nat where "max_copy_bytes = 256 * 1024 * 1024"

datatype deploy_source = FromDluaDir path | FromInit path

fun source_path :: "deploy_source \<Rightarrow> path" where
  "source_path (FromDluaDir p) = p"
| "source_path (FromInit p) = p"

fun source_describe :: "deploy_source \<Rightarrow> string" where
  "source_describe (FromDluaDir p) = ''dlua_dir''"
| "source_describe (FromInit p) = ''init/''"

definition source_for :: "root \<Rightarrow> root_config \<Rightarrow> deploy_source" where
  "source_for r config = (case rc_dlua_dir config of
     Some dir \<Rightarrow> FromDluaDir (path_join (rt_dir r) (path_of dir)) | None \<Rightarrow> FromInit (root_init r))"

definition deployment_name :: "root \<Rightarrow> project option \<Rightarrow> string" where
  "deployment_name r p = (case Option.bind p pj_name of Some n \<Rightarrow> n
   | None \<Rightarrow> (case path_file_name (rt_dir r) of Some n \<Rightarrow> n | None \<Rightarrow> ''deployment''))"

definition live_path :: "root \<Rightarrow> string \<Rightarrow> path" where
  "live_path r name = path_join (root_live r) (path_of name)"

definition is_deployed :: "'s backend \<Rightarrow> 's \<Rightarrow> root \<Rightarrow> string \<Rightarrow> bool" where
  "is_deployed be s r name \<longleftrightarrow> is_dir be s (live_path r name)"

record report =
  rp_files :: nat
  rp_bytes :: nat

definition report_zero :: report where "report_zero = \<lparr>rp_files = 0, rp_bytes = 0\<rparr>"

datatype deploy_error =
    NothingToDeploy path string
  | CannotClear path io_error
  | CopyCannotCreate path io_error
  | CopyCannotRead path io_error
  | CopyCannotWrite path io_error
  | TooManyFiles path
  | TooManyBytes path
  | CannotRemove path io_error
  | NothingToCommit string
  | EnvelopeFails string

section \<open>The copy\<close>

fun copy_entries :: "'s backend \<Rightarrow> path \<Rightarrow> path \<Rightarrow> path \<Rightarrow> string list \<Rightarrow> (path \<times> path) list \<Rightarrow> report \<Rightarrow> 's
    \<Rightarrow> (deploy_error + (path \<times> path) list \<times> report) \<times> 's" where
  "copy_entries be start src tgt [] stack rep s = (Inr (stack, rep), s)"
| "copy_entries be start src tgt (n # ns) stack rep s =
     (let child = path_join src [Normal n]; into = path_join tgt [Normal n] in
      if is_dir be s child then copy_entries be start src tgt ns ((child, into) # stack) rep s
      else (case bk_read be s child of Inl e \<Rightarrow> (Inl (CopyCannotRead child e), s)
      | Inr data \<Rightarrow>
        (let rep1 = \<lparr>rp_files = rp_files rep + 1, rp_bytes = rp_bytes rep + length data\<rparr> in
         if rp_files rep1 > max_files then (Inl (TooManyFiles start), s)
         else if rp_bytes rep1 > max_copy_bytes then (Inl (TooManyBytes start), s)
         else (case bk_write be s into data False of
           (Inl e, s1) \<Rightarrow> (Inl (CopyCannotWrite into e), s1)
         | (Inr _, s1) \<Rightarrow> copy_entries be start src tgt ns stack rep1 s1))))"

fun copy_loop :: "'s backend \<Rightarrow> path \<Rightarrow> nat \<Rightarrow> (path \<times> path) list \<Rightarrow> report \<Rightarrow> 's \<Rightarrow> ((deploy_error + report) \<times> 's) option" where
  "copy_loop be start 0 stack rep s = None"
| "copy_loop be start (Suc k) stack rep s = (case stack of [] \<Rightarrow> Some (Inr rep, s)
   | (src, tgt) # rest \<Rightarrow>
     (case bk_create_dir_all be s tgt of (Inl e, s1) \<Rightarrow> Some (Inl (CopyCannotCreate tgt e), s1)
      | (Inr _, s1) \<Rightarrow> (case bk_read_dir be s1 src of Inl e \<Rightarrow> Some (Inl (CopyCannotRead src e), s1)
        | Inr ns \<Rightarrow> (case copy_entries be start src tgt ns rest rep s1 of
            (Inl e, s2) \<Rightarrow> Some (Inl e, s2)
          | (Inr (stack2, rep2), s2) \<Rightarrow> copy_loop be start k stack2 rep2 s2))))"

definition copy_tree :: "'s backend \<Rightarrow> nat \<Rightarrow> path \<Rightarrow> path \<Rightarrow> 's \<Rightarrow> ((deploy_error + report) \<times> 's) option" where
  "copy_tree be fuel start to s = (case bk_create_dir_all be s to of
     (Inl e, s1) \<Rightarrow> Some (Inl (CopyCannotCreate to e), s1)
   | (Inr _, s1) \<Rightarrow> copy_loop be start fuel [(start, to)] report_zero s1)"

section \<open>Deploy, remove, commit\<close>

definition deploy :: "'s backend \<Rightarrow> nat \<Rightarrow> root \<Rightarrow> string \<Rightarrow> deploy_source \<Rightarrow> 's \<Rightarrow> ((deploy_error + report) \<times> 's) option" where
  "deploy be fuel r name source s = (let into = live_path r name in
     if \<not> is_dir be s (source_path source) then Some (Inl (NothingToDeploy (source_path source) (source_describe source)), s)
     else (case bk_remove_dir_all be s into of
       (Inl e, s1) \<Rightarrow> Some (Inl (CannotClear into e), s1)
     | (Inr _, s1) \<Rightarrow> copy_tree be fuel (source_path source) into s1))"

definition deploy_remove :: "'s backend \<Rightarrow> root \<Rightarrow> string \<Rightarrow> 's \<Rightarrow> (deploy_error + unit) \<times> 's" where
  "deploy_remove be r name s = (case bk_remove_dir_all be s (live_path r name) of
     (Inl e, s1) \<Rightarrow> (Inl (CannotRemove (live_path r name) e), s1) | (Inr _, s1) \<Rightarrow> (Inr (), s1))"

definition content_hash :: "hash_env \<Rightarrow> bytes \<Rightarrow> hash" where
  "content_hash he b = canon_hash (he_digest he) (text_of b)"

fun hash_entries :: "'s backend \<Rightarrow> 's \<Rightarrow> hash_env \<Rightarrow> path \<Rightarrow> string \<Rightarrow> string list \<Rightarrow> (path \<times> string) list \<Rightarrow> (string \<times> hash) list
    \<Rightarrow> deploy_error + (path \<times> string) list \<times> (string \<times> hash) list" where
  "hash_entries be s he p pre [] stack out = Inr (stack, out)"
| "hash_entries be s he p pre (n # ns) stack out =
     (let child = path_join p [Normal n]; relative = (if pre = [] then n else pre @ ''/'' @ n) in
      if is_dir be s child then hash_entries be s he p pre ns ((child, relative) # stack) out
      else (case bk_read be s child of Inl e \<Rightarrow> Inl (CopyCannotRead child e)
        | Inr b \<Rightarrow> hash_entries be s he p pre ns stack (bt_insert relative (content_hash he b) out)))"

fun hash_loop :: "'s backend \<Rightarrow> 's \<Rightarrow> hash_env \<Rightarrow> nat \<Rightarrow> (path \<times> string) list \<Rightarrow> (string \<times> hash) list
    \<Rightarrow> (deploy_error + (string \<times> hash) list) option" where
  "hash_loop be s he 0 stack out = None"
| "hash_loop be s he (Suc k) stack out = (case stack of [] \<Rightarrow> Some (Inr out)
   | (p, pre) # rest \<Rightarrow> (case hash_entries be s he p pre (listing_or_none be s p) rest out of
       Inl e \<Rightarrow> Some (Inl e) | Inr (stack2, out2) \<Rightarrow> hash_loop be s he k stack2 out2))"

definition hashes :: "'s backend \<Rightarrow> 's \<Rightarrow> hash_env \<Rightarrow> nat \<Rightarrow> path \<Rightarrow> (deploy_error + (string \<times> hash) list) option" where
  "hashes be s he fuel dir = hash_loop be s he fuel [(dir, [])] []"

definition write_envelope :: "'s backend \<Rightarrow> root_codec \<Rightarrow> root \<Rightarrow> envelope \<Rightarrow> 's \<Rightarrow> (deploy_error + unit) \<times> 's" where
  "write_envelope be rc r v s = (case bk_create_dir_all be s (root_state r) of
     (Inl e, s1) \<Rightarrow> (Inl (CopyCannotCreate (root_state r) e), s1)
   | (Inr _, s1) \<Rightarrow> (let p = path_join (root_state r) (path_of ''envelope.json'') in
      case wr_envelope rc v of Inl e \<Rightarrow> (Inl (EnvelopeFails e), s1)
      | Inr body \<Rightarrow> (case bk_write be s1 p (line_bytes body) False of
          (Inl e, s2) \<Rightarrow> (Inl (CopyCannotWrite p e), s2) | (Inr _, s2) \<Rightarrow> (Inr (), s2))))"

definition deploy_commit :: "'s backend \<Rightarrow> hash_env \<Rightarrow> root_codec \<Rightarrow> nat \<Rightarrow> timestamp \<Rightarrow> root \<Rightarrow> string \<Rightarrow> project \<Rightarrow> 's
    \<Rightarrow> ((deploy_error + report \<times> hash) \<times> 's) option" where
  "deploy_commit be he rc fuel now r name p s = (let start = live_path r name; into = root_init r in
     if \<not> is_dir be s start then Some (Inl (NothingToCommit name), s)
     else (case bk_remove_dir_all be s into of
       (Inl e, s1) \<Rightarrow> Some (Inl (CannotClear into e), s1)
     | (Inr _, s1) \<Rightarrow> (case copy_tree be fuel start into s1 of None \<Rightarrow> None
       | Some (Inl e, s2) \<Rightarrow> Some (Inl e, s2)
       | Some (Inr rep, s2) \<Rightarrow> (case hashes be s2 he fuel into of None \<Rightarrow> None
         | Some (Inl e) \<Rightarrow> Some (Inl e, s2)
         | Some (Inr files) \<Rightarrow> (let v = (envelope_new (pj_root_id p) now)\<lparr>ev_files := files\<rparr> in
             case write_envelope be rc r v s2 of
               (Inl e, s3) \<Rightarrow> Some (Inl e, s3)
             | (Inr _, s3) \<Rightarrow> Some (Inr (rep, envelope_hash he v), s3))))))"

section \<open>A copy is a copy\<close>

lemma not_under: "\<not> prefix a b \<Longrightarrow> \<not> prefix b a \<Longrightarrow> a @ u \<noteq> b @ v"
  by (metis prefixI prefix_same_cases)

definition pasted :: "names \<Rightarrow> names \<Rightarrow> (names \<Rightarrow> bool) \<Rightarrow> (names \<Rightarrow> bytes option) \<Rightarrow> string list
    \<Rightarrow> (names \<Rightarrow> bytes option) \<Rightarrow> names \<Rightarrow> bytes option" where
  "pasted T u D F ns f = (\<lambda>q. if list_ex (\<lambda>n. \<not> D (u @ [n]) \<and> q = T @ u @ [n]) ns then F (drop (length T) q) else f q)"

lemma pasted_dir: "D (u @ [n]) \<Longrightarrow> pasted T u D F (n # ns) f = pasted T u D F ns f"
  by (simp add: pasted_def)

lemma pasted_file: "\<not> D (u @ [n]) \<Longrightarrow> F (u @ [n]) = Some b \<Longrightarrow>
    pasted T u D F ns (f(T @ u @ [n] \<mapsto> b)) = pasted T u D F (n # ns) f"
  by (auto simp: pasted_def fun_eq_iff)

text \<open>What a stack of directories still has to do, and when one is as good as another.\<close>

definition antichain :: "names list \<Rightarrow> bool" where
  "antichain us \<longleftrightarrow> distinct us \<and> (\<forall>u\<in>set us. \<forall>v\<in>set us. prefix u v \<longrightarrow> u = v)"

definition todo :: "(names \<Rightarrow> bool) \<Rightarrow> names list \<Rightarrow> names set" where
  "todo D us = {w. D w \<and> (\<exists>u\<in>set us. prefix u w)}"

lemma antichain_step:
  assumes "antichain (u # vs)" and "distinct ns"
  shows "antichain (rev (map (\<lambda>n. u @ [n]) ns) @ vs)"
proof -
  have v: "\<not> prefix u v" "\<not> prefix v u" if "v \<in> set vs" for v using assms(1) that by (auto simp: antichain_def)
  have "u @ [n] \<notin> set vs" for n using v(1) [of "u @ [n]"] by auto
  moreover have "\<not> prefix (u @ [n]) v \<and> \<not> prefix v (u @ [n])" if "v \<in> set vs" for n v
    using v(1,2) [OF that] by (auto dest: append_prefixD)
  moreover have "distinct (map (\<lambda>n. u @ [n]) ns)" using assms(2) by (simp add: distinct_map inj_on_def)
  moreover have "antichain vs" using assms(1) by (auto simp: antichain_def)
  ultimately show ?thesis by (auto simp: antichain_def)
qed

lemma todo_step:
  assumes "antichain (u # vs)" and "D u" and "finite {w. D w}"
  shows "card (todo D (rev (map (\<lambda>n. u @ [n]) ns) @ vs)) < card (todo D (u # vs))"
proof (rule psubset_card_mono)
  show "finite (todo D (u # vs))" using assms(3) by (auto simp: todo_def intro: finite_subset)
  have "u \<notin> todo D (rev (map (\<lambda>n. u @ [n]) ns) @ vs)" using assms(1) by (auto simp: todo_def antichain_def)
  moreover have "todo D (rev (map (\<lambda>n. u @ [n]) ns) @ vs) \<subseteq> todo D (u # vs)" by (auto simp: todo_def dest: append_prefixD)
  moreover have "u \<in> todo D (u # vs)" using assms(2) by (simp add: todo_def)
  ultimately show "todo D (rev (map (\<lambda>n. u @ [n]) ns) @ vs) \<subset> todo D (u # vs)" by blast
qed

text \<open>
  \<open>S\<close> is where the source is and \<open>T\<close> where the copy goes, apart from each other; \<open>D\<close> and \<open>F\<close> are what the source holds.
\<close>

context plain_files
begin

lemma is_dir_iff: "is_dir be s p \<longleftrightarrow> dir_at s (at_path s p)"
  by (simp add: is_dir_def meta split: option.split)

lemma entries_copy:
  assumes "copy_entries be start src tgt ns stack rep s = (r, s')"
    and "ok s" and "at_path s src = S @ u" and "at_path s tgt = T @ u" and apart: "\<not> prefix S T" "\<not> prefix T S"
    and "\<And>w. dir_at s (S @ w) = D w" and "\<And>w. file_at s (S @ w) = F w" and both: "\<And>w. D w \<Longrightarrow> F w = None"
    and "\<And>w. dir_at s (T @ w) \<Longrightarrow> D w" and "dir_at s (T @ u)" and "\<And>n. n \<in> set ns \<Longrightarrow> D (u @ [n]) \<or> F (u @ [n]) \<noteq> None"
  shows "ok s' \<and> at_path s' = at_path s \<and> dir_at s' = dir_at s \<and>
    (case r of Inl e \<Rightarrow> (e = TooManyFiles start \<or> e = TooManyBytes start) \<and> (\<forall>q. \<not> prefix T q \<longrightarrow> file_at s' q = file_at s q)
     | Inr (stack', rep') \<Rightarrow>
         stack' = rev (map (\<lambda>n. (path_join src [Normal n], path_join tgt [Normal n])) (filter (\<lambda>n. D (u @ [n])) ns)) @ stack \<and>
         file_at s' = pasted T u D F ns (file_at s) \<and>
         (rp_files rep \<le> max_files \<longrightarrow> rp_files rep' \<le> max_files) \<and> (rp_bytes rep \<le> max_copy_bytes \<longrightarrow> rp_bytes rep' \<le> max_copy_bytes))"
  using assms
proof (induction ns arbitrary: stack rep s)
  case (Cons n ns)
  have child: "at_path s (path_join src [Normal n]) = S @ u @ [n]" "at_path s (path_join tgt [Normal n]) = T @ u @ [n]"
    using Cons.prems(3,4) by (simp_all add: at_join)
  show ?case
  proof (cases "D (u @ [n])")
    case True
    then have "is_dir be s (path_join src [Normal n])" using Cons.prems(7) by (simp add: is_dir_iff child)
    then have rest: "copy_entries be start src tgt ns ((path_join src [Normal n], path_join tgt [Normal n]) # stack) rep s = (r, s')"
      using Cons.prems(1) by (simp add: Let_def)
    show ?thesis
      using Cons.IH [OF rest Cons.prems(2-5) Cons.prems(6) Cons.prems(7,8,9,10,11)] Cons.prems(12) True
      by (auto simp: pasted_dir split: sum.splits)
  next
    case False
    then obtain b where b: "F (u @ [n]) = Some b" using Cons.prems(12) by auto
    have read: "bk_read be s (path_join src [Normal n]) = Inr b"
      using False b Cons.prems(7,8) by (simp add: read child)
    have nd: "\<not> is_dir be s (path_join src [Normal n])" using Cons.prems(7) False by (simp add: is_dir_iff child)
    have "\<not> dir_at s (T @ u @ [n])" using Cons.prems(10) False by blast
    then have "fst (bk_write be s (path_join tgt [Normal n]) b False) = Inr ()"
      using Cons.prems(11) by (simp add: write_says child butlast_append)
    then obtain s1 where w: "bk_write be s (path_join tgt [Normal n]) b False = (Inr (), s1)" by (metis prod.collapse)
    note s1 = write_ok [OF Cons.prems(2) w, unfolded child]
    let ?rep = "\<lparr>rp_files = rp_files rep + 1, rp_bytes = rp_bytes rep + length b\<rparr>"
    show ?thesis
    proof (cases "rp_files ?rep > max_files \<or> rp_bytes ?rep > max_copy_bytes")
      case True
      then have "(r = Inl (TooManyFiles start) \<or> r = Inl (TooManyBytes start)) \<and> s' = s"
        using Cons.prems(1) nd read by (auto simp: Let_def split: if_splits)
      then show ?thesis using Cons.prems(2) by auto
    next
      case ok: False
      then have rest: "copy_entries be start src tgt ns stack ?rep s1 = (r, s')"
        using Cons.prems(1) nd read w by (simp add: Let_def)
      have S: "S @ x \<noteq> T @ u @ [n]" for x using not_under [OF apart] by blast
      have "ok s' \<and> at_path s' = at_path s1 \<and> dir_at s' = dir_at s1 \<and>
        (case r of Inl e \<Rightarrow> (e = TooManyFiles start \<or> e = TooManyBytes start) \<and> (\<forall>q. \<not> prefix T q \<longrightarrow> file_at s' q = file_at s1 q)
         | Inr (stack', rep') \<Rightarrow>
             stack' = rev (map (\<lambda>n. (path_join src [Normal n], path_join tgt [Normal n])) (filter (\<lambda>n. D (u @ [n])) ns)) @ stack \<and>
             file_at s' = pasted T u D F ns (file_at s1) \<and>
             (rp_files ?rep \<le> max_files \<longrightarrow> rp_files rep' \<le> max_files) \<and> (rp_bytes ?rep \<le> max_copy_bytes \<longrightarrow> rp_bytes rep' \<le> max_copy_bytes))"
        using S s1 Cons.prems by (intro Cons.IH [OF rest]) auto
      moreover have "file_at s1 = (file_at s)(T @ u @ [n] := F (u @ [n]))" using s1 b by simp
      ultimately show ?thesis using s1 ok False b by (auto simp: pasted_file split: sum.splits)
    qed
  qed
qed (auto simp: pasted_def)

lemma prefix_closed:
  assumes "\<And>w n. D (w @ [n]) \<or> F (w @ [n]) \<noteq> None \<Longrightarrow> D w" and "D w \<or> F w \<noteq> None"
  shows "prefix v w \<Longrightarrow> v \<noteq> w \<Longrightarrow> D v"
  using assms(2)
proof (induction w rule: rev_induct)
  case (snoc n w)
  have "D w" using assms(1) snoc.prems(3) by blast
  then show ?case using snoc by (cases "v = w") (auto dest: prefix_snocD)
qed simp

lemma loop_copy:
  assumes "ok s" and "list_all2 (\<lambda>e u. at_path s (fst e) = S @ u \<and> at_path s (snd e) = T @ u) stack us"
    and "antichain us" and "\<And>u. u \<in> set us \<Longrightarrow> D u" and apart: "\<not> prefix S T" "\<not> prefix T S"
    and "\<And>w. dir_at s (S @ w) = D w" and "\<And>w. file_at s (S @ w) = F w" and both: "\<And>w. D w \<Longrightarrow> F w = None"
    and "\<And>w. dir_at s (T @ w) \<Longrightarrow> D w" and "\<And>w b. file_at s (T @ w) = Some b \<Longrightarrow> F w = Some b"
    and "\<And>w. F w \<noteq> None \<Longrightarrow> file_at s (T @ w) = None \<Longrightarrow> \<exists>u\<in>set us. prefix u w"
    and "card (todo D us) < k" and "rp_files rep \<le> max_files" and "rp_bytes rep \<le> max_copy_bytes"
  shows "\<exists>r s'. copy_loop be start k stack rep s = Some (r, s') \<and> ok s' \<and> at_path s' = at_path s \<and>
    (\<forall>q. \<not> prefix T q \<longrightarrow> file_at s' q = file_at s q) \<and>
    (case r of Inl e \<Rightarrow> e = TooManyFiles start \<or> e = TooManyBytes start
     | Inr rep' \<Rightarrow> (\<forall>w. file_at s' (T @ w) = F w) \<and> rp_files rep' \<le> max_files \<and> rp_bytes rep' \<le> max_copy_bytes)"
  using assms
proof (induction k arbitrary: s stack us rep)
  case (Suc k)
  show ?case
  proof (cases stack)
    case Nil
    then have "us = []" using Suc.prems(2) by simp
    then have "file_at s (T @ w) = F w" for w
      using Suc.prems(11) [of w] Suc.prems(12) [of w] by (cases "file_at s (T @ w)"; cases "F w") auto
    with Nil Suc.prems(1,14,15) show ?thesis by simp
  next
    case (Cons e rest)
    obtain src tgt where e: "e = (src, tgt)" by fastforce
    obtain u vs where us: "us = u # vs" "at_path s src = S @ u" "at_path s tgt = T @ u"
      and vs: "list_all2 (\<lambda>e u. at_path s (fst e) = S @ u \<and> at_path s (snd e) = T @ u) rest vs"
      using Suc.prems(2) by (auto simp: Cons e list_all2_Cons1)
    have Du: "D u" using Suc.prems(4) us(1) by simp
    have closed: "D w" if "D (w @ [n]) \<or> F (w @ [n]) \<noteq> None" for w n
    proof -
      have "dir_at s ((S @ w) @ [n]) \<or> file_at s ((S @ w) @ [n]) \<noteq> None"
        using that Suc.prems(7) [of "w @ [n]"] Suc.prems(8) [of "w @ [n]"] by simp
      then have "dir_at s (S @ w)" using dir_up [OF Suc.prems(1)] file_up [OF Suc.prems(1)] by blast
      then show ?thesis using Suc.prems(7) [of w] by simp
    qed
    have "file_at s (T @ u) = None" using Suc.prems(11) [of u] both [OF Du] by (cases "file_at s (T @ u)") auto
    then obtain s1 where mk: "bk_create_dir_all be s tgt = (Inr (), s1)" using mkdir_can [of s tgt] us(3) by auto
    note s1 = mkdir_ok [OF Suc.prems(1) mk, unfolded us(3)]
    have Tu: "T @ u \<noteq> []" using apart by auto
    have d1: "dir_at s1 (S @ w) = D w" for w
    proof -
      have "\<not> prefix (S @ w) (T @ u)"
      proof
        assume "prefix (S @ w) (T @ u)"
        then obtain zs where "S @ (w @ zs) = T @ u" by (auto simp: prefix_def)
        then show False using not_under [OF apart] by blast
      qed
      then show ?thesis using s1 Suc.prems(7) by auto
    qed
    have dT: "D w" if "dir_at s1 (T @ w)" for w
    proof (cases "dir_at s (T @ w)")
      case False
      then have "prefix w u" using that s1 by auto
      then show ?thesis using prefix_closed [of D F u w] closed Du by blast
    qed (rule Suc.prems(10))
    have "dir_at s1 (at_path s1 src)" using s1 us(2) d1 [of u] Du by simp
    from listing [OF _ this] s1 obtain ns where ns: "bk_read_dir be s1 src = Inr ns" "distinct ns"
        "set ns = {n. dir_at s1 (S @ u @ [n]) \<or> file_at s1 (S @ u @ [n]) \<noteq> None}" using us(2) by auto
    have ns': "set ns = {n. D (u @ [n]) \<or> F (u @ [n]) \<noteq> None}"
    proof -
      have "file_at s1 = file_at s" using s1 by simp
      then show ?thesis unfolding ns(3) d1 using Suc.prems(8) by simp
    qed
    obtain r2 s2 where en: "copy_entries be start src tgt ns rest rep s1 = (r2, s2)" by fastforce
    have u1: "dir_at s1 (T @ u)" using s1 Tu by simp
    have post: "ok s2 \<and> at_path s2 = at_path s1 \<and> dir_at s2 = dir_at s1 \<and>
      (case r2 of Inl e \<Rightarrow> (e = TooManyFiles start \<or> e = TooManyBytes start) \<and> (\<forall>q. \<not> prefix T q \<longrightarrow> file_at s2 q = file_at s1 q)
       | Inr (stack', rep') \<Rightarrow>
         stack' = rev (map (\<lambda>n. (path_join src [Normal n], path_join tgt [Normal n])) (filter (\<lambda>n. D (u @ [n])) ns)) @ rest \<and>
         file_at s2 = pasted T u D F ns (file_at s1) \<and>
         (rp_files rep \<le> max_files \<longrightarrow> rp_files rep' \<le> max_files) \<and> (rp_bytes rep \<le> max_copy_bytes \<longrightarrow> rp_bytes rep' \<le> max_copy_bytes))"
      by (rule entries_copy [OF en]) (use s1 us d1 dT u1 ns' Suc.prems(8) both apart in auto)
    show ?thesis
    proof (cases r2)
      case (Inl e2)
      then show ?thesis using post s1 by (simp add: Cons e mk ns(1) en)
    next
      case (Inr x)
      obtain stack2 rep2 where x: "x = (stack2, rep2)" by fastforce
      let ?ds = "filter (\<lambda>n. D (u @ [n])) ns"
      let ?us2 = "rev (map (\<lambda>n. u @ [n]) ?ds) @ vs"
      have st2: "stack2 = rev (map (\<lambda>n. (path_join src [Normal n], path_join tgt [Normal n])) ?ds) @ rest"
        and f2: "file_at s2 = pasted T u D F ns (file_at s)" and ap2: "at_path s2 = at_path s" and d2: "dir_at s2 = dir_at s1"
        and ok2: "ok s2" and rep2: "rp_files rep2 \<le> max_files" "rp_bytes rep2 \<le> max_copy_bytes"
        using post s1 Suc.prems(14,15) by (auto simp: Inr x)
      have T2: "file_at s2 (T @ w) = (if \<exists>n\<in>set ns. \<not> D (u @ [n]) \<and> w = u @ [n] then F w else file_at s (T @ w))" for w
        by (auto simp: f2 pasted_def list_ex_iff)
      have S2: "file_at s2 (S @ w) = F w" for w
        using not_under [OF apart, of w] Suc.prems(8) by (auto simp: f2 pasted_def list_ex_iff)
      have N2: "file_at s2 q = file_at s q" if "\<not> prefix T q" for q
        using that by (auto simp: f2 pasted_def list_ex_iff)
      have left: "\<exists>v\<in>set ?us2. prefix v w" if w: "F w \<noteq> None" "file_at s2 (T @ w) = None" for w
      proof -
        have "file_at s (T @ w) = None" using w T2 [of w] by (auto split: if_splits)
        then obtain v where v: "v \<in> set us" "prefix v w" using Suc.prems(12) w(1) by blast
        show ?thesis
        proof (cases "v = u")
          case True
          have "w \<noteq> u" using w(1) both [OF Du] by blast
          moreover obtain zs where zs: "w = u @ zs" using v(2) True by (auto simp: prefix_def)
          ultimately obtain n z where "zs = n # z" by (cases zs) auto
          with zs have n: "w = (u @ [n]) @ z" by simp
          have D: "D (u @ [n])"
          proof (cases "z = []")
            case True
            then have "n \<in> set ns" using w(1) n ns' by simp
            with True w n T2 [of w] show ?thesis by (auto split: if_splits)
          next
            case False
            then show ?thesis using prefix_closed [of D F w "u @ [n]"] closed w(1) n by auto
          qed
          then have "u @ [n] \<in> set ?us2" using ns' by simp
          then show ?thesis using n by (auto intro!: bexI [of _ "u @ [n]"])
        next
          case False
          then have "v \<in> set ?us2" using v(1) us(1) by simp
          with v(2) show ?thesis by blast
        qed
      qed
      have lb: "list_all2 (\<lambda>e u. at_path s2 (fst e) = S @ u \<and> at_path s2 (snd e) = T @ u) stack2 ?us2"
        unfolding st2 ap2 by (rule list_all2_appendI [OF _ vs]) (simp add: list_all2_rev list_all2_map1 list_all2_map2 at_join us list_all2_refl)
      have fin: "finite {w. D w}"
      proof -
        have "(@) S ` {w. D w} \<subseteq> {q. dir_at s q}" using Suc.prems(7) by auto
        then have "finite ((@) S ` {w. D w})" using finite_dirs [OF Suc.prems(1)] finite_subset by blast
        then show ?thesis by (rule finite_imageD) (simp add: inj_on_def)
      qed
      have less: "card (todo D ?us2) < k"
        using todo_step [OF _ Du fin, of vs ?ds] Suc.prems(3,13) us(1) by simp
      have "\<exists>r s'. copy_loop be start k stack2 rep2 s2 = Some (r, s') \<and> ok s' \<and> at_path s' = at_path s2 \<and>
        (\<forall>q. \<not> prefix T q \<longrightarrow> file_at s' q = file_at s2 q) \<and>
        (case r of Inl e \<Rightarrow> e = TooManyFiles start \<or> e = TooManyBytes start
         | Inr rep' \<Rightarrow> (\<forall>w. file_at s' (T @ w) = F w) \<and> rp_files rep' \<le> max_files \<and> rp_bytes rep' \<le> max_copy_bytes)"
      proof (rule Suc.IH [OF ok2 lb _ _ apart _ S2 both _ _ left less rep2])
        show "antichain ?us2" using antichain_step [of u vs ?ds] Suc.prems(3) us(1) ns(2) by simp
        show "D v" if "v \<in> set ?us2" for v using that Suc.prems(4) us(1) by auto
        show "dir_at s2 (S @ w) = D w" for w using d1 d2 by simp
        show "D w" if "dir_at s2 (T @ w)" for w using that dT d2 by simp
        show "F w = Some b" if "file_at s2 (T @ w) = Some b" for w b
          using that Suc.prems(11) [of w b] by (auto simp: T2 split: if_splits)
      qed
      then obtain r3 s3 where l3: "copy_loop be start k stack2 rep2 s2 = Some (r3, s3)" "ok s3" "at_path s3 = at_path s2"
        "\<forall>q. \<not> prefix T q \<longrightarrow> file_at s3 q = file_at s2 q"
        "case r3 of Inl e \<Rightarrow> e = TooManyFiles start \<or> e = TooManyBytes start
         | Inr rep' \<Rightarrow> (\<forall>w. file_at s3 (T @ w) = F w) \<and> rp_files rep' \<le> max_files \<and> rp_bytes rep' \<le> max_copy_bytes" by blast
      have "copy_loop be start (Suc k) stack rep s = Some (r3, s3)" by (simp add: Cons e mk ns(1) en Inr x l3(1))
      then show ?thesis using l3 N2 ap2 by auto
    qed
  qed
qed simp

end


section \<open>Names\<close>

text \<open>
  The name of a deployment is the project's, which nothing checks.  An absolute one replaces the path it is joined to, and
  removing the deployment then removes every file below the path it names.
\<close>

theorem deployment_name_leaves_live:
  assumes "mem_ok s" and "pj_name p = Some n" and "has_root (path_of n)"
  shows "fst (deploy_remove mem_fs r (deployment_name r (Some p)) s) = Inr () \<and>
    mem_file (snd (deploy_remove mem_fs r (deployment_name r (Some p)) s)) q =
      (if prefix (normalize (path_of n)) q then None else mem_file s q)"
proof -
  have p: "live_path r (deployment_name r (Some p)) = path_of n"
    using assms(2,3) by (simp add: live_path_def deployment_name_def path_join_def)
  obtain r1 s1 where rm: "bk_remove_dir_all mem_fs s (path_of n) = (r1, s1)" by fastforce
  show ?thesis
    using mem.rmdir_ok [OF assms(1) rm] assms(3) by (simp add: deploy_remove_def p rm absolute_def)
qed

section \<open>Examples\<close>

definition demo_site :: mem_state where
  "demo_site = \<lparr>ms_cwd = [], ms_dirs = [[], [''r''], [''src'']], ms_files = [([''src'', ''a''], [5])]\<rparr>"

definition demo_site_root :: root where "demo_site_root = \<lparr>rt_dir = path_of ''/r''\<rparr>"

lemma demo_site_ok: "mem_ok demo_site"
proof -
  have snoc: "q @ [n] = [a] \<longleftrightarrow> q = [] \<and> n = a" "q @ [n] = [a, b] \<longleftrightarrow> q = [a] \<and> n = b" for q n and a b :: string
    by (auto simp: append_eq_Cons_conv)
  have "closed_up (mem_is_dir demo_site) (mem_file demo_site)"
    unfolding closed_up_def by (auto simp: mem_is_dir_def mem_file_def bt_get_def demo_site_def snoc split: if_splits)
  then show ?thesis by (simp add: mem_ok_def demo_site_def)
qed

lemma demo_site_paths: "absolute demo_site (path_of ''/src'') = [''src'']"
    "absolute demo_site (live_path demo_site_root ''x'') = [''r'', ''.drt_root'', ''live'', ''x'']"
  by (simp_all add: absolute_def path_of_def piece_def map_filter_simps has_root_def normalize_def live_path_def root_live_def root_meta_def
      path_join_def demo_site_root_def)


theorem deployment_name_leaves_live_witness:
  "mem_file (snd (deploy_remove mem_fs demo_site_root (deployment_name demo_site_root (Some ((project_new (Uuid7 []))\<lparr>pj_name := Some ''/src''\<rparr>))) demo_site))
     [''src'', ''a''] = None"
proof -
  have "path_of ''/src'' = [RootDir, Normal ''src'']" by (simp add: path_of_def piece_def map_filter_simps)
  then show ?thesis
    using deployment_name_leaves_live [OF demo_site_ok, of "(project_new (Uuid7 []))\<lparr>pj_name := Some ''/src''\<rparr>" "''/src''" demo_site_root
        "[''src'', ''a'']"] by (simp add: has_root_def normalize_def)
qed

end
