(* ===== verification/Consent_Gate.thy ===== *)
theory Consent_Gate
  imports Deploy
begin

text \<open>
  The consent of a start, \<^verbatim>\<open>crates/drt/src/consent_gate.rs\<close>: \<open>gate\<close>, which acts on what \<open>consent_check\<close> answered,
  with the two flags of the command line and an operator who may or may not be there.  \<open>gate_decide\<close> is the whole of it up to
  the write: the lines said, whether a question was asked, and a refusal or the file to write.  The lemmas show what each answer
  needs, that an accepted ceiling is not asked about again, and, over the life of a root, that no start goes
  beyond the last ceiling an operator accepted by an act.
\<close>

section \<open>The gate\<close>

record consent_flags =
  fl_yes :: bool
  fl_accept_changes :: bool

record operator =
  op_interactive :: bool
  op_confirm :: "string \<Rightarrow> string + bool"

datatype gate_error =
    GateConsentFails consent_failure
  | NotAccepted
  | WidenedNotAccepted objection
  | NoTerminal string string "objection option"
  | CannotAsk string
  | ConsentNotWritten root_error

definition gate_describe :: "grant list \<Rightarrow> string list" where
  "gate_describe caps = map (\<lambda>g. ''deny  '' @ capability g) (filter (\<lambda>g. effect g = Deny) caps) @
     map (\<lambda>g. ''grant '' @ capability g) (filter (\<lambda>g. effect g = Grant) caps)"

definition gate_confirm :: "operator \<Rightarrow> string \<Rightarrow> string \<Rightarrow> objection option \<Rightarrow> gate_error + bool" where
  "gate_confirm op question flag detail =
     (if \<not> op_interactive op then Inl (NoTerminal question flag detail)
      else (case op_confirm op question of Inl e \<Rightarrow> Inl (CannotAsk e) | Inr b \<Rightarrow> Inr b))"

definition project_called :: "project \<Rightarrow> string" where
  "project_called p = (case pj_name p of Some n \<Rightarrow> n | None \<Rightarrow> ''this root'')"

definition written_consent :: "timestamp \<Rightarrow> project \<Rightarrow> consent option \<Rightarrow> hash \<Rightarrow> consent" where
  "written_consent now p existing h =
     (let c = (case existing of Some c \<Rightarrow> c | None \<Rightarrow> consent_new (pj_root_id p)) in
      c\<lparr>cn_accepted := filter (\<lambda>e. accepted_realm e \<noteq> realm_root) (cn_accepted c) @
          [AcceptListed realm_root h (declared_ceiling_of p) now]\<rparr>)"

definition blanket_note :: string where
  "blanket_note = ''note: blanket operator consent is in force, and this root's ceiling has changed since it was accepted. '' @
     [CHR 0x60] @ ''dollup audit'' @ [CHR 0x60] @ '' prints the date.''"

definition indented :: "string \<Rightarrow> string" where "indented l = ''    '' @ l"

definition gate_decide :: "hash_env \<Rightarrow> timestamp \<Rightarrow> project \<Rightarrow> consent option \<Rightarrow> consent_flags \<Rightarrow> operator
    \<Rightarrow> (gate_error + consent option) \<times> string list" where
  "gate_decide he now p stored flags op = (case consent_check he p stored of
     Inl e \<Rightarrow> (Inl (GateConsentFails e), [])
   | Inr (Blanket t changed) \<Rightarrow> (Inr None, if changed then [blanket_note] else [])
   | Inr Unchanged \<Rightarrow> (Inr None, [])
   | Inr (First h) \<Rightarrow>
      (if fl_yes flags then (Inr (Some (written_consent now p stored h)), [])
       else (let said = [project_called p @ '' declares a ceiling this operator has not accepted:''] @
                  map indented (gate_describe (pj_caps p)) @ ['''',
                  ''A ceiling bounds every grant any node in this root can ever hold. Accepting it does not grant anything.''] in
         case gate_confirm op ''accept this ceiling?'' ''-y'' None of
           Inl e \<Rightarrow> (Inl e, said)
         | Inr False \<Rightarrow> (Inl NotAccepted, said)
         | Inr True \<Rightarrow> (Inr (Some (written_consent now p stored h)), said)))
   | Inr (Narrowed h change) \<Rightarrow> (Inr (Some (written_consent now p stored h)), [])
   | Inr (Widened h o1 change) \<Rightarrow>
      (if fl_accept_changes flags then (Inr (Some (written_consent now p stored h)), [])
       else (let said = [''the ceiling of '' @ project_called p @ '' has widened since it was accepted:''] @
                  map indented (change_lines change) @ [''''] in
         case gate_confirm op ''accept the widened ceiling?'' ''--accept-changes'' (Some o1) of
           Inl e \<Rightarrow> (Inl e, said)
         | Inr False \<Rightarrow> (Inl (WidenedNotAccepted o1), said)
         | Inr True \<Rightarrow> (Inr (Some (written_consent now p stored h)), said))))"

definition gate :: "'s backend \<Rightarrow> root_codec \<Rightarrow> hash_env \<Rightarrow> timestamp \<Rightarrow> root \<Rightarrow> project \<Rightarrow> consent option \<Rightarrow> consent_flags
    \<Rightarrow> operator \<Rightarrow> 's \<Rightarrow> (gate_error + unit) \<times> string list \<times> 's" where
  "gate be rc he now r p stored flags op s = (case gate_decide he now p stored flags op of
     (Inl e, said) \<Rightarrow> (Inl e, said, s)
   | (Inr None, said) \<Rightarrow> (Inr (), said, s)
   | (Inr (Some c), said) \<Rightarrow> (case write_consent be rc r c s of
        (Inl e, s1) \<Rightarrow> (Inl (ConsentNotWritten e), said, s1) | (Inr _, s1) \<Rightarrow> (Inr (), said, s1)))"

section \<open>What each answer needs\<close>

text \<open>The operator says yes at the terminal.\<close>

definition says_yes :: "operator \<Rightarrow> string \<Rightarrow> bool" where
  "says_yes op q \<longleftrightarrow> op_interactive op \<and> op_confirm op q = Inr True"

lemma confirm_yes: "gate_confirm op q f d = Inr True \<longleftrightarrow> says_yes op q"
  by (auto simp: gate_confirm_def says_yes_def split: sum.split)

lemma gate_first: "consent_check he p stored = Inr (First h) \<Longrightarrow>
    fst (gate_decide he now p stored flags op) = Inr w \<longleftrightarrow>
    (fl_yes flags \<or> says_yes op ''accept this ceiling?'') \<and> w = Some (written_consent now p stored h)"
  using confirm_yes [of op "''accept this ceiling?''" "''-y''" None]
  by (auto simp: gate_decide_def Let_def split: sum.splits bool.splits)

lemma gate_widened: "consent_check he p stored = Inr (Widened h o1 ch) \<Longrightarrow>
    fst (gate_decide he now p stored flags op) = Inr w \<longleftrightarrow>
    (fl_accept_changes flags \<or> says_yes op ''accept the widened ceiling?'') \<and> w = Some (written_consent now p stored h)"
  using confirm_yes [of op "''accept the widened ceiling?''" "''--accept-changes''" "Some o1"]
  by (auto simp: gate_decide_def Let_def split: sum.splits bool.splits)

lemma find_append: "List.find P (xs @ ys) = (case List.find P xs of Some x \<Rightarrow> Some x | None \<Rightarrow> List.find P ys)"
  by (induction xs) auto

lemma written_entry: "root_entry (written_consent now p stored h) = Some (AcceptListed realm_root h (declared_ceiling_of p) now)"
proof -
  have "List.find (\<lambda>e. accepted_realm e = realm_root) (filter (\<lambda>e. accepted_realm e \<noteq> realm_root) xs) = None" for xs
    by (induction xs) auto
  then show ?thesis by (simp add: written_consent_def root_entry_def Let_def find_append)
qed

lemma written_fields:
  "cn_root_id (written_consent now p stored h) = (case stored of Some c \<Rightarrow> cn_root_id c | None \<Rightarrow> pj_root_id p)"
  "cn_peers (written_consent now p stored h) = (case stored of Some c \<Rightarrow> cn_peers c | None \<Rightarrow> [])"
  "cn_signers (written_consent now p stored h) = (case stored of Some c \<Rightarrow> cn_signers c | None \<Rightarrow> [])"
  by (auto simp: written_consent_def Let_def consent_new_def split: option.split)

lemma check_hash: "consent_check he p stored = Inr (First h) \<or> consent_check he p stored = Inr (Narrowed h ch) \<or>
    consent_check he p stored = Inr (Widened h o1 ch) \<Longrightarrow> ceiling_hash he p = Inr h"
  by (auto simp: consent_check_def Let_def split: if_splits sum.splits option.splits list.splits accepted.splits)

lemma check_parties: "consent_check he p (Some c) = Inr a \<Longrightarrow> cn_root_id c = pj_root_id p \<and> cn_peers c = [] \<and> pj_caps p \<noteq> []"
  by (auto simp: consent_check_def split: if_splits sum.splits list.splits)

lemma written_hash: "fst (gate_decide he now p stored flags op) = Inr (Some c) \<Longrightarrow>
    \<exists>h. ceiling_hash he p = Inr h \<and> c = written_consent now p stored h \<and>
      (consent_check he p stored = Inr (First h) \<or> (\<exists>ch. consent_check he p stored = Inr (Narrowed h ch)) \<or>
       (\<exists>o1 ch. consent_check he p stored = Inr (Widened h o1 ch)))"
proof -
  assume g: "fst (gate_decide he now p stored flags op) = Inr (Some c)"
  then obtain a where a: "consent_check he p stored = Inr a"
    by (cases "consent_check he p stored") (auto simp: gate_decide_def)
  show ?thesis
  proof (cases a)
    case (First h)
    with g a gate_first [of he p stored h now flags op "Some c"] check_hash [of he p stored h] show ?thesis by auto
  next
    case (Narrowed h ch)
    with g a check_hash [of he p stored h ch] show ?thesis by (auto simp: gate_decide_def)
  next
    case (Widened h o1 ch)
    with g a gate_widened [of he p stored h o1 ch now flags op "Some c"] check_hash [of he p stored h ch o1] show ?thesis by auto
  qed (use g a in \<open>auto simp: gate_decide_def split: if_splits\<close>)
qed

lemma written_unchanged:
  assumes "fst (gate_decide he now p stored flags op) = Inr (Some c)"
  shows "consent_check he p (Some c) = Inr Unchanged"
proof -
  obtain h where h: "ceiling_hash he p = Inr h" "c = written_consent now p stored h"
    "\<exists>a. consent_check he p stored = Inr a" using written_hash [OF assms] by blast
  then obtain a where a: "consent_check he p stored = Inr a" by blast
  then have caps: "pj_caps p \<noteq> []" by (auto simp: consent_check_def)
  have "cn_root_id c = pj_root_id p \<and> cn_peers c = []"
  proof (cases stored)
    case (Some c0)
    then show ?thesis using check_parties [of he p c0 a] a by (simp add: h(2) written_fields)
  qed (simp add: h(2) written_fields)
  with caps show ?thesis by (simp add: consent_check_def h(1) written_entry [of now p stored h, folded h(2)])
qed

text \<open>
  Consent is asked once. Whatever a gate wrote, the next start of the same ceiling passes it without a word, a question or a
  write, with no flag and nobody at the terminal; the entry holds the ceiling itself beside its hash, it is the one of its
  realm, and the operator's signers stay.
\<close>

theorem accepted_ceiling_is_silent:
  assumes "fst (gate_decide he now p stored flags op) = Inr (Some c)"
  shows "gate_decide he later p (Some c) \<lparr>fl_yes = False, fl_accept_changes = False\<rparr> nobody = (Inr None, []) \<and>
    (\<exists>h. ceiling_hash he p = Inr h \<and> root_entry c = Some (AcceptListed realm_root h (declared_ceiling_of p) now)) \<and>
    length (filter (\<lambda>e. accepted_realm e = realm_root) (cn_accepted c)) = 1 \<and>
    cn_signers c = (case stored of Some c0 \<Rightarrow> cn_signers c0 | None \<Rightarrow> [])"
proof -
  obtain h where h: "ceiling_hash he p = Inr h" "c = written_consent now p stored h" using written_hash [OF assms] by blast
  have "filter (\<lambda>e. accepted_realm e = realm_root) (filter (\<lambda>e. accepted_realm e \<noteq> realm_root) xs) = []" for xs by simp
  then have "length (filter (\<lambda>e. accepted_realm e = realm_root) (cn_accepted c)) = 1"
    by (simp add: h(2) written_consent_def Let_def)
  with written_unchanged [OF assms] h written_entry [of now p stored h] written_fields [of now p stored h] show ?thesis
    by (simp add: gate_decide_def)
qed

text \<open>
  The flag \<^verbatim>\<open>-y\<close> is a first acceptance and nothing else. A widened ceiling starts only by
  \<^verbatim>\<open>--accept-changes\<close> or by a yes at the terminal, and a first one only by \<^verbatim>\<open>-y\<close> or a yes; where neither is given the start is
  refused and nothing is written, and no flag gets past a consent that is for another root.
\<close>

theorem acts_are_needed:
  "(consent_check he p stored = Inr (Widened h o1 ch) \<longrightarrow>
      ((\<exists>w. fst (gate_decide he now p stored flags op) = Inr w) \<longleftrightarrow>
       fl_accept_changes flags \<or> says_yes op ''accept the widened ceiling?'')) \<and>
   (consent_check he p stored = Inr (First h) \<longrightarrow>
      ((\<exists>w. fst (gate_decide he now p stored flags op) = Inr w) \<longleftrightarrow> fl_yes flags \<or> says_yes op ''accept this ceiling?'')) \<and>
   (consent_check he p stored = Inl f \<longrightarrow> gate_decide he now p stored flags op = (Inl (GateConsentFails f), [])) \<and>
   (fst (gate_decide he now p stored flags op) = Inl e \<longrightarrow> snd (snd (gate be rc he now r p stored flags op s)) = s)"
  using gate_widened [of he p stored h o1 ch now flags op] gate_first [of he p stored h now flags op]
  by (auto simp: gate_decide_def gate_def split: prod.splits)

section \<open>The life of a root\<close>

text \<open>
  A root's descriptor is edited between starts as anyone likes, its consent is written by the gate. \<open>consented he c e\<close>: the
  stored consent can be \<open>c\<close> when \<open>e\<close> is the last ceiling accepted by an act, which is a flag or a yes at the terminal; a start
  the gate lets through in silence leaves \<open>e\<close> as it is. Every ceiling is started with patterns that do not end in two stars.
\<close>

definition clean_ceiling :: "declared_ceiling \<Rightarrow> bool" where
  "clean_ceiling d \<longleftrightarrow> clean_grants (dc_caps d) \<and> clean_denies (dc_caps d)"

inductive consented :: "hash_env \<Rightarrow> consent option \<Rightarrow> declared_ceiling option \<Rightarrow> bool" for he where
  fresh: "consented he None None"
| accepted: "consented he c e \<Longrightarrow> clean_ceiling (declared_ceiling_of p) \<Longrightarrow>
    consent_check he p c = Inr (First h) \<or> consent_check he p c = Inr (Widened h o1 ch) \<Longrightarrow>
    fst (gate_decide he now p c flags op) = Inr (Some c') \<Longrightarrow> consented he (Some c') (Some (declared_ceiling_of p))"
| narrowed: "consented he c e \<Longrightarrow> clean_ceiling (declared_ceiling_of p) \<Longrightarrow>
    consent_check he p c = Inr (Narrowed h ch) \<Longrightarrow>
    fst (gate_decide he now p c flags op) = Inr (Some c') \<Longrightarrow> consented he (Some c') e"

text \<open>\<open>d\<close> allows nothing beyond \<open>e\<close>.\<close>

definition inside :: "declared_ceiling \<Rightarrow> declared_ceiling \<Rightarrow> bool" where
  "inside d e \<longleftrightarrow> (\<forall>w. holds (root_set (dc_caps d)) w \<longrightarrow> holds (root_set (dc_caps e)) w) \<and>
     pr_role ` set (dc_peers d) \<subseteq> pr_role ` set (dc_peers e)"

lemma inside_refl: "inside d d"
  by (simp add: inside_def)

lemma inside_trans: "inside a b \<Longrightarrow> inside b c \<Longrightarrow> inside a c"
proof -
  assume i: "inside a b" "inside b c"
  then have "pr_role ` set (dc_peers a) \<subseteq> pr_role ` set (dc_peers b)" "pr_role ` set (dc_peers b) \<subseteq> pr_role ` set (dc_peers c)"
    by (simp_all add: inside_def)
  then have "pr_role ` set (dc_peers a) \<subseteq> pr_role ` set (dc_peers c)" by (rule order_trans)
  with i show ?thesis by (simp add: inside_def)
qed

lemma narrowing_inside:
  assumes "widen_check_ceiling new acc = Inr ()" and "clean_grants (dc_caps acc)" and "clean_denies (dc_caps new)"
  shows "inside new acc"
proof -
  have w: "widen_check (dc_caps new) (dc_caps acc) = Inr ()" "pr_role ` set (dc_peers new) \<subseteq> pr_role ` set (dc_peers acc)"
    using assms(1) by (simp_all add: widen_check_ceiling_ok)
  obtain d where d: "attenuate_held_by (root_set (dc_caps acc)) None ''consent-widen-check'' (dc_caps new) = Inr d"
    using w(1) by (auto simp: widen_check_ok)
  have gs: "cs_grants d = dc_caps new" using attenuate_InrD(1) [OF d] by simp
  have "holds (root_set (dc_caps acc)) x" if "holds (root_set (dc_caps new)) x" for x
    using attenuate_narrows [OF d _ assms(3), of x] that assms(2) gs by (simp add: holds_def root_set_def)
  with w(2) show ?thesis by (simp add: inside_def)
qed

lemma consented_entry:
  assumes "consented he c0 e" and "c0 = Some c"
  shows "\<exists>h acc t x. root_entry c = Some (AcceptListed realm_root h acc t) \<and> ceiling_hash_of he acc = Inr h \<and> clean_ceiling acc \<and>
    e = Some x \<and> inside acc x"
  using assms
proof (induction arbitrary: c rule: consented.induct)
  case (accepted c0 e p h o1 ch now flags op c')
  obtain h where "ceiling_hash he p = Inr h" "c' = written_consent now p c0 h" using written_hash [OF accepted.hyps(4)] by blast
  with accepted.prems accepted.hyps(2) show ?case by (auto simp: written_entry ceiling_hash_def inside_refl)
next
  case (narrowed c0 e p h ch now flags op c')
  obtain k where k: "ceiling_hash he p = Inr k" "c' = written_consent now p c0 k" using written_hash [OF narrowed.hyps(4)] by blast
  obtain d where d: "c0 = Some d" using narrowed.hyps(3) by (cases c0) (auto simp: consent_check_def split: if_splits sum.splits)
  then obtain acc where acc: "compares he p d h acc" "widen_check_ceiling (declared_ceiling_of p) acc = Inr ()"
    using narrowed_compares narrowed.hyps(3) by blast
  obtain h2 acc2 t x where e: "root_entry d = Some (AcceptListed realm_root h2 acc2 t)" "clean_ceiling acc2" "e = Some x" "inside acc2 x"
    using narrowed.IH [OF d] by blast
  have "acc2 = acc" using acc(1) e(1) by (auto simp: compares_def)
  then have "inside (declared_ceiling_of p) acc2"
    using narrowing_inside acc(2) e(2) narrowed.hyps(2) by (auto simp: clean_ceiling_def)
  with e narrowed.prems k narrowed.hyps(2) inside_trans show ?case by (auto simp: written_entry ceiling_hash_def)
qed simp


section \<open>Examples\<close>

definition demo_ceiling :: project where "demo_ceiling = demo_project [grant_of ''host:fs/*'']"

definition demo_hash :: hash where
  "demo_hash = hash_value id demo_text (JObj [(''caps'', JArr [JObj [(''effect'', JStr ''grant''), (''capability'', JStr ''host:fs/*'')]]), (''peers'', JArr [])])"

definition demo_nobody :: operator where "demo_nobody = \<lparr>op_interactive = False, op_confirm = (\<lambda>q. Inl ''closed'')\<rparr>"

definition no_flags :: consent_flags where "no_flags = \<lparr>fl_yes = False, fl_accept_changes = False\<rparr>"

lemma demo_first: "consent_check demo_hashing demo_ceiling None = Inr (First demo_hash)"
proof -
  have "declared_ceiling_of demo_ceiling = ceiling_of_caps [grant_of ''host:fs/*'']"
    by (simp add: declared_ceiling_of_def demo_ceiling_def demo_project_def project_new_def ceiling_of_caps_def)
  then have "ceiling_hash demo_hashing demo_ceiling = Inr demo_hash"
    using demo_unscoped by (simp add: ceiling_hash_def ceiling_hash_of_def demo_hash_def demo_hashing_def)
  then show ?thesis by (simp add: consent_check_def demo_ceiling_def demo_project_def)
qed

lemma demo_accept: "fst (gate_decide demo_hashing 0 demo_ceiling None \<lparr>fl_yes = True, fl_accept_changes = False\<rparr> demo_nobody) =
    Inr (Some (written_consent 0 demo_ceiling None demo_hash))"
  by (simp add: gate_decide_def demo_first)

lemma demo_plain: "\<not> double_star ''host:fs/*''"
  by code_simp

lemma demo_clean: "clean_ceiling (declared_ceiling_of demo_ceiling)"
  by (simp add: clean_ceiling_def declared_ceiling_of_def demo_ceiling_def demo_project_def clean_grants_def clean_denies_def grant_of_def
      demo_plain)

theorem accepted_ceiling_is_silent_witness:
  "gate_decide demo_hashing 9 demo_ceiling (Some (written_consent 0 demo_ceiling None demo_hash)) no_flags demo_nobody = (Inr None, [])"
  using accepted_ceiling_is_silent [OF demo_accept, of 9 demo_nobody] by (simp add: no_flags_def)

theorem acts_are_needed_witness:
  "\<not> (\<exists>w. fst (gate_decide demo_hashing 0 demo_ceiling None no_flags demo_nobody) = Inr w)"
proof -
  have "(\<exists>w. fst (gate_decide demo_hashing 0 demo_ceiling None no_flags demo_nobody) = Inr w) \<longleftrightarrow>
      fl_yes no_flags \<or> says_yes demo_nobody ''accept this ceiling?''"
    by (rule acts_are_needed [where he = demo_hashing and p = demo_ceiling and stored = None and h = demo_hash and flags = no_flags
          and op = demo_nobody, THEN conjunct2, THEN conjunct1, rule_format, OF demo_first])
  then show ?thesis by (simp add: no_flags_def says_yes_def demo_nobody_def)
qed


end
