(* ===== verification/Boot.thy ===== *)
theory Boot
  imports Consent_Gate
begin

text \<open>
  What happens before the first step, \<^verbatim>\<open>crates/drt/src/boot.rs\<close>: find the root, resolve what would run, refuse what blocks,
  say or refuse a nesting, pass the gate of consent, hold a \<^verbatim>\<open>--config\<close> to the ceiling, wire the connectors.  The programs
  a build carries are \<^verbatim>\<open>crates/drt/src/stdlib.rs\<close>; the grants the first instance runs with are \<open>run_ceiling\<close>, of
  \<^verbatim>\<open>crates/drt/src/config.rs\<close>.  Loading a config file, wiring its connectors and the texts of the carried programs are
  fields of \<open>boot_env\<close>.  The lemmas show that what boots in a root was resolved without a blocking finding, passed the gate, and
  declares nothing beyond the ceiling; and that a profile which declares nothing runs with everything.
\<close>

section \<open>The programs a build carries\<close>

datatype kind = KindSource string | KindNative string

text \<open>Each name with the features its program needs.\<close>

definition stdlib_needs :: "(string \<times> string list) list" where
  "stdlib_needs = [(''preflight'', []), (''netcheck'', [''netcheck'']), (''relay'', [''relay'']), (''stun'', [''stun'']),
     (''bridge'', [''bridge'']), (''turn'', [''turn'']), (''wg'', [''wireguard'']),
     (''browser-access'', [''webrtc'', ''connector-ws'', ''connector-time'']), (''p2p-match'', [''p2p'']),
     (''jwks'', [''connector-kv'', ''connector-crypto'', ''listen'']),
     (''session'', [''connector-ldap'', ''connector-kv'', ''connector-crypto'', ''connector-time'', ''listen''])]"

definition stdlib_lookup :: "(string \<Rightarrow> bool) \<Rightarrow> (string \<Rightarrow> string) \<Rightarrow> string \<Rightarrow> kind option" where
  "stdlib_lookup feature source name = (case map_of stdlib_needs name of None \<Rightarrow> None
   | Some needs \<Rightarrow> (if \<not> list_all feature needs then None
       else Some (if name = ''preflight'' then KindNative name else KindSource (source name))))"

definition stdlib_names :: "(string \<Rightarrow> bool) \<Rightarrow> (string \<Rightarrow> string) \<Rightarrow> string list" where
  "stdlib_names feature source = filter (\<lambda>n. stdlib_lookup feature source n \<noteq> None) (map fst stdlib_needs)"

definition stdlib_is_native :: "(string \<Rightarrow> bool) \<Rightarrow> (string \<Rightarrow> string) \<Rightarrow> string \<Rightarrow> bool" where
  "stdlib_is_native feature source name \<longleftrightarrow> (case stdlib_lookup feature source name of Some (KindNative _) \<Rightarrow> True | _ \<Rightarrow> False)"

section \<open>What boots\<close>

datatype runnable = RunProgram program | RunNative string

record deployment =
  dp_name :: string
  dp_source :: deploy_source
  dp_deployed :: bool

record booted =
  bo_config :: root_config
  bo_root :: "root option"
  bo_resolution :: "resolution option"
  bo_runnable :: "runnable option"
  bo_deployment :: "deployment option"

record boot_env =
  bv_hash :: hash_env
  bv_codec :: root_codec
  bv_now :: timestamp
  bv_version :: string
  bv_load :: "path \<Rightarrow> string + root_config"
  bv_default :: root_config
  bv_local_defaults :: "root_config \<Rightarrow> root_config"
  bv_wire :: "root_config \<Rightarrow> string + unit"
  bv_feature :: "string \<Rightarrow> bool"
  bv_source :: "string \<Rightarrow> string"

datatype boot_error =
    LoadFails string
  | NoRootNoProfile string
  | NoRootNoArgs
  | WireFails string
  | Blocked finding
  | NoProjectJson
  | NestingRefused path
  | NoProfileResolved
  | ProfileNotThere string
  | ProfileNoEntry string
  | UnknownProgram string "string list"
  | GateRefuses gate_error
  | ConfigExceedsCeiling config_error

datatype boot_line = SaidSoft root_error | SaidNested path | SaidGate string

fun comp_text :: "comp \<Rightarrow> string" where
  "comp_text RootDir = []"
| "comp_text CurDir = ''.''"
| "comp_text ParentDir = ''..''"
| "comp_text (Normal n) = n"

definition path_text :: "path \<Rightarrow> string" where
  "path_text p = (if p = [RootDir] then ''/'' else join_slash (map comp_text p))"

definition entry_runnable :: "boot_env \<Rightarrow> root \<Rightarrow> string \<Rightarrow> entry \<Rightarrow> boot_error + runnable" where
  "entry_runnable env r name e = (case e of
     EntryFile p \<Rightarrow> Inr (RunProgram (ProgPath (path_text (path_join (live_path r name) (path_of p)))))
   | EntryStdlib n \<Rightarrow> (case stdlib_lookup (bv_feature env) (bv_source env) n of
       Some (KindNative native) \<Rightarrow> Inr (RunNative native)
     | Some (KindSource src) \<Rightarrow> Inr (RunProgram (ProgSource src))
     | None \<Rightarrow> Inl (UnknownProgram n (stdlib_names (bv_feature env) (bv_source env)))))"

definition profile_config :: "'s backend \<Rightarrow> 's \<Rightarrow> boot_env \<Rightarrow> root \<Rightarrow> root_inputs \<Rightarrow> resolution \<Rightarrow> project
    \<Rightarrow> boot_error + root_config \<times> runnable \<times> deployment" where
  "profile_config be s env r ri res p = (case rs_profile res of None \<Rightarrow> Inl NoProfileResolved
   | Some name \<Rightarrow> (let filename = profile_filename (dd_value name) in
     case bt_get (ri_profiles ri) filename of None \<Rightarrow> Inl (ProfileNotThere filename)
     | Some config \<Rightarrow> (case rs_entry res of None \<Rightarrow> Inl (ProfileNoEntry (dd_value name))
       | Some e \<Rightarrow>
         (let dname = deployment_name r (Some p);
              dep = \<lparr>dp_name = dname, dp_source = source_for r config, dp_deployed = is_deployed be s r dname\<rparr>;
              config1 = config\<lparr>rc_args := rs_args res\<rparr>
          in case entry_runnable env r dname (dd_value e) of Inl err \<Rightarrow> Inl err
             | Inr (RunProgram prog) \<Rightarrow> Inr (config1\<lparr>rc_root := (rc_root config1)\<lparr>ic_program := Some prog\<rparr>\<rparr>, RunProgram prog, dep)
             | Inr (RunNative n) \<Rightarrow> Inr (config1, RunNative n, dep)))))"

definition boot_nesting :: "'s backend \<Rightarrow> 's \<Rightarrow> root \<Rightarrow> allow_nested \<Rightarrow> boot_error + boot_line list" where
  "boot_nesting be s r policy = (case root_nesting be s r policy of
     NestedFree \<Rightarrow> Inr [] | NestedAllowed outer \<Rightarrow> Inr []
   | NestedWarn outer \<Rightarrow> Inr [SaidNested outer] | NestedRefused outer \<Rightarrow> Inl (NestingRefused outer))"

definition requested_of :: "string option \<Rightarrow> requested" where
  "requested_of profile = (case profile of Some n \<Rightarrow> ReqProfile n | None \<Rightarrow> ReqDefault)"

text \<open>No root: the config, or the wide local default.\<close>

definition boot_no_root :: "boot_env \<Rightarrow> path option \<Rightarrow> string option \<Rightarrow> overrides \<Rightarrow> boot_error + booted" where
  "boot_no_root env config_flag profile os =
     (case (case config_flag of Some f \<Rightarrow> bv_load env f | None \<Rightarrow> Inr (bv_default env)) of
        Inl e \<Rightarrow> Inl (LoadFails e)
      | Inr loaded \<Rightarrow>
        (let config = (if config_flag = None then bv_local_defaults env loaded else loaded) in
         case profile of Some n \<Rightarrow> Inl (NoRootNoProfile n)
         | None \<Rightarrow> (if os \<noteq> [] then Inl NoRootNoArgs
             else (case bv_wire env config of Inl e \<Rightarrow> Inl (WireFails e)
               | Inr _ \<Rightarrow> Inr \<lparr>bo_config = config, bo_root = None, bo_resolution = None, bo_runnable = None, bo_deployment = None\<rparr>))))"

text \<open>A \<^verbatim>\<open>--config\<close> in a root narrows, and is what runs.\<close>

definition hold_to_ceiling :: "root_config option \<Rightarrow> project \<Rightarrow> root_config \<Rightarrow> boot_error + root_config" where
  "hold_to_ceiling flag p config = (case flag of None \<Rightarrow> Inr config
   | Some f \<Rightarrow> (case check_attenuation (rc_root f) (ceiling_config p) of Inl e \<Rightarrow> Inl (ConfigExceedsCeiling e) | Inr _ \<Rightarrow> Inr f))"

definition gate_unless_native :: "'s backend \<Rightarrow> boot_env \<Rightarrow> root \<Rightarrow> project \<Rightarrow> consent option \<Rightarrow> consent_flags \<Rightarrow> operator \<Rightarrow> runnable
    \<Rightarrow> 's \<Rightarrow> (gate_error + unit) \<times> string list \<times> 's" where
  "gate_unless_native be env r p stored flags op run s = (case run of RunNative n \<Rightarrow> (Inr (), [], s)
   | RunProgram prog \<Rightarrow> gate be (bv_codec env) (bv_hash env) (bv_now env) r p stored flags op s)"

definition boot_in_root :: "'s backend \<Rightarrow> boot_env \<Rightarrow> root \<Rightarrow> path option \<Rightarrow> string option \<Rightarrow> overrides \<Rightarrow> consent_flags
    \<Rightarrow> operator \<Rightarrow> 's \<Rightarrow> (boot_error + booted) \<times> boot_line list \<times> 's" where
  "boot_in_root be env r config_flag profile os flags op s =
     (let (inputs0, soft) = root_read be s (bv_codec env) (bv_version env) r (requested_of profile) os; said = map SaidSoft soft in
      case (case config_flag of Some f \<Rightarrow> map_sum id Some (bv_load env f) | None \<Rightarrow> Inr None) of
        Inl e \<Rightarrow> (Inl (LoadFails e), said, s)
      | Inr flag \<Rightarrow>
        (let inputs = inputs0\<lparr>rn_config_flag := flag\<rparr>; res = resolve_run (bv_hash env) inputs in
         case blocker res of Some f \<Rightarrow> (Inl (Blocked f), said, s)
         | None \<Rightarrow> (case Option.bind (rn_root inputs) ri_project of None \<Rightarrow> (Inl NoProjectJson, said, s)
           | Some p \<Rightarrow> (case boot_nesting be s r (pj_allow_nested p) of Inl e \<Rightarrow> (Inl e, said, s)
             | Inr nested \<Rightarrow> (case profile_config be s env r (the (rn_root inputs)) res p of
                 Inl e \<Rightarrow> (Inl e, said @ nested, s)
               | Inr (config, run, dep) \<Rightarrow>
                 (case gate_unless_native be env r p (ri_consent (the (rn_root inputs))) flags op run s of
                    (Inl e, lines, s1) \<Rightarrow> (Inl (GateRefuses e), said @ nested @ map SaidGate lines, s1)
                  | (Inr _, lines, s1) \<Rightarrow> (case hold_to_ceiling flag p config of
                      Inl e \<Rightarrow> (Inl e, said @ nested @ map SaidGate lines, s1)
                    | Inr final \<Rightarrow> (case bv_wire env final of
                        Inl e \<Rightarrow> (Inl (WireFails e), said @ nested @ map SaidGate lines, s1)
                      | Inr _ \<Rightarrow> (Inr \<lparr>bo_config = final, bo_root = Some r, bo_resolution = Some res, bo_runnable = Some run,
                          bo_deployment = Some dep\<rparr>, said @ nested @ map SaidGate lines, s1)))))))))"

definition boot_with :: "'s backend \<Rightarrow> boot_env \<Rightarrow> path \<Rightarrow> path option \<Rightarrow> path option \<Rightarrow> string option \<Rightarrow> overrides \<Rightarrow> consent_flags
    \<Rightarrow> operator \<Rightarrow> 's \<Rightarrow> (boot_error + booted) \<times> boot_line list \<times> 's" where
  "boot_with be env cwd root_flag config_flag profile os flags op s = (case discover be s cwd root_flag of
     None \<Rightarrow> (boot_no_root env config_flag profile os, [], s)
   | Some r \<Rightarrow> boot_in_root be env r config_flag profile os flags op s)"

definition boot :: "'s backend \<Rightarrow> boot_env \<Rightarrow> path \<Rightarrow> path option \<Rightarrow> path option \<Rightarrow> string option \<Rightarrow> consent_flags
    \<Rightarrow> operator \<Rightarrow> 's \<Rightarrow> (boot_error + booted) \<times> boot_line list \<times> 's" where
  "boot be env cwd root_flag config_flag profile flags op s = boot_with be env cwd root_flag config_flag profile [] flags op s"

text \<open>The grants the first instance of a deployment gets.\<close>

definition run_ceiling :: "root_config \<Rightarrow> grant list" where
  "run_ceiling config = (if ic_caps (rc_root config) = [] then [grant_of ''host:*''] else ic_caps (rc_root config))"

definition repl_ceiling :: "root_config \<Rightarrow> grant list" where
  "repl_ceiling config = (if ic_caps (rc_root config) = [] then run_ceiling config @ [grant_of ''lifecycle''] else run_ceiling config)"

section \<open>What a boot guarantees\<close>

lemma check_ignores_program: "check_attenuation (c\<lparr>ic_program := x\<rparr>) q = check_attenuation c q"
  by (simp add: check_attenuation_def)

lemma root_read_root: "\<exists>ri. rn_root (fst (root_read be s rc v r q os)) = Some ri"
  by (simp add: root_read_def Let_def split: prod.split)

lemma boot_in_root_InrD:
  assumes "boot_in_root be env r config_flag profile os flags op s = (Inr b, said, s')"
  obtains flag ri p config run dep lines where
    "(case config_flag of Some f \<Rightarrow> map_sum id Some (bv_load env f) | None \<Rightarrow> Inr None) = Inr flag"
    "rn_root (fst (root_read be s (bv_codec env) (bv_version env) r (requested_of profile) os)) = Some ri"
    "ri_project ri = Some p"
    "blocker (resolve_run (bv_hash env) ((fst (root_read be s (bv_codec env) (bv_version env) r (requested_of profile) os))\<lparr>rn_config_flag := flag\<rparr>)) = None"
    "profile_config be s env r ri (resolve_run (bv_hash env) ((fst (root_read be s (bv_codec env) (bv_version env) r (requested_of profile) os))\<lparr>rn_config_flag := flag\<rparr>)) p = Inr (config, run, dep)"
    "gate_unless_native be env r p (ri_consent ri) flags op run s = (Inr (), lines, s')"
    "hold_to_ceiling flag p config = Inr (bo_config b)" "bo_runnable b = Some run" "bv_wire env (bo_config b) = Inr ()"
proof -
  obtain inputs soft where rd: "root_read be s (bv_codec env) (bv_version env) r (requested_of profile) os = (inputs, soft)" by fastforce
  obtain ri where ri: "rn_root inputs = Some ri" using root_read_root [of be s "bv_codec env" "bv_version env" r "requested_of profile" os] rd by auto
  obtain flag where flag: "(case config_flag of Some f \<Rightarrow> map_sum id Some (bv_load env f) | None \<Rightarrow> Inr None) = Inr flag"
    using assms unfolding boot_in_root_def rd by (cases "case config_flag of Some f \<Rightarrow> map_sum id Some (bv_load env f) | None \<Rightarrow> Inr None") auto
  let ?in = "inputs\<lparr>rn_config_flag := flag\<rparr>"
  have blk: "blocker (resolve_run (bv_hash env) ?in) = None"
    using assms unfolding boot_in_root_def rd by (auto simp: flag Let_def split: option.splits)
  obtain p where p: "ri_project ri = Some p"
    using assms unfolding boot_in_root_def rd by (auto simp: flag Let_def blk ri split: option.splits)
  obtain nested where n: "boot_nesting be s r (pj_allow_nested p) = Inr nested"
    using assms unfolding boot_in_root_def rd
    by (cases "boot_nesting be s r (pj_allow_nested p)") (auto simp: flag Let_def blk ri p)
  obtain config run dep where pc: "profile_config be s env r ri (resolve_run (bv_hash env) ?in) p = Inr (config, run, dep)"
    using assms unfolding boot_in_root_def rd
    by (cases "profile_config be s env r ri (resolve_run (bv_hash env) ?in) p") (auto simp: flag Let_def blk ri p n)
  obtain g lines s1 where g: "gate_unless_native be env r p (ri_consent ri) flags op run s = (g, lines, s1)" by (metis prod_cases3)
  have g1: "g = Inr ()"
    using assms unfolding boot_in_root_def rd by (cases g) (auto simp: flag Let_def blk ri p n pc g)
  obtain final where h: "hold_to_ceiling flag p config = Inr final"
    using assms unfolding boot_in_root_def rd
    by (cases "hold_to_ceiling flag p config") (auto simp: flag Let_def blk ri p n pc g g1)
  have "bv_wire env final = Inr () \<and> b = \<lparr>bo_config = final, bo_root = Some r, bo_resolution = Some (resolve_run (bv_hash env) ?in),
      bo_runnable = Some run, bo_deployment = Some dep\<rparr> \<and> s' = s1"
    using assms unfolding boot_in_root_def rd
    by (cases "bv_wire env final") (auto simp: flag Let_def blk ri p n pc g g1 h)
  then show ?thesis using that flag ri p blk pc g g1 h by (simp add: rd)
qed

lemma profile_config_root:
  assumes "profile_config be s env r ri res p = Inr (config, run, dep)"
  shows "\<exists>n d c. rs_profile res = Some (Decided n d) \<and> bt_get (ri_profiles ri) (profile_filename n) = Some c \<and>
    ic_caps (rc_root config) = ic_caps (rc_root c) \<and> check_attenuation (rc_root config) q = check_attenuation (rc_root c) q"
proof -
  obtain nd where n: "rs_profile res = Some nd" using assms by (cases "rs_profile res") (auto simp: profile_config_def)
  obtain n d where nd: "nd = Decided n d" by (cases nd)
  obtain c where c: "bt_get (ri_profiles ri) (profile_filename n) = Some c"
    using assms by (cases "bt_get (ri_profiles ri) (profile_filename n)") (auto simp: profile_config_def n nd)
  obtain e where e: "rs_entry res = Some e"
    using assms by (cases "rs_entry res") (auto simp: profile_config_def n nd c)
  have "ic_caps (rc_root config) = ic_caps (rc_root c) \<and> check_attenuation (rc_root config) q = check_attenuation (rc_root c) q"
    using assms by (auto simp: profile_config_def n nd c e Let_def check_ignores_program split: sum.splits runnable.splits)
  then show ?thesis using n nd c by blast
qed


lemma gate_passed:
  assumes "gate be rc he now r p stored flags op s = (Inr (), lines, s1)"
  shows "\<exists>w. fst (gate_decide he now p stored flags op) = Inr w"
  using assms by (auto simp: gate_def split: prod.splits sum.splits)

lemma attenuates_holds:
  assumes "check_attenuation c (ceiling_config p) = Inr ()" and "clean_grants (pj_caps p)" and "clean_denies (ic_caps c)"
    and "holds (root_set (ic_caps c)) w"
  shows "holds (root_set (pj_caps p)) w"
proof -
  obtain d where d: "attenuate_held_by (root_set (pj_caps p)) None ''attenuation-check'' (ic_caps c) = Inr d"
    using assms(1) by (auto simp: check_attenuation_def ceiling_config_def attenuate_def split: sum.splits)
  show ?thesis
    using attenuate_narrows [OF d _ assms(3), of w] assms(2,4) attenuate_InrD(1) [OF d] by (simp add: holds_def root_set_def)
qed

lemma resolved_attenuates:
  assumes "startable he p ri" and "bt_get (fst (declared_profiles p)) n = Some (profile_filename n)"
    and "bt_get (ri_profiles ri) (profile_filename n) = Some c"
  shows "check_attenuation (rc_root c) (ceiling_config p) = Inr ()"
  using assms(1) declared_in [OF assms(2)] assms(3) by (fastforce simp: startable_def)

text \<open>Whatever boots in a root declares what attenuates under the root's ceiling, the profile as well as a \<^verbatim>\<open>--config\<close>.\<close>

lemma booted_attenuates:
  assumes "boot_in_root be env r config_flag profile os flags op s = (Inr b, said, s')"
  obtains ri p run lines where
    "rn_root (fst (root_read be s (bv_codec env) (bv_version env) r (requested_of profile) os)) = Some ri"
    "ri_project ri = Some p" "startable (bv_hash env) p ri"
    "check_attenuation (rc_root (bo_config b)) (ceiling_config p) = Inr ()"
    "gate_unless_native be env r p (ri_consent ri) flags op run s = (Inr (), lines, s')" "bo_runnable b = Some run"
    "bv_wire env (bo_config b) = Inr ()"
proof (rule boot_in_root_InrD [OF assms])
  fix flag ri p config run dep lines
  let ?in = "(fst (root_read be s (bv_codec env) (bv_version env) r (requested_of profile) os))\<lparr>rn_config_flag := flag\<rparr>"
  assume ri: "rn_root (fst (root_read be s (bv_codec env) (bv_version env) r (requested_of profile) os)) = Some ri"
    and p: "ri_project ri = Some p" and blk: "blocker (resolve_run (bv_hash env) ?in) = None"
    and pc: "profile_config be s env r ri (resolve_run (bv_hash env) ?in) p = Inr (config, run, dep)"
    and g: "gate_unless_native be env r p (ri_consent ri) flags op run s = (Inr (), lines, s')"
    and h: "hold_to_ceiling flag p config = Inr (bo_config b)" and b: "bo_runnable b = Some run" and w: "bv_wire env (bo_config b) = Inr ()"
  have ri2: "rn_root ?in = Some ri" using ri by simp
  have s: "startable (bv_hash env) p ri" using project_unblocked(1) [OF ri2 p blk] .
  obtain n d c where c: "rs_profile (resolve_run (bv_hash env) ?in) = Some (Decided n d)"
      "bt_get (ri_profiles ri) (profile_filename n) = Some c"
      "check_attenuation (rc_root config) (ceiling_config p) = check_attenuation (rc_root c) (ceiling_config p)"
    using profile_config_root [OF pc, of "ceiling_config p"] by blast
  have "rs_profile (resolve_project (bv_hash env) ?in ri p) = Some (Decided n d)" using c(1) ri2 p by (simp add: resolve_run_def)
  then obtain c2 where "bt_get (fst (declared_profiles p)) n = Some (profile_filename n)" by (rule resolved_profile)
  then have "check_attenuation (rc_root config) (ceiling_config p) = Inr ()"
    using resolved_attenuates [OF s _ c(2)] c(3) by simp
  then have "check_attenuation (rc_root (bo_config b)) (ceiling_config p) = Inr ()"
    using h by (auto simp: hold_to_ceiling_def split: option.splits sum.splits)
  with ri p s g b w show thesis using that by blast
qed

text \<open>
  C21. What boots in a root: it was read from a project with a ceiling; the configuration that will run, the profile's or the one
  given with \<^verbatim>\<open>--config\<close>, attenuates under that ceiling; the gate of consent let it pass, unless a report is all that
  runs, and then nothing on disk changed; and it was wired.  When the configuration declares grants at all, and no pattern ends in
  two stars, what its first instance may call the ceiling holds.
\<close>

theorem rooted_boot_is_bounded:
  assumes "boot_in_root be env r config_flag profile os flags op s = (Inr b, said, s')"
  shows "\<exists>ri p. rn_root (fst (root_read be s (bv_codec env) (bv_version env) r (requested_of profile) os)) = Some ri \<and>
    ri_project ri = Some p \<and> pj_caps p \<noteq> [] \<and>
    check_attenuation (rc_root (bo_config b)) (ceiling_config p) = Inr () \<and>
    (case bo_runnable b of
       Some (RunProgram prog) \<Rightarrow> \<exists>w. fst (gate_decide (bv_hash env) (bv_now env) p (ri_consent ri) flags op) = Inr w
     | Some (RunNative n) \<Rightarrow> s' = s | None \<Rightarrow> False) \<and>
    bv_wire env (bo_config b) = Inr () \<and>
    (ic_caps (rc_root (bo_config b)) \<noteq> [] \<longrightarrow> clean_grants (pj_caps p) \<longrightarrow> clean_denies (ic_caps (rc_root (bo_config b))) \<longrightarrow>
      holds (root_set (run_ceiling (bo_config b))) w \<longrightarrow> holds (root_set (pj_caps p)) w)"
proof (rule booted_attenuates [OF assms])
  fix ri p run lines
  assume f: "rn_root (fst (root_read be s (bv_codec env) (bv_version env) r (requested_of profile) os)) = Some ri"
    "ri_project ri = Some p" "startable (bv_hash env) p ri" and c: "check_attenuation (rc_root (bo_config b)) (ceiling_config p) = Inr ()"
    and g: "gate_unless_native be env r p (ri_consent ri) flags op run s = (Inr (), lines, s')" and b: "bo_runnable b = Some run"
    and w: "bv_wire env (bo_config b) = Inr ()"
  have run: "case bo_runnable b of
       Some (RunProgram prog) \<Rightarrow> \<exists>w. fst (gate_decide (bv_hash env) (bv_now env) p (ri_consent ri) flags op) = Inr w
     | Some (RunNative n) \<Rightarrow> s' = s | None \<Rightarrow> False"
    using g gate_passed unfolding b by (cases run) (auto simp: gate_unless_native_def)
  have h: "holds (root_set (pj_caps p)) w" if "ic_caps (rc_root (bo_config b)) \<noteq> []" "clean_grants (pj_caps p)"
    "clean_denies (ic_caps (rc_root (bo_config b)))" "holds (root_set (run_ceiling (bo_config b))) w"
    using attenuates_holds [OF c that(2,3)] that(1,4) by (simp add: run_ceiling_def)
  have "pj_caps p \<noteq> []" using f(3) by (simp add: startable_def)
  with f(1,2) c run w h show ?thesis by blast
qed

section \<open>A root on disk\<close>

text \<open>A disk where every path is a directory, with one profile and one program, and \<^verbatim>\<open>project.json\<close> readable.\<close>

definition demo_machine :: "unit backend" where
  "demo_machine = \<lparr>bk_canonicalize = (\<lambda>s p. Inr p), bk_metadata = (\<lambda>s p. Inr \<lparr>md_len = 0, md_is_dir = True\<rparr>),
     bk_read = (\<lambda>s p. if last p = Normal ''consent.json'' then Inl (NotFound p) else Inr []),
     bk_write = (\<lambda>s p d a. (Inr (), s)),
     bk_read_dir = (\<lambda>s p. if last p = Normal ''profile'' then Inr [''debug.config.json'']
        else if last p = Normal ''init'' then Inr [''a.dlua''] else Inr []),
     bk_remove_file = (\<lambda>s p. (Inr (), s)), bk_create_dir_all = (\<lambda>s p. (Inr (), s)), bk_remove_dir_all = (\<lambda>s p. (Inr (), s))\<rparr>"

definition demo_caps_profile :: "grant list \<Rightarrow> root_config" where
  "demo_caps_profile caps = \<lparr>rc_root = \<lparr>ic_program = None, ic_caps = caps, ic_budget = budget_default, ic_numeric = numeric_default\<rparr>,
     rc_dlua_dir = None, rc_entry = Some (EntryFile ''a.dlua''), rc_args = []\<rparr>"

definition demo_env :: "grant list \<Rightarrow> boot_env" where
  "demo_env caps = \<lparr>bv_hash = demo_hashing,
     bv_codec = \<lparr>rd_project = (\<lambda>t. Inr demo_pj), rd_consent = (\<lambda>t. Inl ''no''), rd_config = (\<lambda>t. Inr (demo_caps_profile caps)),
       rd_decision = (\<lambda>t. Inl ''no''), wr_consent = (\<lambda>c. Inr []), wr_envelope = (\<lambda>e. Inr []), wr_request = (\<lambda>q. Inr [])\<rparr>,
     bv_now = 0, bv_version = ''0.1.0'', bv_load = (\<lambda>p. Inl ''no file''), bv_default = demo_caps_profile [],
     bv_local_defaults = id, bv_wire = (\<lambda>c. Inr ()), bv_feature = (\<lambda>f. False), bv_source = (\<lambda>n. [])\<rparr>"

definition demo_inputs :: "grant list \<Rightarrow> root_inputs" where
  "demo_inputs caps = \<lparr>ri_project = Some demo_pj, ri_consent = None, ri_profiles = [(''debug.config.json'', demo_caps_profile caps)],
     ri_profile_dir = [''debug.config.json''], ri_dlua_dir = [], ri_init = [''a.dlua''], ri_binary_version = Some ''0.1.0''\<rparr>"

definition demo_read :: "grant list \<Rightarrow> resolve_inputs" where
  "demo_read caps = \<lparr>rn_root = Some (demo_inputs caps), rn_config_flag = None, rn_requested = ReqDefault, rn_overrides = [], rn_cwd = []\<rparr>"

definition demo_at :: root where "demo_at = \<lparr>rt_dir = [RootDir]\<rparr>"

lemma demo_machine_paths: "path_of ''.drt_root'' = [Normal ''.drt_root'']" "path_of ''project.json'' = [Normal ''project.json'']"
    "path_of ''consent.json'' = [Normal ''consent.json'']" "path_of ''init'' = [Normal ''init'']" "path_of ''profile'' = [Normal ''profile'']"
    "path_of ''debug.config.json'' = [Normal ''debug.config.json'']"
  by (simp_all add: path_of_def piece_def)

lemma demo_layout: "root_meta demo_at = [RootDir, Normal ''.drt_root'']"
    "root_project_json demo_at = [RootDir, Normal ''.drt_root'', Normal ''project.json'']"
    "root_consent_json demo_at = [RootDir, Normal ''.drt_root'', Normal ''consent.json'']"
    "root_init demo_at = [RootDir, Normal ''.drt_root'', Normal ''init'']"
    "root_profile_dir demo_at = [RootDir, Normal ''.drt_root'', Normal ''profile'']"
  by (simp_all add: root_project_json_def root_consent_json_def root_meta_def root_profile_dir_def root_init_def demo_at_def demo_machine_paths
      path_join_def has_root_def)

lemma demo_root_read: "root_read demo_machine () (bv_codec (demo_env caps)) ''0.1.0'' demo_at ReqDefault [] = (demo_read caps, [])"
proof -
  have u: "utf8_valid []" by code_simp
  have p: "read_json demo_machine () (rd_project (bv_codec (demo_env caps))) (root_project_json demo_at) [] = (Some demo_pj, [])"
    by (simp add: read_json_def read_to_string_def demo_machine_def demo_env_def text_of_def u demo_layout)
  have c: "read_json demo_machine () (rd_consent (bv_codec (demo_env caps))) (root_consent_json demo_at) [] = (None, [])"
    by (simp add: read_json_def read_to_string_def demo_machine_def demo_layout)
  have d: "listing_or_none demo_machine () (root_profile_dir demo_at) = [''debug.config.json'']"
    "listing_or_none demo_machine () (root_init demo_at) = [''a.dlua'']" "listing_or_none demo_machine () (rt_dir demo_at) = []"
    by (simp_all add: listing_or_none_def demo_machine_def demo_layout) (simp add: demo_at_def)
  have f: "read_json demo_machine () (rd_config (bv_codec (demo_env caps))) [RootDir, Normal ''.drt_root'', Normal ''profile'', Normal ''debug.config.json''] [] =
      (Some (demo_caps_profile caps), [])"
    by (simp add: read_json_def read_to_string_def demo_machine_def demo_env_def text_of_def u)
  have "read_profiles demo_machine () (bv_codec (demo_env caps)) (root_profile_dir demo_at) [''debug.config.json''] [] [] =
      ([(''debug.config.json'', demo_caps_profile caps)], [])"
    by (simp add: demo_layout demo_machine_paths path_join_def has_root_def f)
  moreover have "rc_dlua_dir (demo_caps_profile caps) = None" by (simp add: demo_caps_profile_def)
  ultimately show ?thesis by (simp add: root_read_def p c d demo_read_def demo_inputs_def)
qed

lemma demo_attenuates_caps:
  assumes "caps = [] \<or> caps = [grant_of ''host:fs/*'']"
  shows "check_attenuation (rc_root (demo_caps_profile caps)) (ceiling_config demo_pj) = Inr ()"
proof -
  have "check_attenuation (rc_root (demo_caps_profile [])) (ceiling_config demo_pj) = Inr ()"
    by (simp add: demo_caps_profile_def ceiling_config_def demo_pj_def demo_project_def check_attenuation_def attenuate_def
      attenuate_held_by_def root_set_def may_grant_def grant_of_def deny_covered_def
      budget_fits_def bound_fits_def budget_default_def numeric_fits_def numeric_default_def numeric_is_unbounded_def Let_def)
  moreover have "rc_root (demo_caps_profile [grant_of ''host:fs/*'']) = rc_root demo_profile"
    by (simp add: demo_caps_profile_def demo_profile_def)
  ultimately show ?thesis using assms demo_attenuates by metis
qed

lemma demo_runs:
  assumes "caps = [] \<or> caps = [grant_of ''host:fs/*'']"
  shows "blocker (resolve_run demo_hashing (demo_read caps)) = None \<and>
    rs_profile (resolve_run demo_hashing (demo_read caps)) = Some (Decided ''debug'' RuleDefaultProfile) \<and>
    rs_entry (resolve_run demo_hashing (demo_read caps)) = Some (Decided (EntryFile ''a.dlua'') RuleFromProfile)"
proof -
  let ?ri = "demo_inputs caps"
  have rip: "rn_root (demo_read caps) = Some ?ri" "rn_requested (demo_read caps) = ReqDefault" "rn_overrides (demo_read caps) = []"
      "ri_project ?ri = Some demo_pj" "ri_consent ?ri = None" "ri_profiles ?ri = [(''debug.config.json'', demo_caps_profile caps)]"
      "ri_profile_dir ?ri = [''debug.config.json'']" "ri_init ?ri = [''a.dlua'']"
    by (simp_all add: demo_inputs_def demo_read_def)
  have pj: "pj_drt demo_pj = None" "pj_name demo_pj = None" "pj_version demo_pj = None" "pj_caps demo_pj = [grant_of ''host:fs/*'']"
    "pj_default_profile demo_pj = Some ''debug''"
    by (simp_all add: demo_pj_def demo_project_def project_new_def)
  have declared: "declared_profiles demo_pj = ([(''debug'', ''debug.config.json'')], [])"
    unfolding demo_pj_def by (rule demo_declared)
  have prof: "rc_dlua_dir (demo_caps_profile caps) = None" "rc_entry (demo_caps_profile caps) = Some (EntryFile ''a.dlua'')"
    "rc_args (demo_caps_profile caps) = []"
    by (simp_all add: demo_caps_profile_def)
  obtain h where "consent_check demo_hashing demo_pj None = Inr (First h)" using demo_consented by blast
  then have facts: "resolve_project_facts demo_hashing demo_pj ?ri =
      resolution_empty\<lparr>rs_ceiling := Some (Decided [grant_of ''host:fs/*''] RuleProjectCeiling), rs_consent := Some (First h),
        rs_findings := [NoProjectName, NoProjectVersion, NoPin]\<rparr>"
    by (simp add: resolve_project_facts_def Let_def declared pj rip check_pin_def check_profile_dir_def check_ceiling_def exceeds_def
        bt_get_def demo_attenuates_caps [OF assms] map_filter_simps found_def resolution_empty_def)
  have "profile_new ''debug'' = Inr ''debug''"
    by (simp add: profile_new_def is_reserved_def reserved_names_def eq_ignore_ascii_case_def to_lower_def)
  then have "resolve_run demo_hashing (demo_read caps) =
      run_profile (demo_read caps) ?ri ''debug'' RuleDefaultProfile (demo_caps_profile caps) (resolve_project_facts demo_hashing demo_pj ?ri)"
    by (simp add: resolve_run_def rip resolve_project_def pick_profile_def declared pj bt_get_def)
  then show ?thesis
    by (simp add: run_profile_def take_profile_fields_def rip merge_into_def merge_args_def prof check_entry_def facts resolution_empty_def
        blocker_def blocks_def Let_def)
qed

text \<open>The whole of \<^verbatim>\<open>drt start -y\<close> in that root.\<close>

definition demo_accepts :: consent_flags where "demo_accepts = \<lparr>fl_yes = True, fl_accept_changes = False\<rparr>"

lemma demo_boots:
  assumes "caps = [] \<or> caps = [grant_of ''host:fs/*'']"
  shows "\<exists>b said. boot_in_root demo_machine (demo_env caps) demo_at None None [] demo_accepts demo_nobody () = (Inr b, said, ()) \<and>
    ic_caps (rc_root (bo_config b)) = caps"
proof -
  let ?r = "resolve_run demo_hashing (demo_read caps)"
  have env: "bv_hash (demo_env caps) = demo_hashing" "bv_version (demo_env caps) = ''0.1.0''" "bv_now (demo_env caps) = 0"
    "bv_wire (demo_env caps) = (\<lambda>c. Inr ())"
    by (simp_all add: demo_env_def)
  have same: "demo_read caps\<lparr>rn_config_flag := None\<rparr> = demo_read caps" by (simp add: demo_read_def)
  have rip: "rn_root (demo_read caps) = Some (demo_inputs caps)" "ri_project (demo_inputs caps) = Some demo_pj"
    "ri_consent (demo_inputs caps) = None" "ri_profiles (demo_inputs caps) = [(''debug.config.json'', demo_caps_profile caps)]"
    by (simp_all add: demo_inputs_def demo_read_def)
  have nest: "boot_nesting demo_machine () demo_at (pj_allow_nested demo_pj) = Inr []"
    by (simp add: boot_nesting_def root_nesting_def demo_at_def nesting_above.simps path_parent_def)
  have fname: "profile_filename ''debug'' = ''debug.config.json''" by (simp add: profile_filename_def profile_suffix_def)
  obtain config prog dep where pc: "profile_config demo_machine () (demo_env caps) demo_at (demo_inputs caps) ?r demo_pj = Inr (config, RunProgram prog, dep)"
    and config: "ic_caps (rc_root config) = caps"
    using demo_runs [OF assms]
    by (simp add: profile_config_def rip fname bt_get_def Let_def entry_runnable_def demo_caps_profile_def)
  obtain lines where gate: "gate demo_machine (bv_codec (demo_env caps)) demo_hashing 0 demo_at demo_pj None demo_accepts demo_nobody () = (Inr (), lines, ())"
  proof -
    obtain h where h: "consent_check demo_hashing demo_pj None = Inr (First h)" using demo_consented by blast
    obtain x l where x: "gate_decide demo_hashing 0 demo_pj None demo_accepts demo_nobody = (x, l)" by fastforce
    have "x = Inr (Some (written_consent 0 demo_pj None h))"
      using gate_first [OF h, of 0 demo_accepts demo_nobody "Some (written_consent 0 demo_pj None h)"] x by (simp add: demo_accepts_def)
    then show thesis using that x by (simp add: gate_def write_consent_def demo_env_def demo_machine_def)
  qed
  show ?thesis
    using demo_runs [OF assms] config
    by (simp add: boot_in_root_def env requested_of_def demo_root_read same rip nest pc gate gate_unless_native_def hold_to_ceiling_def Let_def)
qed

lemma demo_calls: "implies ''host:fs/*'' ''host:fs/read''" "implies ''host:*'' ''host:kv/get''" "\<not> implies ''host:fs/*'' ''host:kv/get''"
  by code_simp+

theorem rooted_boot_is_bounded_witness:
  "holds (root_set [grant_of ''host:fs/*'']) ''host:fs/read''"
proof -
  obtain b said where b: "boot_in_root demo_machine (demo_env [grant_of ''host:fs/*'']) demo_at None None [] demo_accepts demo_nobody () = (Inr b, said, ())"
    "ic_caps (rc_root (bo_config b)) = [grant_of ''host:fs/*'']"
    using demo_boots [of "[grant_of ''host:fs/*'']"] by auto
  have i: "rn_root (fst (root_read demo_machine () (bv_codec (demo_env [grant_of ''host:fs/*''])) (bv_version (demo_env [grant_of ''host:fs/*''])) demo_at
      (requested_of None) [])) = Some (demo_inputs [grant_of ''host:fs/*''])"
    using demo_root_read [of "[grant_of ''host:fs/*'']"] by (simp add: requested_of_def demo_env_def demo_read_def)
  have p: "ri_project (demo_inputs [grant_of ''host:fs/*'']) = Some demo_pj" "pj_caps demo_pj = [grant_of ''host:fs/*'']"
    by (simp_all add: demo_inputs_def demo_pj_def demo_project_def)
  have clean: "clean_grants [grant_of ''host:fs/*'']" "clean_denies [grant_of ''host:fs/*'']"
    using demo_clean by (simp_all add: clean_grants_def clean_denies_def grant_of_def demo_plain)
  have run: "holds (root_set (run_ceiling (bo_config b))) ''host:fs/read''"
    unfolding run_ceiling_def b(2) by (simp add: holds_def grants_holds_def root_set_def grant_of_def demo_calls)
  show ?thesis
    using rooted_boot_is_bounded [OF b(1), of "''host:fs/read''"] b(2) i p clean run by auto
qed


end
