(* ===== verification/Desk.thy ===== *)
theory Desk
  imports Drt_Root Connector
begin

text \<open>
  The grants desk, \<^verbatim>\<open>crates/drt/src/gsr.rs\<close>: where a node's \<^verbatim>\<open>request_grant\<close> lands as a file, and where a signed decision about
  it is read back, over any backend.  \<open>root_desk\<close> is what the dispatcher of \<open>Connector\<close> is given.  The clock and the minting
  of ids are fields of \<open>desk_env\<close>.  The lemmas show that a node hears of a grant only when every link of the chain holds, that
  asking again files nothing new, and what one file in the directory of decisions can do to the others.
\<close>

section \<open>What a node asks\<close>

record asked_call =
  ak_realm :: realm
  ak_value :: json
  ak_reason :: string
  ak_window :: window

datatype asked_error =
    NoArguments
  | RealmRequired
  | BadAskRealm bad_realm
  | BadAskValue not_canonical
  | BadAskTime bad_timestamp

definition ask_field :: "val \<Rightarrow> string \<Rightarrow> val option" where
  "ask_field args name = Option.bind (val_as_map args) (map_field name)"

definition ask_instant :: "val \<Rightarrow> string \<Rightarrow> asked_error + timestamp option" where
  "ask_instant args name = (case Option.bind (ask_field args name) val_as_str of
     Some text \<Rightarrow> (case timestamp_parse text of Inl e \<Rightarrow> Inl (BadAskTime e) | Inr t \<Rightarrow> Inr (Some t))
   | None \<Rightarrow> Inr None)"

definition ask_value :: "val \<Rightarrow> asked_error + json" where
  "ask_value args = (case ask_field args ''ask'' of
     Some v \<Rightarrow> (case from_msgpack v of Inl e \<Rightarrow> Inl (BadAskValue e) | Inr j \<Rightarrow> Inr j) | None \<Rightarrow> Inr JNull)"

definition asked_decode :: "val option \<Rightarrow> asked_error + asked_call" where
  "asked_decode args = (case args of None \<Rightarrow> Inl NoArguments
   | Some a \<Rightarrow> (case Option.bind (ask_field a ''realm'') val_as_str of None \<Rightarrow> Inl RealmRequired
     | Some text \<Rightarrow> (case realm_parse text of Inl e \<Rightarrow> Inl (BadAskRealm e)
       | Inr r \<Rightarrow> (case ask_value a of Inl e \<Rightarrow> Inl e
         | Inr v \<Rightarrow> (case ask_instant a ''valid_from'' of Inl e \<Rightarrow> Inl e
           | Inr f \<Rightarrow> (case ask_instant a ''valid_until'' of Inl e \<Rightarrow> Inl e
             | Inr u \<Rightarrow> Inr \<lparr>ak_realm = r, ak_value = v,
                 ak_reason = (case Option.bind (ask_field a ''reason'') val_as_str of Some t \<Rightarrow> t | None \<Rightarrow> []),
                 ak_window = \<lparr>wn_from = f, wn_until = u\<rparr>\<rparr>))))))"

section \<open>What a node hears\<close>

definition pending_value :: "hash \<Rightarrow> val" where
  "pending_value i = VMap [(VStr ''status'', VStr ''pending''), (VStr ''request'', VStr i)]"

definition granted_value :: "window \<Rightarrow> val" where
  "granted_value w = VMap ((VStr ''status'', VStr ''granted'')
     # (case wn_from w of Some t \<Rightarrow> [(VStr ''from'', VStr (show_timestamp t))] | None \<Rightarrow> [])
     @ (case wn_until w of Some t \<Rightarrow> [(VStr ''until'', VStr (show_timestamp t))] | None \<Rightarrow> []))"

definition denied_value :: "string \<Rightarrow> val" where
  "denied_value reason = VMap [(VStr ''status'', VStr ''denied''), (VStr ''reason'', VStr reason)]"

definition step_of :: "unverified \<Rightarrow> string" where
  "step_of e = (case e of
     WrongRequest i f \<Rightarrow> ''this decision is for request '' @ f @ '', not '' @ i
   | UnknownKey k \<Rightarrow> ''step 1: no signer '' @ quoted k @ '' in consent.json; the operator has not said they trust this key''
   | WrongAlgorithm k a b \<Rightarrow> ''step 1: signer '' @ quoted k @ '' is an '' @ (case a of Ed25519 \<Rightarrow> ''ed25519'')
       @ '' key and the decision claims '' @ (case b of Ed25519 \<Rightarrow> ''ed25519'')
   | BadSignature DoesNotVerify \<Rightarrow> ''step 1: the signature does not verify against this key''
   | BadSignature MalformedKey \<Rightarrow> ''step 1: the public key is not a valid ed25519 key''
   | SignerNotAuthorized k r \<Rightarrow> ''step 2: signer '' @ quoted k @ '' is not authorized for '' @ quoted r
   | OutsideCeiling r \<Rightarrow> ''step 3: '' @ quoted r @ '' is outside this root'' @ CHR 0x27
       # ''s consented ceiling; an approval can act within the ceiling and can never widen beyond it''
   | Expired t \<Rightarrow> ''step 4: the decision expired at '' @ show_timestamp t
   | EmptyWindow \<Rightarrow> ''step 4: the approved window does not overlap what was asked'')"

section \<open>The desk\<close>

record 's desk_env =
  dk_verify :: verify_env
  dk_codec :: root_codec
  dk_now :: "'s \<Rightarrow> timestamp"
  dk_mint :: "'s \<Rightarrow> string + uuid7"

datatype desk_error =
    DeskRoot root_error
  | ConsentForOther uuid7 uuid7
  | BadNode bad_node_path
  | BadAsk asked_error
  | NoId string

text \<open>A file read now, or why not.\<close>

definition desk_read :: "'s backend \<Rightarrow> 's \<Rightarrow> (string \<Rightarrow> string + 'a) \<Rightarrow> path \<Rightarrow> root_error + 'a" where
  "desk_read be s dec p = (case read_to_string be s p of Inl e \<Rightarrow> Inl (CannotRead p e)
   | Inr text \<Rightarrow> (case dec text of Inl e \<Rightarrow> Inl (NotJson p e) | Inr v \<Rightarrow> Inr v))"

definition desk_files :: "'s backend \<Rightarrow> 's desk_env \<Rightarrow> root \<Rightarrow> 's \<Rightarrow> desk_error + project \<times> consent" where
  "desk_files be e r s = (case desk_read be s (rd_project (dk_codec e)) (root_project_json r) of Inl x \<Rightarrow> Inl (DeskRoot x)
   | Inr p \<Rightarrow> (case desk_read be s (rd_consent (dk_codec e)) (root_consent_json r) of Inl x \<Rightarrow> Inl (DeskRoot x)
     | Inr c \<Rightarrow> (if cn_root_id c \<noteq> pj_root_id p then Inl (ConsentForOther (cn_root_id c) (pj_root_id p)) else Inr (p, c))))"

definition desk_ceiling :: "'s backend \<Rightarrow> 's desk_env \<Rightarrow> root \<Rightarrow> 's \<Rightarrow> string list" where
  "desk_ceiling be e r s = (case desk_read be s (rd_project (dk_codec e)) (root_project_json r) of
     Inr p \<Rightarrow> map capability (filter (\<lambda>g. effect g = Grant) (pj_caps p)) | Inl _ \<Rightarrow> [])"

definition pending_file :: "'s desk_env \<Rightarrow> root \<Rightarrow> gsr_request \<Rightarrow> path" where
  "pending_file e r q = path_join (gsr_pending r) (path_of (gsr_filename (ve_hash (dk_verify e)) q))"

definition decided_file :: "root \<Rightarrow> string \<Rightarrow> path" where
  "decided_file r name = path_join (gsr_decided r) (path_of name)"

text \<open>The first decision in the directory that is for this request and has not lapsed is the answer, whatever its
  verification says; the lapsed ones before it are removed.\<close>

fun desk_scan :: "'s backend \<Rightarrow> 's desk_env \<Rightarrow> root \<Rightarrow> gsr_request \<Rightarrow> consent \<Rightarrow> timestamp \<Rightarrow> string list \<Rightarrow> 's \<Rightarrow> val option \<times> 's" where
  "desk_scan be e r q c now [] s = (None, s)"
| "desk_scan be e r q c now (n # ns) s = (case desk_read be s (rd_decision (dk_codec e)) (decided_file r n) of
     Inl _ \<Rightarrow> desk_scan be e r q c now ns s
   | Inr d \<Rightarrow>
      (if decision_is_expired d now then desk_scan be e r q c now ns (snd (bk_remove_file be s (decided_file r n)))
       else if de_request_hash d \<noteq> gsr_identity (ve_hash (dk_verify e)) q then desk_scan be e r q c now ns s
       else (case gsr_verify (dk_verify e) q d c now of
           Inr (Granted w) \<Rightarrow> (Some (granted_value w), snd (bk_remove_file be s (pending_file e r q)))
         | Inr Denied \<Rightarrow> (Some (denied_value ''the operator denied this request''), snd (bk_remove_file be s (pending_file e r q)))
         | Inl err \<Rightarrow> (Some (denied_value (step_of err)), s))))"

definition desk_decided :: "'s backend \<Rightarrow> 's desk_env \<Rightarrow> root \<Rightarrow> gsr_request \<Rightarrow> consent \<Rightarrow> timestamp \<Rightarrow> 's \<Rightarrow> val option \<times> 's" where
  "desk_decided be e r q c now s = desk_scan be e r q c now (listing_or_none be s (gsr_decided r)) s"

definition desk_write :: "'s backend \<Rightarrow> 's desk_env \<Rightarrow> root \<Rightarrow> gsr_request \<Rightarrow> 's \<Rightarrow> (desk_error + val) \<times> 's" where
  "desk_write be e r q s = (case wr_request (dk_codec e) q of Inl x \<Rightarrow> (Inl (DeskRoot (CannotSerialize x)), s)
   | Inr text \<Rightarrow> (case bk_write be s (pending_file e r q) (line_bytes text) False of
       (Inl x, s1) \<Rightarrow> (Inl (DeskRoot (CannotWrite (pending_file e r q) x)), s1)
     | (Inr _, s1) \<Rightarrow> (Inr (pending_value (gsr_identity (ve_hash (dk_verify e)) q)), s1)))"

definition request_of :: "uuid7 \<Rightarrow> uuid7 \<Rightarrow> node_path \<Rightarrow> asked_call \<Rightarrow> gsr_request" where
  "request_of u rid node a = with_reason (ak_reason a) (with_window (ak_window a) (gsr_request_new u rid node (ak_realm a) (ak_value a)))"

definition desk_request :: "'s backend \<Rightarrow> 's desk_env \<Rightarrow> root \<Rightarrow> string \<Rightarrow> val option \<Rightarrow> 's \<Rightarrow> (desk_error + val) \<times> 's" where
  "desk_request be e r node args s = (case desk_files be e r s of Inl x \<Rightarrow> (Inl x, s)
   | Inr (p, c) \<Rightarrow> (case node_parse node of Inl x \<Rightarrow> (Inl (BadNode x), s)
     | Inr np \<Rightarrow> (case asked_decode args of Inl x \<Rightarrow> (Inl (BadAsk x), s)
       | Inr a \<Rightarrow> (case dk_mint e s of Inl x \<Rightarrow> (Inl (NoId x), s)
         | Inr u \<Rightarrow> (let q = request_of u (pj_root_id p) np a; now = dk_now e s in
             case ensure_state be r s of (Inl x, s1) \<Rightarrow> (Inl (DeskRoot x), s1)
             | (Inr _, s1) \<Rightarrow> (case desk_decided be e r q c now s1 of
                 (Some answer, s2) \<Rightarrow> (Inr answer, s2)
               | (None, s2) \<Rightarrow> (if path_exists be s2 (pending_file e r q)
                   then (Inr (pending_value (gsr_identity (ve_hash (dk_verify e)) q)), s2)
                   else desk_write be e r q s2)))))))"

definition root_desk :: "(desk_error \<Rightarrow> string) \<Rightarrow> 's backend \<Rightarrow> 's desk_env \<Rightarrow> root \<Rightarrow> 's grant_desk" where
  "root_desk said be e r = \<lparr>gd_ceiling = desk_ceiling be e r,
     gd_request = (\<lambda>node args s. map_prod (map_sum said id) id (desk_request be e r node args s))\<rparr>"

section \<open>What a node hears is what one decision says\<close>

definition status_of :: "val \<Rightarrow> val option" where
  "status_of v = ask_field v ''status''"

lemma status_values:
  "status_of (pending_value i) = Some (VStr ''pending'')" "status_of (granted_value w) = Some (VStr ''granted'')"
  "status_of (denied_value t) = Some (VStr ''denied'')"
proof -
  have "utf8_valid ''status''" by code_simp
  then show "status_of (pending_value i) = Some (VStr ''pending'')" "status_of (granted_value w) = Some (VStr ''granted'')"
    "status_of (denied_value t) = Some (VStr ''denied'')"
    by (simp_all add: status_of_def ask_field_def map_field_def pending_value_def granted_value_def denied_value_def)
qed

text \<open>What one decision is answered with.\<close>

definition decision_answer :: "'s desk_env \<Rightarrow> gsr_request \<Rightarrow> consent \<Rightarrow> timestamp \<Rightarrow> decision \<Rightarrow> val" where
  "decision_answer e q c now d = (case gsr_verify (dk_verify e) q d c now of Inr (Granted w) \<Rightarrow> granted_value w
     | Inr Denied \<Rightarrow> denied_value ''the operator denied this request'' | Inl err \<Rightarrow> denied_value (step_of err))"

definition for_this :: "'s desk_env \<Rightarrow> gsr_request \<Rightarrow> timestamp \<Rightarrow> decision \<Rightarrow> bool" where
  "for_this e q now d \<longleftrightarrow> \<not> decision_is_expired d now \<and> de_request_hash d = gsr_identity (ve_hash (dk_verify e)) q"

lemma scan_answer: "desk_scan be e r q c now ns s = (Some v, s') \<Longrightarrow>
    \<exists>n\<in>set ns. \<exists>s0 d. desk_read be s0 (rd_decision (dk_codec e)) (decided_file r n) = Inr d \<and> for_this e q now d \<and> v = decision_answer e q c now d"
proof (induction be e r q c now ns s rule: desk_scan.induct)
  case (2 be e r q c now n ns s)
  show ?case
  proof (cases "desk_read be s (rd_decision (dk_codec e)) (decided_file r n)")
    case (Inl x)
    then show ?thesis using 2 by auto
  next
    case (Inr d)
    show ?thesis
    proof (cases "for_this e q now d")
      case True
      then have "v = decision_answer e q c now d"
        using 2(4) Inr by (auto simp: for_this_def decision_answer_def split: sum.splits verified.splits)
      then show ?thesis using Inr True by auto
    next
      case False
      then show ?thesis using 2 Inr by (auto simp: for_this_def split: if_splits)
    qed
  qed
qed simp

lemma desk_request_InrD:
  assumes "desk_request be e r node args s = (Inr v, s')"
  obtains p :: project and c np a u s1 answer s2 where "desk_files be e r s = Inr (p, c)" "node_parse node = Inr np" "asked_decode args = Inr a"
    "dk_mint e s = Inr u" "ensure_state be r s = (Inr (), s1)"
    "desk_decided be e r (request_of u (pj_root_id p) np a) c (dk_now e s) s1 = (answer, s2)"
    "(case answer of Some x \<Rightarrow> v = x \<and> s' = s2 | None \<Rightarrow>
       (if path_exists be s2 (pending_file e r (request_of u (pj_root_id p) np a))
        then v = pending_value (gsr_identity (ve_hash (dk_verify e)) (request_of u (pj_root_id p) np a)) \<and> s' = s2
        else desk_write be e r (request_of u (pj_root_id p) np a) s2 = (Inr v, s')))"
proof -
  obtain p c where f: "desk_files be e r s = Inr (p, c)"
    using assms by (cases "desk_files be e r s") (auto simp: desk_request_def)
  obtain np where np: "node_parse node = Inr np" using assms by (cases "node_parse node") (auto simp: desk_request_def f)
  obtain a where a: "asked_decode args = Inr a" using assms by (cases "asked_decode args") (auto simp: desk_request_def f np)
  obtain u where u: "dk_mint e s = Inr u" using assms by (cases "dk_mint e s") (auto simp: desk_request_def f np a)
  obtain x s1 where x: "ensure_state be r s = (x, s1)" by fastforce
  have x1: "x = Inr ()" using assms by (cases x) (auto simp: desk_request_def f np a u x Let_def)
  obtain answer s2 where d: "desk_decided be e r (request_of u (pj_root_id p) np a) c (dk_now e s) s1 = (answer, s2)" by fastforce
  have "(case answer of Some x \<Rightarrow> v = x \<and> s' = s2 | None \<Rightarrow>
       (if path_exists be s2 (pending_file e r (request_of u (pj_root_id p) np a))
        then v = pending_value (gsr_identity (ve_hash (dk_verify e)) (request_of u (pj_root_id p) np a)) \<and> s' = s2
        else desk_write be e r (request_of u (pj_root_id p) np a) s2 = (Inr v, s')))"
    using assms by (auto simp: desk_request_def f np a u x x1 d Let_def split: option.splits if_splits)
  with f np a u x x1 d show thesis using that by simp
qed

lemma written_answer: "desk_write be e r q s = (Inr v, s') \<Longrightarrow> v = pending_value (gsr_identity (ve_hash (dk_verify e)) q)"
  by (auto simp: desk_write_def split: sum.splits prod.splits)

text \<open>
  C32. A node hears that a grant was given only on a signature.  Its request was read under the descriptor and the consent as they
  are on disk now; a file among the decisions holds one for exactly this request, which a signer of that consent signed, who may speak
  for the realm asked, which the consented ceiling covers; it is an approval, and it has not lapsed.
\<close>

theorem granted_only_on_a_signature:
  assumes "desk_request be e r node args s = (Inr v, s')" and "status_of v = Some (VStr ''granted'')"
  shows "\<exists>(p :: project) c np a u q d w. desk_files be e r s = Inr (p, c) \<and> node_parse node = Inr np \<and> asked_decode args = Inr a \<and>
    q = request_of u (pj_root_id p) np a \<and> (\<exists>s0 n. desk_read be s0 (rd_decision (dk_codec e)) (decided_file r n) = Inr d) \<and>
    (\<exists>sg\<in>set (cn_signers c). authentic (dk_verify e) q d c sg \<and> authorized (dk_verify e) q c sg) \<and>
    de_verdict d = Approve \<and> dk_now e s < de_not_after d \<and> v = granted_value w \<and>
    w = intersect (ak_window a) \<lparr>wn_from = None, wn_until = Some (de_not_after d)\<rparr>"
proof (rule desk_request_InrD [OF assms(1)])
  fix p :: project and c np a u s1 answer s2
  let ?q = "request_of u (pj_root_id p) np a"
  assume f: "desk_files be e r s = Inr (p, c)" "node_parse node = Inr np" "asked_decode args = Inr a"
    and d: "desk_decided be e r ?q c (dk_now e s) s1 = (answer, s2)"
    and v: "case answer of Some x \<Rightarrow> v = x \<and> s' = s2 | None \<Rightarrow>
       (if path_exists be s2 (pending_file e r ?q)
        then v = pending_value (gsr_identity (ve_hash (dk_verify e)) ?q) \<and> s' = s2
        else desk_write be e r ?q s2 = (Inr v, s'))"
  have "answer = Some v"
  proof (cases answer)
    case None
    then have "v = pending_value (gsr_identity (ve_hash (dk_verify e)) ?q)"
      using v written_answer [of be e r ?q s2 v s'] by (auto split: if_splits)
    then show ?thesis using assms(2) by (simp add: status_values)
  qed (use v in simp)
  then obtain n s0 dn where dn: "desk_read be s0 (rd_decision (dk_codec e)) (decided_file r n) = Inr dn" "v = decision_answer e ?q c (dk_now e s) dn"
    using d scan_answer unfolding desk_decided_def by metis
  obtain w where w: "gsr_verify (dk_verify e) ?q dn c (dk_now e s) = Inr (Granted w)" "v = granted_value w"
    using dn(2) assms(2) by (auto simp: decision_answer_def status_values split: sum.splits verified.splits)
  obtain sg where sg: "authentic (dk_verify e) ?q dn c sg" "authorized (dk_verify e) ?q c sg"
    using verify_links [OF w(1)] by auto
  have k: "w = intersect (request_window ?q) \<lparr>wn_from = None, wn_until = Some (de_not_after dn)\<rparr>" "is_after (de_not_after dn) (dk_now e s)"
    "de_verdict dn = Approve"
    using w(1) verify_chain [OF sg, of "dk_now e s"] verdict.exhaust by (auto simp: Let_def split: if_splits)
  have "request_window ?q = ak_window a"
    by (cases a) (simp add: request_window_def request_of_def with_reason_def with_window_def gsr_request_new_def)
  then show ?thesis using f dn(1) sg authentic_signer [OF sg(1)] k w(2) by (auto simp: is_after_def)
qed

text \<open>Two desks that differ in the clock, in the ids they mint and in how they read the descriptor.\<close>

definition same_desk :: "'s desk_env \<Rightarrow> 's desk_env \<Rightarrow> bool" where
  "same_desk e e' \<longleftrightarrow> dk_verify e' = dk_verify e \<and> rd_decision (dk_codec e') = rd_decision (dk_codec e) \<and>
     rd_consent (dk_codec e') = rd_consent (dk_codec e) \<and> wr_request (dk_codec e') = wr_request (dk_codec e)"

lemma same_desk_file: "same_desk e e' \<Longrightarrow> pending_file e' r q = pending_file e r q"
  by (simp add: same_desk_def pending_file_def)

lemma same_desk_scan: "same_desk e e' \<Longrightarrow> desk_scan be e' r q c now ns s = desk_scan be e r q c now ns s"
  by (induction ns arbitrary: s) (simp_all add: same_desk_def pending_file_def split: sum.split verified.split)

lemma same_desk_write: "same_desk e e' \<Longrightarrow> desk_write be e' r q s = desk_write be e r q s"
  by (simp add: desk_write_def same_desk_def pending_file_def split: sum.split prod.split)

text \<open>
  The descriptor is read for every request, and of it only the id is used: whatever ceiling it states now, narrower or none, what the
  node is answered and what is written is the same.
\<close>

theorem narrowing_does_not_bind:
  "desk_request be (e\<lparr>dk_codec := (dk_codec e)\<lparr>rd_project := \<lambda>t. map_sum id (\<lambda>p. p\<lparr>pj_caps := caps p\<rparr>) (rd_project (dk_codec e) t)\<rparr>\<rparr>) r node args s =
   desk_request be e r node args s"
proof -
  define e' where "e' = e\<lparr>dk_codec := (dk_codec e)\<lparr>rd_project := \<lambda>t. map_sum id (\<lambda>p. p\<lparr>pj_caps := caps p\<rparr>) (rd_project (dk_codec e) t)\<rparr>\<rparr>"
  have same: "same_desk e e'" by (simp add: same_desk_def e'_def)
  have "rd_project (dk_codec e') = (\<lambda>t. map_sum id (\<lambda>p. p\<lparr>pj_caps := caps p\<rparr>) (rd_project (dk_codec e) t))"
    by (simp add: e'_def)
  then have files: "desk_files be e' r s = map_sum id (\<lambda>(p, c). (p\<lparr>pj_caps := caps p\<rparr>, c)) (desk_files be e r s)"
    using same by (auto simp: desk_files_def desk_read_def same_desk_def split: sum.split)
  have "dk_mint e' = dk_mint e" "dk_now e' = dk_now e" "dk_verify e' = dk_verify e" by (simp_all add: e'_def)
  then have "desk_request be e' r node args s = desk_request be e r node args s"
    by (cases "desk_files be e r s")
      (auto simp: desk_request_def files desk_decided_def same_desk_scan [OF same] same_desk_write [OF same] same_desk_file [OF same] Let_def
        split: sum.split option.split prod.split)
  then show ?thesis by (simp only: e'_def)
qed

section \<open>Asking again\<close>

lemma hex_digits: "c \<in> set (hex_byte b) \<Longrightarrow> c \<noteq> CHR ''/''"
proof -
  have "hex_digit n \<noteq> CHR ''/''" if "n < 16" for n
  proof -
    have "n \<in> set [0..<16]" using that by simp
    moreover have "list_all (\<lambda>n. hex_digit n \<noteq> CHR ''/'') [0..<16]" by code_simp
    ultimately show ?thesis unfolding list_all_iff by blast
  qed
  moreover have "unat b div 16 < 16" "unat b mod 16 < 16" using unsigned_less [of b, where ?'a = nat] by simp_all
  ultimately have "hex_digit (unat b div 16) \<noteq> CHR ''/''" "hex_digit (unat b mod 16) \<noteq> CHR ''/''" by blast+
  then show "c \<in> set (hex_byte b) \<Longrightarrow> c \<noteq> CHR ''/''" by (auto simp: hex_byte_def)
qed

text \<open>A request's file is one name in its directory.\<close>

lemma filename_path: "path_of (gsr_filename he q) = [Normal (gsr_filename he q)]"
proof -
  obtain ds where ds: "gsr_filename he q = concat (map hex_byte ds) @ ''.json''"
    by (simp add: gsr_filename_def gsr_identity_def hash_value_def canon_hash_def hash_hex_def)
  have no: "CHR ''/'' \<notin> set (gsr_filename he q)" using hex_digits by (auto simp: ds)
  then have "\<not> prefix ''/'' (gsr_filename he q)" by (cases "gsr_filename he q") auto
  moreover have "length (gsr_filename he q) > 2" by (simp add: ds)
  moreover have "piece (gsr_filename he q) = Some (Normal (gsr_filename he q))" "gsr_filename he q \<noteq> ''.''"
    using \<open>length (gsr_filename he q) > 2\<close> by (auto simp: piece_def)
  ultimately show ?thesis by (simp add: path_of_def split_char_no [OF no] map_filter_simps)
qed

lemma join_two: "path_join p [Normal a, Normal b] = path_join (path_join p [Normal a]) [Normal b]"
  by (simp add: path_join_def has_root_def)

lemma desk_names: "path_of ''.drt_root'' = [Normal ''.drt_root'']" "path_of ''state'' = [Normal ''state'']"
    "path_of ''gsr/pending'' = [Normal ''gsr'', Normal ''pending'']" "path_of ''gsr/decided'' = [Normal ''gsr'', Normal ''decided'']"
    "path_of ''project.json'' = [Normal ''project.json'']" "path_of ''consent.json'' = [Normal ''consent.json'']"
  by (simp_all add: path_of_def piece_def map_filter_simps)

text \<open>Where the files of a root are, from the directory \<^verbatim>\<open>.drt_root\<close>.\<close>

lemma desk_places:
  "absolute s (root_project_json r) = absolute s (root_meta r) @ [''project.json'']"
  "absolute s (root_consent_json r) = absolute s (root_meta r) @ [''consent.json'']"
  "absolute s (gsr_pending r) = absolute s (root_meta r) @ [''state'', ''gsr'', ''pending'']"
  "absolute s (gsr_decided r) = absolute s (root_meta r) @ [''state'', ''gsr'', ''decided'']"
  "absolute s (pending_file e r q) = absolute s (root_meta r) @ [''state'', ''gsr'', ''pending'', gsr_filename (ve_hash (dk_verify e)) q]"
  by (simp_all add: root_project_json_def root_consent_json_def gsr_pending_def gsr_decided_def root_state_def pending_file_def filename_path
      desk_names join_two absolute_join)

lemma mkdir_clear: "bk_create_dir_all mem_fs s p = (Inr u, s') \<Longrightarrow> mem_file s (absolute s p) = None"
  by (auto simp: mem_fs_def mem_create_dir_all_def mem_file_def Let_def split: if_splits)

lemma ensured:
  assumes "mem_ok s" and "ensure_state mem_fs r s = (Inr (), s1)"
  shows "mem_ok s1 \<and> absolute s1 = absolute s \<and> mem_file s1 = mem_file s \<and>
    mem_is_dir s1 = (\<lambda>q. mem_is_dir s q \<or> q \<noteq> [] \<and> (prefix q (absolute s (gsr_pending r)) \<or> prefix q (absolute s (gsr_decided r)))) \<and>
    mem_file s (absolute s (gsr_pending r)) = None \<and> mem_file s (absolute s (gsr_decided r)) = None"
proof -
  obtain x sa where a: "bk_create_dir_all mem_fs s (gsr_pending r) = (x, sa)" by fastforce
  then have xa: "x = Inr ()" using assms(2) by (cases x) (auto simp: ensure_state_def)
  have b: "bk_create_dir_all mem_fs sa (gsr_decided r) = (Inr (), s1)"
    using assms(2) by (auto simp: ensure_state_def a xa split: prod.splits sum.splits)
  note A = mem.mkdir_ok [OF assms(1), of "gsr_pending r" "()" sa, unfolded a xa, OF refl]
  note B = mem.mkdir_ok [OF conjunct1 [OF A] b]
  have "absolute sa = absolute s" "mem_file sa = mem_file s" using A by blast+
  then show ?thesis using A B mkdir_clear [OF a [unfolded xa]] mkdir_clear [OF b] by auto
qed

lemma ensure_can:
  assumes "mem_ok s" and "mem_file s (absolute s (gsr_pending r)) = None" and "mem_file s (absolute s (gsr_decided r)) = None"
  shows "\<exists>s1. ensure_state mem_fs r s = (Inr (), s1)"
proof -
  obtain sa where a: "bk_create_dir_all mem_fs s (gsr_pending r) = (Inr (), sa)" using mem.mkdir_can [OF assms(2)] by blast
  have "mem_file sa (absolute sa (gsr_decided r)) = None" using mem.mkdir_ok [OF assms(1) a] assms(3) by simp
  from mem.mkdir_can [OF this] show ?thesis by (auto simp: ensure_state_def a)
qed

definition undecided :: "root \<Rightarrow> mem_state \<Rightarrow> bool" where
  "undecided r s \<longleftrightarrow> (\<forall>n. \<not> mem_is_dir s (absolute s (gsr_decided r) @ [n]) \<and> mem_file s (absolute s (gsr_decided r) @ [n]) = None)"

lemma undecided_scan:
  assumes "mem_ok s" and "undecided r s" and "mem_is_dir s (absolute s (gsr_decided r))"
  shows "desk_decided mem_fs e r q c now s = (None, s)"
proof -
  obtain xs where "bk_read_dir mem_fs s (gsr_decided r) = Inr xs" "set xs = {}"
    using mem.listing [OF assms(1,3)] assms(2) by (auto simp: undecided_def)
  then show ?thesis by (simp add: desk_decided_def listing_or_none_def)
qed

lemma ensured_undecided:
  assumes "mem_ok s" and "ensure_state mem_fs r s = (Inr (), s1)" and "undecided r s"
  shows "undecided r s1 \<and> mem_is_dir s1 (absolute s1 (gsr_decided r))"
  using ensured [OF assms(1,2)] assms(3) by (auto simp: undecided_def desk_places)

lemma pending_exists: "mem_file s (absolute s p) \<noteq> None \<Longrightarrow> path_exists mem_fs s p"
  by (auto simp: path_exists_def mem.meta)

lemma read_elsewhere:
  assumes "mem_is_dir s1 (absolute s1 p) = mem_is_dir s (absolute s p)" and "mem_file s1 (absolute s1 p) = mem_file s (absolute s p)"
  shows "desk_read mem_fs s1 dec p = desk_read mem_fs s dec p"
  using assms by (simp add: desk_read_def read_to_string_def mem.read)

text \<open>
  C33. Asking again files nothing new.  When nothing has been decided, a node that asks twice, whatever the clock says by then and whatever
  id the second request would be given, hears the same answer, and no file changes: a restart does not ask twice.
\<close>

theorem asking_again_files_nothing:
  assumes "mem_ok s" and "undecided r s" and "desk_request mem_fs e r node args s = (Inr v, s1)"
    and "same_desk e e'" and "rd_project (dk_codec e') = rd_project (dk_codec e)" and "dk_mint e' s1 = Inr u'"
  shows "status_of v = Some (VStr ''pending'') \<and>
    (\<exists>s2. desk_request mem_fs e' r node args s1 = (Inr v, s2) \<and> mem_file s2 = mem_file s1 \<and> mem_is_dir s2 = mem_is_dir s1)"
proof (rule desk_request_InrD [OF assms(3)])
  fix p :: project and c np a u sa answer sb
  let ?q = "request_of u (pj_root_id p) np a" and ?q' = "request_of u' (pj_root_id p) np a"
  assume f: "desk_files mem_fs e r s = Inr (p, c)" "node_parse node = Inr np" "asked_decode args = Inr a"
    and en: "ensure_state mem_fs r s = (Inr (), sa)" and de: "desk_decided mem_fs e r ?q c (dk_now e s) sa = (answer, sb)"
    and v: "case answer of Some x \<Rightarrow> v = x \<and> s1 = sb | None \<Rightarrow>
       (if path_exists mem_fs sb (pending_file e r ?q)
        then v = pending_value (gsr_identity (ve_hash (dk_verify e)) ?q) \<and> s1 = sb
        else desk_write mem_fs e r ?q sb = (Inr v, s1))"
  note E = ensured [OF assms(1) en]
  have qq: "gsr_identity h ?q' = gsr_identity h ?q" for h
    by (simp add: gsr_identity_def identity_json_def request_of_def with_reason_def with_window_def gsr_request_new_def)
  then have pf: "pending_file e r ?q' = pending_file e r ?q" by (simp add: pending_file_def gsr_filename_def)
  have "desk_decided mem_fs e r ?q c (dk_now e s) sa = (None, sa)"
    using undecided_scan ensured_undecided [OF assms(1) en assms(2)] E by blast
  with de have ans: "answer = None" "sb = sa" by simp_all
  have pend: "v = pending_value (gsr_identity (ve_hash (dk_verify e)) ?q)"
    using v ans written_answer [of mem_fs e r ?q sb v s1] by (auto split: if_splits)
  let ?P = "pending_file e r ?q"
  have S: "mem_ok s1 \<and> absolute s1 = absolute s \<and> mem_is_dir s1 = mem_is_dir sa \<and>
      (\<forall>x. x \<noteq> absolute s ?P \<longrightarrow> mem_file s1 x = mem_file s x) \<and> path_exists mem_fs s1 ?P"
  proof (cases "path_exists mem_fs sa ?P")
    case True
    then show ?thesis using v ans E by auto
  next
    case False
    then have "desk_write mem_fs e r ?q sa = (Inr v, s1)" using v ans by simp
    then obtain b u2 where w: "bk_write mem_fs sa ?P b False = (Inr u2, s1)"
      by (auto simp: desk_write_def split: sum.splits prod.splits)
    have "mem_ok sa" using E by blast
    from mem.write_ok [OF this w] E pending_exists [of s1 ?P] show ?thesis by auto
  qed
  have clear: "mem_file s1 (absolute s1 (gsr_pending r)) = None" "mem_file s1 (absolute s1 (gsr_decided r)) = None"
    using S E by (auto simp: desk_places)
  have "mem_ok s1" using S by blast
  then obtain s2 where e2: "ensure_state mem_fs r s1 = (Inr (), s2)" using ensure_can [OF _ clear] by blast
  note E2 = ensured [OF \<open>mem_ok s1\<close> e2]
  have dirs: "mem_is_dir s2 = mem_is_dir s1" using S E E2 by (auto simp: fun_eq_iff)
  have "undecided r s1" using S E assms(2) by (auto simp: undecided_def desk_places)
  then have d2: "desk_decided mem_fs e' r ?q' c (dk_now e' s1) s2 = (None, s2)"
    using undecided_scan ensured_undecided [OF \<open>mem_ok s1\<close> e2] E2 by blast
  have ex: "path_exists mem_fs s2 (pending_file e' r ?q')"
    using S E2 dirs by (auto simp: same_desk_file [OF assms(4)] pf path_exists_def mem.meta)
  have rd: "desk_read mem_fs s1 (rd_project (dk_codec e)) (root_project_json r) = desk_read mem_fs s (rd_project (dk_codec e)) (root_project_json r)"
    "desk_read mem_fs s1 (rd_consent (dk_codec e)) (root_consent_json r) = desk_read mem_fs s (rd_consent (dk_codec e)) (root_consent_json r)"
    by (rule read_elsewhere; use S E in \<open>auto simp: desk_places\<close>)+
  have codec: "rd_consent (dk_codec e') = rd_consent (dk_codec e)" using assms(4) by (simp add: same_desk_def)
  have "desk_files mem_fs e' r s1 = desk_files mem_fs e r s" unfolding desk_files_def assms(5) codec rd ..
  then have "desk_request mem_fs e' r node args s1 = (Inr v, s2)"
    using f assms(6) e2 d2 ex pend qq assms(4) by (simp add: desk_request_def same_desk_def)
  then show ?thesis using pend E2 dirs by (auto simp: status_values)
qed

section \<open>The operator's side of the desk\<close>

text \<open>
  \<^verbatim>\<open>drt key\<close>, \<^verbatim>\<open>crates/drt/src/key.rs\<close>.  The file mode is the operating system's; the entropy and the readers
  of JSON are fields of \<open>key_env\<close>.
\<close>

record 's key_env =
  ke_hash :: hash_env
  ke_b64 :: base64
  ke_ed :: ed25519
  ke_entropy :: "'s \<Rightarrow> string + bytes"
  ke_restrict :: "path \<Rightarrow> string + unit"
  ke_request :: "string \<Rightarrow> string + gsr_request"
  ke_decision :: "decision \<Rightarrow> string + string"

definition default_hours :: int where "default_hours = 1"

datatype key_error =
    KeyExists path
  | NoEntropy string
  | KeyRoot root_error
  | NotRestricted string
  | NotAKey path string
  | NotInTheFuture timestamp

definition key_new :: "'s backend \<Rightarrow> 's key_env \<Rightarrow> path \<Rightarrow> 's \<Rightarrow> (key_error + string) \<times> 's" where
  "key_new be k p s = (if path_exists be s p then (Inl (KeyExists p), s)
     else (case ke_entropy k s of Inl e \<Rightarrow> (Inl (NoEntropy e), s)
       | Inr seed \<Rightarrow> (case bk_write be s p (text_to_bytes (key_file_text (ke_b64 k) seed)) False of
           (Inl e, s1) \<Rightarrow> (Inl (KeyRoot (CannotWrite p e)), s1)
         | (Inr _, s1) \<Rightarrow> (case ke_restrict k p of Inl e \<Rightarrow> (Inl (NotRestricted e), s1)
             | Inr _ \<Rightarrow> (Inr (b64_encode (ke_b64 k) (ed_public (ke_ed k) seed)), s1)))))"

definition key_load :: "'s backend \<Rightarrow> 's key_env \<Rightarrow> path \<Rightarrow> 's \<Rightarrow> key_error + bytes" where
  "key_load be k p s = (case read_to_string be s p of Inl e \<Rightarrow> Inl (KeyRoot (CannotRead p e))
   | Inr text \<Rightarrow> (case key_from_file_text (ke_b64 k) text of Inl e \<Rightarrow> Inl (NotAKey p e) | Inr seed \<Rightarrow> Inr seed))"

definition key_decision :: "'s key_env \<Rightarrow> gsr_request \<Rightarrow> key_id \<Rightarrow> verdict \<Rightarrow> timestamp \<Rightarrow> bytes \<Rightarrow> decision" where
  "key_decision k q kid v t seed = decision_sign (ke_hash k) (ke_b64 k) (ke_ed k) (gsr_identity (ke_hash k) q) v t kid seed"

definition key_sign :: "'s backend \<Rightarrow> 's key_env \<Rightarrow> path \<Rightarrow> path \<Rightarrow> path \<Rightarrow> key_id \<Rightarrow> verdict \<Rightarrow> timestamp option \<Rightarrow> timestamp
    \<Rightarrow> 's \<Rightarrow> (key_error + path) \<times> 's" where
  "key_sign be k kp rp dir kid v after now s = (case key_load be k kp s of Inl e \<Rightarrow> (Inl e, s)
   | Inr seed \<Rightarrow> (case desk_read be s (ke_request k) rp of Inl e \<Rightarrow> (Inl (KeyRoot e), s)
     | Inr q \<Rightarrow> (let t = (case after of Some t \<Rightarrow> t | None \<Rightarrow> now + default_hours * 3600) in
         if \<not> is_after t now then (Inl (NotInTheFuture t), s)
         else (let d = key_decision k q kid v t seed; name = (case path_file_name rp of Some n \<Rightarrow> n | None \<Rightarrow> ''decision.json'');
                   p = path_join dir (path_of name) in
           case bk_create_dir_all be s dir of (Inl e, s1) \<Rightarrow> (Inl (KeyRoot (CannotCreate dir e)), s1)
           | (Inr _, s1) \<Rightarrow> (case ke_decision k d of Inl e \<Rightarrow> (Inl (KeyRoot (CannotSerialize e)), s1)
             | Inr text \<Rightarrow> (case bk_write be s1 p (line_bytes text) False of
                 (Inl e, s2) \<Rightarrow> (Inl (KeyRoot (CannotWrite p e)), s2) | (Inr _, s2) \<Rightarrow> (Inr p, s2)))))))"


section \<open>Examples\<close>

definition demo_desk :: "decision list \<Rightarrow> 's desk_env" where
  "demo_desk ds = \<lparr>dk_verify = demo_verify,
     dk_codec = \<lparr>rd_project = (\<lambda>t. Inr (demo_project [])), rd_consent = (\<lambda>t. Inr demo_trust), rd_config = (\<lambda>t. Inl []),
       rd_decision = (\<lambda>t. if t = [] \<and> ds \<noteq> [] then Inr (hd ds) else if ds \<noteq> [] then Inr (last ds) else Inl []),
       wr_consent = (\<lambda>c. Inr []), wr_envelope = (\<lambda>x. Inr []), wr_request = (\<lambda>q. Inr [])\<rparr>,
     dk_now = (\<lambda>s. 0), dk_mint = (\<lambda>s. Inr demo_root)\<rparr>"

text \<open>Two files of decisions, told apart by their bytes.\<close>

definition demo_shelf :: "unit backend" where
  "demo_shelf = \<lparr>bk_canonicalize = (\<lambda>s p. Inr p), bk_metadata = (\<lambda>s p. Inl (NotFound p)),
     bk_read = (\<lambda>s p. Inr (if last p = Normal ''b'' then [65] else [])), bk_write = (\<lambda>s p d a. (Inr (), s)),
     bk_read_dir = (\<lambda>s p. Inr [''a'', ''b'']), bk_remove_file = (\<lambda>s p. (Inr (), s)),
     bk_create_dir_all = (\<lambda>s p. (Inr (), s)), bk_remove_dir_all = (\<lambda>s p. (Inr (), s))\<rparr>"

definition demo_place :: root where "demo_place = \<lparr>rt_dir = [RootDir]\<rparr>"

definition demo_args :: "val option" where "demo_args = Some (VMap [(VStr ''realm'', VStr ''operator'')])"

lemma demo_asked: "asked_decode demo_args = Inr \<lparr>ak_realm = realm_root, ak_value = JNull, ak_reason = [], ak_window = \<lparr>wn_from = None, wn_until = None\<rparr>\<rparr>"
proof -
  have u: "utf8_valid ''realm''" "utf8_valid ''operator''" by code_simp+
  have "realm_parse ''operator'' = Inr realm_root" by code_simp
  then show ?thesis
    by (simp add: asked_decode_def demo_args_def ask_field_def ask_instant_def ask_value_def map_field_def u)
qed

lemma demo_node: "node_parse ''root'' = Inr root_node"
  by code_simp

lemma demo_request_of: "request_of demo_root demo_root root_node \<lparr>ak_realm = realm_root, ak_value = JNull, ak_reason = [],
    ak_window = \<lparr>wn_from = None, wn_until = None\<rparr>\<rparr> = demo_request"
  by (simp add: request_of_def with_reason_def with_window_def demo_request_def gsr_request_new_def)

lemma demo_desk_files: "(\<And>p. read_to_string be s p = Inr []) \<Longrightarrow>
    desk_files be (demo_desk ds) r s = Inr (demo_project [], demo_trust)"
  by (simp add: desk_files_def desk_read_def demo_desk_def demo_trust_def consent_new_def demo_project_def project_new_def)

lemma demo_shelf_read: "read_to_string demo_shelf s p = Inr (if last p = Normal ''b'' then ''A'' else [])"
proof -
  have "utf8_valid ''A''" "utf8_valid []" by code_simp+
  moreover have "(char_of (65 :: nat) :: char) = CHR ''A''" by code_simp
  ultimately show ?thesis by (simp add: read_to_string_def demo_shelf_def text_of_def)
qed

lemma demo_shelf_list: "listing_or_none demo_shelf s p = [''a'', ''b'']" "ensure_state demo_shelf r s = (Inr (), s)"
  by (simp_all add: listing_or_none_def ensure_state_def demo_shelf_def)

lemma demo_shelf_first: "desk_read demo_shelf () (rd_decision (dk_codec (demo_desk (d # ds) :: unit desk_env))) (decided_file demo_place ''a'') = Inr d"
  by (simp add: desk_read_def demo_shelf_read decided_file_def path_of_def piece_def path_join_def has_root_def demo_desk_def map_filter_simps)

lemma demo_shelf_files: "desk_files demo_shelf (demo_desk ds) demo_place () = Inr (demo_project [], demo_trust)"
proof -
  have "read_to_string demo_shelf () (root_project_json demo_place) = Inr []" "read_to_string demo_shelf () (root_consent_json demo_place) = Inr []"
    by (simp_all add: demo_shelf_read root_project_json_def root_consent_json_def desk_names path_join_def has_root_def)
  then show ?thesis
    by (simp add: desk_files_def desk_read_def demo_desk_def demo_trust_def consent_new_def demo_project_def project_new_def)
qed

lemma demo_desk_fields: "dk_mint (demo_desk ds) s = Inr demo_root" "dk_now (demo_desk ds) s = 0" "dk_verify (demo_desk ds) = demo_verify"
  by (simp_all add: demo_desk_def)

lemma demo_project_id: "pj_root_id (demo_project caps) = demo_root"
  by (simp add: demo_project_def project_new_def)

lemma demo_current: "for_this (demo_desk ds :: unit desk_env) demo_request 0 (demo_decision v)"
  by (simp add: for_this_def demo_desk_def decision_is_expired_def demo_decision_def decision_sign_def is_after_def Let_def)

lemma demo_shelf_granted: "\<exists>v. desk_request demo_shelf (demo_desk [demo_decision Approve]) demo_place ''root'' demo_args () = (Inr v, ()) \<and>
    status_of v = Some (VStr ''granted'')"
proof -
  note cur = demo_current [of "[demo_decision Approve]" Approve, unfolded for_this_def demo_desk_fields]
  obtain w where "gsr_verify demo_verify demo_request (demo_decision Approve) demo_trust 0 = Inr (Granted w)"
    using demo_verifies [of 0 Approve] by simp
  then have "desk_request demo_shelf (demo_desk [demo_decision Approve]) demo_place ''root'' demo_args () = (Inr (granted_value w), ())"
    using cur by (simp add: desk_request_def demo_shelf_files demo_node demo_asked demo_desk_fields demo_shelf_list demo_project_id demo_request_of
        desk_decided_def demo_shelf_first)
  then show ?thesis using status_values by blast
qed

theorem granted_only_on_a_signature_witness:
  "\<exists>q d. \<exists>sg\<in>set (cn_signers demo_trust). authentic demo_verify q d demo_trust sg \<and> de_verdict d = Approve"
proof -
  obtain v where v: "desk_request demo_shelf (demo_desk [demo_decision Approve]) demo_place ''root'' demo_args () = (Inr v, ())"
      "status_of v = Some (VStr ''granted'')"
    using demo_shelf_granted by blast
  show ?thesis
    using granted_only_on_a_signature [OF v] by (fastforce simp: demo_shelf_files demo_desk_fields)
qed


definition forged :: decision where
  "forged = (demo_decision Approve)\<lparr>de_key_id := ''mallory''\<rparr>"


section \<open>Asking twice on a disk in a map\<close>

definition asking_disk :: mem_state where
  "asking_disk = \<lparr>ms_cwd = [], ms_dirs = [[], [''.drt_root'']],
     ms_files = [([''.drt_root'', ''consent.json''], []), ([''.drt_root'', ''project.json''], [])]\<rparr>"

lemma asking_disk_ok: "mem_ok asking_disk"
proof -
  have snoc: "q @ [n] = [a] \<longleftrightarrow> q = [] \<and> n = a" "q @ [n] = [a, b] \<longleftrightarrow> q = [a] \<and> n = b" for q n and a b :: string
    by (simp_all add: append_eq_Cons_conv)
  show ?thesis
    by (auto simp: mem_ok_def asking_disk_def bt_ok_def closed_up_def mem_is_dir_def mem_file_def bt_get_def snoc split: if_splits)
qed

text \<open>Where nothing was decided and nothing stands in the way, asking files the request.\<close>

lemma first_ask:
  assumes "mem_ok s" and "undecided r s" and "desk_files mem_fs e r s = Inr (p, c)" and "node_parse node = Inr np"
    and "asked_decode args = Inr a" and "dk_mint e s = Inr u" and "wr_request (dk_codec e) (request_of u (pj_root_id p) np a) = Inr body"
    and "mem_file s (absolute s (gsr_pending r)) = None" and "mem_file s (absolute s (gsr_decided r)) = None"
  shows "\<exists>s1. desk_request mem_fs e r node args s =
    (Inr (pending_value (gsr_identity (ve_hash (dk_verify e)) (request_of u (pj_root_id p) np a))), s1)"
proof -
  let ?q = "request_of u (pj_root_id p) np a"
  obtain sa where en: "ensure_state mem_fs r s = (Inr (), sa)" using ensure_can [OF assms(1,8,9)] by blast
  note E = ensured [OF assms(1) en]
  have "desk_decided mem_fs e r ?q c (dk_now e s) sa = (None, sa)"
    using undecided_scan ensured_undecided [OF assms(1) en assms(2)] E by blast
  note req = desk_request_def [of mem_fs e r node args s, unfolded assms(3-6) en sum.case prod.case Let_def this option.case]
  show ?thesis
  proof (cases "path_exists mem_fs sa (pending_file e r ?q)")
    case False
    have "\<not> mem_is_dir sa (absolute sa (pending_file e r ?q))" using False by (auto simp: path_exists_def mem.meta)
    moreover have "mem_is_dir sa (butlast (absolute sa (pending_file e r ?q)))" using E by (simp add: desk_places butlast_append)
    moreover have "absolute sa (pending_file e r ?q) \<noteq> []" by (simp add: desk_places)
    ultimately have "fst (bk_write mem_fs sa (pending_file e r ?q) (line_bytes body) False) = Inr ()"
      by (simp add: mem.write_says)
    then obtain sb where "bk_write mem_fs sa (pending_file e r ?q) (line_bytes body) False = (Inr (), sb)"
      by (metis prod.collapse)
    then show ?thesis using False assms(7) by (simp add: req desk_write_def)
  qed (simp add: req)
qed

lemma asking_dirs: "mem_is_dir asking_disk q \<longleftrightarrow> q \<in> {[], [''.drt_root'']}"
    "mem_file asking_disk q = (if q \<in> {[''.drt_root'', ''consent.json''], [''.drt_root'', ''project.json'']} then Some [] else None)"
  by (auto simp: mem_is_dir_def mem_file_def asking_disk_def bt_get_def)

lemma asking_files: "desk_files mem_fs (demo_desk []) demo_place asking_disk = Inr (demo_project [], demo_trust)"
proof -
  have u: "utf8_valid []" by code_simp
  have at_root: "absolute asking_disk (root_meta demo_place) = [''.drt_root'']"
    by (simp add: absolute_def root_meta_def desk_names path_join_def has_root_def demo_place_def normalize_def)
  have "read_to_string mem_fs asking_disk (root_project_json demo_place) = Inr []"
    "read_to_string mem_fs asking_disk (root_consent_json demo_place) = Inr []"
    by (simp_all add: read_to_string_def mem.read desk_places at_root asking_dirs text_of_def u)
  then show ?thesis
    by (simp add: desk_files_def desk_read_def demo_desk_def demo_trust_def consent_new_def demo_project_def project_new_def)
qed

theorem asking_again_files_nothing_witness:
  "\<exists>v s1 s2. desk_request mem_fs (demo_desk []) demo_place ''root'' demo_args asking_disk = (Inr v, s1) \<and>
     desk_request mem_fs ((demo_desk [])\<lparr>dk_now := \<lambda>s. 7\<rparr>) demo_place ''root'' demo_args s1 = (Inr v, s2) \<and> mem_file s2 = mem_file s1"
proof -
  have at_root: "absolute asking_disk (root_meta demo_place) = [''.drt_root'']"
    by (simp add: absolute_def root_meta_def desk_names path_join_def has_root_def demo_place_def normalize_def)
  have un: "undecided demo_place asking_disk" and clear: "mem_file asking_disk (absolute asking_disk (gsr_pending demo_place)) = None"
    "mem_file asking_disk (absolute asking_disk (gsr_decided demo_place)) = None"
    by (simp_all add: undecided_def desk_places at_root asking_dirs)
  obtain v s1 where v: "desk_request mem_fs (demo_desk []) demo_place ''root'' demo_args asking_disk = (Inr v, s1)"
    using first_ask [OF asking_disk_ok un asking_files demo_node demo_asked demo_desk_fields(1) _ clear, of "[]"] by (auto simp: demo_desk_def)
  have same: "same_desk (demo_desk [] :: mem_state desk_env) ((demo_desk [])\<lparr>dk_now := \<lambda>s. 7\<rparr>)"
    and mint: "dk_mint ((demo_desk [])\<lparr>dk_now := \<lambda>s. 7\<rparr>) s1 = Inr demo_root"
    and proj: "rd_project (dk_codec ((demo_desk [] :: mem_state desk_env)\<lparr>dk_now := \<lambda>s. 7\<rparr>)) = rd_project (dk_codec (demo_desk [] :: mem_state desk_env))"
    by (simp_all add: same_desk_def demo_desk_def)
  show ?thesis using asking_again_files_nothing [OF asking_disk_ok un v same proj mint] v by blast
qed

definition demo_keys :: "unit key_env" where
  "demo_keys = \<lparr>ke_hash = demo_hashing, ke_b64 = (ve_b64 demo_verify)\<lparr>b64_decode := \<lambda>s. Inr (replicate 32 7)\<rparr>,
     ke_ed = ve_ed demo_verify,
     ke_entropy = (\<lambda>s. Inr (replicate 32 7)), ke_restrict = (\<lambda>p. Inr ()), ke_request = (\<lambda>t. Inr demo_request), ke_decision = (\<lambda>d. Inr [])\<rparr>"

lemma demo_keys_sound: "ed_sound (ke_ed demo_keys)"
  by (simp add: demo_keys_def demo_verify_def ed_sound_def)


end
