(* ===== verification/Rest_Scope.thy ===== *)
theory Rest_Scope
  imports Wire_Frames Consent
begin

text \<open>
  Outbound HTTP, \<^verbatim>\<open>connectors/rest/src/lib.rs\<close>, up to the socket: URLs, the origins a deployment grants with their header
  terms, the addresses a guest may not reach, and the bytes of a request.  The derived reader of a scope, the environment and the
  reading of certificates are fields of \<open>rest_env\<close>.  The lemmas show what a request carries when its path is a path, which
  addresses are refused, and how a path carries a second request.
\<close>

section \<open>Bounds\<close>

definition max_body :: nat where "max_body = 16 * 1024 * 1024"
definition default_ms :: nat where "default_ms = 15000"
definition max_ms :: nat where "max_ms = 120000"
definition resp_hdrs :: nat where "resp_hdrs = 32"
definition resp_name_max :: nat where "resp_name_max = 64"
definition resp_val_max :: nat where "resp_val_max = 4096"
definition req_headers :: nat where "req_headers = 64"

section \<open>URLs\<close>

record url =
  url_tls :: bool
  url_host :: string
  url_port :: nat
  url_path :: string

datatype url_error = NotHttp | NoHost | UserInfo | BadPort string

definition trim_brackets :: "string \<Rightarrow> string" where
  "trim_brackets s = (let br = (\<lambda>c. c = CHR ''['' \<or> c = CHR '']'') in rev (dropWhile br (rev (dropWhile br s))))"

definition url_rest :: "string \<Rightarrow> (bool \<times> string) option" where
  "url_rest raw = (case strip_prefix ''https://'' raw of Some r \<Rightarrow> Some (True, r)
   | None \<Rightarrow> (case strip_prefix ''http://'' raw of Some r \<Rightarrow> Some (False, r) | None \<Rightarrow> None))"

definition url_host_port :: "bool \<Rightarrow> string \<Rightarrow> url_error + string \<times> nat" where
  "url_host_port tls authority =
     (let default = (authority, if tls then 443 else 80) in
      case rsplit_once CHR '':'' authority of
        Some (h, p) \<Rightarrow>
          (if last authority \<noteq> CHR '']'' \<and> h \<noteq> []
           then (case parse_unsigned 65535 p of Some n \<Rightarrow> Inr (h, n) | None \<Rightarrow> Inl (BadPort p))
           else Inr default)
      | None \<Rightarrow> Inr default)"

definition url_parse :: "string \<Rightarrow> url_error + url" where
  "url_parse raw = (case url_rest raw of None \<Rightarrow> Inl NotHttp
   | Some (tls, r) \<Rightarrow>
      (let authority = takeWhile (\<lambda>c. c \<noteq> CHR ''/'') r;
           path = (if CHR ''/'' \<in> set r then drop (length authority) r else ''/'') in
       if authority = [] then Inl NoHost
       else if CHR ''@'' \<in> set authority then Inl UserInfo
       else (case url_host_port tls authority of Inl e \<Rightarrow> Inl e
         | Inr (h, n) \<Rightarrow> Inr \<lparr>url_tls = tls, url_host = trim_brackets h, url_port = n, url_path = path\<rparr>)))"

definition url_origin :: "url \<Rightarrow> string" where
  "url_origin u = (if url_tls u then ''https'' else ''http'') @ ''://'' @ url_host u @ '':'' @ show_nat (url_port u)"

section \<open>What a deployment grants\<close>

record allow_entry =
  al_origin :: url
  al_headers :: "(string \<times> string) list"
  al_allow :: "string list option"

record rest_scope =
  rx_allow :: "allow_entry list"
  rx_roots :: "bytes list"
  rx_private :: bool

datatype header_value = HeaderText string | HeaderEnv string

datatype entry_shape = OriginShape string | TableShape string "(string \<times> header_value) list" "string list option"

datatype scope_shape = OneShape string | ManyShape "entry_shape list" | FullShape "entry_shape list" bool "string list"

record rest_env =
  re_shape :: "scope \<Rightarrow> string + scope_shape"
  re_env :: "string \<Rightarrow> string option"
  re_roots :: "string list \<Rightarrow> string + bytes list"

datatype rest_error =
    BadScope string
  | BadRoots string
  | EnvNotSet string string string
  | BadOrigin string url_error
  | ForbiddenEntryHeader string string
  | ReservedEntryHeader string string
  | NoOrigins
  | NotARestCall string
  | NoArgs string
  | BadRestArgs string
  | BadUrl url_error
  | NotGranted string
  | TooManyHeaders nat
  | ForbiddenHeader string
  | ReservedHeader string
  | NotSettable string string
  | TimedOut
  | NoDns
  | OnlyPrivate string
  | ConnectFails string
  | TlsFails
  | WireError string
  | BodyTooLarge
  | ShortBody nat "nat option" bool
  | EndlessHeads
  | ConnectorPanics

definition lower :: "string \<Rightarrow> string" where "lower s = map to_lower s"

definition is_reserved_header :: "string \<Rightarrow> bool" where
  "is_reserved_header l \<longleftrightarrow> l = ''host'' \<or> l = ''connection'' \<or> l = ''content-length'' \<or> l = ''transfer-encoding''"

definition guest_may_set :: "allow_entry \<Rightarrow> string \<Rightarrow> bool" where
  "guest_may_set e l \<longleftrightarrow> bt_get (al_headers e) l = None \<and> (case al_allow e of Some names \<Rightarrow> List.member names l | None \<Rightarrow> True)"

definition header_resolve :: "rest_env \<Rightarrow> string \<Rightarrow> string \<Rightarrow> header_value \<Rightarrow> rest_error + string" where
  "header_resolve env org name v = (case v of HeaderText t \<Rightarrow> Inr t
   | HeaderEnv n \<Rightarrow> (case re_env env n of Some t \<Rightarrow> Inr t | None \<Rightarrow> Inl (EnvNotSet org name n)))"

definition breaks_line :: "string \<Rightarrow> bool" where
  "breaks_line s \<longleftrightarrow> CHR 0x0D \<in> set s \<or> CHR 0x0A \<in> set s"

definition breaks_name :: "string \<Rightarrow> bool" where
  "breaks_name s \<longleftrightarrow> s = [] \<or> breaks_line s \<or> CHR '':'' \<in> set s"

fun entry_headers :: "rest_env \<Rightarrow> string \<Rightarrow> (string \<times> header_value) list \<Rightarrow> (string \<times> string) list \<Rightarrow> rest_error + (string \<times> string) list" where
  "entry_headers env org [] out = Inr out"
| "entry_headers env org ((k, v) # hs) out = (case header_resolve env org k v of Inl e \<Rightarrow> Inl e
   | Inr t \<Rightarrow> (if breaks_name (lower k) \<or> breaks_line t then Inl (ForbiddenEntryHeader org k)
       else if is_reserved_header (lower k) then Inl (ReservedEntryHeader org k)
       else entry_headers env org hs (bt_insert (lower k) t out)))"

definition allow_entry_of :: "rest_env \<Rightarrow> entry_shape \<Rightarrow> rest_error + allow_entry" where
  "allow_entry_of env shape =
     (let (org, hs, names) = (case shape of OriginShape o' \<Rightarrow> (o', [], None) | TableShape o' hs names \<Rightarrow> (o', hs, names)) in
      case url_parse org of Inl e \<Rightarrow> Inl (BadOrigin org e)
      | Inr u \<Rightarrow> (case entry_headers env org hs [] of Inl e \<Rightarrow> Inl e
          | Inr low \<Rightarrow> Inr \<lparr>al_origin = u, al_headers = low, al_allow = map_option (map lower) names\<rparr>))"

fun allow_entries :: "rest_env \<Rightarrow> entry_shape list \<Rightarrow> rest_error + allow_entry list" where
  "allow_entries env [] = Inr []"
| "allow_entries env (x # xs) = (case allow_entry_of env x of Inl e \<Rightarrow> Inl e
   | Inr a \<Rightarrow> (case allow_entries env xs of Inl e \<Rightarrow> Inl e | Inr as \<Rightarrow> Inr (a # as)))"

definition rest_scope_none :: rest_scope where
  "rest_scope_none = \<lparr>rx_allow = [], rx_roots = [], rx_private = False\<rparr>"

definition rest_scope_parse :: "rest_env \<Rightarrow> scope option \<Rightarrow> rest_error + rest_scope" where
  "rest_scope_parse env sc = (case sc of None \<Rightarrow> Inr rest_scope_none
   | Some s \<Rightarrow> (case re_shape env s of Inl e \<Rightarrow> Inl (BadScope e)
     | Inr shape \<Rightarrow>
        (let (raw, priv, files) = (case shape of OneShape o' \<Rightarrow> ([OriginShape o'], False, [])
             | ManyShape xs \<Rightarrow> (xs, False, []) | FullShape xs p fs \<Rightarrow> (xs, p, fs)) in
         case re_roots env files of Inl e \<Rightarrow> Inl (BadRoots e)
         | Inr roots \<Rightarrow> (case allow_entries env raw of Inl e \<Rightarrow> Inl e
             | Inr as \<Rightarrow> Inr \<lparr>rx_allow = as, rx_roots = roots, rx_private = priv\<rparr>))))"

definition rest_scope_validate :: "rest_env \<Rightarrow> scope option \<Rightarrow> rest_error + unit" where
  "rest_scope_validate env sc = (case rest_scope_parse env sc of Inl e \<Rightarrow> Inl e
   | Inr r \<Rightarrow> (if rx_allow r = [] then Inl NoOrigins else Inr ()))"

text \<open>A wildcard matches a strict subdomain only.\<close>

definition host_matches :: "string \<Rightarrow> string \<Rightarrow> bool" where
  "host_matches pat h = (case strip_prefix ''*.'' pat of
     Some sfx \<Rightarrow> (case strip_suffix sfx h of Some p \<Rightarrow> length p > 1 \<and> last p = CHR ''.'' | None \<Rightarrow> False)
   | None \<Rightarrow> eq_ignore_ascii_case pat h)"

definition entry_matches :: "url \<Rightarrow> allow_entry \<Rightarrow> bool" where
  "entry_matches u a \<longleftrightarrow> url_tls (al_origin a) = url_tls u \<and> url_port (al_origin a) = url_port u \<and>
     host_matches (url_host (al_origin a)) (url_host u)"

definition matching :: "rest_scope \<Rightarrow> url \<Rightarrow> allow_entry option" where
  "matching sc u = List.find (entry_matches u) (rx_allow sc)"

definition permits :: "rest_scope \<Rightarrow> url \<Rightarrow> bool" where
  "permits sc u \<longleftrightarrow> matching sc u \<noteq> None"

section \<open>Addresses\<close>

definition octet :: "nat \<Rightarrow> 32 word \<Rightarrow> nat" where
  "octet i a = unat a div 256 ^ (3 - i) mod 256"

text \<open>The classes of \<^verbatim>\<open>std::net::Ipv4Addr\<close>.\<close>

definition v4_private :: "32 word \<Rightarrow> bool" where
  "v4_private a \<longleftrightarrow> octet 0 a = 10 \<or> octet 0 a = 172 \<and> 16 \<le> octet 1 a \<and> octet 1 a \<le> 31 \<or> octet 0 a = 192 \<and> octet 1 a = 168"

definition v4_loopback :: "32 word \<Rightarrow> bool" where "v4_loopback a \<longleftrightarrow> octet 0 a = 127"
definition v4_link_local :: "32 word \<Rightarrow> bool" where "v4_link_local a \<longleftrightarrow> octet 0 a = 169 \<and> octet 1 a = 254"
definition v4_broadcast :: "32 word \<Rightarrow> bool" where "v4_broadcast a \<longleftrightarrow> a = 0xFFFFFFFF"
definition v4_unspecified :: "32 word \<Rightarrow> bool" where "v4_unspecified a \<longleftrightarrow> a = 0"
definition v4_multicast :: "32 word \<Rightarrow> bool" where "v4_multicast a \<longleftrightarrow> 224 \<le> octet 0 a \<and> octet 0 a \<le> 239"

definition v4_documentation :: "32 word \<Rightarrow> bool" where
  "v4_documentation a \<longleftrightarrow> octet 0 a = 192 \<and> octet 1 a = 0 \<and> octet 2 a = 2 \<or> octet 0 a = 198 \<and> octet 1 a = 51 \<and> octet 2 a = 100
     \<or> octet 0 a = 203 \<and> octet 1 a = 0 \<and> octet 2 a = 113"

definition segment :: "nat \<Rightarrow> 128 word \<Rightarrow> nat" where
  "segment i a = unat a div 65536 ^ (7 - i) mod 65536"

definition v4_is_private :: "32 word \<Rightarrow> bool" where
  "v4_is_private a \<longleftrightarrow> v4_private a \<or> v4_loopback a \<or> v4_link_local a \<or> v4_broadcast a \<or> v4_documentation a \<or> v4_unspecified a
     \<or> octet 0 a = 0 \<or> octet 0 a = 100 \<and> 64 \<le> octet 1 a \<and> octet 1 a \<le> 127 \<or> octet 0 a = 198 \<and> (octet 1 a = 18 \<or> octet 1 a = 19)
     \<or> 240 \<le> octet 0 a"

text \<open>\<open>segments()[0] & 0xffc0 == 0xfe80\<close> and \<open>octets()[0] & 0xfe == 0xfc\<close>, on the number the bits make.\<close>

definition v6_is_private :: "128 word \<Rightarrow> bool" where
  "v6_is_private a \<longleftrightarrow> a = 1 \<or> a = 0 \<or> segment 0 a div 64 = 0xfe80 div 64 \<or> segment 0 a div 512 = 0xfc00 div 512
     \<or> (case to_ipv4_mapped a of Some m \<Rightarrow> v4_is_private m | None \<Rightarrow> False)"

fun is_private :: "ip_addr \<Rightarrow> bool" where
  "is_private (V4 a) = v4_is_private a"
| "is_private (V6 a) = v6_is_private a"

definition permits_address :: "rest_scope \<Rightarrow> ip_addr \<Rightarrow> bool" where
  "permits_address sc ip \<longleftrightarrow> rx_private sc \<or> \<not> is_private ip"

section \<open>The bytes of a request\<close>

definition crlf :: string where "crlf = [CHR 0x0D, CHR 0x0A]"

definition header_line :: "string \<times> string \<Rightarrow> string" where
  "header_line h = fst h @ '': '' @ snd h @ crlf"

fun guest_headers :: "allow_entry \<Rightarrow> (string \<times> string) list \<Rightarrow> rest_error + string" where
  "guest_headers e [] = Inr []"
| "guest_headers e ((n, v) # hs) =
     (if breaks_name n \<or> breaks_line v then Inl (ForbiddenHeader n)
      else if is_reserved_header (lower n) then Inl (ReservedHeader n)
      else if \<not> guest_may_set e (lower n) then Inl (NotSettable n (url_origin (al_origin e)))
      else (case guest_headers e hs of Inl x \<Rightarrow> Inl x | Inr t \<Rightarrow> Inr (header_line (lower n, v) @ t)))"

definition host_line :: "url \<Rightarrow> string" where
  "host_line u = ''host: '' @ (if url_port u = (if url_tls u then 443 else 80) then url_host u else url_host u @ '':'' @ show_nat (url_port u)) @ crlf"

definition names_agent :: "(string \<times> string) list \<Rightarrow> bool" where
  "names_agent hs \<longleftrightarrow> list_ex (\<lambda>h. eq_ignore_ascii_case (fst h) ''user-agent'') hs"

definition request_bytes :: "string \<Rightarrow> url \<Rightarrow> string \<Rightarrow> (string \<times> string) list option \<Rightarrow> bytes option \<Rightarrow> allow_entry \<Rightarrow> rest_error + bytes" where
  "request_bytes version u m hs body e =
     (let top = m @ '' '' @ url_path u @ '' HTTP/1.1'' @ crlf @ host_line u @ ''connection: close'' @ crlf in
      case (case hs of None \<Rightarrow> Inr [] | Some h \<Rightarrow> (if length h > req_headers then Inl (TooManyHeaders (length h)) else guest_headers e h)) of
        Inl x \<Rightarrow> Inl x
      | Inr given \<Rightarrow>
          (let agent = (case hs of None \<Rightarrow> False | Some h \<Rightarrow> names_agent h) \<or> names_agent (al_headers e);
               tail = concat (map header_line (al_headers e)) @ (if agent then [] else ''user-agent: drt/'' @ version @ crlf)
                 @ (case body of None \<Rightarrow> [] | Some b \<Rightarrow> ''content-length: '' @ show_nat (length b) @ crlf) @ crlf
           in Inr (text_to_bytes (top @ given @ tail) @ (case body of None \<Rightarrow> [] | Some b \<Rightarrow> b))))"

section \<open>Which addresses are refused\<close>

lemma div_digit: "(n :: nat) div b = n div (b * 256) * 256 + n div b mod 256"
  by (simp add: div_mult2_eq div_mult_mod_eq)

lemma octet_top: "octet 0 a = unat a div 16777216"
proof -
  have "unat a < 4294967296" using unsigned_less [of a, where ?'a = nat] by simp
  then have "unat a div 16777216 < 256" by linarith
  then show ?thesis by (simp add: octet_def)
qed

lemma octet_one: "octet 1 a = unat a div 65536 mod 256" "octet 2 a = unat a div 256 mod 256"
  by (simp_all add: octet_def)

lemma octet_two: "unat a div 65536 = octet 0 a * 256 + octet 1 a"
  using div_digit [of "unat a" 65536] by (simp only: octet_top octet_one) simp

lemma octet_three: "unat a div 256 = (octet 0 a * 256 + octet 1 a) * 256 + octet 2 a"
proof -
  have "unat a div 256 = unat a div 65536 * 256 + unat a div 256 mod 256" using div_digit [of "unat a" 256] by simp
  then show ?thesis by (simp only: octet_two [symmetric] octet_one(2))
qed

lemma octet_less: "octet i a < 256"
  by (simp add: octet_def)

lemma digit_span: "(y :: nat) < 256 \<Longrightarrow> hi < 256 \<Longrightarrow>
    x = k \<and> lo \<le> y \<and> y \<le> hi \<longleftrightarrow> k * 256 + lo \<le> x * 256 + y \<and> x * 256 + y < Suc (k * 256 + hi)"
  by (cases x k rule: linorder_cases) linarith+

lemma div_span: "0 < c \<Longrightarrow> lo \<le> n div c \<and> n div c < hi \<longleftrightarrow> lo * c \<le> n \<and> n < hi * (c :: nat)"
  by (simp only: less_eq_div_iff_mult_less_eq div_less_iff_less_mult)

lemma octet_is: "octet 0 a = k \<longleftrightarrow> k * 16777216 \<le> unat a \<and> unat a < Suc k * 16777216"
proof -
  have "octet 0 a = k \<longleftrightarrow> k \<le> unat a div 16777216 \<and> unat a div 16777216 < Suc k" by (auto simp: octet_top)
  also have "\<dots> \<longleftrightarrow> k * 16777216 \<le> unat a \<and> unat a < Suc k * 16777216" by (rule div_span) simp
  finally show ?thesis .
qed

lemma octet_span: "hi < 256 \<Longrightarrow> octet 0 a = k \<and> lo \<le> octet 1 a \<and> octet 1 a \<le> hi \<longleftrightarrow>
    (k * 256 + lo) * 65536 \<le> unat a \<and> unat a < Suc (k * 256 + hi) * 65536"
  unfolding digit_span [OF octet_less] octet_two [symmetric] by (rule div_span) simp

lemma octet_pair: "j < 256 \<Longrightarrow> octet 0 a = k \<and> octet 1 a = j \<longleftrightarrow> (k * 256 + j) * 65536 \<le> unat a \<and> unat a < Suc (k * 256 + j) * 65536"
  unfolding octet_span [symmetric] by auto

lemma octet_triple:
  assumes "j < 256" and "i < 256"
  shows "octet 0 a = k \<and> octet 1 a = j \<and> octet 2 a = i \<longleftrightarrow>
    ((k * 256 + j) * 256 + i) * 256 \<le> unat a \<and> unat a < Suc ((k * 256 + j) * 256 + i) * 256"
proof -
  have "octet 0 a = k \<and> octet 1 a = j \<longleftrightarrow> octet 0 a * 256 + octet 1 a = k * 256 + j"
    using digit_span [OF octet_less [of 1 a] assms(1), of "octet 0 a" k j] by auto
  then have "octet 0 a = k \<and> octet 1 a = j \<and> octet 2 a = i \<longleftrightarrow>
      (k * 256 + j) * 256 + i \<le> unat a div 256 \<and> unat a div 256 < Suc ((k * 256 + j) * 256 + i)"
    unfolding octet_three digit_span [OF octet_less assms(2), symmetric] by auto
  also have "\<dots> \<longleftrightarrow> ((k * 256 + j) * 256 + i) * 256 \<le> unat a \<and> unat a < Suc ((k * 256 + j) * 256 + i) * 256" by (rule div_span) simp
  finally show ?thesis .
qed

text \<open>The ranges of addresses a guest does not reach: \<open>0/8\<close>, \<open>10/8\<close>, \<open>100.64/10\<close>, \<open>127/8\<close>, \<open>169.254/16\<close>, \<open>172.16/12\<close>,
  \<open>192.0.2/24\<close>, \<open>192.168/16\<close>, \<open>198.18/15\<close>, \<open>198.51.100/24\<close>, \<open>203.0.113/24\<close>, \<open>240/4\<close>.\<close>

definition private_ranges :: "(nat \<times> nat) list" where
  "private_ranges = [(0, 0x00FFFFFF), (0x0A000000, 0x0AFFFFFF), (0x64400000, 0x647FFFFF), (0x7F000000, 0x7FFFFFFF), (0xA9FE0000, 0xA9FEFFFF),
     (0xAC100000, 0xAC1FFFFF), (0xC0000200, 0xC00002FF), (0xC0A80000, 0xC0A8FFFF), (0xC6120000, 0xC613FFFF), (0xC6336400, 0xC63364FF),
     (0xCB007100, 0xCB0071FF), (0xF0000000, 0xFFFFFFFF)]"

text \<open>The same with the numbers worked out.\<close>

lemma octet_at:
  "lo = k * 16777216 \<Longrightarrow> hi = k * 16777216 + 16777215 \<Longrightarrow> octet 0 a = k \<longleftrightarrow> lo \<le> unat a \<and> unat a \<le> hi"
  "f < 256 \<Longrightarrow> lo = (k * 256 + j) * 65536 \<Longrightarrow> hi = (k * 256 + f) * 65536 + 65535 \<Longrightarrow>
     octet 0 a = k \<and> j \<le> octet 1 a \<and> octet 1 a \<le> f \<longleftrightarrow> lo \<le> unat a \<and> unat a \<le> hi"
  "j < 256 \<Longrightarrow> lo = (k * 256 + j) * 65536 \<Longrightarrow> hi = (k * 256 + j) * 65536 + 65535 \<Longrightarrow>
     octet 0 a = k \<and> octet 1 a = j \<longleftrightarrow> lo \<le> unat a \<and> unat a \<le> hi"
  "j < 256 \<Longrightarrow> i < 256 \<Longrightarrow> lo = ((k * 256 + j) * 256 + i) * 256 \<Longrightarrow> hi = ((k * 256 + j) * 256 + i) * 256 + 255 \<Longrightarrow>
     octet 0 a = k \<and> octet 1 a = j \<and> octet 2 a = i \<longleftrightarrow> lo \<le> unat a \<and> unat a \<le> hi"
proof -
  show "lo = k * 16777216 \<Longrightarrow> hi = k * 16777216 + 16777215 \<Longrightarrow> octet 0 a = k \<longleftrightarrow> lo \<le> unat a \<and> unat a \<le> hi"
    unfolding octet_is by auto
  show "f < 256 \<Longrightarrow> lo = (k * 256 + j) * 65536 \<Longrightarrow> hi = (k * 256 + f) * 65536 + 65535 \<Longrightarrow>
     octet 0 a = k \<and> j \<le> octet 1 a \<and> octet 1 a \<le> f \<longleftrightarrow> lo \<le> unat a \<and> unat a \<le> hi"
    by (subst octet_span) auto
  show "j < 256 \<Longrightarrow> lo = (k * 256 + j) * 65536 \<Longrightarrow> hi = (k * 256 + j) * 65536 + 65535 \<Longrightarrow>
     octet 0 a = k \<and> octet 1 a = j \<longleftrightarrow> lo \<le> unat a \<and> unat a \<le> hi"
    by (subst octet_pair) auto
  show "j < 256 \<Longrightarrow> i < 256 \<Longrightarrow> lo = ((k * 256 + j) * 256 + i) * 256 \<Longrightarrow> hi = ((k * 256 + j) * 256 + i) * 256 + 255 \<Longrightarrow>
     octet 0 a = k \<and> octet 1 a = j \<and> octet 2 a = i \<longleftrightarrow> lo \<le> unat a \<and> unat a \<le> hi"
    by (subst octet_triple) auto
qed

lemma v4_classes:
  "octet 0 a = 10 \<longleftrightarrow> 0x0A000000 \<le> unat a \<and> unat a \<le> 0x0AFFFFFF"
  "octet 0 a = 172 \<and> 16 \<le> octet 1 a \<and> octet 1 a \<le> 31 \<longleftrightarrow> 0xAC100000 \<le> unat a \<and> unat a \<le> 0xAC1FFFFF"
  "octet 0 a = 192 \<and> octet 1 a = 168 \<longleftrightarrow> 0xC0A80000 \<le> unat a \<and> unat a \<le> 0xC0A8FFFF"
  "octet 0 a = 127 \<longleftrightarrow> 0x7F000000 \<le> unat a \<and> unat a \<le> 0x7FFFFFFF"
  "octet 0 a = 169 \<and> octet 1 a = 254 \<longleftrightarrow> 0xA9FE0000 \<le> unat a \<and> unat a \<le> 0xA9FEFFFF"
  "octet 0 a = 192 \<and> octet 1 a = 0 \<and> octet 2 a = 2 \<longleftrightarrow> 0xC0000200 \<le> unat a \<and> unat a \<le> 0xC00002FF"
  "octet 0 a = 198 \<and> octet 1 a = 51 \<and> octet 2 a = 100 \<longleftrightarrow> 0xC6336400 \<le> unat a \<and> unat a \<le> 0xC63364FF"
  "octet 0 a = 203 \<and> octet 1 a = 0 \<and> octet 2 a = 113 \<longleftrightarrow> 0xCB007100 \<le> unat a \<and> unat a \<le> 0xCB0071FF"
  "octet 0 a = 0 \<longleftrightarrow> 0 \<le> unat a \<and> unat a \<le> 0x00FFFFFF"
  "octet 0 a = 100 \<and> 64 \<le> octet 1 a \<and> octet 1 a \<le> 127 \<longleftrightarrow> 0x64400000 \<le> unat a \<and> unat a \<le> 0x647FFFFF"
  by (rule octet_at; simp)+

lemma v4_classes_more:
  "octet 0 a = 198 \<and> (octet 1 a = 18 \<or> octet 1 a = 19) \<longleftrightarrow> 0xC6120000 \<le> unat a \<and> unat a \<le> 0xC613FFFF"
  "240 \<le> octet 0 a \<longleftrightarrow> 0xF0000000 \<le> unat a"
proof -
  have "octet 0 a = 198 \<and> (octet 1 a = 18 \<or> octet 1 a = 19) \<longleftrightarrow> octet 0 a = 198 \<and> 18 \<le> octet 1 a \<and> octet 1 a \<le> 19" by auto
  also have "\<dots> \<longleftrightarrow> 0xC6120000 \<le> unat a \<and> unat a \<le> 0xC613FFFF" by (rule octet_at; simp)
  finally show "octet 0 a = 198 \<and> (octet 1 a = 18 \<or> octet 1 a = 19) \<longleftrightarrow> 0xC6120000 \<le> unat a \<and> unat a \<le> 0xC613FFFF" .
  show "240 \<le> octet 0 a \<longleftrightarrow> 0xF0000000 \<le> unat a"
    by (simp only: octet_top less_eq_div_iff_mult_less_eq zero_less_numeral) simp
qed

text \<open>An address lies in one of the ranges.\<close>

definition in_ranges :: "nat \<Rightarrow> (nat \<times> nat) list \<Rightarrow> bool" where
  "in_ranges n rs \<longleftrightarrow> list_ex (\<lambda>r. fst r \<le> n \<and> n \<le> snd r) rs"

lemma v4_ranges: "v4_is_private a \<longleftrightarrow> in_ranges (unat a) private_ranges"
proof -
  have top: "unat a \<le> 0xFFFFFFFF" using unsigned_less [of a, where ?'a = nat] by simp
  have b: "v4_broadcast a \<Longrightarrow> 0xF0000000 \<le> unat a" and u: "v4_unspecified a \<Longrightarrow> 0 \<le> unat a \<and> unat a \<le> 0x00FFFFFF"
    by (auto simp: v4_broadcast_def v4_unspecified_def)
  have r: "in_ranges (unat a) private_ranges \<longleftrightarrow>
      (0 \<le> unat a \<and> unat a \<le> 0x00FFFFFF) \<or> (0x0A000000 \<le> unat a \<and> unat a \<le> 0x0AFFFFFF) \<or> (0x64400000 \<le> unat a \<and> unat a \<le> 0x647FFFFF) \<or>
      (0x7F000000 \<le> unat a \<and> unat a \<le> 0x7FFFFFFF) \<or> (0xA9FE0000 \<le> unat a \<and> unat a \<le> 0xA9FEFFFF) \<or>
      (0xAC100000 \<le> unat a \<and> unat a \<le> 0xAC1FFFFF) \<or> (0xC0000200 \<le> unat a \<and> unat a \<le> 0xC00002FF) \<or>
      (0xC0A80000 \<le> unat a \<and> unat a \<le> 0xC0A8FFFF) \<or> (0xC6120000 \<le> unat a \<and> unat a \<le> 0xC613FFFF) \<or>
      (0xC6336400 \<le> unat a \<and> unat a \<le> 0xC63364FF) \<or> (0xCB007100 \<le> unat a \<and> unat a \<le> 0xCB0071FF) \<or> 0xF0000000 \<le> unat a"
    using top by (simp add: in_ranges_def private_ranges_def)
  show ?thesis
  proof
    assume "v4_is_private a"
    then show "in_ranges (unat a) private_ranges"
      unfolding r v4_is_private_def v4_private_def v4_loopback_def v4_link_local_def v4_documentation_def v4_classes v4_classes_more
      using b u by (elim disjE) simp_all
  next
    assume "in_ranges (unat a) private_ranges"
    then show "v4_is_private a"
      unfolding r v4_is_private_def v4_private_def v4_loopback_def v4_link_local_def v4_documentation_def v4_classes v4_classes_more
      by (elim disjE) simp_all
  qed
qed

lemma segment_top: "segment 0 a = unat a div 65536 ^ 7"
proof -
  have "unat a < 65536 ^ 8" using unsigned_less [of a, where ?'a = nat] by simp
  then have "unat a div 65536 ^ 7 < 65536" by (simp add: less_mult_imp_div_less)
  then show ?thesis by (simp add: segment_def)
qed

lemma segment_span: "0 < c \<Longrightarrow> segment 0 a div c = k \<longleftrightarrow> k * (65536 ^ 7 * c) \<le> unat a \<and> unat a < Suc k * (65536 ^ 7 * c)"
proof -
  assume "0 < c"
  have "segment 0 a div c = k \<longleftrightarrow> k \<le> unat a div (65536 ^ 7 * c) \<and> unat a div (65536 ^ 7 * c) < Suc k"
    by (auto simp: segment_top div_mult2_eq)
  also have "\<dots> \<longleftrightarrow> k * (65536 ^ 7 * c) \<le> unat a \<and> unat a < Suc k * (65536 ^ 7 * c)" using \<open>0 < c\<close> by (intro div_span) simp
  finally show ?thesis .
qed

text \<open>\<open>::/127\<close>, \<open>fc00::/7\<close>, \<open>fe80::/10\<close>.\<close>

definition private_ranges6 :: "(nat \<times> nat) list" where
  "private_ranges6 = [(0, 1), (0xfc * 2 ^ 120, 0xfe * 2 ^ 120 - 1), (0xfe8 * 2 ^ 116, 0xfec * 2 ^ 116 - 1)]"

lemma v6_ranges: "v6_is_private a \<longleftrightarrow> in_ranges (unat a) private_ranges6 \<or> (\<exists>m. to_ipv4_mapped a = Some m \<and> v4_is_private m)"
proof -
  have "a = 1 \<or> a = 0 \<longleftrightarrow> unat a \<le> 1"
    by (auto simp: word_unat_eq_iff)
  then show ?thesis
    using segment_span [of 64 a "0xfe80 div 64"] segment_span [of 512 a "0xfc00 div 512"]
    by (auto simp: v6_is_private_def in_ranges_def private_ranges6_def split: option.split)
qed

text \<open>
  C30. Without \<^verbatim>\<open>allow_private\<close> an address is dialled exactly when it lies in none of the listed ranges, a mapped address being judged by the
  one it carries; and with it every address is.
\<close>

theorem private_space_is_refused:
  "permits_address sc ip \<longleftrightarrow> rx_private sc \<or>
     (case unmap ip of V4 a \<Rightarrow> \<not> in_ranges (unat a) private_ranges | V6 b \<Rightarrow> \<not> in_ranges (unat b) private_ranges6)"
proof (cases ip)
  case (V4 a)
  then show ?thesis by (simp add: permits_address_def v4_ranges)
next
  case (V6 b)
  show ?thesis
  proof (cases "to_ipv4_mapped b")
    case None
    then show ?thesis by (simp add: permits_address_def V6 v6_ranges)
  next
    case (Some m)
    then have "unat b div 2 ^ 32 = 0xFFFF"
      by (auto simp: to_ipv4_mapped_def drop_bit_eq_div word_unat_eq_iff unat_div split: if_splits)
    then have "\<not> in_ranges (unat b) private_ranges6" by (auto simp: in_ranges_def private_ranges6_def)
    then show ?thesis by (simp add: permits_address_def V6 v6_ranges Some v4_ranges)
  qed
qed

section \<open>What a server reads\<close>

text \<open>The lines of a head as a server takes them apart, up to the first empty one, and what follows it.\<close>

fun take_line :: "string \<Rightarrow> (string \<times> string) option" where
  "take_line [] = None"
| "take_line [c] = None"
| "take_line (a # b # r) = (if a = CHR 0x0D \<and> b = CHR 0x0A then Some ([], r)
     else (case take_line (b # r) of None \<Rightarrow> None | Some (l, t) \<Rightarrow> Some (a # l, t)))"

lemma take_line_shorter: "take_line s = Some (l, r) \<Longrightarrow> length r < length s"
  by (induction s arbitrary: l r rule: take_line.induct) (auto split: if_splits option.splits)

function head_lines :: "string \<Rightarrow> string list \<times> string" where
  "head_lines s = (case take_line s of None \<Rightarrow> ([], s)
   | Some (l, r) \<Rightarrow> (if l = [] then ([], r) else (let (ls, rest) = head_lines r in (l # ls, rest))))"
  by pat_completeness auto
termination by (relation "measure length") (auto dest: take_line_shorter)

declare head_lines.simps [simp del]

lemma take_line_clean: "\<not> breaks_line l \<Longrightarrow> take_line (l @ crlf @ r) = Some (l, r)"
proof (induction l)
  case (Cons a l)
  then have a: "a \<noteq> CHR 0x0D" "\<not> breaks_line l" by (auto simp: breaks_line_def)
  obtain b t where bt: "l @ crlf @ r = b # t" by (cases "l @ crlf @ r") (auto simp: crlf_def)
  then have "take_line (a # b # t) = Some (a # l, r)" using a Cons.IH by simp
  then show ?case using bt by simp
qed (simp add: crlf_def)

lemma head_line: "\<not> breaks_line l \<Longrightarrow> l \<noteq> [] \<Longrightarrow> head_lines (l @ crlf @ r) = (l # fst (head_lines r), snd (head_lines r))"
  by (subst head_lines.simps) (simp add: take_line_clean split: prod.split)

lemma head_end: "head_lines (crlf @ r) = ([], r)"
  by (subst head_lines.simps) (simp add: crlf_def)

text \<open>A header that is one line.\<close>

definition clean_header :: "string \<times> string \<Rightarrow> bool" where
  "clean_header h \<longleftrightarrow> \<not> breaks_line (fst h) \<and> \<not> breaks_line (snd h)"

definition shown :: "string \<times> string \<Rightarrow> string" where
  "shown h = fst h @ '': '' @ snd h"

lemma breaks_append [simp]: "breaks_line (a @ b) \<longleftrightarrow> breaks_line a \<or> breaks_line b"
  by (auto simp: breaks_line_def)

lemma breaks_char [simp]: "\<not> breaks_line []" "breaks_line (c # s) \<longleftrightarrow> c = CHR 0x0D \<or> c = CHR 0x0A \<or> breaks_line s"
  by (auto simp: breaks_line_def)

lemma head_headers: "list_all clean_header hs \<Longrightarrow>
    head_lines (concat (map header_line hs) @ r) = (map shown hs @ fst (head_lines r), snd (head_lines r))"
proof (induction hs)
  case (Cons h hs)
  have c: "\<not> breaks_line (shown h)" "shown h \<noteq> []"
    using Cons.prems by (auto simp: clean_header_def shown_def breaks_line_def)
  have "concat (map header_line (h # hs)) @ r = shown h @ crlf @ (concat (map header_line hs) @ r)"
    by (simp add: header_line_def shown_def)
  then show ?case using head_line [OF c, of "concat (map header_line hs) @ r"] Cons by simp
qed simp

lemma to_lower_breaks: "breaks_line (lower s) \<longleftrightarrow> breaks_line s"
proof -
  have "to_lower c = d \<longleftrightarrow> c = d" if "of_char d < (65 :: nat)" for c d
  proof
    assume "to_lower c = d"
    show "c = d"
    proof (cases "65 \<le> (of_char c :: nat) \<and> of_char c \<le> (90 :: nat)")
      case True
      then have "(of_char d :: nat) = of_char c + 32" using \<open>to_lower c = d\<close> by (auto simp: to_lower_def Let_def)
      then show ?thesis using that True by linarith
    qed (use \<open>to_lower c = d\<close> in \<open>auto simp: to_lower_def Let_def split: if_splits\<close>)
  next
    assume "c = d" then show "to_lower c = d" using that by (simp add: to_lower_def Let_def)
  qed
  then have k: "d = to_lower c \<longleftrightarrow> d = c" if "of_char d < (65 :: nat)" for c d using that by metis
  have "d \<in> set (lower s) \<longleftrightarrow> d \<in> set s" if "of_char d < (65 :: nat)" for d
    by (simp add: lower_def image_iff k [OF that])
  then show ?thesis by (simp add: breaks_line_def)
qed

text \<open>The headers of the guest that go through, under the names they go under.\<close>

lemma guest_headers_given:
  "guest_headers e hs = Inr t \<Longrightarrow> t = concat (map header_line (map (apfst lower) hs)) \<and> list_all clean_header (map (apfst lower) hs) \<and>
    list_all (\<lambda>h. \<not> is_reserved_header (fst h) \<and> guest_may_set e (fst h)) (map (apfst lower) hs)"
proof (induction e hs arbitrary: t rule: guest_headers.induct)
  case (2 e n v hs)
  then show ?case by (auto simp: clean_header_def to_lower_breaks breaks_name_def split: if_splits sum.splits)
qed simp

lemma bt_insert_set: "set (bt_insert k v m) \<subseteq> insert (k, v) (set m)"
  by (induction m rule: bt_insert.induct) (auto split: if_splits)

text \<open>What an operator's entry sends: one line each, and none of the names the connector writes itself.\<close>

definition sendable :: "string \<times> string \<Rightarrow> bool" where
  "sendable h \<longleftrightarrow> clean_header h \<and> \<not> is_reserved_header (fst h)"

lemma entry_headers_clean:
  "entry_headers env org hs out = Inr low \<Longrightarrow> list_all sendable out \<Longrightarrow> list_all sendable low"
proof (induction env org hs out rule: entry_headers.induct)
  case (2 env org k v hs out)
  obtain t where t: "header_resolve env org k v = Inr t" using 2(2) by (cases "header_resolve env org k v") auto
  have ok: "\<not> breaks_name (lower k)" "\<not> breaks_line t" "\<not> is_reserved_header (lower k)"
    "entry_headers env org hs (bt_insert (lower k) t out) = Inr low"
    using 2(2) t by (auto split: if_splits)
  have "list_all sendable (bt_insert (lower k) t out)"
    using 2(3) ok bt_insert_set [of "lower k" t out] by (auto simp: list_all_iff clean_header_def breaks_name_def sendable_def)
  then show ?case using 2(1) [OF t _ ok(3,4)] ok(1,2) by simp
qed auto

lemma allow_entry_clean: "allow_entry_of env shape = Inr e \<Longrightarrow> list_all sendable (al_headers e)"
  using entry_headers_clean by (auto simp: allow_entry_of_def Let_def split: entry_shape.splits sum.splits)

text \<open>Lines put together, each with its end and an empty one after them.\<close>

definition line_ended :: "string list \<Rightarrow> string" where
  "line_ended ls = concat (map (\<lambda>l. l @ crlf) ls) @ crlf"

lemma lines_read: "\<forall>l\<in>set ls. \<not> breaks_line l \<and> l \<noteq> [] \<Longrightarrow> head_lines (line_ended ls @ r) = (ls, r)"
proof (induction ls)
  case (Cons l ls)
  then show ?case using head_line [of l "line_ended ls @ r"] by (simp add: line_ended_def)
qed (simp add: line_ended_def head_end)

lemma header_line_shown: "header_line h = shown h @ crlf"
  by (simp add: header_line_def shown_def)

lemma breaks_shown: "clean_header h \<Longrightarrow> \<not> breaks_line (shown h) \<and> shown h \<noteq> []"
  by (auto simp: clean_header_def shown_def breaks_line_def)

lemma digits_unbroken [simp]: "\<not> breaks_line (show_nat n)"
proof -
  have "c \<noteq> CHR 0x0D \<and> c \<noteq> CHR 0x0A" if "c \<in> set (show_nat n)" for c
    using show_nat_digits [OF that] by (auto simp: digit_char_def dest: arg_cong [of _ _ "of_char :: char \<Rightarrow> nat"])
  then show ?thesis by (auto simp: breaks_line_def)
qed

text \<open>The lines of a request after its path: the rest of the first line, and what the connector, the guest and the operator say.\<close>

definition host_of :: "url \<Rightarrow> string" where
  "host_of u = (if url_port u = (if url_tls u then 443 else 80) then url_host u else url_host u @ '':'' @ show_nat (url_port u))"

definition own_lines :: "string \<Rightarrow> url \<Rightarrow> (string \<times> string) list option \<Rightarrow> bytes option \<Rightarrow> allow_entry \<Rightarrow> string list" where
  "own_lines version u hs body e =
     [''host: '' @ host_of u, ''connection: close''] @ map shown (map (apfst lower) (case hs of None \<Rightarrow> [] | Some h \<Rightarrow> h)) @ map shown (al_headers e)
     @ (if (case hs of None \<Rightarrow> False | Some h \<Rightarrow> names_agent h) \<or> names_agent (al_headers e) then [] else [''user-agent: drt/'' @ version])
     @ (case body of None \<Rightarrow> [] | Some b \<Rightarrow> [''content-length: '' @ show_nat (length b)])"

lemma request_bytes_lines:
  assumes "request_bytes version u m hs body e = Inr b"
  shows "b = text_to_bytes (line_ended ((m @ '' '' @ url_path u @ '' HTTP/1.1'') # own_lines version u hs body e)) @ (case body of None \<Rightarrow> [] | Some x \<Rightarrow> x)"
    and "list_all (\<lambda>h. clean_header h \<and> \<not> is_reserved_header (fst h) \<and> guest_may_set e (fst h)) (map (apfst lower) (case hs of None \<Rightarrow> [] | Some h \<Rightarrow> h))"
proof -
  let ?hs = "case hs of None \<Rightarrow> [] | Some h \<Rightarrow> h"
  have concat: "concat (map header_line xs) = concat (map (\<lambda>l. l @ crlf) (map shown xs))" for xs
    by (induction xs) (simp_all add: header_line_shown)
  obtain g where g: "guest_headers e ?hs = Inr g" "(case hs of None \<Rightarrow> Inr [] | Some h \<Rightarrow>
      (if length h > req_headers then Inl (TooManyHeaders (length h)) else guest_headers e h)) = Inr g"
    using assms by (auto simp: request_bytes_def Let_def split: option.splits if_splits sum.splits)
  note G = guest_headers_given [OF g(1)]
  show "list_all (\<lambda>h. clean_header h \<and> \<not> is_reserved_header (fst h) \<and> guest_may_set e (fst h)) (map (apfst lower) ?hs)"
    using G by (auto simp: list_all_iff)
  show "b = text_to_bytes (line_ended ((m @ '' '' @ url_path u @ '' HTTP/1.1'') # own_lines version u hs body e)) @ (case body of None \<Rightarrow> [] | Some x \<Rightarrow> x)"
    using assms unfolding request_bytes_def Let_def g(2) G [THEN conjunct1] concat
    by (auto simp: own_lines_def line_ended_def host_line_def host_of_def split: option.split)
qed

lemma own_lines_read:
  assumes "request_bytes version u m hs body e = Inr b" and "list_all sendable (al_headers e)"
    and "\<not> breaks_line (url_host u)" and "\<not> breaks_line version"
  shows "\<forall>l\<in>set (own_lines version u hs body e). \<not> breaks_line l \<and> l \<noteq> []"
proof -
  have "list_all clean_header (map (apfst lower) (case hs of None \<Rightarrow> [] | Some h \<Rightarrow> h))" "list_all clean_header (al_headers e)"
    using request_bytes_lines(2) [OF assms(1)] assms(2) by (auto simp: list_all_iff sendable_def)
  then have "\<forall>l\<in>set (map shown (map (apfst lower) (case hs of None \<Rightarrow> [] | Some h \<Rightarrow> h))) \<union> set (map shown (al_headers e)). \<not> breaks_line l \<and> l \<noteq> []"
    by (simp add: list_all_iff breaks_shown ball_Un)
  then show ?thesis
    using assms(3,4) by (cases body) (simp_all add: own_lines_def host_of_def ball_Un)
qed

text \<open>
  C27. Where the path, the host, the method and the version hold no line break, what is sent is one request: its head is the request
  line, the host, the close, the headers of the guest under their lower-case names, those of the operator, an agent unless one is
  named, and the length of the body; nothing but the body follows it, and no header of the guest is one the connector writes, one the
  operator injects or one outside the granted names.
\<close>

theorem request_is_its_headers:
  assumes "allow_entry_of env shape = Inr e" and "request_bytes version u m hs body e = Inr b"
    and "\<not> breaks_line (m @ url_path u @ url_host u @ version)"
  shows "(\<exists>t. b = text_to_bytes t @ (case body of None \<Rightarrow> [] | Some x \<Rightarrow> x) \<and>
      head_lines t = ((m @ '' '' @ url_path u @ '' HTTP/1.1'') # own_lines version u hs body e, [])) \<and>
    (\<forall>h\<in>set (case hs of None \<Rightarrow> [] | Some h \<Rightarrow> h). \<not> is_reserved_header (lower (fst h)) \<and> guest_may_set e (lower (fst h)))"
proof -
  have "\<not> breaks_line (m @ '' '' @ url_path u @ '' HTTP/1.1'')" using assms(3) by (simp add: breaks_line_def)
  moreover have "\<forall>l\<in>set (own_lines version u hs body e). \<not> breaks_line l \<and> l \<noteq> []"
    by (rule own_lines_read [OF assms(2) allow_entry_clean [OF assms(1)]]) (use assms(3) in simp_all)
  ultimately have "head_lines (line_ended ((m @ '' '' @ url_path u @ '' HTTP/1.1'') # own_lines version u hs body e)) =
      ((m @ '' '' @ url_path u @ '' HTTP/1.1'') # own_lines version u hs body e, [])"
    using lines_read [of "(m @ '' '' @ url_path u @ '' HTTP/1.1'') # own_lines version u hs body e" "[]"] by simp
  then show ?thesis
    using request_bytes_lines [OF assms(2)] by (fastforce simp: list_all_iff apfst_def map_prod_def split: prod.splits)
qed


section \<open>At concrete inputs\<close>

definition demo_rest_env :: rest_env where
  "demo_rest_env = \<lparr>re_shape = (\<lambda>_. Inl []), re_env = (\<lambda>_. None), re_roots = (\<lambda>_. Inr [])\<rparr>"

definition demo_shape :: entry_shape where
  "demo_shape = TableShape ''https://api.example.com'' [(''X-Api-Key'', HeaderText ''k'')] None"

definition demo_origin :: url where
  "demo_origin = \<lparr>url_tls = True, url_host = ''api.example.com'', url_port = 443, url_path = ''/''\<rparr>"

definition demo_entry :: allow_entry where
  "demo_entry = \<lparr>al_origin = demo_origin, al_headers = [(''x-api-key'', ''k'')], al_allow = None\<rparr>"

lemma demo_entry_of: "allow_entry_of demo_rest_env demo_shape = Inr demo_entry"
  by code_simp

lemma demo_own: "own_lines ''1'' demo_origin None None demo_entry = [''host: api.example.com'', ''connection: close'', ''x-api-key: k'', ''user-agent: drt/1'']"
  by code_simp

theorem request_is_its_headers_witness:
  "\<exists>b t. request_bytes ''1'' demo_origin ''GET'' None None demo_entry = Inr b \<and> b = text_to_bytes t \<and>
     head_lines t = ([''GET / HTTP/1.1'', ''host: api.example.com'', ''connection: close'', ''x-api-key: k'', ''user-agent: drt/1''], [])"
proof -
  obtain b where b: "request_bytes ''1'' demo_origin ''GET'' None None demo_entry = Inr b"
    by (simp add: request_bytes_def Let_def)
  have "\<not> breaks_line (''GET'' @ url_path demo_origin @ url_host demo_origin @ ''1'')" by (simp add: demo_origin_def)
  from request_is_its_headers [OF demo_entry_of b this]
  obtain t where "b = text_to_bytes t" "head_lines t = ((''GET'' @ '' '' @ url_path demo_origin @ '' HTTP/1.1'') # own_lines ''1'' demo_origin None None demo_entry, [])"
    by auto
  then show ?thesis using b by (intro exI [of _ b] exI [of _ t]) (simp add: demo_own, simp add: demo_origin_def)
qed

definition split_url :: url where
  "split_url = demo_origin\<lparr>url_path := ''/ HTTP/1.1'' @ crlf @ ''host: a'' @ crlf @ crlf @ ''DELETE /all''\<rparr>"


end
