(* ===== verification/Rest_Wire.thy ===== *)
theory Rest_Wire
  imports Rest_Scope Mem_Fs Identity
begin

text \<open>
  Outbound HTTP, \<^verbatim>\<open>connectors/rest/src/lib.rs\<close>, from the socket on: heads and framing, the decoder of chunks, the loop that
  reads a response, the choice of an address, and the calls.  The parser of heads (\<^verbatim>\<open>httparse\<close>), the network and the derived
  readers of arguments are parameters.  What a socket answers is the list of its reads; the end of the list is the silence the timeout
  ends.  Arithmetic on \<^verbatim>\<open>usize\<close> is written out: with the checks of a debug build an overflow panics, without them it wraps.
\<close>

section \<open>Heads\<close>

record http_header =
  hh_name :: string
  hh_value :: bytes

datatype http_parsed = PartialHead | CompleteHead nat "nat option" "http_header list"

type_synonym http_parse = "bytes \<Rightarrow> string + http_parsed"

datatype body_end = BodyLength nat | BodyChunked | BodyClose

record http_head =
  hd_status :: nat
  hd_headers :: "(string \<times> string) list"
  hd_consumed :: nat
  hd_body_end :: body_end

definition contains :: "string \<Rightarrow> string \<Rightarrow> bool" where
  "contains p s \<longleftrightarrow> list_ex (\<lambda>i. take (length p) (drop i s) = p) [0..<Suc (length s)]"

definition says_chunked :: "bytes \<Rightarrow> bool" where
  "says_chunked v \<longleftrightarrow> contains ''chunked'' (lower (utf8_lossy (text_of v)))"

definition length_said :: "bytes \<Rightarrow> nat option" where
  "length_said v = (if utf8_valid (text_of v) then parse_unsigned u64_max (trim (text_of v)) else None)"

fun framing_scan :: "http_header list \<Rightarrow> nat option \<Rightarrow> bool \<Rightarrow> rest_error + nat option \<times> bool" where
  "framing_scan [] len chunked = Inr (len, chunked)"
| "framing_scan (h # hs) len chunked =
     (if eq_ignore_ascii_case (hh_name h) ''transfer-encoding'' then framing_scan hs len (chunked \<or> says_chunked (hh_value h))
      else if eq_ignore_ascii_case (hh_name h) ''content-length'' then
        (case length_said (hh_value h) of None \<Rightarrow> Inl (WireError ''status: the content-length of the response is not a number'')
         | Some n \<Rightarrow> (if len \<noteq> None \<and> len \<noteq> Some n then Inl (WireError ''status: the response carries two different content-lengths'')
             else framing_scan hs (Some n) chunked))
      else framing_scan hs len chunked)"

definition is_interim :: "nat \<Rightarrow> bool" where
  "is_interim status \<longleftrightarrow> 100 \<le> status \<and> status < 200"

definition framing :: "nat \<Rightarrow> http_header list \<Rightarrow> rest_error + body_end" where
  "framing status hs = (case framing_scan hs None False of Inl e \<Rightarrow> Inl e
   | Inr (len, chunked) \<Rightarrow> Inr (if is_interim status \<or> status = 204 \<or> status = 304 then BodyLength 0
       else if chunked then BodyChunked else (case len of None \<Rightarrow> BodyClose | Some n \<Rightarrow> BodyLength n)))"

text \<open>The headers a guest is shown: as many as the bound allows, and none that is cut.\<close>

fun kept_headers :: "http_header list \<Rightarrow> (string \<times> string) list \<Rightarrow> (string \<times> string) list" where
  "kept_headers [] kept = kept"
| "kept_headers (h # hs) kept =
     (if resp_hdrs \<le> length kept then kept
      else if \<not> utf8_valid (text_of (hh_value h)) then kept_headers hs kept
      else if resp_name_max < length (hh_name h) \<or> resp_val_max < length (hh_value h) then kept_headers hs kept
      else kept_headers hs (kept @ [(lower (hh_name h), text_of (hh_value h))]))"

definition parse_head :: "http_parse \<Rightarrow> bytes \<Rightarrow> rest_error + http_head option" where
  "parse_head hp buf = (case hp buf of Inl e \<Rightarrow> Inl (WireError (''status: '' @ e))
   | Inr PartialHead \<Rightarrow> Inr None
   | Inr (CompleteHead n code hs) \<Rightarrow> (case code of None \<Rightarrow> Inl (WireError ''status: the response carries no code'')
     | Some status \<Rightarrow> (case framing status hs of Inl e \<Rightarrow> Inl e
       | Inr f \<Rightarrow> Inr (Some \<lparr>hd_status = status, hd_headers = kept_headers hs [], hd_consumed = n, hd_body_end = f\<rparr>))))"

text \<open>The first head that is not interim.  A parser takes at least a byte for a head, so there are no more heads than bytes.\<close>

fun final_head_from :: "http_parse \<Rightarrow> nat \<Rightarrow> nat \<Rightarrow> bytes \<Rightarrow> rest_error + http_head option" where
  "final_head_from hp 0 start buf = Inl EndlessHeads"
| "final_head_from hp (Suc fuel) start buf = (case parse_head hp (drop start buf) of Inl e \<Rightarrow> Inl e
   | Inr None \<Rightarrow> Inr None
   | Inr (Some h) \<Rightarrow> (if is_interim (hd_status h) then final_head_from hp fuel (start + hd_consumed h) buf
       else Inr (Some (h\<lparr>hd_consumed := start + hd_consumed h\<rparr>))))"

definition final_head :: "http_parse \<Rightarrow> bytes \<Rightarrow> rest_error + http_head option" where
  "final_head hp buf = final_head_from hp (Suc (length buf)) 0 buf"

section \<open>Chunks\<close>

definition usize_add :: "bool \<Rightarrow> nat \<Rightarrow> nat \<Rightarrow> nat option" where
  "usize_add checked a b = (if a + b \<le> u64_max then Some (a + b) else if checked then None else Some ((a + b) mod 2 ^ 64))"

definition slice :: "'a list \<Rightarrow> nat \<Rightarrow> nat \<Rightarrow> 'a list option" where
  "slice xs a b = (if a \<le> b \<and> b \<le> length xs then Some (take (b - a) (drop a xs)) else None)"

fun find_crlf :: "bytes \<Rightarrow> nat option" where
  "find_crlf [] = None"
| "find_crlf [c] = None"
| "find_crlf (a # b # r) = (if a = 13 \<and> b = 10 then Some 0 else map_option Suc (find_crlf (b # r)))"

text \<open>\<^verbatim>\<open>usize::from_str_radix\<close> with 16: one plus is taken, no digits and an overflow are errors.\<close>

definition usize_of_hex :: "string \<Rightarrow> nat option" where
  "usize_of_hex s = (let ds = (case s of c # cs \<Rightarrow> if c = CHR ''+'' then cs else s | [] \<Rightarrow> s) in
     if ds = [] then None else (case hex_digits 0 ds of None \<Rightarrow> None | Some n \<Rightarrow> if n \<le> u64_max then Some n else None))"

definition chunk_size :: "bytes \<Rightarrow> rest_error + nat" where
  "chunk_size line = (let t = text_of (takeWhile (\<lambda>b. b \<noteq> 59) line) in
     if \<not> utf8_valid t then Inl (WireError ''chunked: a chunk size was not text'')
     else (case usize_of_hex (trim t) of None \<Rightarrow> Inl (WireError (''chunked: '' @ trim t @ '' is not a chunk size'')) | Some n \<Rightarrow> Inr n))"

record dechunker =
  dc_out :: bytes
  dc_at :: nat
  dc_done :: bool

definition dechunker_new :: dechunker where
  "dechunker_new = \<lparr>dc_out = [], dc_at = 0, dc_done = False\<rparr>"

text \<open>The chunk at the front: nothing yet, or the bytes of it with where it ends.\<close>

definition next_chunk :: "bool \<Rightarrow> bytes \<Rightarrow> nat \<Rightarrow> nat \<Rightarrow> nat \<Rightarrow> rest_error + (bytes \<times> nat) option" where
  "next_chunk checked r data sz got = (case usize_add checked got sz of None \<Rightarrow> Inl ConnectorPanics
   | Some whole \<Rightarrow>
      (if max_body < whole then Inl BodyTooLarge
       else (case usize_add checked data sz of None \<Rightarrow> Inl ConnectorPanics
         | Some en \<Rightarrow> (case usize_add checked en 2 of None \<Rightarrow> Inl ConnectorPanics
           | Some stop \<Rightarrow>
              (if length r < stop then Inr None
               else (case slice r en stop of None \<Rightarrow> Inl ConnectorPanics
                 | Some mark \<Rightarrow> (if mark \<noteq> [13, 10] then Inl (WireError ''chunked: a chunk did not end where its size said'')
                     else (case slice r data en of None \<Rightarrow> Inl ConnectorPanics | Some body \<Rightarrow> Inr (Some (body, stop))))))))))"

lemma next_chunk_stop: "next_chunk checked r data sz got = Inr (Some (body, stop)) \<Longrightarrow> 2 \<le> stop \<and> stop \<le> length r"
  by (auto simp: next_chunk_def slice_def usize_add_def split: option.splits if_splits)

function dc_feed :: "bool \<Rightarrow> bytes \<Rightarrow> dechunker \<Rightarrow> rest_error + dechunker" where
  "dc_feed checked raw d =
     (if dc_done d then Inr d
      else (let r = drop (min (dc_at d) (length raw)) raw in
        case find_crlf r of None \<Rightarrow> Inr d
        | Some eol \<Rightarrow> (case chunk_size (take eol r) of Inl e \<Rightarrow> Inl e
          | Inr sz \<Rightarrow>
             (if sz = 0 then Inr (d\<lparr>dc_at := dc_at d + (eol + 2), dc_done := True\<rparr>)
              else (case next_chunk checked r (eol + 2) sz (length (dc_out d)) of Inl e \<Rightarrow> Inl e
                | Inr None \<Rightarrow> Inr d
                | Inr (Some (body, stop)) \<Rightarrow> dc_feed checked raw (d\<lparr>dc_out := dc_out d @ body, dc_at := dc_at d + stop\<rparr>))))))"
  by pat_completeness auto
termination
  by (relation "measure (\<lambda>(checked, raw, d). length raw - dc_at d)") (auto dest!: next_chunk_stop)

declare dc_feed.simps [simp del]

section \<open>Reading a response\<close>

datatype read_event = Got bytes | GotUncleanEnd | ReadFails string

record wire =
  wr_buf :: bytes
  wr_head :: "http_head option"
  wr_chunks :: dechunker

record rest_response =
  rr_status :: nat
  rr_headers :: "(string \<times> string) list"
  rr_body :: bytes

definition wire_new :: wire where
  "wire_new = \<lparr>wr_buf = [], wr_head = None, wr_chunks = dechunker_new\<rparr>"

definition body_of :: "http_head \<Rightarrow> bytes \<Rightarrow> bytes" where
  "body_of h buf = drop (min (hd_consumed h) (length buf)) buf"

definition wire_done :: "wire \<Rightarrow> bool" where
  "wire_done w \<longleftrightarrow> (case wr_head w of None \<Rightarrow> False
   | Some h \<Rightarrow> (case hd_body_end h of BodyLength n \<Rightarrow> n \<le> length (wr_buf w) - min (hd_consumed h) (length (wr_buf w))
       | BodyChunked \<Rightarrow> dc_done (wr_chunks w) | BodyClose \<Rightarrow> False))"

definition known_head :: "http_parse \<Rightarrow> wire \<Rightarrow> bytes \<Rightarrow> rest_error + http_head option" where
  "known_head hp w buf = (case wr_head w of Some h \<Rightarrow> Inr (Some h) | None \<Rightarrow> final_head hp buf)"

definition wire_read :: "http_parse \<Rightarrow> bool \<Rightarrow> wire \<Rightarrow> bytes \<Rightarrow> rest_error + wire" where
  "wire_read hp checked w bs =
     (let buf = wr_buf w @ bs in
      case known_head hp w buf of Inl e \<Rightarrow> Inl e
      | Inr found \<Rightarrow>
        (case (case found of None \<Rightarrow> Inr (wr_chunks w)
             | Some h \<Rightarrow> (case hd_body_end h of BodyLength n \<Rightarrow> (if max_body < n then Inl BodyTooLarge else Inr (wr_chunks w))
                 | BodyChunked \<Rightarrow> dc_feed checked (body_of h buf) (wr_chunks w) | BodyClose \<Rightarrow> Inr (wr_chunks w))) of
           Inl e \<Rightarrow> Inl e
         | Inr ch \<Rightarrow> (if max_body + 64 * 1024 < length buf then Inl BodyTooLarge
             else Inr \<lparr>wr_buf = buf, wr_head = found, wr_chunks = ch\<rparr>)))"

fun wire_loop :: "http_parse \<Rightarrow> bool \<Rightarrow> read_event list \<Rightarrow> wire \<Rightarrow> rest_error + wire \<times> bool" where
  "wire_loop hp checked [] w = (if wire_done w then Inr (w, False) else Inl TimedOut)"
| "wire_loop hp checked (ev # evs) w =
     (if wire_done w then Inr (w, False)
      else (case ev of ReadFails e \<Rightarrow> Inl (WireError (''read: '' @ e))
        | GotUncleanEnd \<Rightarrow> Inr (w, True)
        | Got bs \<Rightarrow> (if bs = [] then Inr (w, False)
            else (case wire_read hp checked w bs of Inl e \<Rightarrow> Inl e | Inr w' \<Rightarrow> wire_loop hp checked evs w'))))"

definition wire_answer :: "http_parse \<Rightarrow> bool \<Rightarrow> wire \<Rightarrow> bool \<Rightarrow> rest_error + rest_response" where
  "wire_answer hp checked w unclean = (case known_head hp w (wr_buf w) of Inl e \<Rightarrow> Inl e
   | Inr None \<Rightarrow> Inl (WireError ''status: the response head never completed'')
   | Inr (Some h) \<Rightarrow>
      (let raw = body_of h (wr_buf w) in
       case (case hd_body_end h of
           BodyLength n \<Rightarrow> (if length raw < n then Inl (ShortBody (length raw) (Some n) unclean) else Inr (take n raw))
         | BodyChunked \<Rightarrow> (case dc_feed checked raw (wr_chunks w) of Inl e \<Rightarrow> Inl e
             | Inr c \<Rightarrow> (if dc_done c then Inr (dc_out c) else Inl (ShortBody (length raw) None unclean)))
         | BodyClose \<Rightarrow> Inr raw) of
         Inl e \<Rightarrow> Inl e
       | Inr body \<Rightarrow> (if max_body < length body then Inl BodyTooLarge
           else Inr \<lparr>rr_status = hd_status h, rr_headers = hd_headers h, rr_body = body\<rparr>)))"

definition wire_response :: "http_parse \<Rightarrow> bool \<Rightarrow> read_event list \<Rightarrow> rest_error + rest_response" where
  "wire_response hp checked evs = (case wire_loop hp checked evs wire_new of Inl e \<Rightarrow> Inl e
   | Inr (w, unclean) \<Rightarrow> wire_answer hp checked w unclean)"

section \<open>A call\<close>

datatype 'a net_answer = Answers 'a | Fails string | Silent

type_synonym socket_addr = "ip_addr \<times> nat"

record network =
  nt_lookup :: "string \<Rightarrow> nat \<Rightarrow> socket_addr list net_answer"
  nt_connect :: "socket_addr \<Rightarrow> unit net_answer"
  nt_tls :: "string \<Rightarrow> bytes list \<Rightarrow> unit net_answer"
  nt_send :: "bytes \<Rightarrow> unit net_answer"
  nt_reads :: "nat \<Rightarrow> bytes \<Rightarrow> read_event list"

record rest_args =
  ra_url :: string
  ra_headers :: "(string \<times> string) list option"
  ra_body :: "val option"
  ra_timeout :: "nat option"

record rest_host =
  rh_env :: rest_env
  rh_get :: "val \<Rightarrow> string + rest_args"
  rh_post :: "val \<Rightarrow> string + rest_args"
  rh_parse :: http_parse
  rh_checked :: bool
  rh_version :: string

definition exchange :: "rest_host \<Rightarrow> network \<Rightarrow> nat \<Rightarrow> bytes \<Rightarrow> rest_error + rest_response" where
  "exchange h net ms req = (case nt_send net req of Fails e \<Rightarrow> Inl (WireError (''send: '' @ e)) | Silent \<Rightarrow> Inl TimedOut
   | Answers _ \<Rightarrow> wire_response (rh_parse h) (rh_checked h) (nt_reads net ms req))"

text \<open>The sockets that were dialled, beside the answer.\<close>

definition fetch :: "rest_host \<Rightarrow> network \<Rightarrow> nat \<Rightarrow> url \<Rightarrow> string \<Rightarrow> (string \<times> string) list option \<Rightarrow> bytes option \<Rightarrow> rest_scope \<Rightarrow> allow_entry
    \<Rightarrow> socket_addr list \<times> (rest_error + rest_response)" where
  "fetch h net ms u m hs body sc e =
     (case request_bytes (rh_version h) u m hs body e of Inl x \<Rightarrow> ([], Inl x)
      | Inr req \<Rightarrow>
         (case nt_lookup net (url_host u) (url_port u) of Fails _ \<Rightarrow> ([], Inl NoDns) | Silent \<Rightarrow> ([], Inl TimedOut)
          | Answers addrs \<Rightarrow>
             (if addrs = [] then ([], Inl NoDns)
              else (case List.find (\<lambda>a. permits_address sc (fst a)) addrs of None \<Rightarrow> ([], Inl (OnlyPrivate (url_host u)))
                | Some a \<Rightarrow> ([a], case nt_connect net a of Fails x \<Rightarrow> Inl (ConnectFails x) | Silent \<Rightarrow> Inl TimedOut
                    | Answers _ \<Rightarrow> (if url_tls u
                        then (case nt_tls net (url_host u) (rx_roots sc) of Fails _ \<Rightarrow> Inl TlsFails | Silent \<Rightarrow> Inl TimedOut
                          | Answers _ \<Rightarrow> exchange h net ms req)
                        else exchange h net ms req))))))"

definition rest_request :: "rest_host \<Rightarrow> network \<Rightarrow> nat \<Rightarrow> url \<Rightarrow> string \<Rightarrow> (string \<times> string) list option \<Rightarrow> bytes option \<Rightarrow> rest_scope
    \<Rightarrow> socket_addr list \<times> (rest_error + rest_response)" where
  "rest_request h net ms u m hs body sc = (case matching sc u of None \<Rightarrow> ([], Inl (NotGranted (url_origin u)))
   | Some e \<Rightarrow> fetch h net ms u m hs body sc e)"

fun bytes_of :: "val \<Rightarrow> bytes option" where
  "bytes_of (VStr s) = Some (text_to_bytes s)"
| "bytes_of (VBin b) = Some b"
| "bytes_of _ = None"

definition response_value :: "rest_response \<Rightarrow> val" where
  "response_value r = VMap [(VStr ''status'', val_nat (rr_status r)), (VStr ''body'', VBin (rr_body r)),
     (VStr ''content_type'', (case List.find (\<lambda>h. fst h = ''content-type'') (rr_headers r) of None \<Rightarrow> VNil | Some h \<Rightarrow> VStr (snd h))),
     (VStr ''headers'', VMap (map (\<lambda>h. (VStr (fst h), VStr (snd h))) (rr_headers r)))]"

definition decode_call :: "rest_host \<Rightarrow> string \<Rightarrow> val \<Rightarrow> rest_error + string \<times> rest_args \<times> bytes option" where
  "decode_call h call args =
     (if call = ''rest/get'' then (case rh_get h args of Inl e \<Rightarrow> Inl (BadRestArgs e) | Inr a \<Rightarrow> Inr (''GET'', a, None))
      else (case rh_post h args of Inl e \<Rightarrow> Inl (BadRestArgs e)
        | Inr a \<Rightarrow> Inr (''POST'', a, Some (case ra_body a of None \<Rightarrow> [] | Some v \<Rightarrow> (case bytes_of v of None \<Rightarrow> [] | Some b \<Rightarrow> b)))))"

definition rest_call :: "rest_host \<Rightarrow> network \<Rightarrow> string \<Rightarrow> val option \<Rightarrow> scope option \<Rightarrow> socket_addr list \<times> (rest_error + val)" where
  "rest_call h net call args sc =
     (if call \<noteq> ''rest/get'' \<and> call \<noteq> ''rest/post'' then ([], Inl (NotARestCall call))
      else (case rest_scope_parse (rh_env h) sc of Inl e \<Rightarrow> ([], Inl e)
        | Inr s \<Rightarrow> (case args of None \<Rightarrow> ([], Inl (NoArgs call))
          | Some v \<Rightarrow> (case decode_call h call v of Inl e \<Rightarrow> ([], Inl e)
            | Inr (m, a, body) \<Rightarrow> (case url_parse (ra_url a) of Inl e \<Rightarrow> ([], Inl (BadUrl e))
              | Inr u \<Rightarrow> (let ms = min (case ra_timeout a of None \<Rightarrow> default_ms | Some n \<Rightarrow> n) max_ms;
                              (dials, r) = rest_request h net ms u m (ra_headers a) body s
                          in (dials, map_sum id response_value r)))))))"

section \<open>What the decoder reads\<close>

text \<open>A parser of heads takes at least a byte and no more than it was given.\<close>

definition parser_ok :: "http_parse \<Rightarrow> bool" where
  "parser_ok hp \<longleftrightarrow> (\<forall>buf n code hs. hp buf = Inr (CompleteHead n code hs) \<longrightarrow> 0 < n \<and> n \<le> length buf)"

lemma parse_head_consumes: "parser_ok hp \<Longrightarrow> parse_head hp buf = Inr (Some h) \<Longrightarrow> 0 < hd_consumed h \<and> hd_consumed h \<le> length buf"
  unfolding parser_ok_def by (auto simp: parse_head_def split: sum.splits http_parsed.splits option.splits) blast+

lemma framing_scan_error: "framing_scan hs len chunked = Inl e \<Longrightarrow> e \<noteq> EndlessHeads"
  by (induction hs len chunked rule: framing_scan.induct) (auto split: if_splits option.splits)

lemma final_head_from_ends:
  "parser_ok hp \<Longrightarrow> start \<le> length buf \<Longrightarrow> length buf - start < fuel \<Longrightarrow> final_head_from hp fuel start buf \<noteq> Inl EndlessHeads"
proof (induction fuel arbitrary: start)
  case (Suc fuel)
  show ?case
  proof (cases "parse_head hp (drop start buf)")
    case (Inl e)
    then show ?thesis
      by (auto simp: parse_head_def framing_def split: sum.splits http_parsed.splits option.splits dest!: framing_scan_error)
  next
    case (Inr x)
    show ?thesis
    proof (cases x)
      case (Some h)
      have "0 < hd_consumed h" "hd_consumed h \<le> length buf - start"
        using parse_head_consumes [OF Suc.prems(1)] Inr Some by fastforce+
      then show ?thesis using Suc.IH [of "start + hd_consumed h"] Suc.prems Inr Some by simp
    qed (simp add: Inr)
  qed
qed simp

text \<open>The search for the head that answers comes to an end.\<close>

lemma head_search_ends: "parser_ok hp \<Longrightarrow> final_head hp buf \<noteq> Inl EndlessHeads"
  unfolding final_head_def by (rule final_head_from_ends) simp_all

lemma final_head_from_final: "final_head_from hp fuel start buf = Inr (Some h) \<Longrightarrow> \<not> is_interim (hd_status h)"
  by (induction fuel arbitrary: start) (auto split: sum.splits option.splits if_splits)

text \<open>The grammar of a chunked body: what it decodes to, and how long it is.\<close>

inductive chunked_body :: "bytes \<Rightarrow> bytes \<Rightarrow> nat \<Rightarrow> bool" where
  last_chunk: "find_crlf raw = Some eol \<Longrightarrow> chunk_size (take eol raw) = Inr 0 \<Longrightarrow> chunked_body raw [] (eol + 2)"
| one_chunk: "find_crlf raw = Some eol \<Longrightarrow> chunk_size (take eol raw) = Inr (length body) \<Longrightarrow> body \<noteq> [] \<Longrightarrow>
    drop (eol + 2) raw = body @ [13, 10] @ r \<Longrightarrow> chunked_body r out k \<Longrightarrow> chunked_body raw (body @ out) (eol + 2 + length body + 2 + k)"

lemma find_crlf_bound: "find_crlf r = Some eol \<Longrightarrow> eol + 2 \<le> length r"
  by (induction r arbitrary: eol rule: find_crlf.induct) (auto split: if_splits)

lemma find_crlf_append: "find_crlf r = Some eol \<Longrightarrow> find_crlf (r @ ext) = Some eol"
  by (induction r arbitrary: eol rule: find_crlf.induct) (auto split: if_splits)

lemma chunk_size_fits: "chunk_size line = Inr n \<Longrightarrow> n \<le> u64_max"
  by (auto simp: chunk_size_def usize_of_hex_def Let_def split: if_splits option.splits)

lemma slice_longer: "slice r a b = Some x \<Longrightarrow> slice (r @ ext) a b = Some x"
  by (auto simp: slice_def split: if_splits)

lemma next_chunk_SomeD:
  assumes "next_chunk checked r data n got = Inr (Some (body, stop))"
  shows "\<exists>whole en. usize_add checked got n = Some whole \<and> whole \<le> max_body \<and> usize_add checked data n = Some en \<and>
    usize_add checked en 2 = Some stop \<and> stop \<le> length r \<and> slice r en stop = Some [13, 10] \<and> slice r data en = Some body"
  using assms by (auto simp: next_chunk_def split: option.splits if_splits)

lemma next_chunk_append:
  assumes "next_chunk checked r data n got = Inr (Some (body, stop))"
  shows "next_chunk checked (r @ ext) data n got = Inr (Some (body, stop))"
proof -
  obtain whole en where e: "usize_add checked got n = Some whole" "whole \<le> max_body" "usize_add checked data n = Some en"
    "usize_add checked en 2 = Some stop" "stop \<le> length r" "slice r en stop = Some [13, 10]" "slice r data en = Some body"
    using next_chunk_SomeD [OF assms] by blast
  show ?thesis using e(1-5) slice_longer [OF e(6)] slice_longer [OF e(7)] by (simp add: next_chunk_def)
qed

text \<open>A chunk that is read is the one its size line announces: where the arithmetic wraps there is a panic or a wait.\<close>

lemma next_chunk_sound:
  assumes "next_chunk checked r data n got = Inr (Some (body, stop))" and "n \<le> u64_max" and "data \<le> length r" and "length r \<le> u64_max"
  shows "stop = data + n + 2 \<and> length body = n \<and> drop data r = body @ [13, 10] @ drop stop r \<and> (got + n \<le> max_body \<or> u64_max < got + n)"
proof -
  obtain en where en: "usize_add checked data n = Some en" "usize_add checked en 2 = Some stop" "stop \<le> length r"
    "slice r en stop = Some [13, 10]" "slice r data en = Some body"
    using next_chunk_SomeD [OF assms(1)] by blast
  have le: "data \<le> en" "en \<le> stop" "en \<le> length r" using en(4,5) by (auto simp: slice_def split: if_splits)
  have e: "en = data + n"
  proof (rule ccontr)
    assume "en \<noteq> data + n"
    then have "u64_max < data + n" "en = (data + n) mod 2 ^ 64" using en(1) by (auto simp: usize_add_def split: if_splits)
    moreover have "data + n - 2 ^ 64 < 2 ^ 64" using assms(2-4) by simp
    ultimately have "en = data + n - 2 ^ 64" by (simp add: le_mod_geq)
    then show False using le(1) assms(2) \<open>u64_max < data + n\<close> by simp
  qed
  have s: "stop = en + 2"
  proof (rule ccontr)
    assume "stop \<noteq> en + 2"
    then have "u64_max < en + 2" "stop = (en + 2) mod 2 ^ 64" using en(2) by (auto simp: usize_add_def split: if_splits)
    moreover have "en \<le> u64_max" using le(3) assms(4) by simp
    ultimately have "stop = en + 2 - 2 ^ 64" by (simp add: le_mod_geq)
    then show False using le(2) \<open>u64_max < en + 2\<close> \<open>en \<le> u64_max\<close> by simp
  qed
  have b: "body = take n (drop data r)" "length body = n" using en(5) e en(3) s by (auto simp: slice_def split: if_splits)
  have m: "take 2 (drop en r) = [13, 10]" using en(4) s by (auto simp: slice_def split: if_splits)
  have "drop data r = take n (drop data r) @ drop n (drop data r)" by (rule append_take_drop_id [symmetric])
  also have "drop n (drop data r) = drop en r" by (simp add: e add.commute)
  also have "drop en r = take 2 (drop en r) @ drop 2 (drop en r)" by (rule append_take_drop_id [symmetric])
  finally have "drop data r = body @ [13, 10] @ drop stop r" by (simp add: b(1) m s add.commute)
  moreover have "got + n \<le> max_body \<or> u64_max < got + n"
    using assms(1) by (auto simp: next_chunk_def usize_add_def split: option.splits if_splits)
  ultimately show ?thesis using b(2) e s by simp
qed

text \<open>The rest of a chunked body after the bytes a decoder has read.\<close>

definition left :: "bytes \<Rightarrow> dechunker \<Rightarrow> bytes" where
  "left raw d = drop (min (dc_at d) (length raw)) raw"

lemma feed_step: "dc_feed checked raw d = (if dc_done d then Inr d else case find_crlf (left raw d) of None \<Rightarrow> Inr d | Some eol \<Rightarrow>
   (case chunk_size (take eol (left raw d)) of Inl e \<Rightarrow> Inl e | Inr sz \<Rightarrow>
     (if sz = 0 then Inr (d\<lparr>dc_at := dc_at d + (eol + 2), dc_done := True\<rparr>)
      else (case next_chunk checked (left raw d) (eol + 2) sz (length (dc_out d)) of Inl e \<Rightarrow> Inl e | Inr None \<Rightarrow> Inr d
        | Inr (Some (body, stop)) \<Rightarrow> dc_feed checked raw (d\<lparr>dc_out := dc_out d @ body, dc_at := dc_at d + stop\<rparr>)))))"
  unfolding left_def by (rule trans [OF dc_feed.simps]) (simp only: Let_def)

lemma feed_sound:
  "dc_feed checked raw d = Inr d' \<Longrightarrow> length raw \<le> u64_max \<Longrightarrow> \<not> dc_done d \<Longrightarrow> dc_done d' \<Longrightarrow>
    \<exists>out k. chunked_body (left raw d) out k \<and> dc_out d' = dc_out d @ out \<and> dc_at d' = dc_at d + k"
proof (induction checked raw d rule: dc_feed.induct)
  case (1 checked raw d)
  let ?r = "left raw d"
  note unf = feed_step [of checked raw d]
  obtain eol where eol: "find_crlf ?r = Some eol"
    using 1(2,4,5) by (cases "find_crlf ?r") (auto simp: unf Let_def)
  obtain n where n: "chunk_size (take eol ?r) = Inr n"
    using 1(2,4) eol by (cases "chunk_size (take eol ?r)") (auto simp: unf Let_def)
  show ?case
  proof (cases "n = 0")
    case True
    then have "d' = d\<lparr>dc_at := dc_at d + (eol + 2), dc_done := True\<rparr>" using 1(2,4) eol n by (simp add: unf Let_def)
    then show ?thesis using last_chunk [OF eol] n True by (intro exI [of _ "[]"] exI [of _ "eol + 2"]) simp
  next
    case False
    obtain x where x: "next_chunk checked ?r (eol + 2) n (length (dc_out d)) = Inr x"
      using 1(2,4) eol n False by (cases "next_chunk checked ?r (eol + 2) n (length (dc_out d))") (auto simp: unf Let_def)
    then obtain body stop where bs: "x = Some (body, stop)"
      using 1(2,4,5) eol n False by (cases x) (auto simp: unf Let_def)
    let ?d = "d\<lparr>dc_out := dc_out d @ body, dc_at := dc_at d + stop\<rparr>"
    have rec: "dc_feed checked raw ?d = Inr d'" using 1(2,4) eol n False x bs by (simp add: unf Let_def)
    have len: "length ?r \<le> u64_max" using 1(3) by (simp add: left_def)
    note S = next_chunk_sound [OF x [unfolded bs] chunk_size_fits [OF n] find_crlf_bound [OF eol] len]
    have "dc_at d + stop \<le> length raw" using next_chunk_stop [OF x [unfolded bs]] S by (auto simp: left_def min_def split: if_splits)
    then have l: "left raw ?d = drop stop ?r" by (simp add: left_def min_def add.commute)
    obtain out k where "chunked_body (drop stop ?r) out k" "dc_out d' = dc_out ?d @ out" "dc_at d' = dc_at ?d + k"
      using "1.IH" [OF 1(4) refl, folded left_def, OF eol n False x bs refl rec 1(3) _ 1(5)] 1(4) l by auto
    then show ?thesis
      using one_chunk [OF eol, of body "drop stop ?r" out k] n False S by (intro exI [of _ "body @ out"] exI [of _ "eol + 2 + length body + 2 + k"]) auto
  qed
qed

text \<open>What is decoded of the bytes so far is decoded of them with more behind: a decoder goes on where it stopped.\<close>

lemma feed_resumes:
  "dc_feed checked raw d = Inr d' \<Longrightarrow> dc_feed checked (raw @ ext) d' = dc_feed checked (raw @ ext) d"
proof (induction checked raw d rule: dc_feed.induct)
  case (1 checked raw d)
  let ?r = "left raw d" and ?r' = "left (raw @ ext) d"
  note unf = feed_step
  show ?case
  proof (cases "dc_done d \<or> find_crlf ?r = None")
    case True
    then have "d' = d" using 1(2) by (auto simp: unf [of checked raw d] split: if_splits)
    then show ?thesis by simp
  next
    case False
    then obtain eol where eol: "\<not> dc_done d" "find_crlf ?r = Some eol" by auto
    then have "?r \<noteq> []" by auto
    then have app: "?r' = ?r @ ext" by (auto simp: left_def min_def)
    obtain n where n: "chunk_size (take eol ?r) = Inr n" using 1(2) eol unf [of checked raw d] by (cases "chunk_size (take eol ?r)") auto
    have eol': "find_crlf ?r' = Some eol" "take eol ?r' = take eol ?r"
      using find_crlf_append [OF eol(2)] find_crlf_bound [OF eol(2)] by (simp_all add: app)
    show ?thesis
    proof (cases "n = 0")
      case True
      then have "d' = d\<lparr>dc_at := dc_at d + (eol + 2), dc_done := True\<rparr>" using 1(2) eol n unf [of checked raw d] by simp
      then show ?thesis using unf [of checked "raw @ ext" d] eol eol' n True by (simp add: dc_feed.simps)
    next
      case False
      obtain x where x: "next_chunk checked ?r (eol + 2) n (length (dc_out d)) = Inr x"
        using 1(2) eol n False unf [of checked raw d] by (cases "next_chunk checked ?r (eol + 2) n (length (dc_out d))") auto
      show ?thesis
      proof (cases x)
        case None
        then have "d' = d" using 1(2) eol n False x unf [of checked raw d] by simp
        then show ?thesis by simp
      next
        case (Some y)
        then obtain body stop where bs: "x = Some (body, stop)" by (cases y) simp
        let ?d = "d\<lparr>dc_out := dc_out d @ body, dc_at := dc_at d + stop\<rparr>"
        have rec: "dc_feed checked raw ?d = Inr d'" using 1(2) eol n False x bs unf [of checked raw d] by simp
        have nc: "next_chunk checked ?r' (eol + 2) n (length (dc_out d)) = Inr (Some (body, stop))"
          using next_chunk_append [OF x [unfolded bs], of ext] by (simp only: app)
        have "dc_feed checked (raw @ ext) d = dc_feed checked (raw @ ext) ?d"
          by (simp only: unf [of checked "raw @ ext" d] eol eol' n False nc if_False option.case sum.case prod.case)
        then show ?thesis
          using "1.IH" [OF eol(1) refl, folded left_def, OF eol(2) n False x bs refl rec] by simp
      qed
    qed
  qed
qed

text \<open>Every body the grammar knows, of no more than the bound, is decoded whole.\<close>

lemma next_chunk_reads:
  assumes "drop data r = body @ [13, 10] @ rest" and "data \<le> length r" and "length r \<le> u64_max" and "got + length body \<le> max_body"
  shows "next_chunk checked r data (length body) got = Inr (Some (body, data + length body + 2))"
proof -
  have "length (drop data r) = length body + 2 + length rest" by (simp add: assms(1))
  then have len: "data + length body + 2 \<le> length r" using assms(2) by simp
  have "drop (data + length body) r = [13, 10] @ rest" using assms(1) by (metis add.commute append_eq_conv_conj drop_drop)
  moreover have "take (length body) (drop data r) = body" by (simp add: assms(1))
  ultimately show ?thesis
    using assms(3,4) len by (simp add: next_chunk_def usize_add_def slice_def max_body_def)
qed

lemma feed_complete:
  "chunked_body r out k \<Longrightarrow> r = left raw d \<Longrightarrow> \<not> dc_done d \<Longrightarrow> length raw \<le> u64_max \<Longrightarrow> length (dc_out d @ out) \<le> max_body \<Longrightarrow>
    dc_feed checked raw d = Inr \<lparr>dc_out = dc_out d @ out, dc_at = dc_at d + k, dc_done = True\<rparr>"
proof (induction arbitrary: d rule: chunked_body.induct)
  case (last_chunk r eol)
  then show ?case by (subst dc_feed.simps) (simp add: left_def [symmetric])
next
  case (one_chunk r eol body rest out k)
  have eol: "eol + 2 \<le> length r" by (rule find_crlf_bound [OF one_chunk.hyps(1)])
  have len: "length r \<le> u64_max" using one_chunk.prems(1,3) by (simp add: left_def)
  let ?stop = "eol + 2 + length body + 2"
  let ?d = "d\<lparr>dc_out := dc_out d @ body, dc_at := dc_at d + ?stop\<rparr>"
  have nc: "next_chunk checked r (eol + 2) (length body) (length (dc_out d)) = Inr (Some (body, ?stop))"
    by (rule next_chunk_reads [OF one_chunk.hyps(4) eol len]) (use one_chunk.prems(4) in simp)
  have "length (drop (eol + 2) r) = length body + 2 + length rest" by (simp only: one_chunk.hyps(4)) simp
  then have "?stop \<le> length r" using eol by simp
  moreover have "r \<noteq> []" using eol by auto
  ultimately have "dc_at d + ?stop \<le> length raw" using one_chunk.prems(1) by (auto simp: left_def min_def split: if_splits)
  then have "left raw ?d = drop ?stop r" using one_chunk.prems(1) by (simp add: left_def min_def add.commute)
  also have "\<dots> = drop (length body + 2) (drop (eol + 2) r)" by (simp add: add.commute add.left_commute)
  also have "\<dots> = rest" by (simp only: one_chunk.hyps(4)) simp
  finally have "rest = left raw ?d" by simp
  then have "dc_feed checked raw ?d = Inr \<lparr>dc_out = dc_out ?d @ out, dc_at = dc_at ?d + k, dc_done = True\<rparr>"
    using one_chunk.prems by (intro one_chunk.IH) simp_all
  moreover have "dc_feed checked raw d = dc_feed checked raw ?d"
    using one_chunk.hyps(1,2,3) one_chunk.prems(2) nc
    by (subst dc_feed.simps) (simp add: left_def [symmetric] one_chunk.prems(1) [symmetric])
  ultimately show ?case by (simp add: add.assoc)
qed

section \<open>What a response is\<close>

text \<open>One read fills at most the buffer it is given.\<close>

definition reads_fit :: "read_event list \<Rightarrow> bool" where
  "reads_fit evs \<longleftrightarrow> (\<forall>bs. Got bs \<in> set evs \<longrightarrow> length bs \<le> 16 * 1024)"

text \<open>The state of the loop: the buffer is within its bound, the head was found in a part of it, and the decoder has read the body so far.\<close>

definition wire_inv :: "http_parse \<Rightarrow> bool \<Rightarrow> wire \<Rightarrow> bool" where
  "wire_inv hp checked w \<longleftrightarrow> length (wr_buf w) \<le> max_body + 64 * 1024 \<and>
     (case wr_head w of None \<Rightarrow> wr_chunks w = dechunker_new
      | Some h \<Rightarrow> (\<exists>front. prefix front (wr_buf w) \<and> final_head hp front = Inr (Some h)) \<and>
          (hd_body_end h = BodyChunked \<longrightarrow> dc_feed checked (body_of h (wr_buf w)) dechunker_new = Inr (wr_chunks w)))"

lemma body_of_append: "\<exists>ext'. body_of h (buf @ ext) = body_of h buf @ ext'"
proof (cases "hd_consumed h \<le> length buf")
  case False
  then have "body_of h buf = []" by (simp add: body_of_def)
  then show ?thesis by simp
qed (simp add: body_of_def min_def)

lemma feed_again: "dc_feed checked raw d = Inr d' \<Longrightarrow> dc_feed checked raw d' = Inr d'"
  using feed_resumes [of checked raw d d' "[]"] by simp

lemma wire_new_inv: "wire_inv hp checked wire_new"
  by (simp add: wire_inv_def wire_new_def)

lemma wire_read_inv:
  assumes "wire_inv hp checked w" and "wire_read hp checked w bs = Inr w'"
  shows "wire_inv hp checked w' \<and> wr_buf w' = wr_buf w @ bs"
proof -
  obtain found where f: "known_head hp w (wr_buf w @ bs) = Inr found"
    using assms(2) by (cases "known_head hp w (wr_buf w @ bs)") (auto simp: wire_read_def Let_def)
  have len: "length (wr_buf w @ bs) \<le> max_body + 64 * 1024" and w': "wr_buf w' = wr_buf w @ bs" "wr_head w' = found"
    using assms(2) by (auto simp: wire_read_def Let_def f split: sum.splits if_splits)
  show ?thesis
  proof (cases found)
    case None
    then have "wr_head w = None" using f by (auto simp: known_head_def split: option.splits)
    then have "wr_chunks w' = dechunker_new" using assms None by (auto simp: wire_read_def wire_inv_def Let_def f split: if_splits)
    then show ?thesis using len w' None by (simp add: wire_inv_def)
  next
    case (Some h)
    have head: "\<exists>front. prefix front (wr_buf w @ bs) \<and> final_head hp front = Inr (Some h)"
      using f assms(1) Some by (cases "wr_head w") (auto simp: known_head_def wire_inv_def intro: prefix_prefix)
    have "dc_feed checked (body_of h (wr_buf w @ bs)) dechunker_new = Inr (wr_chunks w')" if c: "hd_body_end h = BodyChunked"
    proof -
      have now: "dc_feed checked (body_of h (wr_buf w @ bs)) (wr_chunks w) = Inr (wr_chunks w')"
        using assms(2) by (auto simp: wire_read_def Let_def f Some c split: sum.splits if_splits)
      show ?thesis
      proof (cases "wr_head w")
        case None
        then show ?thesis using now assms(1) by (simp add: wire_inv_def)
      next
        case (Some h')
        then have "h' = h" using f \<open>found = Some h\<close> by (simp add: known_head_def)
        then have old: "dc_feed checked (body_of h (wr_buf w)) dechunker_new = Inr (wr_chunks w)"
          using assms(1) Some c by (simp add: wire_inv_def)
        obtain ext where "body_of h (wr_buf w @ bs) = body_of h (wr_buf w) @ ext" using body_of_append by blast
        then show ?thesis using feed_resumes [OF old, of ext] now by simp
      qed
    qed
    then show ?thesis using len w' Some head by (simp add: wire_inv_def)
  qed
qed

text \<open>The bytes the loop has taken are those of the first reads, in order; where it stops before its framing says so, the peer closed.\<close>

lemma wire_loop_inv:
  "wire_loop hp checked evs w = Inr (w', unclean) \<Longrightarrow> wire_inv hp checked w \<Longrightarrow>
    wire_inv hp checked w' \<and> (\<exists>bss rest. evs = map Got bss @ rest \<and> wr_buf w' = wr_buf w @ concat bss \<and>
      (wire_done w' \<or> (\<exists>tail. rest = (if unclean then GotUncleanEnd else Got []) # tail)))"
proof (induction hp checked evs w rule: wire_loop.induct)
  case (1 hp checked w)
  then show ?case by (auto split: if_splits intro!: exI [of _ "[]"])
next
  case (2 hp checked ev evs w)
  consider "wire_done w \<or> ev = GotUncleanEnd \<or> ev = Got []" | bs where "\<not> wire_done w" "ev = Got bs" "bs \<noteq> []"
    using 2(2) by (cases ev) (auto split: if_splits)
  then show ?case
  proof cases
    case 1
    then show ?thesis using 2(2,3)
      by (cases "wire_done w") (intro conjI exI [of _ "[] :: bytes list"] exI [of _ "ev # evs"]; auto split: if_splits)+
  next
    case 2
    then obtain w1 where w1: "wire_read hp checked w bs = Inr w1"
      using "2.prems"(1) by (cases "wire_read hp checked w bs") auto
    note I = wire_read_inv [OF "2.prems"(2) w1]
    have "wire_loop hp checked evs w1 = Inr (w', unclean)" using "2.prems"(1) 2 w1 by simp
    then obtain bss rest where r: "wire_inv hp checked w'" "evs = map Got bss @ rest" "wr_buf w' = wr_buf w1 @ concat bss"
      "wire_done w' \<or> (\<exists>tail. rest = (if unclean then GotUncleanEnd else Got []) # tail)"
      using "2.IH" [OF 2(1,2,3) w1] I by blast
    then show ?thesis using I 2(2) by (intro conjI exI [of _ "bs # bss"] exI [of _ rest]) auto
  qed
qed

text \<open>
  C26. What a guest is answered is a whole response: the head is one the parser read in the first bytes and not an interim one, and the
  body is what its framing says, in full --- as many bytes as the length, the decoding of the chunks up to the last one, or everything
  up to the close --- within the bound, however the bytes were cut into reads.
\<close>

theorem no_truncated_answer:
  assumes "wire_response hp checked evs = Inr r" and "reads_fit evs"
  shows "\<exists>bss rest h front. evs = map Got bss @ rest \<and> prefix front (concat bss) \<and> final_head hp front = Inr (Some h) \<and>
    \<not> is_interim (hd_status h) \<and> rr_status r = hd_status h \<and> rr_headers r = hd_headers h \<and> length (rr_body r) \<le> max_body \<and>
    (case hd_body_end h of
      BodyLength n \<Rightarrow> length (rr_body r) = n \<and> prefix (rr_body r) (body_of h (concat bss))
    | BodyChunked \<Rightarrow> (\<exists>k. chunked_body (body_of h (concat bss)) (rr_body r) k)
    | BodyClose \<Rightarrow> rr_body r = body_of h (concat bss) \<and> (\<exists>tail. rest = Got [] # tail \<or> rest = GotUncleanEnd # tail))"
proof -
  obtain w unclean where w: "wire_loop hp checked evs wire_new = Inr (w, unclean)" and a: "wire_answer hp checked w unclean = Inr r"
    using assms(1) by (auto simp: wire_response_def split: sum.splits)
  obtain bss rest where inv: "wire_inv hp checked w" and evs: "evs = map Got bss @ rest" and buf: "wr_buf w = concat bss"
    and stop: "wire_done w \<or> (\<exists>tail. rest = (if unclean then GotUncleanEnd else Got []) # tail)"
    using wire_loop_inv [OF w wire_new_inv] by (auto simp: wire_new_def)
  obtain h where h: "known_head hp w (wr_buf w) = Inr (Some h)"
    using a by (auto simp: wire_answer_def split: sum.splits option.splits)
  obtain front where front: "prefix front (concat bss)" "final_head hp front = Inr (Some h)"
    using h inv buf by (cases "wr_head w") (auto simp: known_head_def wire_inv_def)
  have same: "rr_status r = hd_status h" "rr_headers r = hd_headers h" "length (rr_body r) \<le> max_body"
    using a by (auto simp: wire_answer_def h Let_def split: sum.splits if_splits)
  have body: "case hd_body_end h of
      BodyLength n \<Rightarrow> length (rr_body r) = n \<and> prefix (rr_body r) (body_of h (concat bss))
    | BodyChunked \<Rightarrow> (\<exists>k. chunked_body (body_of h (concat bss)) (rr_body r) k)
    | BodyClose \<Rightarrow> rr_body r = body_of h (concat bss) \<and> (\<exists>tail. rest = Got [] # tail \<or> rest = GotUncleanEnd # tail)"
  proof (cases "hd_body_end h")
    case (BodyLength n)
    then show ?thesis using a by (auto simp: wire_answer_def h Let_def buf [symmetric] take_is_prefix split: if_splits)
  next
    case BodyChunked
    let ?raw = "body_of h (concat bss)"
    obtain c where c: "dc_feed checked ?raw (wr_chunks w) = Inr c" "dc_done c" "rr_body r = dc_out c"
      using a by (auto simp: wire_answer_def h Let_def buf [symmetric] BodyChunked split: sum.splits if_splits)
    have "dc_feed checked ?raw dechunker_new = Inr c"
    proof (cases "wr_head w")
      case None
      then show ?thesis using inv c(1) by (simp add: wire_inv_def)
    next
      case (Some h')
      then have "h' = h" using h by (simp add: known_head_def)
      then have "dc_feed checked ?raw dechunker_new = Inr (wr_chunks w)" using inv Some BodyChunked by (simp add: wire_inv_def buf)
      then show ?thesis using feed_resumes [of checked ?raw dechunker_new "wr_chunks w" "[]"] c(1) by simp
    qed
    moreover have "length ?raw \<le> u64_max"
      using inv by (auto simp: wire_inv_def buf body_of_def max_body_def)
    ultimately show ?thesis
      using feed_sound [of checked ?raw dechunker_new c] c(2,3) BodyChunked by (auto simp: left_def dechunker_new_def)
  next
    case BodyClose
    have "\<not> wire_done w" using h BodyClose by (auto simp: wire_done_def known_head_def split: option.splits)
    then show ?thesis using a stop by (auto simp: wire_answer_def h Let_def buf [symmetric] BodyClose split: if_splits)
  qed
  show ?thesis
    using evs front same body final_head_from_final [OF front(2) [unfolded final_head_def]] by blast
qed

text \<open>
  C25. A socket is dialled only for a get or a post whose URL one entry of the scope names, at an address its host resolved to and the
  scope permits, once, and the bytes that go out are the request the entry allows.
\<close>

theorem rest_dials_inside_the_scope:
  assumes "rest_call h net call args sc = (dials, r)" and "dials \<noteq> []"
  shows "\<exists>s v m a body u e addrs req ip. (call = ''rest/get'' \<or> call = ''rest/post'') \<and> rest_scope_parse (rh_env h) sc = Inr s \<and>
    args = Some v \<and> decode_call h call v = Inr (m, a, body) \<and> url_parse (ra_url a) = Inr u \<and> e \<in> set (rx_allow s) \<and> entry_matches u e \<and>
    request_bytes (rh_version h) u m (ra_headers a) body e = Inr req \<and> nt_lookup net (url_host u) (url_port u) = Answers addrs \<and>
    ip \<in> set addrs \<and> permits_address s (fst ip) \<and> dials = [ip] \<and>
    (\<forall>reply. r = Inr reply \<longrightarrow> (\<exists>ms resp. ms \<le> max_ms \<and> nt_send net req = Answers () \<and>
       wire_response (rh_parse h) (rh_checked h) (nt_reads net ms req) = Inr resp \<and> reply = response_value resp))"
proof -
  have call: "call = ''rest/get'' \<or> call = ''rest/post''" using assms by (auto simp: rest_call_def split: if_splits)
  have nc: "(call \<noteq> ''rest/get'' \<and> call \<noteq> ''rest/post'') = False" using call by blast
  obtain s v m a body u where c: "rest_scope_parse (rh_env h) sc = Inr s" "args = Some v" "decode_call h call v = Inr (m, a, body)"
    "url_parse (ra_url a) = Inr u"
    using assms by (auto simp: rest_call_def split: sum.splits option.splits if_splits)
  define ms where "ms = min (case ra_timeout a of None \<Rightarrow> default_ms | Some n \<Rightarrow> n) max_ms"
  obtain x where x: "rest_request h net ms u m (ra_headers a) body s = (dials, x)" "r = map_sum id response_value x"
    using assms(1) by (auto simp: rest_call_def nc c ms_def Let_def split: prod.splits if_splits)
  obtain e where e: "matching s u = Some e" and f: "fetch h net ms u m (ra_headers a) body s e = (dials, x)"
    using x(1) assms(2) by (auto simp: rest_request_def split: option.splits)
  have "e \<in> set (rx_allow s)" "entry_matches u e" using e by (auto simp: matching_def find_Some_iff)
  moreover obtain req addrs ip where n: "request_bytes (rh_version h) u m (ra_headers a) body e = Inr req"
    "nt_lookup net (url_host u) (url_port u) = Answers addrs" "List.find (\<lambda>a. permits_address s (fst a)) addrs = Some ip" "dials = [ip]"
    using f assms(2) by (auto simp: fetch_def split: sum.splits net_answer.splits if_splits option.splits)
  moreover have "ip \<in> set addrs" "permits_address s (fst ip)" using n(3) by (auto simp: find_Some_iff)
  moreover have "\<exists>ms resp. ms \<le> max_ms \<and> nt_send net req = Answers () \<and>
      wire_response (rh_parse h) (rh_checked h) (nt_reads net ms req) = Inr resp \<and> reply = response_value resp" if ok: "r = Inr reply" for reply
  proof -
    obtain resp where resp: "x = Inr resp" "reply = response_value resp" using ok x(2) by (cases x) auto
    have "addrs \<noteq> []" using \<open>ip \<in> set addrs\<close> by auto
    then have "exchange h net ms req = Inr resp"
      using f resp(1) n by (auto simp: fetch_def split: net_answer.splits if_splits)
    then have "nt_send net req = Answers ()" "wire_response (rh_parse h) (rh_checked h) (nt_reads net ms req) = Inr resp"
      by (auto simp: exchange_def split: net_answer.splits)
    then show ?thesis using resp(2) by (intro exI [of _ ms] exI [of _ resp]) (simp add: ms_def)
  qed
  ultimately show ?thesis using call c by blast
qed

definition stop_size :: string where
  "stop_size = replicate 15 CHR ''f'' @ ''e''"

definition stop_chunks :: bytes where
  "stop_chunks = text_to_bytes (''2'' @ crlf @ ''ab'' @ crlf @ stop_size @ crlf)"

lemma two_size: "chunk_size [50] = Inr 2"
proof -
  have "char_of (50 :: nat) = CHR ''2''" "utf8_valid ''2''" "trim ''2'' = ''2''" by code_simp+
  then show ?thesis by (simp add: chunk_size_def text_of_def usize_of_hex_def hex_val_def)
qed

lemma stop_size_read: "chunk_size (replicate 15 102 @ [101]) = Inr 18446744073709551614"
proof -
  have c: "char_of (102 :: nat) = CHR ''f''" "char_of (101 :: nat) = CHR ''e''" by code_simp+
  have s: "replicate 15 CHR ''f'' @ ''e'' = ''fffffffffffffffe''" by code_simp
  have t: "text_of (replicate 15 102 @ [101]) = ''fffffffffffffffe''" by (simp add: text_of_def c s)
  have tw: "takeWhile (\<lambda>b. b \<noteq> 59) (replicate 15 102 @ [101 :: byte]) = replicate 15 102 @ [101]" by (simp add: takeWhile_eq_all_conv)
  have "utf8_valid ''fffffffffffffffe''" "trim ''fffffffffffffffe'' = ''fffffffffffffffe''" by code_simp+
  moreover have "hex_digits 0 ''fffffffffffffffe'' = Some 18446744073709551614" by (simp add: hex_val_def)
  ultimately show ?thesis
    unfolding chunk_size_def tw t Let_def by (simp add: usize_of_hex_def del: hex_digits.simps)
qed

lemma find_crlf_skip: "a \<noteq> 13 \<Longrightarrow> find_crlf (a # s) = map_option Suc (find_crlf s)"
  by (cases s) auto

lemma find_crlf_run: "a \<noteq> 13 \<Longrightarrow> find_crlf (replicate n a @ s) = map_option ((+) n) (find_crlf s)"
  by (cases "find_crlf s"; induction n) (simp_all add: find_crlf_skip)

lemma stop_chunks_feed: "dc_feed checked (stop_chunks @ ext) dechunker_new = Inl ConnectorPanics"
proof -
  let ?raw = "stop_chunks @ ext"
  let ?d = "\<lparr>dc_out = [97, 98], dc_at = 7, dc_done = False\<rparr>"
  have bytes: "stop_chunks = [50, 13, 10, 97, 98, 13, 10] @ (replicate 15 102 @ [101, 13, 10])"
    by (simp add: stop_chunks_def stop_size_def text_to_bytes_def crlf_def)
  have first: "find_crlf (left ?raw dechunker_new) = Some 1" "take 1 (left ?raw dechunker_new) = [50]"
    by (simp_all add: left_def dechunker_new_def bytes)
  have new: "\<not> dc_done dechunker_new" "dc_out dechunker_new = []" "dc_at dechunker_new = 0" by (simp_all add: dechunker_new_def)
  have nc: "next_chunk checked (left ?raw dechunker_new) (1 + 2) 2 (length ([] :: bytes)) = Inr (Some ([97, 98], 7))"
    by (simp add: next_chunk_def usize_add_def slice_def max_body_def left_def dechunker_new_def bytes)
  have one: "dc_feed checked ?raw dechunker_new = dc_feed checked ?raw ?d"
    by (simp only: feed_step [of checked ?raw dechunker_new] first two_size nc new if_False option.case sum.case prod.case zero_neq_numeral [symmetric])
      (simp add: dechunker_new_def)
  have l: "left ?raw ?d = replicate 15 102 @ [101, 13, 10] @ ext" by (simp add: left_def bytes)
  have crlf_at: "find_crlf (replicate 15 102 @ [101, 13, 10] @ ext) = Some 16" by (subst find_crlf_run) simp_all
  have head: "take 16 (replicate 15 102 @ [101, 13, 10] @ ext) = replicate 15 102 @ [101 :: byte]" by simp
  have panic: "next_chunk checked (replicate 15 102 @ [101, 13, 10] @ ext) (16 + 2) 18446744073709551614 (length [97, 98 :: byte]) = Inl ConnectorPanics"
    by (simp add: next_chunk_def usize_add_def slice_def max_body_def)
  show ?thesis
    using panic unfolding one
    by (simp only: feed_step [of checked ?raw ?d] l crlf_at head stop_size_read dechunker.select_convs if_False option.case sum.case
        zero_neq_numeral [symmetric])
qed

text \<open>
  C28. A server ends the process that called it: after two bytes of body a chunk that announces a size just below the width of
  \<^verbatim>\<open>usize\<close> passes the bound, because the sum wraps, and the chunk that is then cut out begins after it ends.  With overflow checks the
  sum itself panics.
\<close>

theorem a_server_stops_the_process:
  assumes "final_head hp bs = Inr (Some h)" and "hd_body_end h = BodyChunked" and "body_of h bs = stop_chunks @ ext" and "bs \<noteq> []"
  shows "wire_response hp checked (Got bs # evs) = Inl ConnectorPanics"
  using assms by (simp add: wire_response_def wire_done_def wire_new_def wire_read_def known_head_def stop_chunks_feed)

section \<open>At concrete inputs\<close>

text \<open>A parser that takes the first byte for a whole head with the given headers.\<close>

definition demo_parse :: "http_header list \<Rightarrow> http_parse" where
  "demo_parse hs buf = (case buf of [] \<Rightarrow> Inr PartialHead | _ \<Rightarrow> Inr (CompleteHead 1 (Some 200) hs))"

definition chunked_header :: http_header where
  "chunked_header = \<lparr>hh_name = ''Transfer-Encoding'', hh_value = text_to_bytes ''Chunked''\<rparr>"

definition chunked_head :: http_head where
  "chunked_head = \<lparr>hd_status = 200, hd_headers = [(''transfer-encoding'', ''Chunked'')], hd_consumed = 1, hd_body_end = BodyChunked\<rparr>"

lemma demo_parse_ok: "parser_ok (demo_parse hs)"
  by (auto simp: parser_ok_def demo_parse_def split: list.splits)

lemma demo_head: "final_head (demo_parse [chunked_header]) (c # buf) = Inr (Some chunked_head)"
proof -
  have "framing 200 [chunked_header] = Inr BodyChunked" "kept_headers [chunked_header] [] = [(''transfer-encoding'', ''Chunked'')]" by code_simp+
  then show ?thesis by (simp add: final_head_def parse_head_def demo_parse_def is_interim_def chunked_head_def)
qed

theorem a_server_stops_the_process_witness:
  "wire_response (demo_parse [chunked_header]) False [Got (72 # stop_chunks)] = Inl ConnectorPanics"
  using a_server_stops_the_process [OF demo_head [of 72 stop_chunks], where ext = "[]" and checked = False and evs = "[]"] by (simp add: chunked_head_def body_of_def)

definition plain_head :: http_head where
  "plain_head = \<lparr>hd_status = 200, hd_headers = [], hd_consumed = 1, hd_body_end = BodyClose\<rparr>"

lemma plain_read: "final_head (demo_parse []) (c # buf) = Inr (Some plain_head)"
  by (simp add: final_head_def parse_head_def demo_parse_def framing_def is_interim_def plain_head_def)

definition demo_reads :: "read_event list" where
  "demo_reads = [Got [72, 97], Got [98], Got []]"

lemma plain_fields: "hd_status plain_head = 200" "hd_headers plain_head = []" "hd_consumed plain_head = 1" "hd_body_end plain_head = BodyClose"
  by (simp_all add: plain_head_def)

lemma demo_response: "wire_response (demo_parse []) False demo_reads = Inr \<lparr>rr_status = 200, rr_headers = [], rr_body = [97, 98]\<rparr>"
  by (simp add: wire_response_def demo_reads_def wire_new_def wire_done_def wire_read_def known_head_def plain_read wire_answer_def plain_fields
      body_of_def max_body_def)

theorem no_truncated_answer_witness:
  "\<exists>bss rest. demo_reads = map Got bss @ rest \<and> [97, 98] = drop 1 (concat bss) \<and> (\<exists>tail. rest = Got [] # tail \<or> rest = GotUncleanEnd # tail)"
proof -
  let ?r = "\<lparr>rr_status = 200, rr_headers = [], rr_body = [97, 98]\<rparr>"
  have fit: "reads_fit demo_reads" by (auto simp: reads_fit_def demo_reads_def)
  obtain bss rest h front where n: "demo_reads = map Got bss @ rest" "final_head (demo_parse []) front = Inr (Some h)"
    and b: "case hd_body_end h of
      BodyLength n \<Rightarrow> length (rr_body ?r) = n \<and> prefix (rr_body ?r) (body_of h (concat bss))
    | BodyChunked \<Rightarrow> (\<exists>k. chunked_body (body_of h (concat bss)) (rr_body ?r) k)
    | BodyClose \<Rightarrow> rr_body ?r = body_of h (concat bss) \<and> (\<exists>tail. rest = Got [] # tail \<or> rest = GotUncleanEnd # tail)"
    using no_truncated_answer [OF demo_response fit] by blast
  have "front \<noteq> []" using n(2) by (auto simp: final_head_def parse_head_def demo_parse_def)
  then have "h = plain_head" using n(2) plain_read by (cases front) auto
  then have "[97, 98] = drop (min 1 (length (concat bss))) (concat bss) \<and> (\<exists>tail. rest = Got [] # tail \<or> rest = GotUncleanEnd # tail)"
    using b by (simp add: plain_head_def body_of_def)
  then show ?thesis using n(1) by (intro exI [of _ bss] exI [of _ rest]) (auto simp: min_def split: if_splits)
qed

definition demo_host :: rest_host where
  "demo_host = \<lparr>rh_env = demo_rest_env\<lparr>re_shape := (\<lambda>_. Inr (OneShape ''https://api.example.com''))\<rparr>,
     rh_get = (\<lambda>_. Inr \<lparr>ra_url = ''https://api.example.com/'', ra_headers = None, ra_body = None, ra_timeout = None\<rparr>),
     rh_post = (\<lambda>_. Inl []), rh_parse = demo_parse [], rh_checked = False, rh_version = ''1''\<rparr>"

definition demo_net :: network where
  "demo_net = \<lparr>nt_lookup = (\<lambda>_ p. Answers [(V4 0x7F000001, p), (V4 0x08080808, p)]), nt_connect = (\<lambda>_. Answers ()),
     nt_tls = (\<lambda>_ _. Answers ()), nt_send = (\<lambda>_. Answers ()), nt_reads = (\<lambda>_ _. demo_reads)\<rparr>"

definition bare_entry :: allow_entry where
  "bare_entry = \<lparr>al_origin = demo_origin, al_headers = [], al_allow = None\<rparr>"

definition demo_scope :: rest_scope where
  "demo_scope = \<lparr>rx_allow = [bare_entry], rx_roots = [], rx_private = False\<rparr>"

lemma demo_scope_of: "rest_scope_parse (rh_env demo_host) (Some VNil) = Inr demo_scope"
proof -
  have "url_parse ''https://api.example.com'' = Inr demo_origin" by code_simp
  then show ?thesis
    by (simp add: rest_scope_parse_def demo_host_def demo_scope_def demo_rest_env_def allow_entry_of_def bare_entry_def)
qed

theorem rest_dials_inside_the_scope_witness:
  "\<exists>r. rest_call demo_host demo_net ''rest/get'' (Some VNil) (Some VNil) = ([(V4 0x08080808, 443)], r) \<and>
     permits_address demo_scope (V4 0x08080808) \<and> \<not> permits_address demo_scope (V4 0x7F000001)"
proof -
  have url: "url_parse ''https://api.example.com/'' = Inr demo_origin" by code_simp
  have match: "matching demo_scope demo_origin = Some bare_entry" by code_simp
  have no: "\<not> permits_address demo_scope (V4 0x7F000001)" and yes: "permits_address demo_scope (V4 0x08080808)"
    by (simp_all add: permits_address_def demo_scope_def v4_ranges in_ranges_def private_ranges_def)
  obtain b where b: "request_bytes ''1'' demo_origin ''GET'' None None bare_entry = Inr b" by (simp add: request_bytes_def Let_def)
  let ?c = "rest_call demo_host demo_net ''rest/get'' (Some VNil) (Some VNil)"
  have fields: "rh_get demo_host VNil = Inr \<lparr>ra_url = ''https://api.example.com/'', ra_headers = None, ra_body = None, ra_timeout = None\<rparr>"
    "rh_version demo_host = ''1''" "url_port demo_origin = 443"
    by (simp_all add: demo_host_def demo_origin_def)
  have look: "nt_lookup demo_net (url_host demo_origin) 443 = Answers [(V4 0x7F000001, 443), (V4 0x08080808, 443)]"
    by (simp add: demo_net_def)
  have "fst ?c = [(V4 0x08080808, 443)]"
    by (simp add: rest_call_def demo_scope_of decode_call_def fields url Let_def rest_request_def match fetch_def b look no yes split: prod.split)
  then have c: "?c = ([(V4 0x08080808, 443)], snd ?c)" by (metis prod.collapse)
  from rest_dials_inside_the_scope [OF c] have "permits_address demo_scope (V4 0x08080808)" using demo_scope_of by auto
  then show ?thesis using c no by blast
qed

end
