(* ===== verification/Relay.thy ===== *)
theory Relay
  imports Rest_Scope Grant_Requests
begin

text \<open>
  The rendezvous relay, \<^verbatim>\<open>drt/src/relay.rs\<close>: routes, keys, arbitration, and the two tasks of a splice as a machine whose steps are
  what a task does between two awaits.  A leg is a parked device with its two channels, a session a caller that claimed one.  The
  sockets, the clock and the deployment that arbitrates are the steps that are taken and a parameter.  The lemmas show who is paired
  with whom, what bytes arrive where and what is metered, and that a leg that gave up stays claimable.
\<close>

section \<open>Routes and keys\<close>

record relay_label =
  rb_park_key :: string
  rb_caller_key :: string

datatype leg_kind = ParkLeg | CallerLeg

record route =
  rt_label :: string
  rt_kind :: leg_kind

definition route_parse :: "string \<Rightarrow> route option" where
  "route_parse path = (case strip_prefix ''/'' path of None \<Rightarrow> None
   | Some r \<Rightarrow> (case split_once CHR ''/'' r of None \<Rightarrow> None
     | Some (kind, label) \<Rightarrow>
        (if label = [] \<or> CHR ''/'' \<in> set label then None
         else if kind = ''park'' then Some \<lparr>rt_label = label, rt_kind = ParkLeg\<rparr>
         else if kind = ''s'' then Some \<lparr>rt_label = label, rt_kind = CallerLeg\<rparr>
         else None)))"

definition constant_time_eq :: "bytes \<Rightarrow> bytes \<Rightarrow> bool" where
  "constant_time_eq a b = (if length a \<noteq> length b then False else fold (\<lambda>(x, y) d. or d (xor x y)) (zip a b) 0 = 0)"

definition verify_key :: "(string \<times> relay_label) list \<Rightarrow> string \<Rightarrow> leg_kind \<Rightarrow> string option \<Rightarrow> bool" where
  "verify_key labels label kind presented = (case bt_get labels label of None \<Rightarrow> False
   | Some e \<Rightarrow>
      (let want = (case kind of ParkLeg \<Rightarrow> rb_park_key e | CallerLeg \<Rightarrow> rb_caller_key e) in
       if want = [] then False
       else (case presented of None \<Rightarrow> False | Some k \<Rightarrow> constant_time_eq (text_to_bytes k) (text_to_bytes want))))"

text \<open>The first parameter of the query that is \<open>k=\<close> and its value.\<close>

definition url_key :: "string \<Rightarrow> string option" where
  "url_key query = (case List.map_filter (strip_prefix ''k='') (split_char CHR ''&'' query) of [] \<Rightarrow> None | k # _ \<Rightarrow> Some k)"

text \<open>\<^verbatim>\<open>HeaderValue::to_str\<close>: a value with anything but a tab and the printable characters is no text.\<close>

definition header_text :: "string \<Rightarrow> string option" where
  "header_text v = (if list_all (\<lambda>c. of_char c = (9 :: nat) \<or> 32 \<le> (of_char c :: nat) \<and> (of_char c :: nat) < 127) v then Some v else None)"

definition header_key :: "string option \<Rightarrow> string option option" where
  "header_key h = (case h of None \<Rightarrow> None | Some raw \<Rightarrow> (case header_text raw of None \<Rightarrow> None
     | Some v \<Rightarrow> Some (case split_once CHR '' '' v of
         Some (scheme, r) \<Rightarrow> (if eq_ignore_ascii_case scheme ''bearer'' then Some (trim r) else None) | None \<Rightarrow> None)))"

definition presented_key :: "string option option \<Rightarrow> string option \<Rightarrow> string option" where
  "presented_key h u = (case (h, u) of
     (Some (Some a), Some b) \<Rightarrow> (if a \<noteq> b then None else Some a)
   | (Some (Some a), None) \<Rightarrow> Some a
   | (Some None, _) \<Rightarrow> None
   | (None, _) \<Rightarrow> u)"

record handshake =
  hs_path :: string
  hs_query :: string
  hs_authorization :: "string option"

definition authorize :: "(string \<times> relay_label) list \<Rightarrow> handshake \<Rightarrow> route option" where
  "authorize labels rq = (case route_parse (hs_path rq) of None \<Rightarrow> None
   | Some r \<Rightarrow> (if verify_key labels (rt_label r) (rt_kind r) (presented_key (header_key (hs_authorization rq)) (url_key (hs_query rq)))
       then Some r else None))"

section \<open>The relay\<close>

datatype relay_event = LegParked string | Claimed string nat | Closed string nat nat

text \<open>What the deployment answers, in time, when it is asked; \<open>None\<close> for silence.\<close>

record relay_control =
  ct_admit :: "(string \<Rightarrow> leg_kind \<Rightarrow> bool option) option"

record relay_env =
  re_labels :: "(string \<times> relay_label) list"
  re_control :: "relay_control option"

record relay_leg =
  lg_label :: string
  lg_to :: "bytes list"
  lg_from :: "bytes list"
  lg_claimed :: bool
  lg_running :: bool
  lg_seen :: "bytes list"

record relay_session =
  ss_leg :: nat
  ss_label :: string
  ss_bytes :: nat
  ss_open :: bool
  ss_out :: "bytes list"

record relay =
  rl_parked :: "string \<Rightarrow> nat list"
  rl_legs :: "relay_leg list"
  rl_sessions :: "relay_session list"
  rl_bytes :: nat
  rl_events :: "relay_event list"

definition relay_new :: relay where
  "relay_new = \<lparr>rl_parked = (\<lambda>_. []), rl_legs = [], rl_sessions = [], rl_bytes = 0, rl_events = []\<rparr>"

definition relay_emit :: "relay_env \<Rightarrow> relay_event \<Rightarrow> relay \<Rightarrow> relay" where
  "relay_emit env ev s = (case re_control env of None \<Rightarrow> s | Some _ \<Rightarrow> s\<lparr>rl_events := rl_events s @ [ev]\<rparr>)"

definition admitted :: "relay_env \<Rightarrow> string \<Rightarrow> leg_kind \<Rightarrow> bool" where
  "admitted env label kind = (case re_control env of None \<Rightarrow> True
   | Some c \<Rightarrow> (case ct_admit c of None \<Rightarrow> True | Some ask \<Rightarrow> ask label kind = Some True))"

definition parked :: "relay \<Rightarrow> string \<Rightarrow> nat" where
  "parked s label = length (rl_parked s label)"

definition relay_channel :: nat where "relay_channel = 16"

definition park_leg :: "relay_env \<Rightarrow> string \<Rightarrow> relay \<Rightarrow> relay" where
  "park_leg env label s = relay_emit env (LegParked label)
     (s\<lparr>rl_parked := (rl_parked s)(label := rl_parked s label @ [length (rl_legs s)]),
        rl_legs := rl_legs s @ [\<lparr>lg_label = label, lg_to = [], lg_from = [], lg_claimed = False, lg_running = True, lg_seen = []\<rparr>]\<rparr>)"

text \<open>The oldest leg is taken; without one the caller is told to try again and nothing changes.\<close>

definition claim_leg :: "relay_env \<Rightarrow> string \<Rightarrow> relay \<Rightarrow> relay" where
  "claim_leg env label s = (case rl_parked s label of [] \<Rightarrow> s
   | i # rest \<Rightarrow> relay_emit env (Claimed label (length (rl_sessions s) + 1))
       (s\<lparr>rl_parked := (rl_parked s)(label := rest),
          rl_sessions := rl_sessions s @ [\<lparr>ss_leg = i, ss_label = label, ss_bytes = 0, ss_open = True, ss_out = []\<rparr>]\<rparr>))"

definition relay_handle :: "relay_env \<Rightarrow> handshake \<Rightarrow> relay \<Rightarrow> relay" where
  "relay_handle env rq s = (case authorize (re_labels env) rq of None \<Rightarrow> s
   | Some r \<Rightarrow> (if \<not> admitted env (rt_label r) (rt_kind r) then s
       else (case rt_kind r of ParkLeg \<Rightarrow> park_leg env (rt_label r) s | CallerLeg \<Rightarrow> claim_leg env (rt_label r) s)))"

section \<open>The two tasks\<close>

definition put_leg :: "nat \<Rightarrow> relay_leg \<Rightarrow> relay \<Rightarrow> relay" where
  "put_leg i l s = s\<lparr>rl_legs := (rl_legs s)[i := l]\<rparr>"

definition put_session :: "nat \<Rightarrow> relay_session \<Rightarrow> relay \<Rightarrow> relay" where
  "put_session k x s = s\<lparr>rl_sessions := (rl_sessions s)[k := x]\<rparr>"

text \<open>Whether the other ends of a leg's channels are held: by the table or by a session.\<close>

definition leg_held :: "relay \<Rightarrow> nat \<Rightarrow> bool" where
  "leg_held s i \<longleftrightarrow> List.member (rl_parked s (lg_label (rl_legs s ! i))) i \<or> list_ex (\<lambda>x. ss_open x \<and> ss_leg x = i) (rl_sessions s)"

text \<open>
  The end of the task of a leg.  The table is cleared of the legs whose receiver is gone while this leg's own receiver is still there:
  it goes with the task.
\<close>

definition end_leg :: "nat \<Rightarrow> relay \<Rightarrow> relay" where
  "end_leg i s = (let l = rl_legs s ! i in
     s\<lparr>rl_parked := (rl_parked s)(lg_label l := filter (\<lambda>j. lg_running (rl_legs s ! j)) (rl_parked s (lg_label l))),
       rl_legs := (rl_legs s)[i := l\<lparr>lg_running := False\<rparr>]\<rparr>)"

definition device_sends :: "nat \<Rightarrow> bytes \<Rightarrow> relay \<Rightarrow> relay option" where
  "device_sends i b s = (let l = (rl_legs s ! i)\<lparr>lg_claimed := True\<rparr> in
     if \<not> leg_held s i then Some (end_leg i (put_leg i l s))
     else if length (lg_from l) < relay_channel then Some (put_leg i (l\<lparr>lg_from := lg_from l @ [b]\<rparr>) s)
     else None)"

definition device_takes :: "nat \<Rightarrow> relay \<Rightarrow> relay option" where
  "device_takes i s = (let l = rl_legs s ! i in
     case lg_to l of b # rest \<Rightarrow> Some (put_leg i (l\<lparr>lg_claimed := True, lg_to := rest, lg_seen := lg_seen l @ [b]\<rparr>) s)
     | [] \<Rightarrow> (if leg_held s i then None else Some (end_leg i s)))"

definition idle_out :: "nat \<Rightarrow> relay \<Rightarrow> relay option" where
  "idle_out i s = (if lg_claimed (rl_legs s ! i) then None else Some (end_leg i s))"

definition close_session :: "relay_env \<Rightarrow> nat \<Rightarrow> relay \<Rightarrow> relay" where
  "close_session env k s = (let x = rl_sessions s ! k in
     relay_emit env (Closed (ss_label x) (k + 1) (ss_bytes x)) (put_session k (x\<lparr>ss_open := False\<rparr>) s))"

definition bump :: "bytes \<Rightarrow> nat \<Rightarrow> nat" where
  "bump b n = (n + length b) mod 2 ^ 64"

text \<open>A message of the caller is counted, then sent on.\<close>

definition caller_sends :: "relay_env \<Rightarrow> nat \<Rightarrow> bytes \<Rightarrow> relay \<Rightarrow> relay option" where
  "caller_sends env k b s =
     (let x = rl_sessions s ! k; l = rl_legs s ! ss_leg x;
          counted = put_session k (x\<lparr>ss_bytes := bump b (ss_bytes x)\<rparr>) (s\<lparr>rl_bytes := bump b (rl_bytes s)\<rparr>) in
      if \<not> lg_running l then Some (close_session env k counted)
      else if length (lg_to l) < relay_channel then Some (put_leg (ss_leg x) (l\<lparr>lg_to := lg_to l @ [b]\<rparr>) counted)
      else None)"

definition caller_takes :: "relay_env \<Rightarrow> nat \<Rightarrow> relay \<Rightarrow> relay option" where
  "caller_takes env k s =
     (let x = rl_sessions s ! k; l = rl_legs s ! ss_leg x in
      case lg_from l of
        b # rest \<Rightarrow> Some (put_leg (ss_leg x) (l\<lparr>lg_from := rest\<rparr>)
          (put_session k (x\<lparr>ss_bytes := bump b (ss_bytes x), ss_out := ss_out x @ [b]\<rparr>) (s\<lparr>rl_bytes := bump b (rl_bytes s)\<rparr>)))
      | [] \<Rightarrow> (if lg_running l then None else Some (close_session env k s)))"

datatype relay_act =
    Connects handshake
  | DeviceSends nat bytes
  | DeviceTakes nat
  | DeviceGone nat
  | IdleOut nat
  | CallerSends nat bytes
  | CallerTakes nat
  | CallerGone nat

definition leg_runs :: "relay \<Rightarrow> nat \<Rightarrow> bool" where
  "leg_runs s i \<longleftrightarrow> i < length (rl_legs s) \<and> lg_running (rl_legs s ! i)"

definition session_open :: "relay \<Rightarrow> nat \<Rightarrow> bool" where
  "session_open s k \<longleftrightarrow> k < length (rl_sessions s) \<and> ss_open (rl_sessions s ! k)"

text \<open>One step of one task; \<open>None\<close> where the task would wait.\<close>

fun relay_step :: "relay_env \<Rightarrow> relay \<Rightarrow> relay_act \<Rightarrow> relay option" where
  "relay_step env s (Connects rq) = Some (relay_handle env rq s)"
| "relay_step env s (DeviceSends i b) = (if leg_runs s i then device_sends i b s else None)"
| "relay_step env s (DeviceTakes i) = (if leg_runs s i then device_takes i s else None)"
| "relay_step env s (DeviceGone i) = (if leg_runs s i then Some (end_leg i s) else None)"
| "relay_step env s (IdleOut i) = (if leg_runs s i then idle_out i s else None)"
| "relay_step env s (CallerSends k b) = (if session_open s k then caller_sends env k b s else None)"
| "relay_step env s (CallerTakes k) = (if session_open s k then caller_takes env k s else None)"
| "relay_step env s (CallerGone k) = (if session_open s k then Some (close_session env k s) else None)"

inductive relay_trace :: "relay_env \<Rightarrow> relay_act list \<Rightarrow> relay \<Rightarrow> bool" for env where
  started: "relay_trace env [] relay_new"
| stepped: "relay_trace env as s \<Longrightarrow> relay_step env s a = Some t \<Longrightarrow> relay_trace env (as @ [a]) t"

inductive_cases relay_trace_Nil: "relay_trace env [] s"

section \<open>Who is admitted\<close>

lemma xor_zero: "xor a b = 0 \<longleftrightarrow> a = (b :: byte)"
  by (metis xor.assoc xor.left_neutral xor.right_neutral xor_self_eq)

lemma folded_bits: "fold (\<lambda>(x, y) d. or d (xor x y)) ps (d :: byte) = 0 \<longleftrightarrow> d = 0 \<and> (\<forall>p\<in>set ps. fst p = snd p)"
  by (induction ps arbitrary: d) (auto simp: or_eq_0_iff xor_zero)

lemma constant_time_eq_iff: "constant_time_eq a b \<longleftrightarrow> a = b"
proof -
  have "(\<forall>p\<in>set (zip a b). fst p = snd p) \<longleftrightarrow> a = b" if "length a = length b"
    using that by (induction a b rule: list_induct2) auto
  then show ?thesis by (auto simp: constant_time_eq_def folded_bits)
qed

text \<open>
  A handshake is admitted for a label only with the key of that label and of that leg, which is not empty; a key in the header beside
  one in the URL must be the same key, and a header of another scheme is no key.
\<close>

theorem only_the_key_opens_a_label:
  assumes "authorize labels rq = Some r"
  shows "\<exists>e k. bt_get labels (rt_label r) = Some e \<and> k = (case rt_kind r of ParkLeg \<Rightarrow> rb_park_key e | CallerLeg \<Rightarrow> rb_caller_key e) \<and> k \<noteq> [] \<and>
    route_parse (hs_path rq) = Some r \<and>
    (case header_key (hs_authorization rq) of
       None \<Rightarrow> url_key (hs_query rq) = Some k
     | Some h \<Rightarrow> h = Some k \<and> (url_key (hs_query rq) = None \<or> url_key (hs_query rq) = Some k))"
proof -
  let ?p = "presented_key (header_key (hs_authorization rq)) (url_key (hs_query rq))"
  have r: "route_parse (hs_path rq) = Some r" and v: "verify_key labels (rt_label r) (rt_kind r) ?p"
    using assms by (auto simp: authorize_def split: option.splits if_splits)
  obtain e where e: "bt_get labels (rt_label r) = Some e"
    using v by (auto simp: verify_key_def split: option.splits)
  define k where "k = (case rt_kind r of ParkLeg \<Rightarrow> rb_park_key e | CallerLeg \<Rightarrow> rb_caller_key e)"
  have k: "k \<noteq> []" "?p = Some k"
    using v by (auto simp: verify_key_def e Let_def k_def [symmetric] constant_time_eq_iff text_to_bytes_inj split: if_splits option.splits)
  have "case header_key (hs_authorization rq) of
       None \<Rightarrow> url_key (hs_query rq) = Some k
     | Some h \<Rightarrow> h = Some k \<and> (url_key (hs_query rq) = None \<or> url_key (hs_query rq) = Some k)"
    using k(2) by (auto simp: presented_key_def split: option.splits if_splits)
  then show ?thesis using e k(1) r k_def by blast
qed

section \<open>Who is paired with whom\<close>

lemma relay_emit_fields [simp]:
  "rl_parked (relay_emit env ev s) = rl_parked s" "rl_legs (relay_emit env ev s) = rl_legs s"
  "rl_sessions (relay_emit env ev s) = rl_sessions s" "rl_bytes (relay_emit env ev s) = rl_bytes s"
  by (simp_all add: relay_emit_def split: option.splits)

lemma put_fields [simp]:
  "rl_parked (put_leg i l s) = rl_parked s" "rl_legs (put_leg i l s) = (rl_legs s)[i := l]" "rl_sessions (put_leg i l s) = rl_sessions s"
  "rl_parked (put_session k x s) = rl_parked s" "rl_legs (put_session k x s) = rl_legs s" "rl_sessions (put_session k x s) = (rl_sessions s)[k := x]"
  by (simp_all add: put_leg_def put_session_def)

lemma close_session_fields [simp]:
  "rl_parked (close_session env k s) = rl_parked s" "rl_legs (close_session env k s) = rl_legs s"
  "rl_sessions (close_session env k s) = (rl_sessions s)[k := (rl_sessions s ! k)\<lparr>ss_open := False\<rparr>]"
  by (simp_all add: close_session_def Let_def)

text \<open>Every leg stands once in the table or in one session, under its own label.\<close>

definition places_ok :: "relay \<Rightarrow> bool" where
  "places_ok s \<longleftrightarrow> (\<forall>L. distinct (rl_parked s L)) \<and>
     (\<forall>L. \<forall>i\<in>set (rl_parked s L). i < length (rl_legs s) \<and> lg_label (rl_legs s ! i) = L) \<and>
     distinct (map ss_leg (rl_sessions s)) \<and>
     (\<forall>x\<in>set (rl_sessions s). ss_leg x < length (rl_legs s) \<and> lg_label (rl_legs s ! ss_leg x) = ss_label x \<and> ss_leg x \<notin> set (rl_parked s (ss_label x)))"

text \<open>What a step of a task may do to the table: labels, owners and lengths stay, a parked list loses legs.\<close>

definition same_owners :: "relay \<Rightarrow> relay \<Rightarrow> bool" where
  "same_owners s t \<longleftrightarrow> map lg_label (rl_legs t) = map lg_label (rl_legs s) \<and> map ss_leg (rl_sessions t) = map ss_leg (rl_sessions s) \<and>
     map ss_label (rl_sessions t) = map ss_label (rl_sessions s) \<and>
     (\<forall>L. set (rl_parked t L) \<subseteq> set (rl_parked s L) \<and> (distinct (rl_parked s L) \<longrightarrow> distinct (rl_parked t L)))"

lemma same_map: "map f (xs[i := x]) = map f xs" if "i < length xs \<Longrightarrow> f x = f (xs ! i)"
  using that by (cases "i < length xs") (simp_all add: map_update list_update_same_conv list_update_beyond)

lemma task_same_owners: "relay_step env s a = Some t \<Longrightarrow> (\<forall>rq. a \<noteq> Connects rq) \<Longrightarrow> same_owners s t"
  by (cases a)
    (auto simp: same_owners_def device_sends_def device_takes_def idle_out_def caller_sends_def caller_takes_def end_leg_def Let_def
      intro!: same_map split: if_splits list.splits)

lemma map_nth_eq: "map f xs = map f ys \<Longrightarrow> i < length ys \<Longrightarrow> f (xs ! i) = f (ys ! i)"
  by (metis length_map nth_map)

lemma same_owners_ok:
  assumes "same_owners s t" and "places_ok s"
  shows "places_ok t"
proof -
  have maps: "map lg_label (rl_legs t) = map lg_label (rl_legs s)" "map ss_leg (rl_sessions t) = map ss_leg (rl_sessions s)"
    "map ss_label (rl_sessions t) = map ss_label (rl_sessions s)"
    using assms(1) by (simp_all add: same_owners_def)
  have len: "length (rl_legs t) = length (rl_legs s)" "length (rl_sessions t) = length (rl_sessions s)"
    using maps(1,2) by (auto dest: map_eq_imp_length_eq)
  note label = map_nth_eq [OF maps(1)]
  have sess: "\<exists>y\<in>set (rl_sessions s). ss_leg x = ss_leg y \<and> ss_label x = ss_label y" if x: "x \<in> set (rl_sessions t)" for x
  proof -
    obtain k where k: "k < length (rl_sessions s)" "x = rl_sessions t ! k" using x len(2) by (auto simp: in_set_conv_nth)
    then show ?thesis using map_nth_eq [OF maps(2) k(1)] map_nth_eq [OF maps(3) k(1)] by auto
  qed
  have sub: "i \<in> set (rl_parked s L)" if "i \<in> set (rl_parked t L)" for i L
    using assms(1) that by (auto simp: same_owners_def)
  have "ss_leg x < length (rl_legs t) \<and> lg_label (rl_legs t ! ss_leg x) = ss_label x \<and> ss_leg x \<notin> set (rl_parked t (ss_label x))"
    if x: "x \<in> set (rl_sessions t)" for x
  proof -
    obtain y where y: "y \<in> set (rl_sessions s)" "ss_leg x = ss_leg y" "ss_label x = ss_label y" using sess [OF x] by blast
    then have "ss_leg y < length (rl_legs s)" "lg_label (rl_legs s ! ss_leg y) = ss_label y" "ss_leg y \<notin> set (rl_parked s (ss_label y))"
      using assms(2) by (simp_all add: places_ok_def)
    then show ?thesis using label [of "ss_leg y"] sub y len(1) by auto
  qed
  moreover have "i < length (rl_legs t) \<and> lg_label (rl_legs t ! i) = L" if "i \<in> set (rl_parked t L)" for i L
    using sub [OF that] assms(2) label len(1) by (simp add: places_ok_def)
  moreover have "distinct (map ss_leg (rl_sessions t)) \<and> (\<forall>L. distinct (rl_parked t L))"
    using assms by (simp add: places_ok_def same_owners_def)
  ultimately show ?thesis by (simp add: places_ok_def)
qed

lemma places_step: "relay_step env s a = Some t \<Longrightarrow> places_ok s \<Longrightarrow> places_ok t"
proof (cases "\<exists>rq. a = Connects rq")
  case True
  assume step: "relay_step env s a = Some t" and ok: "places_ok s"
  obtain rq where a: "a = Connects rq" using True by blast
  then have t: "t = relay_handle env rq s" using step by simp
  have park: "places_ok (park_leg env L s)" for L
    using ok by (auto simp: places_ok_def park_leg_def nth_append dest: less_imp_neq intro: less_SucI)
  have claim: "places_ok (claim_leg env L s)" for L
  proof (cases "rl_parked s L")
    case (Cons i rest)
    have i: "i < length (rl_legs s)" "lg_label (rl_legs s ! i) = L" "distinct (i # rest)"
      using ok Cons unfolding places_ok_def by (metis list.set_intros(1))+
    have new: "ss_leg x \<noteq> i" if "x \<in> set (rl_sessions s)" for x
    proof
      assume "ss_leg x = i"
      moreover have "lg_label (rl_legs s ! ss_leg x) = ss_label x" "ss_leg x \<notin> set (rl_parked s (ss_label x))"
        using ok that by (simp_all add: places_ok_def)
      ultimately show False using i(2) Cons by simp
    qed
    have rest: "j < length (rl_legs s) \<and> lg_label (rl_legs s ! j) = L" if "j \<in> set rest" for j
      using ok Cons that unfolding places_ok_def by (metis list.set_intros(2))
    have off: "ss_leg x \<notin> set rest" if "x \<in> set (rl_sessions s)" "ss_label x = L" for x
      using ok Cons that unfolding places_ok_def by (metis list.set_intros(2))
    show ?thesis using ok i new rest off by (auto simp: places_ok_def claim_leg_def Cons)
  qed (use ok in \<open>simp add: claim_leg_def\<close>)
  show ?thesis
    unfolding t relay_handle_def using ok park claim by (auto split: option.splits leg_kind.splits)
qed (blast intro: same_owners_ok task_same_owners)

lemma places_trace: "relay_trace env acts s \<Longrightarrow> places_ok s"
proof (induction rule: relay_trace.induct)
  case started
  show ?case by (simp add: places_ok_def relay_new_def)
qed (rule places_step)

section \<open>What arrives where\<close>

text \<open>What a caller and a device have said, from the steps that were taken.\<close>

definition sent_by :: "nat \<Rightarrow> relay_act list \<Rightarrow> bytes list" where
  "sent_by k acts = List.map_filter (\<lambda>a. case a of CallerSends j b \<Rightarrow> (if j = k then Some b else None) | _ \<Rightarrow> None) acts"

definition said_by :: "nat \<Rightarrow> relay_act list \<Rightarrow> bytes list" where
  "said_by i acts = List.map_filter (\<lambda>a. case a of DeviceSends j b \<Rightarrow> (if j = i then Some b else None) | _ \<Rightarrow> None) acts"

lemma heard_snoc [simp]:
  "sent_by k (acts @ [a]) = sent_by k acts @ (case a of CallerSends j b \<Rightarrow> (if j = k then [b] else []) | _ \<Rightarrow> [])"
  "said_by i (acts @ [a]) = said_by i acts @ (case a of DeviceSends j b \<Rightarrow> (if j = i then [b] else []) | _ \<Rightarrow> [])"
  by (auto simp: sent_by_def said_by_def List.map_filter_def split: relay_act.split)

definition bytes_in :: "bytes list \<Rightarrow> nat" where
  "bytes_in bs = sum_list (map length bs)"

text \<open>A leg no session holds has carried nothing to its device; a leg a session holds carries what the caller sent, and the meter reads it.\<close>

definition leg_ok :: "relay_act list \<Rightarrow> relay \<Rightarrow> nat \<Rightarrow> bool" where
  "leg_ok acts s i \<longleftrightarrow> (\<forall>x\<in>set (rl_sessions s). ss_leg x \<noteq> i) \<longrightarrow> lg_to (rl_legs s ! i) = [] \<and> lg_seen (rl_legs s ! i) = [] \<and>
     prefix (lg_from (rl_legs s ! i)) (said_by i acts) \<and> (lg_running (rl_legs s ! i) \<longrightarrow> lg_from (rl_legs s ! i) = said_by i acts)"

definition splice_ok :: "relay_act list \<Rightarrow> relay \<Rightarrow> nat \<Rightarrow> bool" where
  "splice_ok acts s k \<longleftrightarrow> (let x = rl_sessions s ! k; l = rl_legs s ! ss_leg x in
     prefix (lg_seen l @ lg_to l) (sent_by k acts) \<and> (lg_running l \<longrightarrow> lg_seen l @ lg_to l = sent_by k acts) \<and>
     prefix (ss_out x @ lg_from l) (said_by (ss_leg x) acts) \<and> (lg_running l \<longrightarrow> ss_out x @ lg_from l = said_by (ss_leg x) acts) \<and>
     ss_bytes x = (bytes_in (sent_by k acts) + bytes_in (ss_out x)) mod 2 ^ 64)"

definition traffic_ok :: "relay_act list \<Rightarrow> relay \<Rightarrow> bool" where
  "traffic_ok acts s \<longleftrightarrow> (\<forall>i<length (rl_legs s). leg_ok acts s i) \<and> (\<forall>k<length (rl_sessions s). splice_ok acts s k) \<and>
     (\<forall>i\<ge>length (rl_legs s). said_by i acts = []) \<and> (\<forall>k\<ge>length (rl_sessions s). sent_by k acts = [])"

lemma traffic_new: "traffic_ok [] relay_new"
  by (simp add: traffic_ok_def relay_new_def sent_by_def said_by_def map_filter_simps)

lemma traffic_silent:
  assumes "traffic_ok acts s" and "\<And>k. sent_by k (acts @ [a]) = sent_by k acts" and "\<And>i. said_by i (acts @ [a]) = said_by i acts"
    and "length (rl_legs t) = length (rl_legs s)" and "length (rl_sessions t) = length (rl_sessions s)"
    and "\<And>i. i < length (rl_legs s) \<Longrightarrow> leg_ok acts s i \<Longrightarrow> leg_ok acts t i"
    and "\<And>k. k < length (rl_sessions s) \<Longrightarrow> splice_ok acts s k \<Longrightarrow> splice_ok acts t k"
  shows "traffic_ok (acts @ [a]) t"
  using assms by (simp add: traffic_ok_def leg_ok_def splice_ok_def)

lemma parked_unclaimed:
  assumes "places_ok s" and "i \<in> set (rl_parked s L)" and "x \<in> set (rl_sessions s)"
  shows "ss_leg x \<noteq> i"
proof
  assume "ss_leg x = i"
  moreover have "lg_label (rl_legs s ! ss_leg x) = ss_label x" "ss_leg x \<notin> set (rl_parked s (ss_label x))" "lg_label (rl_legs s ! i) = L"
    using assms by (simp_all add: places_ok_def)
  ultimately show False using assms(2) by simp
qed

lemma one_session: "places_ok s \<Longrightarrow> k < length (rl_sessions s) \<Longrightarrow> j < length (rl_sessions s) \<Longrightarrow>
    ss_leg (rl_sessions s ! j) = ss_leg (rl_sessions s ! k) \<longleftrightarrow> j = k"
  unfolding places_ok_def by (metis length_map nth_eq_iff_index_eq nth_map)

lemma session_leg: "places_ok s \<Longrightarrow> k < length (rl_sessions s) \<Longrightarrow> ss_leg (rl_sessions s ! k) < length (rl_legs s)"
  by (simp add: places_ok_def)

lemma traffic_park: "traffic_ok acts s \<Longrightarrow> places_ok s \<Longrightarrow> traffic_ok acts (park_leg env L s)"
  by (auto simp: traffic_ok_def leg_ok_def splice_ok_def park_leg_def nth_append session_leg less_Suc_eq Let_def)

lemma traffic_claim:
  assumes "traffic_ok acts s" and "places_ok s"
  shows "traffic_ok acts (claim_leg env L s)"
proof (cases "rl_parked s L")
  case (Cons i rest)
  have i: "i < length (rl_legs s)" and free: "\<forall>x\<in>set (rl_sessions s). ss_leg x \<noteq> i"
    using assms(2) Cons parked_unclaimed [OF assms(2), of i L] unfolding places_ok_def by (metis list.set_intros(1))+
  then have "leg_ok acts s i" using assms(1) by (simp add: traffic_ok_def)
  then show ?thesis
    using assms free by (auto simp: traffic_ok_def leg_ok_def splice_ok_def claim_leg_def Cons nth_append less_Suc_eq Let_def bytes_in_def)
qed (use assms in \<open>simp add: claim_leg_def\<close>)

lemma traffic_end: "traffic_ok acts s \<Longrightarrow> i < length (rl_legs s) \<Longrightarrow> traffic_ok acts (end_leg i s)"
  by (auto simp: traffic_ok_def leg_ok_def splice_ok_def end_leg_def Let_def nth_list_update)

lemma free_update: "k < length xs \<Longrightarrow> ss_leg y = ss_leg (xs ! k) \<Longrightarrow>
    (\<forall>x\<in>set (xs[k := y]). ss_leg x \<noteq> i) \<longleftrightarrow> (\<forall>x\<in>set xs. ss_leg x \<noteq> i)"
  by (auto simp: all_set_conv_all_nth nth_list_update)

lemma traffic_close: "traffic_ok acts s \<Longrightarrow> k < length (rl_sessions s) \<Longrightarrow> traffic_ok acts (close_session env k s)"
  by (simp add: traffic_ok_def leg_ok_def splice_ok_def Let_def nth_list_update free_update)

lemma traffic_claimed: "traffic_ok acts s \<Longrightarrow> i < length (rl_legs s) \<Longrightarrow> traffic_ok acts (put_leg i ((rl_legs s ! i)\<lparr>lg_claimed := c\<rparr>) s)"
  by (auto simp: traffic_ok_def leg_ok_def splice_ok_def Let_def nth_list_update)

text \<open>More that a device says to a leg that is ending.\<close>

lemma traffic_ended_more: "traffic_ok acts s \<Longrightarrow> i < length (rl_legs s) \<Longrightarrow> traffic_ok (acts @ [DeviceSends i b]) (end_leg i s)"
  by (auto simp: traffic_ok_def leg_ok_def splice_ok_def end_leg_def Let_def nth_list_update intro: prefix_prefix)

lemma traffic_device_sends:
  assumes "traffic_ok acts s" and "i < length (rl_legs s)" and "lg_running (rl_legs s ! i)" and "device_sends i b s = Some t"
  shows "traffic_ok (acts @ [DeviceSends i b]) t"
proof (cases "leg_held s i")
  case False
  then have "t = end_leg i (put_leg i ((rl_legs s ! i)\<lparr>lg_claimed := True\<rparr>) s)" using assms(4) by (simp add: device_sends_def Let_def)
  then show ?thesis using traffic_ended_more [OF traffic_claimed [OF assms(1,2)]] assms(2) by simp
next
  case True
  then have t: "t = put_leg i ((rl_legs s ! i)\<lparr>lg_claimed := True, lg_from := lg_from (rl_legs s ! i) @ [b]\<rparr>) s"
    using assms(4) by (auto simp: device_sends_def Let_def split: if_splits)
  show ?thesis
    using assms(1-3) unfolding t by (auto simp: traffic_ok_def leg_ok_def splice_ok_def Let_def nth_list_update; metis append_assoc)
qed

lemma traffic_device_takes:
  assumes "traffic_ok acts s" and "i < length (rl_legs s)" and "device_takes i s = Some t"
  shows "traffic_ok acts t"
proof (cases "lg_to (rl_legs s ! i)")
  case Nil
  then have "t = end_leg i s" using assms(3) by (auto simp: device_takes_def split: if_splits)
  then show ?thesis using traffic_end [OF assms(1,2)] by simp
next
  case (Cons b rest)
  then have t: "t = put_leg i ((rl_legs s ! i)\<lparr>lg_claimed := True, lg_to := rest, lg_seen := lg_seen (rl_legs s ! i) @ [b]\<rparr>) s"
    using assms(3) by (simp add: device_takes_def Let_def)
  show ?thesis
    using assms(1,2) Cons unfolding t by (auto simp: traffic_ok_def leg_ok_def splice_ok_def Let_def nth_list_update)
qed

lemma bump_mod: "bump b (n mod 18446744073709551616) = (n + length b) mod 18446744073709551616"
  by (simp add: bump_def mod_add_left_eq)

lemma traffic_caller_sends:
  assumes "traffic_ok acts s" and "places_ok s" and "k < length (rl_sessions s)" and "caller_sends env k b s = Some t"
  shows "traffic_ok (acts @ [CallerSends k b]) t"
proof -
  let ?x = "rl_sessions s ! k"
  let ?l = "rl_legs s ! ss_leg ?x"
  let ?c = "put_session k (?x\<lparr>ss_bytes := bump b (ss_bytes ?x)\<rparr>) (s\<lparr>rl_bytes := bump b (rl_bytes s)\<rparr>)"
  have m: "bump b (ss_bytes ?x) = (bytes_in (sent_by k acts @ [b]) + bytes_in (ss_out ?x)) mod 2 ^ 64"
    using assms(1,3) by (simp add: traffic_ok_def splice_ok_def Let_def bump_mod bytes_in_def add.commute add.left_commute)
  have legs: "\<forall>i<length (rl_legs s). leg_ok acts s i" and splices: "\<forall>j<length (rl_sessions s). splice_ok acts s j"
    and bare: "\<forall>i\<ge>length (rl_legs s). said_by i acts = []" "\<forall>k\<ge>length (rl_sessions s). sent_by k acts = []"
    using assms(1) by (simp_all add: traffic_ok_def)
  note leg = session_leg [OF assms(2,3)] and one = one_session [OF assms(2,3)] and k = assms(3)
  have mine: "\<not> (\<forall>x\<in>set (rl_sessions s). ss_leg x \<noteq> ss_leg ?x)" using k by auto
  show ?thesis
  proof (cases "lg_running ?l")
    case False
    then have t: "t = close_session env k ?c" using assms(4) by (simp add: caller_sends_def Let_def)
    have "splice_ok (acts @ [CallerSends k b]) ?c j" if "j < length (rl_sessions s)" for j
      using splices [rule_format, OF that] that k False m by (auto simp: splice_ok_def Let_def nth_list_update intro: prefix_prefix)
    moreover have "leg_ok (acts @ [CallerSends k b]) ?c i" if "i < length (rl_legs s)" for i
      using legs [rule_format, OF that] k by (simp add: leg_ok_def free_update)
    ultimately have "traffic_ok (acts @ [CallerSends k b]) ?c" using bare k by (auto simp: traffic_ok_def)
    then show ?thesis unfolding t by (rule traffic_close) (use k in simp)
  next
    case True
    then have t: "t = put_leg (ss_leg ?x) (?l\<lparr>lg_to := lg_to ?l @ [b]\<rparr>) ?c" using assms(4) by (auto simp: caller_sends_def Let_def split: if_splits)
    have "lg_seen ?l @ lg_to ?l @ [b] = sent_by k acts @ [b]"
      using splices [rule_format, OF k] True by (simp add: splice_ok_def Let_def flip: append_assoc)
    then have "splice_ok (acts @ [CallerSends k b]) t k"
      using splices [rule_format, OF k] k leg True m by (simp add: t splice_ok_def Let_def)
    moreover have "splice_ok (acts @ [CallerSends k b]) t j" if "j < length (rl_sessions s)" "j \<noteq> k" for j
      using splices [rule_format, OF that(1)] that k one [OF that(1)] by (simp add: t splice_ok_def Let_def nth_list_update)
    ultimately have "splice_ok (acts @ [CallerSends k b]) t j" if "j < length (rl_sessions s)" for j
      using that by (cases "j = k") auto
    moreover have "leg_ok (acts @ [CallerSends k b]) t i" if "i < length (rl_legs s)" for i
      using legs [rule_format, OF that] k leg mine by (cases "i = ss_leg ?x") (auto simp: t leg_ok_def free_update)
    ultimately show ?thesis using bare k by (auto simp: t traffic_ok_def)
  qed
qed

lemma traffic_caller_takes:
  assumes "traffic_ok acts s" and "places_ok s" and "k < length (rl_sessions s)" and "caller_takes env k s = Some t"
  shows "traffic_ok acts t"
proof -
  let ?x = "rl_sessions s ! k"
  let ?l = "rl_legs s ! ss_leg ?x"
  show ?thesis
  proof (cases "lg_from ?l")
    case Nil
    then have "t = close_session env k s" using assms(4) by (auto simp: caller_takes_def Let_def split: if_splits)
    then show ?thesis using traffic_close [OF assms(1,3)] by simp
  next
    case (Cons b rest)
    let ?y = "?x\<lparr>ss_bytes := bump b (ss_bytes ?x), ss_out := ss_out ?x @ [b]\<rparr>"
    have t: "t = put_leg (ss_leg ?x) (?l\<lparr>lg_from := rest\<rparr>) (put_session k ?y (s\<lparr>rl_bytes := bump b (rl_bytes s)\<rparr>))"
      using assms(4) Cons by (simp add: caller_takes_def Let_def)
    have m: "bump b (ss_bytes ?x) = (bytes_in (sent_by k acts) + bytes_in (ss_out ?x @ [b])) mod 2 ^ 64"
      using assms(1,3) by (simp add: traffic_ok_def splice_ok_def Let_def bump_mod bytes_in_def add.commute add.left_commute)
    have legs: "\<forall>i<length (rl_legs s). leg_ok acts s i" and splices: "\<forall>j<length (rl_sessions s). splice_ok acts s j"
      and bare: "\<forall>i\<ge>length (rl_legs s). said_by i acts = []" "\<forall>k\<ge>length (rl_sessions s). sent_by k acts = []"
      using assms(1) by (simp_all add: traffic_ok_def)
    note leg = session_leg [OF assms(2,3)] and one = one_session [OF assms(2,3)] and k = assms(3)
    have mine: "\<not> (\<forall>x\<in>set (rl_sessions s). ss_leg x \<noteq> ss_leg ?x)" using k by auto
    have "splice_ok acts t k"
      using splices [rule_format, OF k] k leg m Cons by (simp add: t splice_ok_def Let_def)
    moreover have "splice_ok acts t j" if "j < length (rl_sessions s)" "j \<noteq> k" for j
      using splices [rule_format, OF that(1)] that k one [OF that(1)] by (simp add: t splice_ok_def Let_def nth_list_update)
    ultimately have "splice_ok acts t j" if "j < length (rl_sessions s)" for j using that by (cases "j = k") auto
    moreover have "leg_ok acts t i" if "i < length (rl_legs s)" for i
      using legs [rule_format, OF that] k leg mine by (cases "i = ss_leg ?x") (auto simp: t leg_ok_def free_update)
    ultimately show ?thesis using bare k by (auto simp: t traffic_ok_def)
  qed
qed

lemma traffic_quiet: "(\<forall>k b. a \<noteq> CallerSends k b) \<Longrightarrow> (\<forall>i b. a \<noteq> DeviceSends i b) \<Longrightarrow> traffic_ok (acts @ [a]) u \<longleftrightarrow> traffic_ok acts u"
  by (cases a) (simp_all add: traffic_ok_def leg_ok_def splice_ok_def)

lemma traffic_step:
  assumes "relay_step env s a = Some t" and "places_ok s" and "traffic_ok acts s"
  shows "traffic_ok (acts @ [a]) t"
proof -
  note P = traffic_park [OF assms(3,2)] traffic_claim [OF assms(3,2)]
  show ?thesis
  proof (cases a)
    case (Connects rq)
    then show ?thesis using assms(1,3) P by (auto simp: traffic_quiet relay_handle_def split: option.splits leg_kind.splits)
  next
    case (DeviceSends i b)
    then show ?thesis using assms(1) traffic_device_sends [OF assms(3)] by (auto simp: leg_runs_def split: if_splits)
  next
    case (CallerSends k b)
    then show ?thesis using assms(1) traffic_caller_sends [OF assms(3,2)] by (auto simp: session_open_def split: if_splits)
  qed (use assms(1) traffic_device_takes [OF assms(3)] traffic_caller_takes [OF assms(3,2)] traffic_end [OF assms(3)] traffic_close [OF assms(3)]
      in \<open>auto simp: traffic_quiet leg_runs_def session_open_def idle_out_def split: if_splits\<close>)
qed

lemma traffic_trace: "relay_trace env acts s \<Longrightarrow> traffic_ok acts s"
proof (induction rule: relay_trace.induct)
  case started
  show ?case by (rule traffic_new)
next
  case (stepped acts s a t)
  then show ?case using traffic_step [OF stepped.hyps(2) places_trace [OF stepped.hyps(1)]] by blast
qed

text \<open>
  However the tasks interleave, a leg that is parked stands under its own label and in no session, no leg is in two sessions, and a
  session holds a leg of the label it asked for; what its device has been given is the beginning of what its caller sent, what the caller
  has been given the beginning of what the device sent, both in order, and the meter reads the bytes of both.
\<close>

theorem a_splice_joins_one_pair:
  assumes "relay_trace env acts s"
  shows "(\<forall>L i. i \<in> set (rl_parked s L) \<longrightarrow> lg_label (rl_legs s ! i) = L \<and> (\<forall>x\<in>set (rl_sessions s). ss_leg x \<noteq> i)) \<and>
    distinct (map ss_leg (rl_sessions s)) \<and>
    (\<forall>k<length (rl_sessions s). let x = rl_sessions s ! k; l = rl_legs s ! ss_leg x in
      lg_label l = ss_label x \<and> prefix (lg_seen l) (sent_by k acts) \<and> prefix (ss_out x) (said_by (ss_leg x) acts) \<and>
      ss_bytes x = (bytes_in (sent_by k acts) + bytes_in (ss_out x)) mod 2 ^ 64)"
proof -
  note T = places_trace [OF assms] and B = traffic_trace [OF assms]
  have "lg_label (rl_legs s ! i) = L \<and> (\<forall>x\<in>set (rl_sessions s). ss_leg x \<noteq> i)" if "i \<in> set (rl_parked s L)" for L i
    using T that parked_unclaimed [OF T that] by (simp add: places_ok_def)
  moreover have "let x = rl_sessions s ! k; l = rl_legs s ! ss_leg x in
      lg_label l = ss_label x \<and> prefix (lg_seen l) (sent_by k acts) \<and> prefix (ss_out x) (said_by (ss_leg x) acts) \<and>
      ss_bytes x = (bytes_in (sent_by k acts) + bytes_in (ss_out x)) mod 2 ^ 64" if "k < length (rl_sessions s)" for k
    using T B that by (auto simp: places_ok_def traffic_ok_def splice_ok_def Let_def dest: append_prefixD)
  ultimately show ?thesis using T by (simp add: places_ok_def)
qed

section \<open>What a parked leg leaves behind\<close>

text \<open>
  A leg that waited too long is not taken off the table: when its task clears the list its own receiver is still there.  The next
  caller of the label is paired with it, whatever live leg was parked behind it, is told of a session, and has nothing to talk to.
\<close>

theorem a_dead_leg_is_claimed:
  assumes "rl_parked s L = i # rest" and "leg_runs s i" and "lg_label (rl_legs s ! i) = L" and "\<not> lg_claimed (rl_legs s ! i)"
    and "relay_step env s (IdleOut i) = Some t"
  shows "i \<in> set (rl_parked t L) \<and> \<not> leg_runs t i \<and> parked (claim_leg env L t) L < parked t L \<and>
    (\<exists>u. claim_leg env L t = u \<and> ss_leg (last (rl_sessions u)) = i \<and>
      (\<forall>b. relay_step env u (CallerSends (length (rl_sessions s)) b) =
         Some (close_session env (length (rl_sessions s)) (put_session (length (rl_sessions s))
           ((last (rl_sessions u))\<lparr>ss_bytes := bump b 0\<rparr>) (u\<lparr>rl_bytes := bump b (rl_bytes u)\<rparr>)))))"
proof -
  have t: "t = end_leg i s" using assms(2,4,5) by (simp add: idle_out_def)
  have p: "rl_parked t L = i # filter (\<lambda>j. lg_running (rl_legs s ! j)) rest" and l: "i < length (rl_legs s)" "rl_sessions t = rl_sessions s"
    "rl_legs t = (rl_legs s)[i := (rl_legs s ! i)\<lparr>lg_running := False\<rparr>]"
    using assms(1-3) by (simp_all add: t end_leg_def Let_def leg_runs_def)
  then show ?thesis
    by (simp add: claim_leg_def leg_runs_def parked_def session_open_def caller_sends_def Let_def nth_append)
qed

text \<open>
  A device that speaks first is never timed out: its own first message marks its leg as claimed, though no caller has come, and the
  pings and the limit on waiting both end with that.
\<close>

theorem a_device_marks_itself_claimed:
  assumes "relay_step env s (DeviceSends i b) = Some t" and "leg_held s i"
  shows "lg_claimed (rl_legs t ! i) \<and> rl_sessions t = rl_sessions s \<and> relay_step env t (IdleOut i) = None"
  using assms by (auto simp: leg_runs_def device_sends_def idle_out_def Let_def split: if_splits)

section \<open>At concrete inputs\<close>

definition demo_labels :: "(string \<times> relay_label) list" where
  "demo_labels = [(''home'', \<lparr>rb_park_key = ''p'', rb_caller_key = ''c''\<rparr>)]"

definition demo_relay :: relay_env where
  "demo_relay = \<lparr>re_labels = demo_labels, re_control = Some \<lparr>ct_admit = None\<rparr>\<rparr>"

definition demo_parks :: handshake where
  "demo_parks = \<lparr>hs_path = ''/park/home'', hs_query = ''k=p'', hs_authorization = None\<rparr>"

definition demo_calls :: handshake where
  "demo_calls = \<lparr>hs_path = ''/s/home'', hs_query = [], hs_authorization = Some ''Bearer c''\<rparr>"

lemma demo_routes: "authorize demo_labels demo_parks = Some \<lparr>rt_label = ''home'', rt_kind = ParkLeg\<rparr>"
  "authorize demo_labels demo_calls = Some \<lparr>rt_label = ''home'', rt_kind = CallerLeg\<rparr>"
  by code_simp+

theorem only_the_key_opens_a_label_witness: "url_key (hs_query demo_parks) = Some ''p''"
  using only_the_key_opens_a_label [OF demo_routes(1)] by (auto simp: demo_labels_def demo_parks_def header_key_def bt_get_def)

definition demo_leg :: relay_leg where
  "demo_leg = \<lparr>lg_label = ''home'', lg_to = [], lg_from = [], lg_claimed = False, lg_running = True, lg_seen = []\<rparr>"

definition demo_one :: relay where
  "demo_one = \<lparr>rl_parked = (\<lambda>_. [])(''home'' := [0]), rl_legs = [demo_leg], rl_sessions = [], rl_bytes = 0, rl_events = [LegParked ''home'']\<rparr>"

lemma demo_park: "relay_step demo_relay relay_new (Connects demo_parks) = Some demo_one"
  using demo_routes(1)
  by (simp add: relay_handle_def demo_relay_def admitted_def park_leg_def relay_emit_def relay_new_def demo_one_def demo_leg_def)

definition demo_spliced :: relay where
  "demo_spliced = demo_one\<lparr>rl_parked := (\<lambda>_. []), rl_sessions := [\<lparr>ss_leg = 0, ss_label = ''home'', ss_bytes = 0, ss_open = True, ss_out = []\<rparr>],
     rl_events := [LegParked ''home'', Claimed ''home'' 1]\<rparr>"

lemma demo_taken: "relay_step demo_relay demo_one (Connects demo_calls) = Some demo_spliced"
  using demo_routes(2)
  by (simp add: relay_handle_def demo_relay_def admitted_def claim_leg_def relay_emit_def demo_one_def demo_spliced_def fun_eq_iff)

lemma demo_carry: "\<exists>t. relay_step demo_relay demo_spliced (CallerSends 0 [7]) = Some t \<and> ss_bytes (rl_sessions t ! 0) = 1"
  by (simp add: session_open_def caller_sends_def demo_spliced_def demo_one_def demo_leg_def relay_channel_def put_session_def put_leg_def bump_def Let_def)

theorem a_splice_joins_one_pair_witness:
  "\<exists>acts t. relay_trace demo_relay acts t \<and> acts = [Connects demo_parks, Connects demo_calls, CallerSends 0 [7]] \<and>
     ss_bytes (rl_sessions t ! 0) = 1 \<and> distinct (map ss_leg (rl_sessions t)) \<and> bytes_in (sent_by 0 acts) = 1"
proof -
  obtain t where t: "relay_step demo_relay demo_spliced (CallerSends 0 [7]) = Some t" "ss_bytes (rl_sessions t ! 0) = 1"
    using demo_carry by blast
  have r: "relay_trace demo_relay ((([] @ [Connects demo_parks]) @ [Connects demo_calls]) @ [CallerSends 0 [7]]) t"
    by (rule stepped [OF stepped [OF stepped [OF started demo_park] demo_taken] t(1)])
  then show ?thesis
    using a_splice_joins_one_pair [OF r, THEN conjunct2, THEN conjunct1] t(2)
    by (auto simp: bytes_in_def sent_by_def map_filter_simps)
qed

lemma demo_idle: "relay_step demo_relay demo_one (IdleOut 0) = Some (end_leg 0 demo_one)"
  by (simp add: leg_runs_def idle_out_def demo_one_def demo_leg_def)

theorem a_dead_leg_is_claimed_witness:
  "0 \<in> set (rl_parked (end_leg 0 demo_one) ''home'') \<and> \<not> leg_runs (end_leg 0 demo_one) 0"
proof -
  have "rl_parked demo_one ''home'' = 0 # []" "leg_runs demo_one 0" "lg_label (rl_legs demo_one ! 0) = ''home''" "\<not> lg_claimed (rl_legs demo_one ! 0)"
    by (simp_all add: demo_one_def demo_leg_def leg_runs_def)
  from a_dead_leg_is_claimed [OF this demo_idle] show ?thesis by blast
qed

lemma demo_speaks: "\<exists>t. relay_step demo_relay demo_one (DeviceSends 0 [7]) = Some t"
  by (simp add: leg_runs_def device_sends_def leg_held_def demo_one_def demo_leg_def relay_channel_def Let_def)

theorem a_device_marks_itself_claimed_witness:
  "\<exists>t. relay_step demo_relay demo_one (DeviceSends 0 [7]) = Some t \<and> rl_sessions t = [] \<and> relay_step demo_relay t (IdleOut 0) = None"
proof -
  obtain t where t: "relay_step demo_relay demo_one (DeviceSends 0 [7]) = Some t" using demo_speaks by blast
  have "leg_held demo_one 0" by (simp add: leg_held_def demo_one_def demo_leg_def)
  from a_device_marks_itself_claimed [OF t this] show ?thesis using t by (auto simp: demo_one_def)
qed

end
